(* ===== verification/Btree_Model.thy ===== *)
theory Btree_Model
  imports Bench_Prelude
begin

text \<open>
  The B+ tree of \<open>benchmarks/btree/btree.c\<close> over an explicit store.  A node keeps its
  key and pointer arrays at the sizes the code allocates (\<open>order - 1\<close> keys, \<open>order\<close>
  pointers) together with \<open>num_keys\<close>, its parent pointer and the \<open>next\<close> link of the free
  list.  Nodes and records come from slab allocators whose free lists run through the
  cells themselves.  Every operation returns \<open>None\<close> where the C run has no defined result
  or calls \<open>exit\<close>.
\<close>

section \<open>Data\<close>

text \<open>
  A \<open>void *\<close> of the program is null, a node or a record; the two kinds of cell come from
  different slabs and never overlap.
\<close>

datatype ptr = Null | NodeP nat | RecP nat

record node =
  pointers :: "ptr list"
  keys :: "u64 list"
  parent :: ptr
  is_leaf :: bool
  num_keys :: nat
  next_p :: ptr

text \<open>A record holds either its value or, while free, the link to the next free record.\<close>

datatype rec_union = Value u64 | NextRec ptr

record rec_cell =
  contents :: rec_union
  flags :: u64

text \<open>
  The globals of the program.  \<open>mem_ok i\<close> says whether the \<open>i\<close>-th call of
  \<open>posix_memalign\<close> succeeds; \<open>node_slab\<close> and \<open>rec_slab\<close> are the numbers of cells in one
  slab.
\<close>

record bpt =
  order :: nat
  nodes :: "nat \<Rightarrow> node option"
  recs :: "nat \<Rightarrow> rec_cell option"
  free_nodes :: ptr
  free_recs :: ptr
  node_brk :: nat
  rec_brk :: nat
  node_slab :: nat
  rec_slab :: nat
  allocator_stat :: u64
  mem_ok :: "nat \<Rightarrow> bool"
  n_alloc :: nat

definition NODE_SLAB_GROW :: u64 where
  "NODE_SLAB_GROW = push_bit 18 1"

definition RECORD_SLAB_GROW :: u64 where
  "RECORD_SLAB_GROW = push_bit 18 1"

definition sizeof_node :: nat where
  "sizeof_node = 48"

definition sizeof_record :: nat where
  "sizeof_record = 16"

definition bpt_start :: "nat \<Rightarrow> (nat \<Rightarrow> bool) \<Rightarrow> bpt" where
  "bpt_start ord ok = \<lparr>order = ord, nodes = (\<lambda>_. None), recs = (\<lambda>_. None),
     free_nodes = Null, free_recs = Null, node_brk = 0, rec_brk = 0,
     node_slab = unat NODE_SLAB_GROW div sizeof_node,
     rec_slab = unat RECORD_SLAB_GROW div sizeof_record,
     allocator_stat = 0, mem_ok = ok, n_alloc = 0\<rparr>"

section \<open>Store access\<close>

definition node_at :: "bpt \<Rightarrow> ptr \<Rightarrow> node option" where
  "node_at s p = (case p of NodeP a \<Rightarrow> nodes s a | _ \<Rightarrow> None)"

definition set_node :: "bpt \<Rightarrow> ptr \<Rightarrow> node \<Rightarrow> bpt" where
  "set_node s p nd = (case p of NodeP a \<Rightarrow> s\<lparr>nodes := (nodes s)(a \<mapsto> nd)\<rparr> | _ \<Rightarrow> s)"

definition rec_at :: "bpt \<Rightarrow> ptr \<Rightarrow> rec_cell option" where
  "rec_at s p = (case p of RecP a \<Rightarrow> recs s a | _ \<Rightarrow> None)"

definition set_rec :: "bpt \<Rightarrow> ptr \<Rightarrow> rec_cell \<Rightarrow> bpt" where
  "set_rec s p r = (case p of RecP a \<Rightarrow> s\<lparr>recs := (recs s)(a \<mapsto> r)\<rparr> | _ \<Rightarrow> s)"

text \<open>\<open>p->parent = q\<close> and \<open>p->num_keys = n\<close>.\<close>

definition set_parent :: "bpt \<Rightarrow> ptr \<Rightarrow> ptr \<Rightarrow> bpt option" where
  "set_parent s p q = do { nd \<leftarrow> node_at s p; Some (set_node s p (nd\<lparr>parent := q\<rparr>)) }"

section \<open>The loops over key and pointer arrays\<close>

text \<open>\<open>while (i < n && P(xs[i])) i++;\<close>\<close>

function scan :: "('a \<Rightarrow> bool) \<Rightarrow> 'a list \<Rightarrow> nat \<Rightarrow> nat \<Rightarrow> nat option" where
  "scan P xs n i =
    (if i < n then do { v \<leftarrow> rd xs i; if P v then scan P xs n (Suc i) else Some i }
     else Some i)"
  by pat_completeness auto
termination
  by (relation "measure (\<lambda>(P, xs, n, i). n - i)") auto

text \<open>\<open>for (; i > low; i--) xs[i] = xs[i - 1];\<close>\<close>

fun shift_up :: "'a list \<Rightarrow> nat \<Rightarrow> nat \<Rightarrow> 'a list option" where
  "shift_up xs low 0 = Some xs"
| "shift_up xs low (Suc i) =
    (if low < Suc i then do { v \<leftarrow> rd xs i; ys \<leftarrow> wr xs (Suc i) v; shift_up ys low i }
     else Some xs)"

text \<open>\<open>for (; i < n; i++) xs[i - 1] = xs[i];\<close>\<close>

function shift_down :: "'a list \<Rightarrow> nat \<Rightarrow> nat \<Rightarrow> 'a list option" where
  "shift_down xs n i =
    (if i < n then do { v \<leftarrow> rd xs i; ys \<leftarrow> wr xs (i - 1) v; shift_down ys n (Suc i) }
     else Some xs)"
  by pat_completeness auto
termination
  by (relation "measure (\<lambda>(xs, n, i). n - i)") auto

text \<open>\<open>for (; i < n; i++, j++) { if (j == gap) j++; dst[j] = src[i]; }\<close>\<close>

function gap_copy :: "'a list \<Rightarrow> 'a list \<Rightarrow> nat \<Rightarrow> nat \<Rightarrow> nat \<Rightarrow> nat \<Rightarrow> 'a list option" where
  "gap_copy src dst gap n i j =
    (if i < n then
       do { let j' = (if j = gap then Suc j else j);
            v \<leftarrow> rd src i;
            dst' \<leftarrow> wr dst j' v;
            gap_copy src dst' gap n (Suc i) (Suc j') }
     else Some dst)"
  by pat_completeness auto
termination
  by (relation "measure (\<lambda>(src, dst, gap, n, i, j). n - i)") auto

text \<open>\<open>for (; i < n; i++, j++) dst[j] = src[i];\<close>\<close>

function copy_range :: "'a list \<Rightarrow> 'a list \<Rightarrow> nat \<Rightarrow> nat \<Rightarrow> nat \<Rightarrow> 'a list option" where
  "copy_range src dst n i j =
    (if i < n then
       do { v \<leftarrow> rd src i; dst' \<leftarrow> wr dst j v; copy_range src dst' n (Suc i) (Suc j) }
     else Some dst)"
  by pat_completeness auto
termination
  by (relation "measure (\<lambda>(src, dst, n, i, j). n - i)") auto

text \<open>\<open>for (; i < n; i++) xs[i] = v;\<close>\<close>

function fill :: "'a \<Rightarrow> 'a list \<Rightarrow> nat \<Rightarrow> nat \<Rightarrow> 'a list option" where
  "fill v xs n i =
    (if i < n then do { ys \<leftarrow> wr xs i v; fill v ys n (Suc i) } else Some xs)"
  by pat_completeness auto
termination
  by (relation "measure (\<lambda>(v, xs, n, i). n - i)") auto

declare scan.simps [simp del] shift_down.simps [simp del] gap_copy.simps [simp del]
  copy_range.simps [simp del] fill.simps [simp del]

section \<open>Allocation\<close>

definition allocate :: "bpt \<Rightarrow> u64 \<Rightarrow> bpt option" where
  "allocate s sz =
    (if mem_ok s (n_alloc s)
     then Some (s\<lparr>allocator_stat := allocator_stat s + sz, n_alloc := Suc (n_alloc s)\<rparr>)
     else None)"

definition allocate_align64 :: "bpt \<Rightarrow> u64 \<Rightarrow> bpt option" where
  "allocate_align64 s sz =
    (if mem_ok s (n_alloc s)
     then Some (s\<lparr>allocator_stat := allocator_stat s + sz, n_alloc := Suc (n_alloc s)\<rparr>)
     else None)"

definition zero_node :: node where
  "zero_node = \<lparr>pointers = [], keys = [], parent = Null, is_leaf = False, num_keys = 0,
     next_p = Null\<rparr>"

fun thread_nodes :: "nat list \<Rightarrow> bpt \<Rightarrow> bpt" where
  "thread_nodes [] s = s"
| "thread_nodes (i # is) s = thread_nodes is
     (s\<lparr>nodes := (nodes s)(i \<mapsto> zero_node\<lparr>next_p := free_nodes s\<rparr>), free_nodes := NodeP i\<rparr>)"

definition alloc_node :: "bpt \<Rightarrow> (ptr \<times> bpt) option" where
  "alloc_node s = do {
     s \<leftarrow> (if free_nodes s = Null then do {
              s \<leftarrow> allocate s NODE_SLAB_GROW;
              let s' = thread_nodes [node_brk s ..< node_brk s + node_slab s] s;
              Some (s'\<lparr>node_brk := node_brk s + node_slab s\<rparr>) }
            else Some s);
     let nd = free_nodes s;
     cell \<leftarrow> node_at s nd;
     Some (nd, s\<lparr>free_nodes := next_p cell\<rparr>) }"

definition free_node :: "bpt \<Rightarrow> ptr \<Rightarrow> bpt option" where
  "free_node s n = do {
     nd \<leftarrow> node_at s n;
     Some ((set_node s n (nd\<lparr>next_p := free_nodes s\<rparr>))\<lparr>free_nodes := n\<rparr>) }"

definition zero_rec :: rec_cell where
  "zero_rec = \<lparr>contents = Value 0, flags = 0\<rparr>"

fun thread_recs :: "nat list \<Rightarrow> bpt \<Rightarrow> bpt" where
  "thread_recs [] s = s"
| "thread_recs (i # is) s = thread_recs is
     (s\<lparr>recs := (recs s)(i \<mapsto> zero_rec\<lparr>contents := NextRec (free_recs s)\<rparr>), free_recs := RecP i\<rparr>)"

text \<open>Reading \<open>rec->next\<close> of a cell whose union holds a value is not a pointer.\<close>

definition rec_next :: "rec_cell \<Rightarrow> ptr option" where
  "rec_next r = (case contents r of NextRec p \<Rightarrow> Some p | Value _ \<Rightarrow> None)"

definition alloc_record :: "bpt \<Rightarrow> (ptr \<times> bpt) option" where
  "alloc_record s = do {
     s \<leftarrow> (if free_recs s = Null then do {
              s \<leftarrow> allocate s RECORD_SLAB_GROW;
              let s' = thread_recs [rec_brk s ..< rec_brk s + rec_slab s] s;
              Some (s'\<lparr>rec_brk := rec_brk s + rec_slab s\<rparr>) }
            else Some s);
     let r = free_recs s;
     cell \<leftarrow> rec_at s r;
     nxt \<leftarrow> rec_next cell;
     Some (r, s\<lparr>free_recs := nxt\<rparr>) }"

definition free_record :: "bpt \<Rightarrow> ptr \<Rightarrow> bpt option" where
  "free_record s r = do {
     cell \<leftarrow> rec_at s r;
     Some ((set_rec s r (cell\<lparr>contents := NextRec (free_recs s)\<rparr>))\<lparr>free_recs := r\<rparr>) }"

definition make_record :: "bpt \<Rightarrow> u64 \<Rightarrow> (ptr \<times> bpt) option" where
  "make_record s v = do {
     (r, s) \<leftarrow> alloc_record s;
     cell \<leftarrow> rec_at s r;
     Some (r, set_rec s r (cell\<lparr>contents := Value v\<rparr>)) }"

definition make_node :: "bpt \<Rightarrow> (ptr \<times> bpt) option" where
  "make_node s = do {
     (n, s) \<leftarrow> alloc_node s;
     s \<leftarrow> allocate_align64 s (of_nat ((order s - 1) * 8));
     s \<leftarrow> allocate_align64 s (of_nat (order s * 8));
     Some (n, set_node s n \<lparr>pointers = replicate (order s) Null,
       keys = replicate (order s - 1) 0, parent = Null, is_leaf = False, num_keys = 0,
       next_p = Null\<rparr>) }"

definition make_leaf :: "bpt \<Rightarrow> (ptr \<times> bpt) option" where
  "make_leaf s = do {
     (n, s) \<leftarrow> make_node s;
     nd \<leftarrow> node_at s n;
     Some (n, set_node s n (nd\<lparr>is_leaf := True\<rparr>)) }"

section \<open>Search\<close>

definition cut :: "nat \<Rightarrow> nat" where
  "cut len = (if len mod 2 = 0 then len div 2 else len div 2 + 1)"

partial_function (option) find_leaf_loop :: "bpt \<Rightarrow> u64 \<Rightarrow> ptr \<Rightarrow> ptr option" where
  "find_leaf_loop s key c = do {
     nd \<leftarrow> node_at s c;
     if is_leaf nd then Some c
     else do {
       i \<leftarrow> scan (\<lambda>k. key \<ge> k) (keys nd) (num_keys nd) 0;
       p \<leftarrow> rd (pointers nd) i;
       find_leaf_loop s key p } }"

definition find_leaf :: "bpt \<Rightarrow> ptr \<Rightarrow> u64 \<Rightarrow> ptr option" where
  "find_leaf s root key = (if root = Null then Some root else find_leaf_loop s key root)"

text \<open>The result is the record (or null) and the leaf stored through \<open>leaf_out\<close>.\<close>

definition find_bpt :: "bpt \<Rightarrow> ptr \<Rightarrow> u64 \<Rightarrow> (ptr \<times> ptr) option" where
  "find_bpt s root key =
    (if root = Null then Some (Null, Null)
     else do {
       leaf \<leftarrow> find_leaf s root key;
       nd \<leftarrow> node_at s leaf;
       i \<leftarrow> scan (\<lambda>k. k \<noteq> key) (keys nd) (num_keys nd) 0;
       if i = num_keys nd then Some (Null, leaf)
       else do { p \<leftarrow> rd (pointers nd) i; Some (p, leaf) } })"

partial_function (option) height_loop :: "bpt \<Rightarrow> ptr \<Rightarrow> nat \<Rightarrow> nat option" where
  "height_loop s c h = do {
     nd \<leftarrow> node_at s c;
     if is_leaf nd then Some h
     else do { p \<leftarrow> rd (pointers nd) 0; height_loop s p (Suc h) } }"

definition height :: "bpt \<Rightarrow> ptr \<Rightarrow> nat option" where
  "height s root = height_loop s root 0"

partial_function (option) path_loop :: "bpt \<Rightarrow> ptr \<Rightarrow> ptr \<Rightarrow> nat \<Rightarrow> nat option" where
  "path_loop s root c len =
    (if c = root then Some len
     else do { nd \<leftarrow> node_at s c; path_loop s root (parent nd) (Suc len) })"

definition path_to_root :: "bpt \<Rightarrow> ptr \<Rightarrow> ptr \<Rightarrow> nat option" where
  "path_to_root s root child = path_loop s root child 0"

text \<open>
  The scan of \<open>find_range\<close> within one leaf; the output arrays are passed through, and a
  write past their end has no result.
\<close>

function range_leaf :: "node \<Rightarrow> u64 \<Rightarrow> nat \<Rightarrow> u64 list \<times> ptr list \<times> nat \<Rightarrow>
    (u64 list \<times> ptr list \<times> nat) option" where
  "range_leaf nd key_end i out =
    (if i < num_keys nd then do {
       k \<leftarrow> rd (keys nd) i;
       if k \<le> key_end then do {
         p \<leftarrow> rd (pointers nd) i;
         ks \<leftarrow> wr (fst out) (snd (snd out)) k;
         ps \<leftarrow> wr (fst (snd out)) (snd (snd out)) p;
         range_leaf nd key_end (Suc i) (ks, ps, Suc (snd (snd out))) }
       else Some out }
     else Some out)"
  by pat_completeness auto
termination
  by (relation "measure (\<lambda>(nd, ke, i, out). num_keys nd - i)") auto

declare range_leaf.simps [simp del]

partial_function (option) range_loop :: "bpt \<Rightarrow> u64 \<Rightarrow> ptr \<Rightarrow> nat \<Rightarrow>
    u64 list \<times> ptr list \<times> nat \<Rightarrow> (u64 list \<times> ptr list \<times> nat) option" where
  "range_loop s key_end n i out =
    (if n = Null then Some out
     else do {
       nd \<leftarrow> node_at s n;
       out \<leftarrow> range_leaf nd key_end i out;
       p \<leftarrow> rd (pointers nd) (order s - 1);
       range_loop s key_end p 0 out })"

definition find_range :: "bpt \<Rightarrow> ptr \<Rightarrow> u64 \<Rightarrow> u64 \<Rightarrow> u64 list \<Rightarrow> ptr list \<Rightarrow>
    (u64 list \<times> ptr list \<times> nat) option" where
  "find_range s root key_start key_end ks ps = do {
     n \<leftarrow> find_leaf s root key_start;
     if n = Null then Some (ks, ps, 0)
     else do {
       nd \<leftarrow> node_at s n;
       i \<leftarrow> scan (\<lambda>k. k < key_start) (keys nd) (num_keys nd) 0;
       if i = num_keys nd then Some (ks, ps, 0)
       else range_loop s key_end n i (ks, ps, 0) } }"

section \<open>Insertion\<close>

definition get_left_index :: "node \<Rightarrow> ptr \<Rightarrow> nat option" where
  "get_left_index par left = scan (\<lambda>p. p \<noteq> left) (pointers par) (num_keys par + 1) 0"

definition insert_into_leaf :: "bpt \<Rightarrow> ptr \<Rightarrow> u64 \<Rightarrow> ptr \<Rightarrow> bpt option" where
  "insert_into_leaf s leaf key pointer = do {
     nd \<leftarrow> node_at s leaf;
     insertion_point \<leftarrow> scan (\<lambda>k. k < key) (keys nd) (num_keys nd) 0;
     ks \<leftarrow> shift_up (keys nd) insertion_point (num_keys nd);
     ps \<leftarrow> shift_up (pointers nd) insertion_point (num_keys nd);
     ks \<leftarrow> wr ks insertion_point key;
     ps \<leftarrow> wr ps insertion_point pointer;
     Some (set_node s leaf (nd\<lparr>keys := ks, pointers := ps, num_keys := num_keys nd + 1\<rparr>)) }"

text \<open>
  \<open>insert_into_leaf_after_splitting\<close> up to its final call: the result is the key and the
  new leaf that go into the parent.
\<close>

definition split_leaf :: "bpt \<Rightarrow> ptr \<Rightarrow> u64 \<Rightarrow> ptr \<Rightarrow> (bpt \<times> u64 \<times> ptr) option" where
  "split_leaf s leaf key pointer = do {
     (new_leaf, s) \<leftarrow> make_leaf s;
     s \<leftarrow> allocate_align64 s (of_nat ((order s + 1) * 8));
     s \<leftarrow> allocate_align64 s (of_nat ((order s + 1) * 8));
     nd \<leftarrow> node_at s leaf;
     new \<leftarrow> node_at s new_leaf;
     insertion_index \<leftarrow> scan (\<lambda>k. k < key) (keys nd) (order s - 1) 0;
     temp_keys \<leftarrow> gap_copy (keys nd) (replicate (order s + 1) 0) insertion_index (num_keys nd) 0 0;
     temp_pointers \<leftarrow>
       gap_copy (pointers nd) (replicate (order s + 1) Null) insertion_index (num_keys nd) 0 0;
     temp_keys \<leftarrow> wr temp_keys insertion_index key;
     temp_pointers \<leftarrow> wr temp_pointers insertion_index pointer;
     let split = cut (order s - 1);
     leaf_ps \<leftarrow> copy_range temp_pointers (pointers nd) split 0 0;
     leaf_ks \<leftarrow> copy_range temp_keys (keys nd) split 0 0;
     new_ps \<leftarrow> copy_range temp_pointers (pointers new) (order s) split 0;
     new_ks \<leftarrow> copy_range temp_keys (keys new) (order s) split 0;
     link \<leftarrow> rd leaf_ps (order s - 1);
     new_ps \<leftarrow> wr new_ps (order s - 1) link;
     leaf_ps \<leftarrow> wr leaf_ps (order s - 1) new_leaf;
     leaf_ps \<leftarrow> fill Null leaf_ps (order s - 1) split;
     new_ps \<leftarrow> fill Null new_ps (order s - 1) (order s - split);
     new_key \<leftarrow> rd new_ks 0;
     let s = set_node s leaf (nd\<lparr>keys := leaf_ks, pointers := leaf_ps, num_keys := split\<rparr>);
     let s = set_node s new_leaf (new\<lparr>keys := new_ks, pointers := new_ps,
       num_keys := order s - split, parent := parent nd\<rparr>);
     Some (s, new_key, new_leaf) }"

definition insert_into_node :: "bpt \<Rightarrow> ptr \<Rightarrow> ptr \<Rightarrow> nat \<Rightarrow> u64 \<Rightarrow> ptr \<Rightarrow> (ptr \<times> bpt) option" where
  "insert_into_node s root n left_index key right = do {
     nd \<leftarrow> node_at s n;
     ps \<leftarrow> shift_up (pointers nd) (left_index + 1) (num_keys nd + 1);
     ks \<leftarrow> shift_up (keys nd) left_index (num_keys nd);
     ps \<leftarrow> wr ps (left_index + 1) right;
     ks \<leftarrow> wr ks left_index key;
     Some (root, set_node s n (nd\<lparr>keys := ks, pointers := ps, num_keys := num_keys nd + 1\<rparr>)) }"

text \<open>\<open>for (...) { child = pointers[i]; child->parent = p; }\<close> over the given pointers.\<close>

fun set_parents :: "bpt \<Rightarrow> ptr list \<Rightarrow> ptr \<Rightarrow> bpt option" where
  "set_parents s [] p = Some s"
| "set_parents s (c # cs) p = do { s \<leftarrow> set_parent s c p; set_parents s cs p }"

text \<open>\<open>insert_into_node_after_splitting\<close> up to its final call.\<close>

definition split_node :: "bpt \<Rightarrow> ptr \<Rightarrow> nat \<Rightarrow> u64 \<Rightarrow> ptr \<Rightarrow> (bpt \<times> u64 \<times> ptr) option" where
  "split_node s old_node left_index key right = do {
     s \<leftarrow> allocate_align64 s (of_nat ((order s + 1) * 8));
     s \<leftarrow> allocate_align64 s (of_nat (order s * 8));
     old \<leftarrow> node_at s old_node;
     temp_pointers \<leftarrow> gap_copy (pointers old) (replicate (order s + 1) Null) (left_index + 1)
       (num_keys old + 1) 0 0;
     temp_keys \<leftarrow> gap_copy (keys old) (replicate (order s) 0) left_index (num_keys old) 0 0;
     temp_pointers \<leftarrow> wr temp_pointers (left_index + 1) right;
     temp_keys \<leftarrow> wr temp_keys left_index key;
     let split = cut (order s);
     (new_node, s) \<leftarrow> make_node s;
     new \<leftarrow> node_at s new_node;
     old \<leftarrow> node_at s old_node;
     old_ps \<leftarrow> copy_range temp_pointers (pointers old) split 0 0;
     old_ks \<leftarrow> copy_range temp_keys (keys old) (split - 1) 0 0;
     k_prime \<leftarrow> rd temp_keys (split - 1);
     new_ps \<leftarrow> copy_range temp_pointers (pointers new) (order s + 1) split 0;
     new_ks \<leftarrow> copy_range temp_keys (keys new) (order s) split 0;
     let s = set_node s old_node (old\<lparr>keys := old_ks, pointers := old_ps, num_keys := split - 1\<rparr>);
     let s = set_node s new_node (new\<lparr>keys := new_ks, pointers := new_ps,
       num_keys := order s - split, parent := parent old\<rparr>);
     s \<leftarrow> set_parents s (take (order s - split + 1) new_ps) new_node;
     Some (s, k_prime, new_node) }"

definition insert_into_new_root :: "bpt \<Rightarrow> ptr \<Rightarrow> u64 \<Rightarrow> ptr \<Rightarrow> (ptr \<times> bpt) option" where
  "insert_into_new_root s left key right = do {
     (root, s) \<leftarrow> make_node s;
     nd \<leftarrow> node_at s root;
     ks \<leftarrow> wr (keys nd) 0 key;
     ps \<leftarrow> wr (pointers nd) 0 left;
     ps \<leftarrow> wr ps 1 right;
     let s = set_node s root (nd\<lparr>keys := ks, pointers := ps, num_keys := num_keys nd + 1,
       parent := Null\<rparr>);
     s \<leftarrow> set_parent s left root;
     s \<leftarrow> set_parent s right root;
     Some (root, s) }"

partial_function (option) insert_into_parent ::
    "bpt \<Rightarrow> ptr \<Rightarrow> ptr \<Rightarrow> u64 \<Rightarrow> ptr \<Rightarrow> (ptr \<times> bpt) option" where
  "insert_into_parent s root left key right = do {
     l \<leftarrow> node_at s left;
     if parent l = Null then insert_into_new_root s left key right
     else do {
       par \<leftarrow> node_at s (parent l);
       left_index \<leftarrow> get_left_index par left;
       if num_keys par < order s - 1
       then insert_into_node s root (parent l) left_index key right
       else do {
         (s', k_prime, new_node) \<leftarrow> split_node s (parent l) left_index key right;
         insert_into_parent s' root (parent l) k_prime new_node } } }"

definition insert_into_node_after_splitting ::
    "bpt \<Rightarrow> ptr \<Rightarrow> ptr \<Rightarrow> nat \<Rightarrow> u64 \<Rightarrow> ptr \<Rightarrow> (ptr \<times> bpt) option" where
  "insert_into_node_after_splitting s root old_node left_index key right = do {
     (s', k_prime, new_node) \<leftarrow> split_node s old_node left_index key right;
     insert_into_parent s' root old_node k_prime new_node }"

definition insert_into_leaf_after_splitting ::
    "bpt \<Rightarrow> ptr \<Rightarrow> ptr \<Rightarrow> u64 \<Rightarrow> ptr \<Rightarrow> (ptr \<times> bpt) option" where
  "insert_into_leaf_after_splitting s root leaf key pointer = do {
     (s', new_key, new_leaf) \<leftarrow> split_leaf s leaf key pointer;
     insert_into_parent s' root leaf new_key new_leaf }"

definition start_new_tree :: "bpt \<Rightarrow> u64 \<Rightarrow> ptr \<Rightarrow> (ptr \<times> bpt) option" where
  "start_new_tree s key pointer = do {
     (root, s) \<leftarrow> make_leaf s;
     nd \<leftarrow> node_at s root;
     ks \<leftarrow> wr (keys nd) 0 key;
     ps \<leftarrow> wr (pointers nd) 0 pointer;
     ps \<leftarrow> wr ps (order s - 1) Null;
     Some (root, set_node s root (nd\<lparr>keys := ks, pointers := ps, parent := Null,
       num_keys := num_keys nd + 1\<rparr>)) }"

definition insert_bpt :: "bpt \<Rightarrow> ptr \<Rightarrow> u64 \<Rightarrow> u64 \<Rightarrow> (ptr \<times> bpt) option" where
  "insert_bpt s root key v = do {
     (record_pointer, _) \<leftarrow> find_bpt s root key;
     if record_pointer \<noteq> Null then do {
       cell \<leftarrow> rec_at s record_pointer;
       Some (root, set_rec s record_pointer (cell\<lparr>contents := Value v\<rparr>)) }
     else do {
       (record_pointer, s) \<leftarrow> make_record s v;
       if root = Null then start_new_tree s key record_pointer
       else do {
         leaf \<leftarrow> find_leaf s root key;
         nd \<leftarrow> node_at s leaf;
         if num_keys nd < order s - 1 then do {
           s \<leftarrow> insert_into_leaf s leaf key record_pointer;
           Some (root, s) }
         else insert_into_leaf_after_splitting s root leaf key record_pointer } } }"

section \<open>Deletion\<close>

text \<open>The index is a \<open>uint64_t\<close>: for a leftmost child \<open>i - 1\<close> wraps to all ones.\<close>

definition get_neighbor_index :: "bpt \<Rightarrow> ptr \<Rightarrow> u64 option" where
  "get_neighbor_index s n = do {
     nd \<leftarrow> node_at s n;
     par \<leftarrow> node_at s (parent nd);
     i \<leftarrow> scan (\<lambda>p. p \<noteq> n) (pointers par) (num_keys par + 1) 0;
     if i \<le> num_keys par then Some (of_nat i - 1) else None }"

text \<open>\<open>while (xs[i] != v) i++;\<close> runs off the array when \<open>v\<close> is absent.\<close>

definition index_of :: "'a list \<Rightarrow> 'a \<Rightarrow> nat option" where
  "index_of xs v = scan (\<lambda>x. x \<noteq> v) xs (length xs + 1) 0"

definition remove_entry_from_node :: "bpt \<Rightarrow> ptr \<Rightarrow> u64 \<Rightarrow> ptr \<Rightarrow> bpt option" where
  "remove_entry_from_node s n key pointer = do {
     nd \<leftarrow> node_at s n;
     i \<leftarrow> index_of (keys nd) key;
     ks \<leftarrow> shift_down (keys nd) (num_keys nd) (i + 1);
     let num_pointers = (if is_leaf nd then num_keys nd else num_keys nd + 1);
     i \<leftarrow> index_of (pointers nd) pointer;
     ps \<leftarrow> shift_down (pointers nd) num_pointers (i + 1);
     let nk = num_keys nd - 1;
     ps \<leftarrow> (if is_leaf nd then fill Null ps (order s - 1) nk else fill Null ps (order s) (nk + 1));
     Some (set_node s n (nd\<lparr>keys := ks, pointers := ps, num_keys := nk\<rparr>)) }"

text \<open>\<open>free(n->keys); free(n->pointers); free_node(n);\<close>\<close>

definition release_node :: "bpt \<Rightarrow> ptr \<Rightarrow> bpt option" where
  "release_node s n = do {
     nd \<leftarrow> node_at s n;
     free_node (set_node s n (nd\<lparr>keys := [], pointers := []\<rparr>)) n }"

definition adjust_root :: "bpt \<Rightarrow> ptr \<Rightarrow> (ptr \<times> bpt) option" where
  "adjust_root s root = do {
     nd \<leftarrow> node_at s root;
     if num_keys nd > 0 then Some (root, s)
     else if \<not> is_leaf nd then do {
       new_root \<leftarrow> rd (pointers nd) 0;
       s \<leftarrow> set_parent s new_root Null;
       s \<leftarrow> release_node s root;
       Some (new_root, s) }
     else do {
       s \<leftarrow> release_node s root;
       Some (Null, s) } }"

text \<open>
  \<open>coalesce_nodes\<close> up to its call of \<open>delete_entry\<close>: the entries of the right node are
  appended to the left one; the result names the node that is now to be removed.
\<close>

definition merge_nodes :: "bpt \<Rightarrow> ptr \<Rightarrow> ptr \<Rightarrow> u64 \<Rightarrow> u64 \<Rightarrow> (bpt \<times> ptr) option" where
  "merge_nodes s n neighbor neighbor_index k_prime = do {
     let (n, neighbor) = (if neighbor_index = -1 then (neighbor, n) else (n, neighbor));
     nd \<leftarrow> node_at s n;
     nb \<leftarrow> node_at s neighbor;
     let at = num_keys nb;
     if \<not> is_leaf nd then do {
       ks \<leftarrow> wr (keys nb) at k_prime;
       ks \<leftarrow> copy_range (keys nd) ks (num_keys nd) 0 (at + 1);
       ps \<leftarrow> copy_range (pointers nd) (pointers nb) (num_keys nd + 1) 0 (at + 1);
       let nk = at + 1 + num_keys nd;
       let s = set_node s n (nd\<lparr>num_keys := 0\<rparr>);
       let s = set_node s neighbor (nb\<lparr>keys := ks, pointers := ps, num_keys := nk\<rparr>);
       s \<leftarrow> set_parents s (take (nk + 1) ps) neighbor;
       Some (s, n) }
     else do {
       ks \<leftarrow> copy_range (keys nd) (keys nb) (num_keys nd) 0 at;
       ps \<leftarrow> copy_range (pointers nd) (pointers nb) (num_keys nd) 0 at;
       link \<leftarrow> rd (pointers nd) (order s - 1);
       ps \<leftarrow> wr ps (order s - 1) link;
       Some (set_node s neighbor (nb\<lparr>keys := ks, pointers := ps,
         num_keys := at + num_keys nd\<rparr>), n) } }"

text \<open>\<open>n->parent->keys[i] = k\<close>.\<close>

definition set_parent_key :: "bpt \<Rightarrow> ptr \<Rightarrow> nat \<Rightarrow> u64 \<Rightarrow> bpt option" where
  "set_parent_key s n i k = do {
     nd \<leftarrow> node_at s n;
     par \<leftarrow> node_at s (parent nd);
     ks \<leftarrow> wr (keys par) i k;
     Some (set_node s (parent nd) (par\<lparr>keys := ks\<rparr>)) }"

definition redistribute_from_left :: "bpt \<Rightarrow> ptr \<Rightarrow> ptr \<Rightarrow> nat \<Rightarrow> u64 \<Rightarrow> bpt option" where
  "redistribute_from_left s n neighbor k_prime_index k_prime = do {
     nd \<leftarrow> node_at s n;
     nb \<leftarrow> node_at s neighbor;
     ks \<leftarrow> shift_up (keys nd) 0 (num_keys nd);
     ps \<leftarrow> shift_up (pointers nd) 0 (if is_leaf nd then num_keys nd else num_keys nd + 1);
     if \<not> is_leaf nd then do {
       child \<leftarrow> rd (pointers nb) (num_keys nb);
       ps \<leftarrow> wr ps 0 child;
       s \<leftarrow> set_parent s child n;
       nb_ps \<leftarrow> wr (pointers nb) (num_keys nb) Null;
       ks \<leftarrow> wr ks 0 k_prime;
       k \<leftarrow> rd (keys nb) (num_keys nb - 1);
       s \<leftarrow> set_parent_key s n k_prime_index k;
       let s = set_node s n (nd\<lparr>keys := ks, pointers := ps, num_keys := num_keys nd + 1\<rparr>);
       Some (set_node s neighbor (nb\<lparr>pointers := nb_ps, num_keys := num_keys nb - 1\<rparr>)) }
     else do {
       p \<leftarrow> rd (pointers nb) (num_keys nb - 1);
       ps \<leftarrow> wr ps 0 p;
       nb_ps \<leftarrow> wr (pointers nb) (num_keys nb - 1) Null;
       k \<leftarrow> rd (keys nb) (num_keys nb - 1);
       ks \<leftarrow> wr ks 0 k;
       s \<leftarrow> set_parent_key s n k_prime_index k;
       let s = set_node s n (nd\<lparr>keys := ks, pointers := ps, num_keys := num_keys nd + 1\<rparr>);
       Some (set_node s neighbor (nb\<lparr>pointers := nb_ps, num_keys := num_keys nb - 1\<rparr>)) } }"

definition redistribute_from_right :: "bpt \<Rightarrow> ptr \<Rightarrow> ptr \<Rightarrow> nat \<Rightarrow> u64 \<Rightarrow> bpt option" where
  "redistribute_from_right s n neighbor k_prime_index k_prime = do {
     nd \<leftarrow> node_at s n;
     nb \<leftarrow> node_at s neighbor;
     p \<leftarrow> rd (pointers nb) 0;
     k0 \<leftarrow> rd (keys nb) 0;
     if is_leaf nd then do {
       ks \<leftarrow> wr (keys nd) (num_keys nd) k0;
       ps \<leftarrow> wr (pointers nd) (num_keys nd) p;
       k1 \<leftarrow> rd (keys nb) 1;
       s \<leftarrow> set_parent_key s n k_prime_index k1;
       nb_ks \<leftarrow> shift_down (keys nb) (num_keys nb) 1;
       nb_ps \<leftarrow> shift_down (pointers nb) (num_keys nb) 1;
       let s = set_node s n (nd\<lparr>keys := ks, pointers := ps, num_keys := num_keys nd + 1\<rparr>);
       Some (set_node s neighbor (nb\<lparr>keys := nb_ks, pointers := nb_ps,
         num_keys := num_keys nb - 1\<rparr>)) }
     else do {
       ks \<leftarrow> wr (keys nd) (num_keys nd) k_prime;
       ps \<leftarrow> wr (pointers nd) (num_keys nd + 1) p;
       s \<leftarrow> set_parent s p n;
       s \<leftarrow> set_parent_key s n k_prime_index k0;
       nb_ks \<leftarrow> shift_down (keys nb) (num_keys nb) 1;
       nb_ps \<leftarrow> shift_down (pointers nb) (num_keys nb + 1) 1;
       let s = set_node s n (nd\<lparr>keys := ks, pointers := ps, num_keys := num_keys nd + 1\<rparr>);
       Some (set_node s neighbor (nb\<lparr>keys := nb_ks, pointers := nb_ps,
         num_keys := num_keys nb - 1\<rparr>)) } }"

definition redistribute_nodes ::
    "bpt \<Rightarrow> ptr \<Rightarrow> ptr \<Rightarrow> ptr \<Rightarrow> u64 \<Rightarrow> nat \<Rightarrow> u64 \<Rightarrow> (ptr \<times> bpt) option" where
  "redistribute_nodes s root n neighbor neighbor_index k_prime_index k_prime = do {
     s \<leftarrow> (if neighbor_index \<noteq> -1
           then redistribute_from_left s n neighbor k_prime_index k_prime
           else redistribute_from_right s n neighbor k_prime_index k_prime);
     Some (root, s) }"

partial_function (option) delete_entry ::
    "bpt \<Rightarrow> ptr \<Rightarrow> ptr \<Rightarrow> u64 \<Rightarrow> ptr \<Rightarrow> (ptr \<times> bpt) option" where
  "delete_entry s root n key pointer = do {
     s \<leftarrow> remove_entry_from_node s n key pointer;
     if n = root then adjust_root s root
     else do {
       nd \<leftarrow> node_at s n;
       let min_keys = (if is_leaf nd then cut (order s - 1) else cut (order s) - 1);
       if num_keys nd \<ge> min_keys then Some (root, s)
       else do {
         neighbor_index \<leftarrow> get_neighbor_index s n;
         let k_prime_index = (if neighbor_index = -1 then 0 else unat neighbor_index);
         par \<leftarrow> node_at s (parent nd);
         k_prime \<leftarrow> rd (keys par) k_prime_index;
         neighbor \<leftarrow> rd (pointers par) (if neighbor_index = -1 then 1 else unat neighbor_index);
         let capacity = (if is_leaf nd then order s else order s - 1);
         nb \<leftarrow> node_at s neighbor;
         if num_keys nb + num_keys nd < capacity then do {
           (s, dead) \<leftarrow> merge_nodes s n neighbor neighbor_index k_prime;
           dn \<leftarrow> node_at s dead;
           (root, s) \<leftarrow> delete_entry s root (parent dn) k_prime dead;
           s \<leftarrow> release_node s dead;
           Some (root, s) }
         else redistribute_nodes s root n neighbor neighbor_index k_prime_index k_prime } } }"

definition coalesce_nodes :: "bpt \<Rightarrow> ptr \<Rightarrow> ptr \<Rightarrow> ptr \<Rightarrow> u64 \<Rightarrow> u64 \<Rightarrow> (ptr \<times> bpt) option" where
  "coalesce_nodes s root n neighbor neighbor_index k_prime = do {
     (s, dead) \<leftarrow> merge_nodes s n neighbor neighbor_index k_prime;
     dn \<leftarrow> node_at s dead;
     (root, s) \<leftarrow> delete_entry s root (parent dn) k_prime dead;
     s \<leftarrow> release_node s dead;
     Some (root, s) }"

definition delete_bpt :: "bpt \<Rightarrow> ptr \<Rightarrow> u64 \<Rightarrow> (ptr \<times> bpt) option" where
  "delete_bpt s root key = do {
     (key_record, key_leaf) \<leftarrow> find_bpt s root key;
     if key_record \<noteq> Null \<and> key_leaf \<noteq> Null then do {
       (root, s) \<leftarrow> delete_entry s root key_leaf key key_record;
       s \<leftarrow> free_record s key_record;
       Some (root, s) }
     else Some (root, s) }"

declare find_leaf_loop.simps [code] height_loop.simps [code] path_loop.simps [code]
  range_loop.simps [code] insert_into_parent.simps [code] delete_entry.simps [code]

end
