(* ===== verification/Btree_Loops.thy ===== *)
theory Btree_Loops
  imports Btree_Model
begin

text \<open>
  What the array loops of the B+ tree compute, as list equations: the scan stops at the
  first key that fails its test, the shifting and copying loops are concatenations of
  sublists.  The equations are collected in \<open>loop_simps\<close>.
\<close>

lemma scan_drop:
  "i \<le> n \<Longrightarrow> n \<le> length xs \<Longrightarrow>
   scan P xs n i = Some (i + length (takeWhile P (drop i (take n xs))))"
proof (induction P xs n i rule: scan.induct)
  case (1 P xs n i)
  show ?case
  proof (cases "i < n")
    case True
    then have d: "drop i (take n xs) = xs ! i # drop (Suc i) (take n xs)"
      using "1.prems" by (simp add: drop_eq_nth_tl)
    show ?thesis
      using True "1.prems" "1.IH" [OF True _, of "xs ! i"]
      by (auto simp: scan.simps [of P xs n i] d rd_def)
  next
    case False
    with "1.prems" have [simp]: "i = n" by simp
    show ?thesis using "1.prems" by (simp add: scan.simps [of P xs n n])
  qed
qed

lemma scan_take [loop_simps]:
  "n \<le> length xs \<Longrightarrow> scan P xs n 0 = Some (length (takeWhile P (take n xs)))"
  by (simp add: scan_drop)

lemma shift_up_eq [loop_simps]:
  "low \<le> n \<Longrightarrow> n < length xs \<Longrightarrow>
   shift_up xs low n = Some (take (Suc low) xs @ take (n - low) (drop low xs) @ drop (Suc n) xs)"
proof (induction n arbitrary: xs)
  case 0
  then show ?case by (simp add: take_Suc_conv_app_nth Cons_nth_drop_Suc)
next
  case (Suc n)
  show ?case
  proof (cases "low = Suc n")
    case True
    with Suc.prems show ?thesis by simp
  next
    case False
    let ?ys = "xs[Suc n := xs ! n]"
    from False Suc.prems have le: "low \<le> n" "n < length ?ys" by simp_all
    have "shift_up xs low (Suc n) = shift_up ?ys low n"
      using le Suc.prems by (simp add: rd_def wr_def)
    also have "\<dots> = Some (take (Suc low) ?ys @ take (n - low) (drop low ?ys) @ drop (Suc n) ?ys)"
      by (rule Suc.IH [OF le])
    also have "take (Suc low) ?ys = take (Suc low) xs"
      using le by simp
    also have "take (n - low) (drop low ?ys) = take (n - low) (drop low xs)"
      using le by (simp add: drop_update_swap take_update_cancel)
    also have "drop (Suc n) ?ys = xs ! n # drop (Suc (Suc n)) xs"
      using Suc.prems by (simp add: drop_update_swap drop_eq_nth_tl)
    also have "take (n - low) (drop low xs) @ xs ! n # drop (Suc (Suc n)) xs =
        take (Suc n - low) (drop low xs) @ drop (Suc (Suc n)) xs"
      using le Suc.prems by (simp add: Suc_diff_le take_Suc_conv_app_nth)
    finally show ?thesis .
  qed
qed

declare shift_up.simps [simp del]

lemma shift_down_eq:
  "0 < i \<Longrightarrow> i \<le> n \<Longrightarrow> n \<le> length xs \<Longrightarrow>
   shift_down xs n i = Some (take (i - 1) xs @ drop i (take n xs) @ drop (n - 1) xs)"
proof (induction xs n i rule: shift_down.induct)
  case (1 xs n i)
  show ?case
  proof (cases "i < n")
    case True
    let ?ys = "xs[i - 1 := xs ! i]"
    have "shift_down xs n i = shift_down ?ys n (Suc i)"
      using True "1.prems" less_imp_diff_less [of i "length xs" 1]
      by (simp add: shift_down.simps [of xs n i] rd_def wr_def)
    also have "\<dots> = Some (take i ?ys @ drop (Suc i) (take n ?ys) @ drop (n - 1) ?ys)"
      using "1.IH" [OF True, of "xs ! i" ?ys] True "1.prems" by (simp add: rd_def wr_def)
    also have "take i ?ys = take (i - 1) xs @ [xs ! i]"
      using True "1.prems" take_list_update_Suc [of "i - 1" xs "xs ! i"] by simp
    also have "drop (Suc i) (take n ?ys) = drop (Suc i) (take n xs)"
      using True "1.prems" by (simp add: take_update_swap)
    also have "drop (n - 1) ?ys = drop (n - 1) xs"
      using True "1.prems" by simp
    also have "(take (i - 1) xs @ [xs ! i]) @ drop (Suc i) (take n xs) @ drop (n - 1) xs =
        take (i - 1) xs @ drop i (take n xs) @ drop (n - 1) xs"
      using True "1.prems" by (simp add: drop_eq_nth_tl [of i "take n xs"])
    finally show ?thesis .
  next
    case False
    then have [simp]: "n = i" using "1.prems" by simp
    show ?thesis using "1.prems" by (simp add: shift_down.simps [of xs i i])
  qed
qed

lemma copy_range_eq [loop_simps]:
  "i \<le> n \<Longrightarrow> n \<le> length src \<Longrightarrow> j + (n - i) \<le> length dst \<Longrightarrow>
   copy_range src dst n i j = Some (take j dst @ drop i (take n src) @ drop (j + (n - i)) dst)"
proof (induction src dst n i j rule: copy_range.induct)
  case (1 src dst n i j)
  show ?case
  proof (cases "i < n")
    case True
    let ?dst = "dst[j := src ! i]"
    have j: "j < length dst" using True "1.prems" by simp
    have "copy_range src dst n i j = copy_range src ?dst n (Suc i) (Suc j)"
      using True "1.prems" j by (simp add: copy_range.simps [of src dst n i j] rd_def wr_def)
    also have "\<dots> = Some (take (Suc j) ?dst @ drop (Suc i) (take n src) @
        drop (Suc j + (n - Suc i)) ?dst)"
      using "1.IH" [OF True, of "src ! i" ?dst] True "1.prems" j by (simp add: rd_def wr_def)
    also have "take (Suc j) ?dst = take j dst @ [src ! i]"
      using j by (rule take_list_update_Suc)
    also have "Suc j + (n - Suc i) = j + (n - i)"
      using True by simp
    also have "drop (j + (n - i)) ?dst = drop (j + (n - i)) dst"
      using True by simp
    also have "(take j dst @ [src ! i]) @ drop (Suc i) (take n src) @ drop (j + (n - i)) dst =
        take j dst @ drop i (take n src) @ drop (j + (n - i)) dst"
      using True "1.prems" by (simp add: drop_eq_nth_tl [of i "take n src"])
    finally show ?thesis .
  next
    case False
    with "1.prems" have [simp]: "i = n" by simp
    show ?thesis using "1.prems" by (simp add: copy_range.simps [of src dst n n j])
  qed
qed

lemma gap_copy_after:
  assumes "gap < i" and "i \<le> n" and "n \<le> length src" and "n < length dst"
  shows "gap_copy src dst gap n i (Suc i) = copy_range src dst n i (Suc i)"
  using assms
proof (induction "n - i" arbitrary: i dst)
  case 0
  then show ?case by (simp add: gap_copy.simps copy_range.simps)
next
  case (Suc d)
  then have "i < n" by simp
  with Suc.prems Suc.hyps(1) [of "Suc i" "dst[Suc i := src ! i]"] Suc.hyps(2) show ?case
    by (simp add: gap_copy.simps [of src dst gap n i] copy_range.simps [of src dst n i]
        rd_def wr_def)
qed

lemma gap_copy_before:
  assumes "i \<le> gap" and "gap \<le> n" and "n \<le> length src" and "n < length dst"
  shows "gap_copy src dst gap n i i =
    Some (take i dst @ drop i (take gap src) @ dst ! gap # drop gap (take n src) @ drop (Suc n) dst)"
  using assms
proof (induction "gap - i" arbitrary: i dst)
  case 0
  then have [simp]: "i = gap" by simp
  show ?case
  proof (cases "gap < n")
    case True
    let ?dst = "dst[Suc gap := src ! gap]"
    have "gap_copy src dst gap n gap gap = gap_copy src ?dst gap n (Suc gap) (Suc (Suc gap))"
      using True "0.prems" by (simp add: gap_copy.simps [of src dst gap n gap gap] rd_def wr_def)
    also have "\<dots> = copy_range src ?dst n (Suc gap) (Suc (Suc gap))"
      using True "0.prems" by (intro gap_copy_after) auto
    also have "\<dots> = Some (take (Suc (Suc gap)) ?dst @ drop (Suc gap) (take n src) @ drop (Suc n) ?dst)"
      using True "0.prems" by (simp add: copy_range_eq)
    also have "take (Suc (Suc gap)) ?dst = take gap dst @ [dst ! gap, src ! gap]"
      using True "0.prems" by (simp add: take_list_update_Suc take_Suc_conv_app_nth [of gap])
    also have "drop (Suc n) ?dst = drop (Suc n) dst"
      using True by simp
    finally show ?thesis
      using True "0.prems" by (simp add: drop_eq_nth_tl [of gap "take n src"])
  next
    case False
    with "0.prems" have [simp]: "gap = n" by simp
    show ?thesis
      using "0.prems" by (simp add: gap_copy.simps [of src dst n n n n] Cons_nth_drop_Suc)
  qed
next
  case (Suc d)
  then have lt: "i < gap" by simp
  let ?dst = "dst[i := src ! i]"
  have "gap_copy src dst gap n i i = gap_copy src ?dst gap n (Suc i) (Suc i)"
    using lt Suc.prems by (simp add: gap_copy.simps [of src dst gap n i i] rd_def wr_def)
  also have "\<dots> = Some (take (Suc i) ?dst @ drop (Suc i) (take gap src) @ ?dst ! gap #
      drop gap (take n src) @ drop (Suc n) ?dst)"
    using Suc.hyps(1) [of "Suc i" ?dst] Suc.hyps(2) lt Suc.prems by simp
  also have "take (Suc i) ?dst = take i dst @ [src ! i]"
    using lt Suc.prems by (intro take_list_update_Suc) simp
  also have "drop (Suc n) ?dst = drop (Suc n) dst"
    using lt Suc.prems by simp
  finally show ?case
    using lt Suc.prems by (simp add: drop_eq_nth_tl [of i "take gap src"])
qed

lemma gap_copy_eq [loop_simps]:
  assumes "gap \<le> n" and "n \<le> length src" and "n < length dst"
  shows "gap_copy src dst gap n 0 0 =
    Some (take gap src @ dst ! gap # drop gap (take n src) @ drop (Suc n) dst)"
  using gap_copy_before [of 0 gap n src dst] assms by simp

lemma fill_eq:
  "i \<le> n \<Longrightarrow> n \<le> length xs \<Longrightarrow>
   fill v xs n i = Some (take i xs @ replicate (n - i) v @ drop n xs)"
proof (induction v xs n i rule: fill.induct)
  case (1 v xs n i)
  show ?case
  proof (cases "i < n")
    case True
    let ?ys = "xs[i := v]"
    have "fill v xs n i = fill v ?ys n (Suc i)"
      using True "1.prems" by (simp add: fill.simps [of v xs n i] wr_def)
    also have "\<dots> = Some (take (Suc i) ?ys @ replicate (n - Suc i) v @ drop n ?ys)"
      using "1.IH" [OF True, of ?ys] True "1.prems" by (simp add: wr_def)
    also have "take (Suc i) ?ys = take i xs @ [v]"
      using True "1.prems" by (intro take_list_update_Suc) simp
    also have "drop n ?ys = drop n xs" using True by simp
    also have "(take i xs @ [v]) @ replicate (n - Suc i) v @ drop n xs =
        take i xs @ replicate (n - i) v @ drop n xs"
      using True by (simp add: Suc_diff_Suc [symmetric])
    finally show ?thesis .
  next
    case False
    with "1.prems" have [simp]: "i = n" by simp
    show ?thesis using "1.prems" by (simp add: fill.simps [of v xs n n])
  qed
qed

lemma fill_past: "n \<le> i \<Longrightarrow> fill v xs n i = Some xs"
  by (simp add: fill.simps)

text \<open>\<open>index_of\<close> finds an element that is there and runs off the array otherwise.\<close>

lemma index_of_append:
  "v \<notin> set xs \<Longrightarrow> index_of (xs @ v # ys) v = Some (length xs)"
proof -
  assume v: "v \<notin> set xs"
  have "scan (\<lambda>x. x \<noteq> v) (xs @ v # ys) n i = Some (length xs)"
    if "i \<le> length xs" "length xs < n" for n i
    using that
  proof (induction "length xs - i" arbitrary: i)
    case 0
    then have "i = length xs" by simp
    with 0 show ?case by (subst scan.simps) (simp add: rd_def)
  next
    case (Suc d)
    then have "i < length xs" by simp
    moreover from this v have "xs ! i \<noteq> v" by (metis nth_mem)
    ultimately show ?case
      using Suc.hyps(1) [of "Suc i"] Suc.hyps(2) Suc.prems
      by (simp add: scan.simps [of _ _ _ i] rd_def nth_append)
  qed
  then show ?thesis by (simp add: index_of_def)
qed

end
