(* ===== verification/Btree_Rep.thy ===== *)
theory Btree_Rep
  imports Btree_Loops
begin

text \<open>
  The trees that a store represents.  A ghost tree carries the address of every node;
  \<open>cells\<close> lists what the store must hold for it, \<open>good\<close> says that the store holds a list of
  cells at distinct addresses, apart from a well-formed free list.  The lemmas say how
  reading, writing and allocating a node act on \<open>good\<close>; all later heap reasoning goes
  through them.
\<close>

section \<open>Ghost trees and cells\<close>

datatype bt =
    Lf nat "u64 list" "ptr list" ptr
  | Nd nat "u64 list" "bt list"

primrec addr :: "bt \<Rightarrow> nat" where
  "addr (Lf a ks rs l) = a"
| "addr (Nd a ks cs) = a"

abbreviation ptr_of :: "bt \<Rightarrow> ptr" where
  "ptr_of t \<equiv> NodeP (addr t)"

datatype cell = Cell (c_par: ptr) (c_leaf: bool) (c_keys: "u64 list") (c_ptrs: "ptr list")
  (c_link: "ptr option")

fun cells :: "ptr \<Rightarrow> bt \<Rightarrow> (nat \<times> cell) list" where
  "cells p (Lf a ks rs l) = [(a, Cell p True ks rs (Some l))]"
| "cells p (Nd a ks cs) =
    (a, Cell p False ks (map ptr_of cs) None) # concat (map (cells (NodeP a)) cs)"

definition top_cell :: "ptr \<Rightarrow> bt \<Rightarrow> cell" where
  "top_cell p t = (case t of Lf a ks rs l \<Rightarrow> Cell p True ks rs (Some l)
     | Nd a ks cs \<Rightarrow> Cell p False ks (map ptr_of cs) None)"

definition sub_cells :: "bt \<Rightarrow> (nat \<times> cell) list" where
  "sub_cells t = (case t of Lf a ks rs l \<Rightarrow> [] | Nd a ks cs \<Rightarrow> concat (map (cells (NodeP a)) cs))"

lemma cells_top: "cells p t = (addr t, top_cell p t) # sub_cells t"
  by (cases t) (simp_all add: top_cell_def sub_cells_def)

section \<open>Nodes in the store\<close>

definition node_rel :: "nat \<Rightarrow> node \<Rightarrow> cell \<Rightarrow> bool" where
  "node_rel ord nd c \<longleftrightarrow>
     length (keys nd) = ord - 1 \<and> length (pointers nd) = ord \<and>
     parent nd = c_par c \<and> is_leaf nd = c_leaf c \<and>
     num_keys nd = length (c_keys c) \<and> length (c_keys c) \<le> ord - 1 \<and>
     take (num_keys nd) (keys nd) = c_keys c \<and>
     (if c_leaf c
      then take (num_keys nd) (pointers nd) = c_ptrs c \<and> c_link c = Some (pointers nd ! (ord - 1))
      else take (num_keys nd + 1) (pointers nd) = c_ptrs c \<and> c_link c = None)"

fun free_chain :: "bpt \<Rightarrow> ptr \<Rightarrow> nat list \<Rightarrow> bool" where
  "free_chain s p [] \<longleftrightarrow> p = Null"
| "free_chain s p (a # as) \<longleftrightarrow>
     p = NodeP a \<and> (\<exists>nd. nodes s a = Some nd \<and> free_chain s (next_p nd) as)"

definition good :: "bpt \<Rightarrow> (nat \<times> cell) list \<Rightarrow> nat list \<Rightarrow> bool" where
  "good s xs fl \<longleftrightarrow>
     distinct (map fst xs @ fl) \<and>
     (\<forall>(a, c) \<in> set xs. \<exists>nd. nodes s a = Some nd \<and> node_rel (order s) nd c) \<and>
     free_chain s (free_nodes s) fl \<and>
     (\<forall>a \<in> fst ` set xs \<union> set fl. a < node_brk s) \<and>
     0 < node_slab s \<and> (\<forall>i. mem_ok s i) \<and> 3 \<le> order s \<and> order s < 2 ^ 64"

text \<open>The fields that no node operation changes.\<close>

definition same :: "bpt \<Rightarrow> bpt \<Rightarrow> bool" where
  "same s s' \<longleftrightarrow> order s' = order s \<and> recs s' = recs s \<and> free_recs s' = free_recs s \<and>
     rec_brk s' = rec_brk s \<and> rec_slab s' = rec_slab s \<and> mem_ok s' = mem_ok s \<and>
     node_slab s' = node_slab s"

lemma same_refl [simp]: "same s s"
  by (simp add: same_def)

lemma same_trans [trans]: "same s s' \<Longrightarrow> same s' s'' \<Longrightarrow> same s s''"
  by (simp add: same_def)

lemma same_order: "same s s' \<Longrightarrow> order s' = order s"
  by (simp add: same_def)

lemma node_at_NodeP [simp]: "node_at s (NodeP a) = nodes s a"
  by (simp add: node_at_def)

lemma node_at_Null [simp]: "node_at s Null = None"
  by (simp add: node_at_def)

lemma set_node_NodeP: "set_node s (NodeP a) nd = s\<lparr>nodes := (nodes s)(a \<mapsto> nd)\<rparr>"
  by (simp add: set_node_def)

lemma nodes_set_node [simp]: "nodes (set_node s (NodeP a) nd) = (nodes s)(a \<mapsto> nd)"
  by (simp add: set_node_def)

lemma order_set_node [simp]: "order (set_node s p nd) = order s"
  by (simp add: set_node_def split: ptr.split)

lemma same_set_node [simp]: "same s (set_node s p nd)"
  by (simp add: same_def set_node_def split: ptr.split)

lemma same_set_node_iff [simp]: "same s (set_node s' p nd) = same s s'"
  by (simp add: same_def set_node_def split: ptr.split)

lemma set_node_fields [simp]:
  "free_nodes (set_node s p nd) = free_nodes s" "node_brk (set_node s p nd) = node_brk s"
  "node_slab (set_node s p nd) = node_slab s" "mem_ok (set_node s p nd) = mem_ok s"
  by (simp_all add: set_node_def split: ptr.split)

lemma free_chain_cong:
  "(\<And>a. a \<in> set fl \<Longrightarrow> nodes s' a = nodes s a) \<Longrightarrow> free_chain s' p fl = free_chain s p fl"
  by (induction fl arbitrary: p) auto

section \<open>Reading, writing and reordering cells\<close>

lemma good_perm: "good s xs fl \<Longrightarrow> mset xs = mset ys \<Longrightarrow> good s ys fl"
proof -
  assume g: "good s xs fl" and m: "mset xs = mset ys"
  have "set xs = set ys" using m by (rule mset_eq_setD)
  moreover have "distinct (map fst xs @ fl) = distinct (map fst ys @ fl)"
    using m by (intro mset_eq_imp_distinct_iff) simp
  ultimately show ?thesis using g by (simp add: good_def)
qed

lemma good_order: "good s xs fl \<Longrightarrow> 3 \<le> order s"
  by (simp add: good_def)

lemma good_order_bound: "good s xs fl \<Longrightarrow> order s < 2 ^ 64"
  by (simp add: good_def)

lemma good_distinct: "good s xs fl \<Longrightarrow> distinct (map fst xs)"
  by (simp add: good_def)

lemma good_get:
  assumes "good s xs fl" and "(a, c) \<in> set xs"
  obtains nd where "nodes s a = Some nd" and "node_rel (order s) nd c"
  using assms by (fastforce simp: good_def)

lemma good_head:
  assumes "good s ((a, c) # xs) fl"
  obtains nd where "nodes s a = Some nd" and "node_rel (order s) nd c"
  by (rule good_get [OF assms, of a c]) (auto intro: that)

lemma good_set_node:
  assumes g: "good s ((a, c) # xs) fl" and r: "node_rel (order s) nd c'"
  shows "good (set_node s (NodeP a) nd) ((a, c') # xs) fl"
proof -
  have fr: "a \<notin> fst ` set xs" "a \<notin> set fl"
    using g by (auto simp: good_def)
  have "free_chain (set_node s (NodeP a) nd) (free_nodes s) fl"
    using g fr by (subst free_chain_cong [of _ _ s]) (auto simp: good_def)
  moreover have "\<forall>(b, d) \<in> set xs. \<exists>nd'. nodes (set_node s (NodeP a) nd) b = Some nd' \<and>
      node_rel (order s) nd' d"
    using g fr by (fastforce simp: good_def image_iff)
  ultimately show ?thesis
    using g r by (auto simp: good_def)
qed

lemma good_same_nodes:
  assumes "good s xs fl" and "nodes s' = nodes s" and "free_nodes s' = free_nodes s"
    and "node_brk s' = node_brk s" and "same s s'"
  shows "good s' xs fl"
proof -
  have "free_chain s' (free_nodes s) fl = free_chain s (free_nodes s) fl"
    by (rule free_chain_cong) (simp add: assms)
  then show ?thesis using assms by (simp add: good_def same_def)
qed

text \<open>Dropping cells is always possible; putting a released node on the free list too.\<close>

lemma good_drop: "good s (xs @ ys) fl \<Longrightarrow> good s ys fl"
  by (auto simp: good_def)

lemma node_rel_parent:
  "node_rel ord nd (Cell p lf ks ps l) \<Longrightarrow> node_rel ord (nd\<lparr>parent := q\<rparr>) (Cell q lf ks ps l)"
  by (auto simp: node_rel_def)

lemma good_set_parent:
  assumes g: "good s (cells p t @ xs) fl"
  obtains s' where "set_parent s (ptr_of t) q = Some s'" and "good s' (cells q t @ xs) fl"
    and "same s s'"
    and "\<And>a. a \<noteq> addr t \<Longrightarrow> nodes s' a = nodes s a"
proof -
  from g have g': "good s ((addr t, top_cell p t) # sub_cells t @ xs) fl"
    by (simp add: cells_top)
  then obtain nd where nd: "nodes s (addr t) = Some nd" "node_rel (order s) nd (top_cell p t)"
    by (rule good_head)
  then have r: "node_rel (order s) (nd\<lparr>parent := q\<rparr>) (top_cell q t)"
    by (cases t) (simp_all add: top_cell_def node_rel_parent)
  let ?s = "set_node s (ptr_of t) (nd\<lparr>parent := q\<rparr>)"
  have g2: "good ?s (cells q t @ xs) fl"
    using good_set_node [OF g' r] by (simp add: cells_top)
  have sp: "set_parent s (ptr_of t) q = Some ?s"
    using nd by (simp add: set_parent_def)
  show ?thesis by (rule that [OF sp g2]) simp_all
qed

lemma good_set_parents:
  assumes "good s (concat (map (cells p) ts) @ xs) fl"
  shows "\<exists>s'. set_parents s (map ptr_of ts) q = Some s' \<and>
    good s' (concat (map (cells q) ts) @ xs) fl \<and> same s s'"
  using assms
proof (induction ts arbitrary: s xs)
  case Nil
  then show ?case by simp
next
  case (Cons t ts)
  from Cons.prems have "good s (cells p t @ concat (map (cells p) ts) @ xs) fl" by simp
  then obtain s1 where s1: "set_parent s (ptr_of t) q = Some s1" "same s s1"
    and g1: "good s1 (cells q t @ concat (map (cells p) ts) @ xs) fl"
    by (rule good_set_parent [where q = q])
  have "good s1 (concat (map (cells p) ts) @ cells q t @ xs) fl"
    by (rule good_perm [OF g1]) (simp add: ac_simps)
  from Cons.IH [OF this] obtain s2 where
    s2: "set_parents s1 (map ptr_of ts) q = Some s2" "same s1 s2"
    and g2: "good s2 (concat (map (cells q) ts) @ cells q t @ xs) fl" by blast
  have "good s2 (concat (map (cells q) (t # ts)) @ xs) fl"
    by (rule good_perm [OF g2]) (simp add: ac_simps)
  with s1 s2 show ?case by (auto intro: same_trans)
qed

section \<open>Allocation\<close>

lemma thread_nodes_fields [simp]:
  "order (thread_nodes is s) = order s" "node_brk (thread_nodes is s) = node_brk s"
  "same s (thread_nodes is s)"
  by (induction "is" arbitrary: s) (auto simp: same_def)

lemma thread_nodes_other:
  "a \<notin> set is \<Longrightarrow> nodes (thread_nodes is s) a = nodes s a"
  by (induction "is" arbitrary: s) auto

lemma thread_nodes_chain:
  "free_chain s (free_nodes s) fl \<Longrightarrow> distinct is \<Longrightarrow> set is \<inter> set fl = {} \<Longrightarrow>
   free_chain (thread_nodes is s) (free_nodes (thread_nodes is s)) (rev is @ fl)"
proof (induction "is" arbitrary: s fl)
  case Nil
  then show ?case by simp
next
  case (Cons i "is")
  let ?s = "s\<lparr>nodes := (nodes s)(i \<mapsto> zero_node\<lparr>next_p := free_nodes s\<rparr>), free_nodes := NodeP i\<rparr>"
  have "free_chain ?s (free_nodes s) fl = free_chain s (free_nodes s) fl"
    using Cons.prems by (intro free_chain_cong) auto
  with Cons.prems have "free_chain ?s (free_nodes ?s) (i # fl)" by simp
  from Cons.IH [OF this] Cons.prems show ?case by simp
qed

lemma allocate_ok:
  "mem_ok s (n_alloc s) \<Longrightarrow> allocate s sz =
     Some (s\<lparr>allocator_stat := allocator_stat s + sz, n_alloc := Suc (n_alloc s)\<rparr>)"
  by (simp add: allocate_def)

lemma allocate_good:
  assumes "good s xs fl"
  obtains s' where "allocate_align64 s sz = Some s'" and "good s' xs fl" and "same s s'"
    and "nodes s' = nodes s"
proof -
  let ?s = "s\<lparr>allocator_stat := allocator_stat s + sz, n_alloc := Suc (n_alloc s)\<rparr>"
  have a: "allocate_align64 s sz = Some ?s" using assms by (simp add: allocate_align64_def good_def)
  have sm: "same s ?s" by (simp add: same_def)
  have g: "good ?s xs fl" by (rule good_same_nodes [OF assms _ _ _ sm]) simp_all
  show ?thesis by (rule that [OF a g sm]) simp
qed

text \<open>The free list is never empty after the refill, so \<open>alloc_node\<close> pops a fresh cell.\<close>

lemma alloc_node_refill:
  assumes g: "good s xs fl"
  obtains s' fl' where
    "(if free_nodes s = Null then do {
        s \<leftarrow> allocate s NODE_SLAB_GROW;
        let s' = thread_nodes [node_brk s ..< node_brk s + node_slab s] s;
        Some (s'\<lparr>node_brk := node_brk s + node_slab s\<rparr>) } else Some s) = Some s'"
    and "good s' xs fl'" and "fl' \<noteq> []" and "same s s'"
proof (cases "free_nodes s = Null")
  case True
  then have [simp]: "fl = []" using g by (cases fl) (auto simp: good_def)
  let ?s1 = "s\<lparr>allocator_stat := allocator_stat s + NODE_SLAB_GROW, n_alloc := Suc (n_alloc s)\<rparr>"
  let ?is = "[node_brk s ..< node_brk s + node_slab s]"
  let ?s2 = "thread_nodes ?is ?s1"
  let ?s3 = "?s2\<lparr>node_brk := node_brk s + node_slab s\<rparr>"
  have sm: "same s ?s3"
    using thread_nodes_fields(3) [of ?s1 ?is] by (simp add: same_def)
  have ch: "free_chain ?s2 (free_nodes ?s2) (rev ?is)"
    using thread_nodes_chain [of ?s1 "[]" ?is] True by simp
  have "free_chain ?s3 p l = free_chain ?s2 p l" for p l
    by (rule free_chain_cong) simp
  with ch have ch3: "free_chain ?s3 (free_nodes ?s3) (rev ?is)" by simp
  have old: "nodes ?s3 a = nodes s a" if "a \<in> fst ` set xs" for a
  proof -
    have "a < node_brk s" using g that by (auto simp: good_def)
    then show ?thesis by (simp add: thread_nodes_other)
  qed
  have g3: "good ?s3 xs (rev ?is)"
    unfolding good_def
  proof (intro conjI)
    show "distinct (map fst xs @ rev ?is)" using g by (fastforce simp: good_def)
    show "\<forall>(a, c) \<in> set xs. \<exists>nd. nodes ?s3 a = Some nd \<and> node_rel (order ?s3) nd c"
      using g old by (fastforce simp: good_def)
    show "\<forall>a \<in> fst ` set xs \<union> set (rev ?is). a < node_brk ?s3"
      using g by (fastforce simp: good_def)
  qed (use g sm ch3 in \<open>auto simp: good_def same_def\<close>)
  have ne: "rev ?is \<noteq> []" using g by (simp add: good_def)
  have "mem_ok s (n_alloc s)" using g by (simp add: good_def)
  then show ?thesis
    using True by (intro that [OF _ g3 ne sm]) (simp add: allocate_ok Let_def)
next
  case False
  then have "fl \<noteq> []" using g by (cases fl) (auto simp: good_def)
  with False g show ?thesis by (intro that [of s fl]) simp_all
qed

lemma alloc_node_good:
  assumes g: "good s xs fl"
  obtains a s' fl' where "alloc_node s = Some (NodeP a, s')" and "a \<notin> fst ` set xs"
    and "a \<notin> set fl'" and "a < node_brk s'" and "good s' xs fl'" and "same s s'"
    and "nodes s' a \<noteq> None"
proof -
  obtain s1 fl1 where s1: "(if free_nodes s = Null then do {
        s \<leftarrow> allocate s NODE_SLAB_GROW;
        let s' = thread_nodes [node_brk s ..< node_brk s + node_slab s] s;
        Some (s'\<lparr>node_brk := node_brk s + node_slab s\<rparr>) } else Some s) = Some s1"
    and g1: "good s1 xs fl1" and ne: "fl1 \<noteq> []" and sm: "same s s1"
    by (rule alloc_node_refill [OF g])
  obtain a fl2 where fl1: "fl1 = a # fl2" using ne by (cases fl1) auto
  then obtain nd where nd: "free_nodes s1 = NodeP a" "nodes s1 a = Some nd"
    and ch: "free_chain s1 (next_p nd) fl2"
    using g1 by (auto simp: good_def)
  let ?s = "s1\<lparr>free_nodes := next_p nd\<rparr>"
  have al: "alloc_node s = Some (NodeP a, ?s)"
    unfolding alloc_node_def s1 using nd by simp
  have ch2: "free_chain ?s p l = free_chain s1 p l" for p l
    by (rule free_chain_cong) simp
  have g2: "good ?s xs fl2"
    using g1 ch by (auto simp: good_def fl1 ch2)
  have sm2: "same s ?s" using sm by (simp add: same_def)
  show ?thesis
    by (rule that [OF al _ _ _ g2 sm2]) (use g1 nd in \<open>auto simp: good_def fl1\<close>)
qed

definition fresh_node :: "nat \<Rightarrow> node" where
  "fresh_node ord = \<lparr>pointers = replicate ord Null, keys = replicate (ord - 1) 0, parent = Null,
     is_leaf = False, num_keys = 0, next_p = Null\<rparr>"

lemma good_add:
  assumes g: "good s xs fl" and a: "a \<notin> fst ` set xs" "a \<notin> set fl" "a < node_brk s"
    and r: "node_rel (order s) nd c"
  shows "good (set_node s (NodeP a) nd) ((a, c) # xs) fl"
proof -
  have "free_chain (set_node s (NodeP a) nd) (free_nodes s) fl"
    using g a by (subst free_chain_cong [of _ _ s]) (auto simp: good_def)
  moreover have "\<forall>(b, d) \<in> set xs. \<exists>nd'. nodes (set_node s (NodeP a) nd) b = Some nd' \<and>
      node_rel (order s) nd' d"
    using g a by (fastforce simp: good_def image_iff)
  ultimately show ?thesis
    using g a r by (auto simp: good_def)
qed

lemma make_node_good:
  assumes g: "good s xs fl"
  obtains a s' fl' where "make_node s = Some (NodeP a, s')"
    and "good s' ((a, Cell Null False [] [Null] None) # xs) fl'" and "same s s'"
    and "nodes s' a = Some (fresh_node (order s))"
proof -
  obtain a s1 fl1 where al: "alloc_node s = Some (NodeP a, s1)" and a: "a \<notin> fst ` set xs"
    "a \<notin> set fl1" "a < node_brk s1" and g1: "good s1 xs fl1" and m1: "same s s1"
    by (rule alloc_node_good [OF g])
  let ?s2 = "s1\<lparr>allocator_stat := allocator_stat s1 + of_nat ((order s1 - 1) * 8) +
      of_nat (order s1 * 8), n_alloc := Suc (Suc (n_alloc s1))\<rparr>"
  have m2: "same s1 ?s2" by (simp add: same_def)
  have g2: "good ?s2 xs fl1" by (rule good_same_nodes [OF g1 _ _ _ m2]) simp_all
  let ?nd = "fresh_node (order s)"
  have o: "order s1 = order s" using m1 by (rule same_order)
  have r: "node_rel (order ?s2) ?nd (Cell Null False [] [Null] None)"
    using good_order [OF g] by (auto simp: node_rel_def fresh_node_def o take_Suc)
  let ?s3 = "set_node ?s2 (NodeP a) ?nd"
  have "make_node s = Some (NodeP a, ?s3)"
    using g1 by (simp add: make_node_def al allocate_align64_def good_def o fresh_node_def)
  moreover have "good ?s3 ((a, Cell Null False [] [Null] None) # xs) fl1"
    using good_add [OF g2 _ _ _ r] a by simp
  moreover have "same s ?s3" by (rule same_trans [OF m1 same_trans [OF m2 same_set_node]])
  ultimately show ?thesis by (rule that) simp
qed

lemma make_leaf_good:
  assumes g: "good s xs fl"
  obtains a s' fl' where "make_leaf s = Some (NodeP a, s')"
    and "good s' ((a, Cell Null True [] [] (Some Null)) # xs) fl'" and "same s s'"
    and "nodes s' a = Some (fresh_node (order s)\<lparr>is_leaf := True\<rparr>)"
proof -
  obtain a s1 fl1 where mk: "make_node s = Some (NodeP a, s1)"
    and g1: "good s1 ((a, Cell Null False [] [Null] None) # xs) fl1" and m1: "same s s1"
    and nd: "nodes s1 a = Some (fresh_node (order s))"
    by (rule make_node_good [OF g])
  let ?nd = "fresh_node (order s)\<lparr>is_leaf := True\<rparr>"
  let ?s = "set_node s1 (NodeP a) ?nd"
  have "node_rel (order s1) ?nd (Cell Null True [] [] (Some Null))"
    using good_order [OF g] by (auto simp: node_rel_def fresh_node_def same_order [OF m1])
  then have g2: "good ?s ((a, Cell Null True [] [] (Some Null)) # xs) fl1"
    by (rule good_set_node [OF g1])
  have "make_leaf s = Some (NodeP a, ?s)"
    by (simp add: make_leaf_def mk nd)
  then show ?thesis
    using g2 by (rule that) (use m1 in \<open>auto intro: same_trans\<close>)
qed

end
