(* ===== verification/Btree_Pure.thy ===== *)
theory Btree_Pure
  imports Btree_Rep
begin

text \<open>
  B+ trees without a store: key order between separators, node sizes and uniform height,
  the key/record sequence, the chain of leaves, and the upward pass of an insertion over
  a path of parent frames.  The lemmas show that the upward pass keeps every part of the
  tree invariant and inserts nothing but the new entries.
\<close>

section \<open>Order of the keys\<close>

fun lo_le :: "u64 option \<Rightarrow> u64 \<Rightarrow> bool" where
  "lo_le None k = True"
| "lo_le (Some l) k = (l \<le> k)"

fun lo_lt :: "u64 option \<Rightarrow> u64 \<Rightarrow> bool" where
  "lo_lt None k = True"
| "lo_lt (Some l) k = (l < k)"

fun hi_gt :: "u64 \<Rightarrow> u64 option \<Rightarrow> bool" where
  "hi_gt k None = True"
| "hi_gt k (Some h) = (k < h)"

lemma lo_lt_trans: "lo_lt lo k \<Longrightarrow> k \<le> k' \<Longrightarrow> lo_lt lo k'"
  by (cases lo) auto

lemma lo_le_trans: "lo_le lo k \<Longrightarrow> k \<le> k' \<Longrightarrow> lo_le lo k'"
  by (cases lo) auto

lemma lo_le_lt: "lo_le lo k \<Longrightarrow> k < k' \<Longrightarrow> lo_lt lo k'"
  by (cases lo) auto

lemma lo_lt_le: "lo_lt lo k \<Longrightarrow> lo_le lo k"
  by (cases lo) auto

lemma hi_gt_trans: "hi_gt k hi \<Longrightarrow> k' \<le> k \<Longrightarrow> hi_gt k' hi"
  by (cases hi) auto

lemmas bound_trans = lo_lt_trans lo_le_trans lo_le_lt lo_lt_le hi_gt_trans

text \<open>Separators lie strictly inside the bounds; a separator is a lower bound of what follows.\<close>

fun ordered :: "u64 option \<Rightarrow> bt \<Rightarrow> u64 option \<Rightarrow> bool"
  and ord_children :: "u64 option \<Rightarrow> u64 list \<Rightarrow> bt list \<Rightarrow> u64 option \<Rightarrow> bool" where
  "ordered lo (Lf a ks rs l) hi \<longleftrightarrow> sorted_wrt (<) ks \<and> (\<forall>k \<in> set ks. lo_le lo k \<and> hi_gt k hi)"
| "ordered lo (Nd a ks cs) hi \<longleftrightarrow> ord_children lo ks cs hi"
| "ord_children lo [] [c] hi \<longleftrightarrow> ordered lo c hi"
| "ord_children lo (k # ks) (c # cs) hi \<longleftrightarrow>
     lo_lt lo k \<and> hi_gt k hi \<and> ordered lo c (Some k) \<and> ord_children (Some k) ks cs hi"
| "ord_children lo ks cs hi \<longleftrightarrow> False"

lemma ord_children_append:
  "length cs1 = Suc (length ks1) \<Longrightarrow>
   ord_children lo (ks1 @ k # ks2) (cs1 @ cs2) hi \<longleftrightarrow>
     ord_children lo ks1 cs1 (Some k) \<and> lo_lt lo k \<and> hi_gt k hi \<and> ord_children (Some k) ks2 cs2 hi"
proof (induction ks1 arbitrary: lo cs1)
  case Nil
  then obtain c where "cs1 = [c]" by (cases cs1) auto
  then show ?case by auto
next
  case (Cons k1 ks1)
  then obtain c cs' where cs1: "cs1 = c # cs'" "length cs' = Suc (length ks1)"
    by (cases cs1) auto
  show ?case
    unfolding cs1 using Cons.IH [OF cs1(2), of "Some k1"]
    by (auto intro: lo_lt_trans hi_gt_trans less_imp_le)
qed

definition seg_lo :: "u64 option \<Rightarrow> u64 list \<Rightarrow> u64 option" where
  "seg_lo L kl = (if kl = [] then L else Some (last kl))"

definition seg_hi :: "u64 list \<Rightarrow> u64 option \<Rightarrow> u64 option" where
  "seg_hi kr H = (if kr = [] then H else Some (hd kr))"

lemma ord_children_right:
  assumes "length cr = length kr" and "length ts = Suc (length ks)"
  shows "ord_children lo (ks @ kr) (ts @ cr) H \<longleftrightarrow>
    ord_children lo ks ts (seg_hi kr H) \<and>
    (kr \<noteq> [] \<longrightarrow> lo_lt lo (hd kr) \<and> hi_gt (hd kr) H \<and> ord_children (Some (hd kr)) (tl kr) cr H)"
proof (cases kr)
  case Nil
  with assms show ?thesis by (simp add: seg_hi_def)
next
  case (Cons k kr')
  with assms show ?thesis by (simp add: seg_hi_def ord_children_append)
qed

lemma ord_children_left:
  assumes "length cl = length kl"
  shows "ord_children lo (kl @ ks) (cl @ ts) H \<longleftrightarrow>
    ord_children (seg_lo lo kl) ks ts H \<and>
    (kl \<noteq> [] \<longrightarrow> ord_children lo (butlast kl) cl (Some (last kl)) \<and> lo_lt lo (last kl) \<and>
       hi_gt (last kl) H)"
proof (cases kl rule: rev_cases)
  case Nil
  with assms show ?thesis by (simp add: seg_lo_def)
next
  case (snoc kl' k)
  with assms show ?thesis by (auto simp: seg_lo_def ord_children_append)
qed

text \<open>A run of children may be replaced by any other run that fits between its neighbours.\<close>

lemma ord_children_seg:
  assumes o: "ord_children L (kl @ ks @ kr) (cl @ ts @ cr) H"
    and len: "length cl = length kl" "length cr = length kr" "length ts = Suc (length ks)"
  shows "ord_children (seg_lo L kl) ks ts (seg_hi kr H)"
    and "length ts' = Suc (length ks') \<Longrightarrow> ord_children (seg_lo L kl) ks' ts' (seg_hi kr H) \<Longrightarrow>
      ord_children L (kl @ ks' @ kr) (cl @ ts' @ cr) H"
  using o by (simp_all add: ord_children_left ord_children_right len)

lemma ord_children_seg_bounds:
  assumes "ord_children L (kl @ ks @ kr) (cl @ ts @ cr) H"
    and "length cl = length kl" "length cr = length kr" "length ts = Suc (length ks)"
  shows "lo_le (seg_lo L kl) k \<Longrightarrow> lo_le L k" and "hi_gt k (seg_hi kr H) \<Longrightarrow> hi_gt k H"
  using assms
  by (auto simp: ord_children_left ord_children_right seg_lo_def seg_hi_def
      intro: bound_trans split: if_splits)

section \<open>Sizes, heights, contents\<close>

fun shape :: "nat \<Rightarrow> nat \<Rightarrow> bt \<Rightarrow> bool" where
  "shape ord h (Lf a ks rs l) \<longleftrightarrow>
     h = 0 \<and> cut (ord - 1) \<le> length ks \<and> length ks \<le> ord - 1 \<and> length rs = length ks"
| "shape ord h (Nd a ks cs) \<longleftrightarrow>
     h \<noteq> 0 \<and> cut ord - 1 \<le> length ks \<and> length ks \<le> ord - 1 \<and> length cs = Suc (length ks) \<and>
     (\<forall>c \<in> set cs. shape ord (h - 1) c)"

definition root_shape :: "nat \<Rightarrow> nat \<Rightarrow> bt \<Rightarrow> bool" where
  "root_shape ord h t \<longleftrightarrow> (case t of
       Lf a ks rs l \<Rightarrow> h = 0 \<and> 1 \<le> length ks \<and> length ks \<le> ord - 1 \<and> length rs = length ks
     | Nd a ks cs \<Rightarrow> h \<noteq> 0 \<and> 1 \<le> length ks \<and> length ks \<le> ord - 1 \<and>
         length cs = Suc (length ks) \<and> (\<forall>c \<in> set cs. shape ord (h - 1) c))"

fun kvs :: "bt \<Rightarrow> (u64 \<times> ptr) list" where
  "kvs (Lf a ks rs l) = zip ks rs"
| "kvs (Nd a ks cs) = concat (map kvs cs)"

fun leafseq :: "bt \<Rightarrow> (nat \<times> ptr) list" where
  "leafseq (Lf a ks rs l) = [(a, l)]"
| "leafseq (Nd a ks cs) = concat (map leafseq cs)"

text \<open>Each leaf's last pointer is the next leaf.\<close>

fun linked :: "(nat \<times> ptr) list \<Rightarrow> ptr \<Rightarrow> bool" where
  "linked [] z = True"
| "linked [(a, l)] z = (l = z)"
| "linked ((a, l) # (b, m) # xs) z = (l = NodeP b \<and> linked ((b, m) # xs) z)"

definition first_leaf :: "(nat \<times> ptr) list \<Rightarrow> ptr \<Rightarrow> ptr" where
  "first_leaf xs z = (case xs of [] \<Rightarrow> z | (a, l) # _ \<Rightarrow> NodeP a)"

lemma linked_append:
  "linked (xs @ ys) z \<longleftrightarrow> linked xs (first_leaf ys z) \<and> linked ys z"
  by (induction xs z rule: linked.induct) (auto simp: first_leaf_def split: list.splits)

lemma cut_bounds:
  assumes "3 \<le> ord"
  shows "2 \<le> cut ord" "cut ord < ord" "2 * cut ord \<le> ord + 1" "1 \<le> cut (ord - 1)"
    "cut (ord - 1) < ord" "2 * cut (ord - 1) \<le> ord" "ord \<le> 2 * cut ord" "ord - 1 \<le> 2 * cut (ord - 1)"
  using assms unfolding cut_def by presburger+

lemma shape_root: "3 \<le> ord \<Longrightarrow> shape ord h t \<Longrightarrow> root_shape ord h t"
  using cut_bounds [of ord] by (cases t) (auto simp: root_shape_def)

section \<open>Paths of parent frames\<close>

datatype frame = Frame nat "u64 list" "bt list" "u64 list" "bt list"

fun plug :: "bt \<Rightarrow> frame list \<Rightarrow> bt" where
  "plug t [] = t"
| "plug t (Frame a kl cl kr cr # fs) = plug (Nd a (kl @ kr) (cl @ t # cr)) fs"

fun par_of :: "frame list \<Rightarrow> ptr" where
  "par_of [] = Null"
| "par_of (Frame a kl cl kr cr # fs) = NodeP a"

fun ctx_cells :: "ptr \<Rightarrow> frame list \<Rightarrow> (nat \<times> cell) list" where
  "ctx_cells p [] = []"
| "ctx_cells p (Frame a kl cl kr cr # fs) =
     (a, Cell (par_of fs) False (kl @ kr) (map ptr_of cl @ p # map ptr_of cr) None) #
     concat (map (cells (NodeP a)) (cl @ cr)) @ ctx_cells (NodeP a) fs"

lemma mset_cells_plug:
  "mset (cells Null (plug t fs)) = mset (cells (par_of fs) t) + mset (ctx_cells (ptr_of t) fs)"
proof (induction t fs rule: plug.induct)
  case (1 t)
  then show ?case by simp
next
  case (2 t a kl cl kr cr fs)
  then show ?case by (simp add: ac_simps)
qed

fun hole_lo :: "frame list \<Rightarrow> u64 option" where
  "hole_lo [] = None"
| "hole_lo (Frame a kl cl kr cr # fs) = seg_lo (hole_lo fs) kl"

fun hole_hi :: "frame list \<Rightarrow> u64 option" where
  "hole_hi [] = None"
| "hole_hi (Frame a kl cl kr cr # fs) = seg_hi kr (hole_hi fs)"

fun frames_ok :: "frame list \<Rightarrow> bool" where
  "frames_ok [] = True"
| "frames_ok (Frame a kl cl kr cr # fs) \<longleftrightarrow>
     length cl = length kl \<and> length cr = length kr \<and> frames_ok fs"

lemma plug_ordered:
  assumes "frames_ok fs" and "ordered None (plug t fs) None"
  shows "ordered (hole_lo fs) t (hole_hi fs)"
    and "ordered (hole_lo fs) t' (hole_hi fs) \<Longrightarrow> ordered None (plug t' fs) None"
proof -
  have "ordered (hole_lo fs) t (hole_hi fs) \<and>
      (\<forall>t'. ordered (hole_lo fs) t' (hole_hi fs) \<longrightarrow> ordered None (plug t' fs) None)"
    using assms
  proof (induction t fs rule: plug.induct)
    case (1 t)
    then show ?case by simp
  next
    case (2 t a kl cl kr cr fs)
    then have len: "length cl = length kl" "length cr = length kr"
      and o: "ord_children (hole_lo fs) (kl @ [] @ kr) (cl @ [t] @ cr) (hole_hi fs)"
      and up: "\<And>t'. ordered (hole_lo fs) t' (hole_hi fs) \<Longrightarrow> ordered None (plug t' fs) None"
      by simp_all
    show ?case
      using ord_children_seg(1) [OF o len] ord_children_seg(2) [OF o len, of "[_]" "[]"] up
      by simp
  qed
  then show "ordered (hole_lo fs) t (hole_hi fs)"
    and "ordered (hole_lo fs) t' (hole_hi fs) \<Longrightarrow> ordered None (plug t' fs) None" by blast+
qed

fun ctx_shape :: "nat \<Rightarrow> nat \<Rightarrow> frame list \<Rightarrow> bool" where
  "ctx_shape ord h [] = True"
| "ctx_shape ord h (Frame a kl cl kr cr # fs) \<longleftrightarrow>
     length cl = length kl \<and> length cr = length kr \<and>
     (if fs = [] then 1 else cut ord - 1) \<le> length kl + length kr \<and>
     length kl + length kr \<le> ord - 1 \<and>
     (\<forall>c \<in> set cl \<union> set cr. shape ord h c) \<and> ctx_shape ord (Suc h) fs"

definition sub_shape :: "nat \<Rightarrow> nat \<Rightarrow> frame list \<Rightarrow> bt \<Rightarrow> bool" where
  "sub_shape ord h fs t \<longleftrightarrow> (if fs = [] then root_shape ord h t else shape ord h t)"

lemma ctx_shape_frames: "ctx_shape ord h fs \<Longrightarrow> frames_ok fs"
  by (induction ord h fs rule: ctx_shape.induct) auto

lemma plug_shape:
  "root_shape ord H (plug t fs) \<longleftrightarrow> (\<exists>h. H = h + length fs \<and> sub_shape ord h fs t \<and> ctx_shape ord h fs)"
  if "frames_ok fs"
  using that
proof (induction t fs rule: plug.induct)
  case (1 t)
  then show ?case by (simp add: sub_shape_def)
next
  case (2 t a kl cl kr cr fs)
  have "sub_shape ord h fs (Nd a (kl @ kr) (cl @ t # cr)) \<and> ctx_shape ord h fs \<longleftrightarrow>
      (\<exists>h'. h = Suc h' \<and> shape ord h' t \<and> ctx_shape ord h' (Frame a kl cl kr cr # fs))" for h
    using "2.prems" by (cases h) (auto simp: sub_shape_def root_shape_def)
  with "2.IH" "2.prems" show ?case
    by (auto simp: sub_shape_def)
qed

fun ctx_before :: "(bt \<Rightarrow> 'a list) \<Rightarrow> frame list \<Rightarrow> 'a list" where
  "ctx_before f [] = []"
| "ctx_before f (Frame a kl cl kr cr # fs) = ctx_before f fs @ concat (map f cl)"

fun ctx_after :: "(bt \<Rightarrow> 'a list) \<Rightarrow> frame list \<Rightarrow> 'a list" where
  "ctx_after f [] = []"
| "ctx_after f (Frame a kl cl kr cr # fs) = concat (map f cr) @ ctx_after f fs"

lemma plug_seq:
  assumes f: "\<And>a ks cs. f (Nd a ks cs) = concat (map f cs)"
  shows "f (plug t fs) = ctx_before f fs @ f t @ ctx_after f fs"
  by (induction t fs rule: plug.induct) (simp_all add: f)

lemmas kvs_plug = plug_seq [of kvs, OF kvs.simps(2)]
lemmas leafseq_plug = plug_seq [of leafseq, OF leafseq.simps(2)]

section \<open>The upward pass of an insertion\<close>

text \<open>
  \<open>l\<close>, \<open>k\<close> and \<open>r\<close> replace the subtree in the hole; a full parent is split at \<open>cut ord\<close>
  and the pass goes on one level up.  The addresses of new nodes come from \<open>news\<close>.
\<close>

fun ins_up :: "nat \<Rightarrow> bt \<Rightarrow> u64 \<Rightarrow> bt \<Rightarrow> frame list \<Rightarrow> nat list \<Rightarrow> bt" where
  "ins_up ord l k r [] news = Nd (hd news) [k] [l, r]"
| "ins_up ord l k r (Frame a kl cl kr cr # fs) news =
    (let ks = kl @ k # kr; cs = cl @ l # r # cr; sp = cut ord in
     if length kl + length kr < ord - 1 then plug (Nd a ks cs) fs
     else ins_up ord (Nd a (take (sp - 1) ks) (take sp cs)) (ks ! (sp - 1))
            (Nd (hd news) (drop sp ks) (drop sp cs)) fs (tl news))"

lemma ins_up_seq:
  assumes f: "\<And>a ks cs. f (Nd a ks cs) = concat (map f cs)"
  shows "f (ins_up ord l k r fs news) = ctx_before f fs @ f l @ f r @ ctx_after f fs"
proof (induction ord l k r fs news rule: ins_up.induct)
  case (1 ord l k r news)
  then show ?case by (simp add: f)
next
  case (2 ord l k r a kl cl kr cr fs news)
  define ks where "ks = kl @ k # kr"
  define cs where "cs = cl @ l # r # cr"
  have td: "concat (map f (take n cs)) @ concat (map f (drop n cs)) @ zs = concat (map f cs) @ zs"
    for n zs by (metis append_take_drop_id append_assoc concat_append map_append)
  have "f (ins_up ord l k r (Frame a kl cl kr cr # fs) news) =
      ctx_before f fs @ concat (map f cs) @ ctx_after f fs"
  proof (cases "length kl + length kr < ord - 1")
    case True
    then show ?thesis by (simp add: plug_seq [OF f] f cs_def)
  next
    case False
    with "2.IH" [OF ks_def cs_def refl False] show ?thesis
      by (simp add: ks_def [symmetric] cs_def [symmetric] f td Let_def)
  qed
  then show ?case by (simp add: cs_def)
qed

lemmas ins_up_kvs = ins_up_seq [of kvs, OF kvs.simps(2)]
lemmas ins_up_leafseq = ins_up_seq [of leafseq, OF leafseq.simps(2)]

lemma ordered_split:
  assumes "ord_children lo ks cs hi" and "i < length ks" and "length cs = Suc (length ks)"
  shows "ord_children lo (take i ks) (take (Suc i) cs) (Some (ks ! i))"
    and "lo_lt lo (ks ! i)" and "hi_gt (ks ! i) hi"
    and "ord_children (Some (ks ! i)) (drop (Suc i) ks) (drop (Suc i) cs) hi"
proof -
  have "ord_children lo (take i ks @ ks ! i # drop (Suc i) ks) (take (Suc i) cs @ drop (Suc i) cs) hi"
    using assms by (simp add: id_take_nth_drop [symmetric])
  moreover have "length (take (Suc i) cs) = Suc (length (take i ks))"
    using assms by simp
  ultimately show "ord_children lo (take i ks) (take (Suc i) cs) (Some (ks ! i))"
    and "lo_lt lo (ks ! i)" and "hi_gt (ks ! i) hi"
    and "ord_children (Some (ks ! i)) (drop (Suc i) ks) (drop (Suc i) cs) hi"
    by (simp_all only: ord_children_append)
qed

lemma ins_up_ordered:
  assumes "3 \<le> ord" and "frames_ok fs" and "\<exists>t0. ordered None (plug t0 fs) None"
    and "ordered (hole_lo fs) l (Some k)" and "lo_lt (hole_lo fs) k" and "hi_gt k (hole_hi fs)"
    and "ordered (Some k) r (hole_hi fs)"
  shows "ordered None (ins_up ord l k r fs news) None"
  using assms
proof (induction ord l k r fs news rule: ins_up.induct)
  case (1 ord l k r news)
  then show ?case by simp
next
  case (2 ord l k r a kl cl kr cr fs news)
  let ?ks = "kl @ k # kr" and ?cs = "cl @ l # r # cr" and ?sp = "cut ord"
  from "2.prems" have len: "length cl = length kl" "length cr = length kr" and ok: "frames_ok fs"
    by simp_all
  from "2.prems"(3) obtain t0 where t0: "ordered None (plug (Nd a (kl @ kr) (cl @ t0 # cr)) fs) None"
    by auto
  then have seg: "ord_children (hole_lo fs) (kl @ [] @ kr) (cl @ [t0] @ cr) (hole_hi fs)"
    using plug_ordered(1) [OF ok t0] by simp
  have new: "ord_children (hole_lo fs) ?ks ?cs (hole_hi fs)"
    using ord_children_seg(2) [OF seg len, of "[l, r]" "[k]"] "2.prems" by simp
  show ?case
  proof (cases "length kl + length kr < ord - 1")
    case True
    have "ordered None (plug (Nd a ?ks ?cs) fs) None"
      using plug_ordered(2) [OF ok t0] new by simp
    with True show ?thesis by simp
  next
    case False
    have i: "?sp - 1 < length ?ks" "Suc (?sp - 1) = ?sp" "length ?cs = Suc (length ?ks)"
      using False len cut_bounds [OF "2.prems"(1)] by simp_all
    note sp = ordered_split [OF new i(1,3), unfolded i(2)]
    show ?thesis
      using "2.IH" [OF refl refl refl False "2.prems"(1) ok] t0 sp False
      by (auto simp: Let_def simp del: ordered.simps(1))
  qed
qed

lemma split_shape:
  assumes "3 \<le> ord" and "length ks = ord" and "length cs = Suc ord"
    and "\<forall>c \<in> set cs. shape ord h c"
  shows "shape ord (Suc h) (Nd a (take (cut ord - 1) ks) (take (cut ord) cs))"
    and "shape ord (Suc h) (Nd b (drop (cut ord) ks) (drop (cut ord) cs))"
  using assms cut_bounds [OF assms(1)] by (auto dest: in_set_takeD in_set_dropD)

lemma ins_up_shape:
  assumes "3 \<le> ord" and "ctx_shape ord h fs" and "shape ord h l" and "shape ord h r"
  shows "\<exists>H. root_shape ord H (ins_up ord l k r fs news)"
  using assms
proof (induction ord l k r fs news arbitrary: h rule: ins_up.induct)
  case (1 ord l k r news)
  then show ?case by (auto simp: root_shape_def intro!: exI [of _ "Suc h"])
next
  case (2 ord l k r a kl cl kr cr fs news)
  let ?ks = "kl @ k # kr" and ?cs = "cl @ l # r # cr" and ?sp = "cut ord"
  from "2.prems" have len: "length cl = length kl" "length cr = length kr"
    and up: "ctx_shape ord (Suc h) fs" and ch: "\<forall>c \<in> set ?cs. shape ord h c"
    by auto
  show ?case
  proof (cases "length kl + length kr < ord - 1")
    case True
    have "sub_shape ord (Suc h) fs (Nd a ?ks ?cs)"
      using True len ch "2.prems"(2) by (auto simp: sub_shape_def root_shape_def)
    then have "\<exists>H. root_shape ord H (plug (Nd a ?ks ?cs) fs)"
      using up by (auto simp: plug_shape [OF ctx_shape_frames [OF up]])
    with True show ?thesis by simp
  next
    case False
    have n: "length kl + length kr = ord - 1" using False "2.prems"(2) by simp
    have "shape ord (Suc h) (Nd a (take (?sp - 1) ?ks) (take ?sp ?cs))"
      and "shape ord (Suc h) (Nd (hd news) (drop ?sp ?ks) (drop ?sp ?cs))"
      using n len ch "2.prems"(1) by (intro split_shape; simp)+
    from "2.IH" [OF refl refl refl False "2.prems"(1) up this] False show ?thesis
      by (simp add: Let_def)
  qed
qed

section \<open>Keys in order, and the path of a search\<close>

lemma ordered_kvs:
  "ordered lo t hi \<Longrightarrow> sorted_wrt (<) (map fst (kvs t)) \<and>
     (\<forall>k \<in> set (map fst (kvs t)). lo_le lo k \<and> hi_gt k hi)"
  "ord_children lo ks cs hi \<Longrightarrow> sorted_wrt (<) (map fst (concat (map kvs cs))) \<and>
     (\<forall>k \<in> set (map fst (concat (map kvs cs))). lo_le lo k \<and> hi_gt k hi)"
proof (induction lo t hi and lo ks cs hi rule: ordered_ord_children.induct)
  case (1 lo a ks rs l hi)
  then show ?case
    by (auto simp: map_fst_zip_take sorted_wrt_take dest: in_set_takeD)
next
  case (4 lo k ks c cs hi)
  let ?A = "map fst (kvs c)" and ?B = "map fst (concat (map kvs cs))"
  from 4 have A: "sorted_wrt (<) ?A" "\<forall>x \<in> set ?A. lo_le lo x \<and> x < k"
    and B: "sorted_wrt (<) ?B" "\<forall>x \<in> set ?B. k \<le> x \<and> hi_gt x hi"
    and k: "lo_lt lo k" "hi_gt k hi" by auto
  have "sorted_wrt (<) (?A @ ?B)"
    unfolding sorted_wrt_append using A B by (meson less_le_trans)
  moreover have "\<forall>x \<in> set (?A @ ?B). lo_le lo x \<and> hi_gt x hi"
    using A(2) B(2) k(2) lo_le_trans [OF lo_lt_le [OF k(1)]]
    by (auto intro: hi_gt_trans less_imp_le)
  ultimately show ?case by simp
qed auto

function zoom :: "u64 \<Rightarrow> bt \<Rightarrow> frame list \<Rightarrow> bt \<times> frame list" where
  "zoom key (Lf a ks rs l) fs = (Lf a ks rs l, fs)"
| "zoom key (Nd a ks cs) fs =
    (let i = length (takeWhile (\<lambda>k. k \<le> key) ks) in
     if i < length cs
     then zoom key (cs ! i) (Frame a (take i ks) (take i cs) (drop i ks) (drop (Suc i) cs) # fs)
     else (Nd a ks cs, fs))"
  by pat_completeness auto
termination
proof (relation "measure (\<lambda>(key, t, fs). size t)")
  fix key :: u64 and a ks and cs :: "bt list" and fs :: "frame list" and i :: nat
  assume "i < length cs"
  then have "size (cs ! i) \<le> size_list size cs" by (intro size_list_estimation') auto
  then show "((key, cs ! i, Frame a (take i ks) (take i cs) (drop i ks) (drop (Suc i) cs) # fs),
      (key, Nd a ks cs, fs)) \<in> measure (\<lambda>(key, t, fs). size t)" by simp
qed simp

lemma zoom_plug: "plug (fst (zoom key t fs)) (snd (zoom key t fs)) = plug t fs"
proof (induction key t fs rule: zoom.induct)
  case (2 key a ks cs fs)
  then show ?case by (auto simp: Let_def id_take_nth_drop [symmetric])
qed simp

lemma zoom_shape:
  "sub_shape ord h fs t \<Longrightarrow> ctx_shape ord h fs \<Longrightarrow>
   \<exists>a ks rs l. fst (zoom key t fs) = Lf a ks rs l \<and> sub_shape ord 0 (snd (zoom key t fs)) (Lf a ks rs l) \<and>
     ctx_shape ord 0 (snd (zoom key t fs))"
proof (induction key t fs arbitrary: h rule: zoom.induct)
  case (1 key a ks rs l fs)
  then have "h = 0" by (auto simp: sub_shape_def root_shape_def split: if_splits)
  with 1 show ?case by simp
next
  case (2 key a ks cs fs)
  define i where "i = length (takeWhile (\<lambda>k. k \<le> key) ks)"
  have len: "length cs = Suc (length ks)" and ch: "\<forall>c \<in> set cs. shape ord (h - 1) c" and h: "h \<noteq> 0"
    using "2.prems" by (auto simp: sub_shape_def root_shape_def split: if_splits)
  have i: "i \<le> length ks" by (simp add: i_def length_takeWhile_le)
  let ?fs = "Frame a (take i ks) (take i cs) (drop i ks) (drop (Suc i) cs) # fs"
  have "ctx_shape ord (h - 1) ?fs"
    using "2.prems" len ch h i
    by (auto simp: sub_shape_def root_shape_def dest: in_set_takeD in_set_dropD split: if_splits)
  moreover have "sub_shape ord (h - 1) ?fs (cs ! i)"
    using ch i len by (simp add: sub_shape_def)
  ultimately show ?case
    using "2.IH" [OF i_def] i len by (simp add: i_def [symmetric] Let_def)
qed

lemma zoom_bounds:
  "lo_le (hole_lo fs) key \<Longrightarrow> hi_gt key (hole_hi fs) \<Longrightarrow>
   lo_le (hole_lo (snd (zoom key t fs))) key \<and> hi_gt key (hole_hi (snd (zoom key t fs)))"
proof (induction key t fs rule: zoom.induct)
  case (2 key a ks cs fs)
  define i where "i = length (takeWhile (\<lambda>k. k \<le> key) ks)"
  have tw: "take i ks = takeWhile (\<lambda>k. k \<le> key) ks" "drop i ks = dropWhile (\<lambda>k. k \<le> key) ks"
    by (simp_all add: i_def takeWhile_eq_take [symmetric] dropWhile_eq_drop [symmetric])
  have "lo_le (seg_lo (hole_lo fs) (take i ks)) key"
    using "2.prems" set_takeWhileD [OF last_in_set, of "\<lambda>k. k \<le> key" ks]
    by (auto simp: seg_lo_def tw)
  moreover have "hi_gt key (seg_hi (drop i ks) (hole_hi fs))"
    using "2.prems" hd_dropWhile [of "\<lambda>k. k \<le> key" ks] by (auto simp: seg_hi_def tw not_le)
  ultimately show ?case
    using "2.IH" [OF i_def] "2.prems" by (auto simp: i_def [symmetric] Let_def)
qed simp

lemma hole_outside:
  assumes "frames_ok fs" and "ordered None (plug t fs) None"
  shows "(\<forall>k \<in> set (map fst (ctx_before kvs fs)). \<forall>key. lo_le (hole_lo fs) key \<longrightarrow> k < key) \<and>
    (\<forall>k \<in> set (map fst (ctx_after kvs fs)). \<forall>key. hi_gt key (hole_hi fs) \<longrightarrow> key < k)"
  using assms
proof (induction t fs rule: plug.induct)
  case (2 t a kl cl kr cr fs)
  then have len: "length cl = length kl" "length cr = length kr" and ok: "frames_ok fs"
    and o: "ordered None (plug (Nd a (kl @ kr) (cl @ t # cr)) fs) None" by simp_all
  have oc: "ord_children (hole_lo fs) (kl @ [] @ kr) (cl @ [t] @ cr) (hole_hi fs)"
    using plug_ordered(1) [OF ok o] by simp
  note b = ord_children_seg_bounds [OF oc len, simplified]
  have L: "k < last kl" "kl \<noteq> []" if "k \<in> set (map fst (concat (map kvs cl)))" for k
    using that oc ordered_kvs(2) [of "hole_lo fs" "butlast kl" cl "Some (last kl)"] len
    by (auto simp: ord_children_left)
  have R: "hd kr \<le> k" "kr \<noteq> []" if "k \<in> set (map fst (concat (map kvs cr)))" for k
  proof -
    show ne: "kr \<noteq> []" using that len by auto
    have "ord_children (Some (hd kr)) (tl kr) cr (hole_hi fs)"
      using oc len ne by (cases kr) (simp_all add: ord_children_left)
    from ordered_kvs(2) [OF this] that show "hd kr \<le> k" by auto
  qed
  have "k < key" if "k \<in> set (map fst (ctx_before kvs fs @ concat (map kvs cl)))"
    "lo_le (seg_lo (hole_lo fs) kl) key" for k key
  proof (cases "k \<in> set (map fst (concat (map kvs cl)))")
    case True
    from L [OF True] that(2) show ?thesis by (simp add: seg_lo_def)
  next
    case False
    with that(1) have "k \<in> set (map fst (ctx_before kvs fs))" by auto
    with "2.IH" [OF ok o] b(1) [OF that(2)] show ?thesis by blast
  qed
  moreover have "key < k" if "k \<in> set (map fst (concat (map kvs cr) @ ctx_after kvs fs))"
    "hi_gt key (seg_hi kr (hole_hi fs))" for k key
  proof (cases "k \<in> set (map fst (concat (map kvs cr)))")
    case True
    from R [OF True] that(2) show ?thesis by (simp add: seg_hi_def)
  next
    case False
    with that(1) have "k \<in> set (map fst (ctx_after kvs fs))" by auto
    with "2.IH" [OF ok o] b(2) [OF that(2)] show ?thesis by blast
  qed
  ultimately show ?case by auto
qed simp

text \<open>Whatever the key, only the leaf that the search reaches can hold it.\<close>

lemma map_of_hole:
  assumes "frames_ok fs" and "ordered None (plug t fs) None"
    and "lo_le (hole_lo fs) key" and "hi_gt key (hole_hi fs)"
  shows "map_of (kvs (plug t fs)) key = map_of (kvs t) key"
proof -
  have "key \<notin> set (map fst (ctx_before kvs fs))" "key \<notin> set (map fst (ctx_after kvs fs))"
    using hole_outside [OF assms(1,2)] assms(3,4) by auto
  then have "map_of (ctx_before kvs fs) key = None" "map_of (ctx_after kvs fs) key = None"
    by (simp_all add: map_of_eq_None_iff)
  then show ?thesis by (simp add: kvs_plug map_add_def split: option.split)
qed

end
