(* ===== verification/Btree_Insert.thy ===== *)
theory Btree_Insert
  imports Btree_Pure
begin

text \<open>
  Search and insertion on a store that holds a tree: \<open>find_leaf\<close> follows \<open>zoom\<close>, the leaf
  and node operations insert into one cell or split it, and \<open>insert_into_parent\<close> is the
  upward pass \<open>ins_up\<close>.
\<close>

section \<open>Search\<close>

lemma node_rel_scan:
  assumes "node_rel ord nd c"
  shows "scan P (keys nd) (num_keys nd) 0 = Some (length (takeWhile P (c_keys c)))"
  using assms by (auto simp: node_rel_def scan_take)

lemma node_rel_child:
  assumes "node_rel ord nd (Cell p False ks ps l)" and "i < length ps"
  shows "rd (pointers nd) i = Some (ps ! i)"
proof -
  from assms have ps: "take (Suc (num_keys nd)) (pointers nd) = ps" by (auto simp: node_rel_def)
  have "i < Suc (num_keys nd)" "i < length (pointers nd)"
    using assms(2) unfolding ps [symmetric] by simp_all
  then show ?thesis unfolding ps [symmetric] by (simp add: rd_def)
qed

lemma find_leaf_loop_zoom:
  assumes "good s xs fl" and "set (cells p t) \<subseteq> set xs" and "sub_shape (order s) h fs t"
  shows "find_leaf_loop s key (ptr_of t) = Some (ptr_of (fst (zoom key t fs)))"
  using assms(2,3)
proof (induction key t fs arbitrary: p h rule: zoom.induct)
  case (1 key a ks rs l fs)
  then obtain nd where "nodes s a = Some nd" "node_rel (order s) nd (Cell p True ks rs (Some l))"
    using good_get [OF assms(1), of a "Cell p True ks rs (Some l)"] by auto
  then show ?case by (simp add: find_leaf_loop.simps node_rel_def)
next
  case (2 key a ks cs fs)
  define i where "i = length (takeWhile (\<lambda>k. k \<le> key) ks)"
  have len: "length cs = Suc (length ks)" and ch: "\<forall>c \<in> set cs. shape (order s) (h - 1) c"
    using "2.prems" by (auto simp: sub_shape_def root_shape_def split: if_splits)
  have i: "i < length cs" by (simp add: i_def len less_Suc_eq_le length_takeWhile_le)
  obtain nd where nd: "nodes s a = Some nd" "node_rel (order s) nd (Cell p False ks (map ptr_of cs) None)"
    using good_get [OF assms(1), of a "Cell p False ks (map ptr_of cs) None"] "2.prems" by auto
  have "set (cells (NodeP a) (cs ! i)) \<subseteq> set xs" using "2.prems"(1) i by fastforce
  moreover have "sub_shape (order s) (h - 1)
      (Frame a (take i ks) (take i cs) (drop i ks) (drop (Suc i) cs) # fs) (cs ! i)"
    using ch i by (simp add: sub_shape_def)
  ultimately have "find_leaf_loop s key (ptr_of (cs ! i)) =
      Some (ptr_of (fst (zoom key (Nd a ks cs) fs)))"
    using "2.IH" [OF i_def i] i by (simp add: i_def [symmetric] Let_def)
  moreover have "find_leaf_loop s key (NodeP a) = find_leaf_loop s key (ptr_of (cs ! i))"
  proof -
    have "\<not> is_leaf nd" using nd(2) by (simp add: node_rel_def)
    moreover have "rd (pointers nd) i = Some (ptr_of (cs ! i))"
      using node_rel_child [OF nd(2), of i] i by simp
    ultimately show ?thesis
      using nd(1) by (subst find_leaf_loop.simps) (simp add: node_rel_scan [OF nd(2)] i_def [symmetric])
  qed
  ultimately show ?case by simp
qed

lemma map_of_zip_takeWhile:
  "length rs = length ks \<Longrightarrow> map_of (zip ks rs) key =
     (if length (takeWhile (\<lambda>k. k \<noteq> key) ks) < length ks
      then Some (rs ! length (takeWhile (\<lambda>k. k \<noteq> key) ks)) else None)"
proof (induction ks arbitrary: rs)
  case (Cons k ks)
  then show ?case by (cases rs) auto
qed simp

definition rec_ptr :: "ptr option \<Rightarrow> ptr" where
  "rec_ptr r = (case r of None \<Rightarrow> Null | Some p \<Rightarrow> p)"

lemma find_bpt_zoom:
  assumes g: "good s xs fl" and sub: "set (cells p t) \<subseteq> set xs" and sh: "sub_shape (order s) h fs t"
    and leaf: "fst (zoom key t fs) = Lf a ks rs l" and len: "length rs = length ks"
    and mem: "(a, Cell q True ks rs (Some l)) \<in> set xs"
  shows "find_bpt s (ptr_of t) key = Some (rec_ptr (map_of (zip ks rs) key), NodeP a)"
proof -
  obtain nd where nd: "nodes s a = Some nd" "node_rel (order s) nd (Cell q True ks rs (Some l))"
    by (rule good_get [OF g mem])
  define i where "i = length (takeWhile (\<lambda>k. k \<noteq> key) ks)"
  have fl: "find_leaf s (ptr_of t) key = Some (NodeP a)"
    using find_leaf_loop_zoom [OF g sub sh] leaf by (simp add: find_leaf_def)
  have n: "num_keys nd = length ks" and ps: "take (length ks) (pointers nd) = rs"
    "length (pointers nd) = order s" "length ks \<le> order s - 1"
    using nd(2) by (auto simp: node_rel_def)
  have i: "i \<le> length ks" by (simp add: i_def length_takeWhile_le)
  have r: "rd (pointers nd) i = Some (rs ! i)" if "i < length ks"
    using that ps good_order [OF g] by (auto simp: rd_def)
  have "scan (\<lambda>k. k \<noteq> key) (keys nd) (length ks) 0 = Some i"
    using node_rel_scan [OF nd(2), of "\<lambda>k. k \<noteq> key"] n by (simp add: i_def)
  then show ?thesis
    using nd i n r
    by (auto simp: find_bpt_def fl map_of_zip_takeWhile [OF len] rec_ptr_def i_def [symmetric])
qed

section \<open>Inserting into one node\<close>

definition ins_at :: "nat \<Rightarrow> 'a \<Rightarrow> 'a list \<Rightarrow> 'a list" where
  "ins_at i x xs = take i xs @ x # drop i xs"

lemma length_ins_at [simp]: "length (ins_at i x xs) = Suc (length xs)"
  by (simp add: ins_at_def)

lemma ins_at_append [simp]: "ins_at (length xs) x (xs @ ys) = xs @ x # ys"
  by (simp add: ins_at_def)

lemma map_ins_at: "map f (ins_at i x xs) = ins_at i (f x) (map f xs)"
  by (simp add: ins_at_def take_map drop_map)

lemma set_ins_at: "set (ins_at i x xs) = insert x (set xs)"
  using append_take_drop_id [of i xs] by (metis ins_at_def list.simps(15) set_append Un_insert_right)

lemma shift_insert:
  assumes "low \<le> n" and "n < length xs"
  shows "\<exists>zs ys. shift_up xs low n = Some zs \<and> wr zs low v = Some ys \<and>
    length ys = length xs \<and> take (Suc n) ys = ins_at low v (take n xs) \<and>
    (\<forall>j > n. ys ! j = xs ! j)"
proof -
  let ?zs = "take (Suc low) xs @ take (n - low) (drop low xs) @ drop (Suc n) xs"
  let ?ys = "take low xs @ v # take (n - low) (drop low xs) @ drop (Suc n) xs"
  have z: "shift_up xs low n = Some ?zs" using assms by (rule shift_up_eq)
  have "?zs[low := v] = ?ys"
    using assms by (simp add: list_update_append take_Suc_conv_app_nth)
  then have y: "wr ?zs low v = Some ?ys" using assms by (simp add: wr_def)
  have t: "take (Suc n) ?ys = ins_at low v (take n xs)"
    using assms by (auto simp: ins_at_def min_def drop_take Suc_diff_le)
  have "?ys ! j = xs ! j" if "n < j" for j
    using assms that by (auto simp: nth_append nth_Cons')
  with z y t show ?thesis using assms by (intro exI [of _ ?zs] exI [of _ ?ys]) simp
qed

lemma insert_into_leaf_good:
  assumes g: "good s ((a, Cell p True ks rs (Some l)) # xs) fl" and room: "length ks < order s - 1"
    and i_def: "i = length (takeWhile (\<lambda>k. k < key) ks)"
  shows "\<exists>s'. insert_into_leaf s (NodeP a) key r = Some s' \<and> same s s' \<and>
    good s' ((a, Cell p True (ins_at i key ks) (ins_at i r rs) (Some l)) # xs) fl"
proof -
  obtain nd where nd: "nodes s a = Some nd" "node_rel (order s) nd (Cell p True ks rs (Some l))"
    by (rule good_head [OF g])
  have i: "i \<le> length ks" by (simp add: i_def length_takeWhile_le)
  have n: "num_keys nd = length ks" "length (keys nd) = order s - 1"
    "length (pointers nd) = order s" "take (length ks) (keys nd) = ks"
    "take (length ks) (pointers nd) = rs" "pointers nd ! (order s - 1) = l"
    using nd(2) by (auto simp: node_rel_def)
  have lt: "length ks < length (keys nd)" "length ks < length (pointers nd)"
    using room n by simp_all
  obtain zk yk where K: "shift_up (keys nd) i (length ks) = Some zk" "wr zk i key = Some yk"
    "length yk = order s - 1" "take (Suc (length ks)) yk = ins_at i key ks"
    using shift_insert [OF i lt(1), of key] n by auto
  obtain zp yp where P: "shift_up (pointers nd) i (length ks) = Some zp" "wr zp i r = Some yp"
    "length yp = order s" "take (Suc (length ks)) yp = ins_at i r rs"
    "\<forall>j > length ks. yp ! j = pointers nd ! j"
    using shift_insert [OF i lt(2), of r] n by auto
  let ?nd = "nd\<lparr>keys := yk, pointers := yp, num_keys := num_keys nd + 1\<rparr>"
  have "node_rel (order s) ?nd (Cell p True (ins_at i key ks) (ins_at i r rs) (Some l))"
    using nd(2) K P(3-5) n room by (auto simp: node_rel_def)
  moreover have "scan (\<lambda>k. k < key) (keys nd) (length ks) 0 = Some i"
    using node_rel_scan [OF nd(2), of "\<lambda>k. k < key"] n by (simp add: i_def)
  ultimately show ?thesis
    using good_set_node [OF g] nd K P n by (auto simp: insert_into_leaf_def)
qed

lemma insert_into_node_good:
  assumes g: "good s ((a, Cell p False ks ps None) # xs) fl" and room: "length ks < order s - 1"
    and i: "i \<le> length ks"
  shows "\<exists>s'. insert_into_node s root (NodeP a) i key q = Some (root, s') \<and> same s s' \<and>
    good s' ((a, Cell p False (ins_at i key ks) (ins_at (Suc i) q ps) None) # xs) fl"
proof -
  obtain nd where nd: "nodes s a = Some nd" "node_rel (order s) nd (Cell p False ks ps None)"
    by (rule good_head [OF g])
  have n: "num_keys nd = length ks" "length (keys nd) = order s - 1"
    "length (pointers nd) = order s" "take (length ks) (keys nd) = ks"
    "take (Suc (length ks)) (pointers nd) = ps"
    using nd(2) by (auto simp: node_rel_def)
  have lt: "length ks < length (keys nd)" "Suc (length ks) < length (pointers nd)"
    using room n by simp_all
  obtain zk yk where K: "shift_up (keys nd) i (length ks) = Some zk" "wr zk i key = Some yk"
    "length yk = order s - 1" "take (Suc (length ks)) yk = ins_at i key ks"
    using shift_insert [OF i lt(1), of key] n by auto
  obtain zp yp where P: "shift_up (pointers nd) (Suc i) (Suc (length ks)) = Some zp"
    "wr zp (Suc i) q = Some yp" "length yp = order s"
    "take (Suc (Suc (length ks))) yp = ins_at (Suc i) q ps"
    using shift_insert [OF Suc_le_mono [THEN iffD2, OF i] lt(2), of q] n by auto
  let ?nd = "nd\<lparr>keys := yk, pointers := yp, num_keys := num_keys nd + 1\<rparr>"
  have "node_rel (order s) ?nd (Cell p False (ins_at i key ks) (ins_at (Suc i) q ps) None)"
    using nd(2) K P(3,4) n room by (auto simp: node_rel_def)
  from good_set_node [OF g this] show ?thesis
    using nd K P n by (auto simp: insert_into_node_def)
qed

section \<open>Splitting a node\<close>

lemma gap_insert:
  assumes "gap \<le> n" and "n \<le> length src" and "n < length dst"
  shows "\<exists>z. gap_copy src dst gap n 0 0 = Some z \<and>
    wr z gap v = Some (ins_at gap v (take n src) @ drop (Suc n) dst)"
  using assms by (simp add: gap_copy_eq wr_def list_update_append ins_at_def)

lemma gap_insert_replicate:
  assumes "gap \<le> n" and "n \<le> length src" and "m = n + 2" and "take n src = us"
  shows "\<exists>z. gap_copy src (replicate m d) gap n 0 0 = Some z \<and>
    wr z gap v = Some (ins_at gap v us @ [d])"
proof -
  have lt: "n < length (replicate m d)" and "m - Suc n = Suc 0" using assms(3) by simp_all
  then have d: "drop (Suc n) (replicate m d) = [d]" unfolding drop_replicate by simp
  show ?thesis by (rule gap_insert [OF assms(1,2) lt, of v, unfolded d assms(4)])
qed

lemma gap_insert_exact:
  assumes "gap \<le> n" and "n \<le> length src" and "m = n + 1" and "take n src = us"
  shows "\<exists>z. gap_copy src (replicate m d) gap n 0 0 = Some z \<and> wr z gap v = Some (ins_at gap v us)"
proof -
  have lt: "n < length (replicate m d)" and d: "drop (Suc n) (replicate m d) = []"
    using assms(3) by simp_all
  show ?thesis by (rule gap_insert [OF assms(1,2) lt, of v, unfolded d assms(4) append_Nil2])
qed

lemma fill_props:
  assumes "i \<le> n" and "n < length xs"
  shows "\<exists>ys. fill v xs n i = Some ys \<and> length ys = length xs \<and> take i ys = take i xs \<and>
    ys ! n = xs ! n"
  using assms by (auto simp: fill_eq nth_append)

lemma copy_range_props:
  assumes "i \<le> n" and "n \<le> length src" and "n - i \<le> length dst"
  shows "\<exists>ys. copy_range src dst n i 0 = Some ys \<and> length ys = length dst \<and>
    take (n - i) ys = drop i (take n src) \<and> (\<forall>j \<ge> n - i. ys ! j = dst ! j)"
  using assms by (auto simp: copy_range_eq nth_append)

lemma good_swap2: "good s (x # y # xs) fl \<Longrightarrow> good s (y # x # xs) fl"
  by (erule good_perm) simp

lemma split_leaf_good:
  assumes g: "good s ((a, Cell p True ks rs (Some l)) # xs) fl"
    and full: "length ks = order s - 1" "length rs = length ks"
    and i_def: "i = length (takeWhile (\<lambda>k. k < key) ks)"
    and K: "K = ins_at i key ks" and R: "R = ins_at i r rs" and sp: "sp = cut (order s - 1)"
  shows "\<exists>s' b fl'. split_leaf s (NodeP a) key r = Some (s', K ! sp, NodeP b) \<and> same s s' \<and>
    good s' ((a, Cell p True (take sp K) (take sp R) (Some (NodeP b))) #
      (b, Cell p True (drop sp K) (drop sp R) (Some l)) # xs) fl'"
proof -
  let ?o = "order s"
  note o = good_order [OF g] and cb = cut_bounds [OF good_order [OF g], folded sp]
  obtain b s1 fl1 where mk: "make_leaf s = Some (NodeP b, s1)" and m1: "same s s1"
    and g1: "good s1 ((b, Cell Null True [] [] (Some Null)) # (a, Cell p True ks rs (Some l)) # xs) fl1"
    and nb: "nodes s1 b = Some (fresh_node ?o\<lparr>is_leaf := True\<rparr>)"
    by (rule make_leaf_good [OF g])
  obtain s2 where a2: "allocate_align64 s1 (of_nat ((?o + 1) * 8)) = Some s2" and m2: "same s1 s2"
    and g2: "good s2 ((b, Cell Null True [] [] (Some Null)) # (a, Cell p True ks rs (Some l)) # xs) fl1"
    and n2: "nodes s2 = nodes s1" by (rule allocate_good [OF g1])
  obtain s3 where a3: "allocate_align64 s2 (of_nat ((?o + 1) * 8)) = Some s3" and m3: "same s2 s3"
    and g3: "good s3 ((b, Cell Null True [] [] (Some Null)) # (a, Cell p True ks rs (Some l)) # xs) fl1"
    and n3: "nodes s3 = nodes s2" by (rule allocate_good [OF g2])
  have os: "order s1 = ?o" "order s2 = ?o" "order s3 = ?o" using m1 m2 m3 by (simp_all add: same_def)
  obtain nd where nd: "nodes s3 a = Some nd" "node_rel ?o nd (Cell p True ks rs (Some l))"
    by (rule good_head [OF good_swap2 [OF g3], unfolded os])
  have n: "num_keys nd = ?o - 1" "length (keys nd) = ?o - 1" "length (pointers nd) = ?o"
    "take (?o - 1) (keys nd) = ks" "take (?o - 1) (pointers nd) = rs" "pointers nd ! (?o - 1) = l"
    "parent nd = p" "is_leaf nd"
    using nd(2) full by (auto simp: node_rel_def)
  have i: "i \<le> ?o - 1" unfolding i_def full(1) [symmetric] by (rule length_takeWhile_le)
  have sc: "scan (\<lambda>k. k < key) (keys nd) (?o - 1) 0 = Some i"
    using node_rel_scan [OF nd(2), of "\<lambda>k. k < key"] n by (simp add: i_def)
  obtain zk where TK: "gap_copy (keys nd) (replicate (?o + 1) 0) i (?o - 1) 0 0 = Some zk"
    "wr zk i key = Some (K @ [0])"
    using gap_insert_replicate [OF i _ _ n(4), of "?o + 1" 0 key] n(2) o unfolding K by auto
  obtain zp where TP: "gap_copy (pointers nd) (replicate (?o + 1) Null) i (?o - 1) 0 0 = Some zp"
    "wr zp i r = Some (R @ [Null])"
    using gap_insert_replicate [OF i _ _ n(5), of "?o + 1" Null r] n(3) o unfolding R by auto
  have lK: "length K = ?o" "length R = ?o" using full o by (simp_all add: K R)
  have c2: "sp \<le> ?o - 1" "?o - sp \<le> ?o - 1" "sp \<le> ?o" "?o - 1 < ?o" using cb o by simp_all
  obtain lk where LK: "copy_range (K @ [0]) (keys nd) sp 0 0 = Some lk" "length lk = ?o - 1"
    "take sp lk = take sp K"
    using copy_range_props [of 0 sp "K @ [0]" "keys nd"] lK n c2 by auto
  obtain lp where LP: "copy_range (R @ [Null]) (pointers nd) sp 0 0 = Some lp" "length lp = ?o"
    "take sp lp = take sp R" "lp ! (?o - 1) = l"
    using copy_range_props [of 0 sp "R @ [Null]" "pointers nd"] lK n c2 by auto
  obtain nk where NK: "copy_range (K @ [0]) (replicate (?o - 1) 0) ?o sp 0 = Some nk"
    "length nk = ?o - 1" "take (?o - sp) nk = drop sp K"
    using copy_range_props [of sp ?o "K @ [0]" "replicate (?o - 1) 0"] lK c2 by auto
  obtain np where NP: "copy_range (R @ [Null]) (replicate ?o Null) ?o sp 0 = Some np"
    "length np = ?o" "take (?o - sp) np = drop sp R"
    using copy_range_props [of sp ?o "R @ [Null]" "replicate ?o Null"] lK c2 by auto
  obtain lp' where LF: "fill Null (lp[?o - 1 := NodeP b]) (?o - 1) sp = Some lp'" "length lp' = ?o"
    "take sp lp' = take sp R" "lp' ! (?o - 1) = NodeP b"
    using fill_props [of sp "?o - 1" "lp[?o - 1 := NodeP b]" Null] LP c2 by auto
  obtain np' where NF: "fill Null (np[?o - 1 := l]) (?o - 1) (?o - sp) = Some np'" "length np' = ?o"
    "take (?o - sp) np' = drop sp R" "np' ! (?o - 1) = l"
    using fill_props [of "?o - sp" "?o - 1" "np[?o - 1 := l]" Null] NP c2 by auto
  have nk0: "rd nk 0 = Some (K ! sp)"
  proof -
    have "nk ! 0 = take (?o - sp) nk ! 0" using cb o by simp
    then show ?thesis using NK lK cb o by (simp add: rd_def)
  qed
  have nb3: "nodes s3 b = Some (fresh_node ?o\<lparr>is_leaf := True\<rparr>)" by (simp add: n3 n2 nb)
  have fr: "keys (fresh_node ?o\<lparr>is_leaf := True\<rparr>) = replicate (?o - 1) 0"
    "pointers (fresh_node ?o\<lparr>is_leaf := True\<rparr>) = replicate ?o Null"
    by (simp_all add: fresh_node_def)
  have links: "rd lp (?o - 1) = Some l" "wr np (?o - 1) l = Some (np[?o - 1 := l])"
    "wr lp (?o - 1) (NodeP b) = Some (lp[?o - 1 := NodeP b])"
    using LP NP c2 by (simp_all add: rd_def wr_def)
  let ?nd = "nd\<lparr>keys := lk, pointers := lp', num_keys := sp\<rparr>"
  let ?nb = "fresh_node ?o\<lparr>is_leaf := True, keys := nk, pointers := np', num_keys := ?o - sp,
      parent := p\<rparr>"
  let ?s4 = "set_node s3 (NodeP a) ?nd" and ?ca = "Cell p True (take sp K) (take sp R) (Some (NodeP b))"
  have r1: "node_rel ?o ?nd ?ca"
    using n LK LF lK cb o by (simp add: node_rel_def)
  have r2: "node_rel ?o ?nb (Cell p True (drop sp K) (drop sp R) (Some l))"
    using NK NF lK cb o by (simp add: node_rel_def)
  have g4: "good ?s4 ((b, Cell Null True [] [] (Some Null)) # (a, ?ca) # xs) fl1"
    by (rule good_swap2 [OF good_set_node [OF good_swap2 [OF g3]]]) (simp only: os r1 order_set_node)
  have g5: "good (set_node ?s4 (NodeP b) ?nb)
      ((a, ?ca) # (b, Cell p True (drop sp K) (drop sp R) (Some l)) # xs) fl1"
    by (rule good_swap2 [OF good_set_node [OF g4]]) (simp only: os r2 order_set_node)
  have "split_leaf s (NodeP a) key r = Some (set_node ?s4 (NodeP b) ?nb, K ! sp, NodeP b)"
    by (simp only: split_leaf_def mk Option.bind.simps prod.case os a2 a3 node_at_NodeP nd(1) nb3 sc n(1,7)
        TK TP LK(1) LP(1) NK(1) NP(1) LF(1) NF(1) nk0 Let_def sp [symmetric] fr links order_set_node
        node.simps)
  moreover have "same s (set_node ?s4 (NodeP b) ?nb)"
    using same_trans [OF m1 same_trans [OF m2 m3]] by simp
  ultimately show ?thesis using g5 by blast
qed

lemma split_node_good:
  assumes g: "good s ((a, Cell p False ks (map ptr_of cs) None) #
      concat (map (cells (NodeP a)) C) @ xs) fl"
    and full: "length ks = order s - 1" "length cs = order s" and i: "i \<le> order s - 1"
    and K: "K = ins_at i key ks" and C: "C = ins_at (Suc i) r cs" and sp: "sp = cut (order s)"
  shows "\<exists>s' b fl'. split_node s (NodeP a) i key (ptr_of r) = Some (s', K ! (sp - 1), NodeP b) \<and>
    same s s' \<and> good s' (cells p (Nd a (take (sp - 1) K) (take sp C)) @
      cells p (Nd b (drop sp K) (drop sp C)) @ xs) fl'"
proof -
  let ?o = "order s" and ?ca = "Cell p False ks (map ptr_of cs) None" and ?cf = "Cell Null False [] [Null] None"
  let ?sub = "concat (map (cells (NodeP a)) C)"
  note o = good_order [OF g] and cb = cut_bounds [OF good_order [OF g], folded sp]
  obtain s1 where a1: "allocate_align64 s (of_nat ((?o + 1) * 8)) = Some s1" and m1: "same s s1"
    and g1: "good s1 ((a, ?ca) # ?sub @ xs) fl" by (rule allocate_good [OF g])
  obtain s2 where a2: "allocate_align64 s1 (of_nat (?o * 8)) = Some s2" and m2: "same s1 s2"
    and g2: "good s2 ((a, ?ca) # ?sub @ xs) fl" by (rule allocate_good [OF g1])
  obtain b s3 fl3 where mk: "make_node s2 = Some (NodeP b, s3)" and m3: "same s2 s3"
    and g3: "good s3 ((b, ?cf) # (a, ?ca) # ?sub @ xs) fl3"
    and nb: "nodes s3 b = Some (fresh_node (order s2))"
    by (rule make_node_good [OF g2])
  have os: "order s1 = ?o" "order s2 = ?o" "order s3 = ?o" using m1 m2 m3 by (simp_all add: same_def)
  note nb = nb [unfolded os]
  obtain nd where nd: "nodes s2 a = Some nd" "node_rel ?o nd ?ca"
    by (rule good_head [OF g2, unfolded os])
  obtain nd' where nd': "nodes s3 a = Some nd'" "node_rel ?o nd' ?ca"
    by (rule good_head [OF good_swap2 [OF g3], unfolded os])
  have n: "num_keys nd = ?o - 1" "length (keys nd) = ?o - 1" "length (pointers nd) = ?o"
    "take (?o - 1) (keys nd) = ks" "take ?o (pointers nd) = map ptr_of cs"
    using nd(2) full o by (auto simp: node_rel_def)
  have n': "length (keys nd') = ?o - 1" "length (pointers nd') = ?o" "parent nd' = p" "\<not> is_leaf nd'"
    using nd'(2) by (auto simp: node_rel_def)
  have o1: "?o - 1 + 1 = ?o" using o by simp
  obtain zk where TK: "gap_copy (keys nd) (replicate ?o 0) i (?o - 1) 0 0 = Some zk"
    "wr zk i key = Some K"
    using gap_insert_exact [OF i _ _ n(4), of ?o 0 key] n(2) o unfolding K by auto
  have i': "i + 1 \<le> ?o" using i o by simp
  obtain zp where TP: "gap_copy (pointers nd) (replicate (?o + 1) Null) (i + 1) ?o 0 0 = Some zp"
    "wr zp (i + 1) (ptr_of r) = Some (map ptr_of C)"
    using gap_insert_exact [OF i' _ _ n(5), of "?o + 1" Null "ptr_of r"] n(3)
    unfolding C map_ins_at by auto
  have lK: "length K = ?o" "length C = ?o + 1" using full o by (simp_all add: K C)
  have c2: "sp - 1 \<le> ?o" "sp - 1 \<le> ?o - 1" "sp \<le> ?o" "sp \<le> ?o + 1" "?o - sp \<le> ?o - 1"
    "?o + 1 - sp \<le> ?o" "?o + 1 - sp = ?o - sp + 1" "sp - 1 + 1 = sp" using cb by simp_all
  obtain ok where OK: "copy_range K (keys nd') (sp - 1) 0 0 = Some ok" "length ok = ?o - 1"
    "take (sp - 1) ok = take (sp - 1) K"
    using copy_range_props [of 0 "sp - 1" K "keys nd'"] lK n' c2 by auto
  obtain op where OP: "copy_range (map ptr_of C) (pointers nd') sp 0 0 = Some op" "length op = ?o"
    "take sp op = map ptr_of (take sp C)"
    using copy_range_props [of 0 sp "map ptr_of C" "pointers nd'"] lK n' c2 by (auto simp: take_map)
  obtain nk where NK: "copy_range K (replicate (?o - 1) 0) ?o sp 0 = Some nk"
    "length nk = ?o - 1" "take (?o - sp) nk = drop sp K"
    using copy_range_props [of sp ?o K "replicate (?o - 1) 0"] lK c2 by auto
  obtain np where NP: "copy_range (map ptr_of C) (replicate ?o Null) (?o + 1) sp 0 = Some np"
    "length np = ?o" "take (?o + 1 - sp) np = map ptr_of (drop sp C)"
    using copy_range_props [of sp "?o + 1" "map ptr_of C" "replicate ?o Null"] lK c2
    by (auto simp: drop_map)
  let ?A = "Cell p False (take (sp - 1) K) (map ptr_of (take sp C)) None"
  let ?B = "Cell p False (drop sp K) (map ptr_of (drop sp C)) None"
  let ?nd = "nd'\<lparr>keys := ok, pointers := op, num_keys := sp - 1\<rparr>"
  let ?nb = "fresh_node ?o\<lparr>keys := nk, pointers := np, num_keys := ?o - sp, parent := p\<rparr>"
  have r1: "node_rel ?o ?nd ?A"
    using n' OK OP lK c2 by (auto simp: node_rel_def min_def)
  have r2: "node_rel ?o ?nb ?B"
    using NK NP lK c2 by (simp add: node_rel_def fresh_node_def)
  let ?s4 = "set_node s3 (NodeP a) ?nd"
  let ?s5 = "set_node ?s4 (NodeP b) ?nb"
  have g4: "good ?s4 ((b, ?cf) # (a, ?A) # ?sub @ xs) fl3"
    by (rule good_swap2 [OF good_set_node [OF good_swap2 [OF g3]]]) (simp only: os r1 order_set_node)
  have g5: "good ?s5 ((b, ?B) # (a, ?A) # ?sub @ xs) fl3"
    by (rule good_set_node [OF g4]) (simp only: os r2 order_set_node)
  have "mset ?sub = mset (concat (map (cells (NodeP a)) (take sp C))) +
      mset (concat (map (cells (NodeP a)) (drop sp C)))"
    by (metis append_take_drop_id concat_append map_append mset_append)
  then have "good ?s5 (concat (map (cells (NodeP a)) (drop sp C)) @
      (b, ?B) # (a, ?A) # concat (map (cells (NodeP a)) (take sp C)) @ xs) fl3"
    by (intro good_perm [OF g5]) simp
  from good_set_parents [OF this, of "NodeP b"] obtain s6 where
    s6: "set_parents ?s5 (map ptr_of (drop sp C)) (NodeP b) = Some s6" and m6: "same ?s5 s6"
    and g6: "good s6 (concat (map (cells (NodeP b)) (drop sp C)) @
      (b, ?B) # (a, ?A) # concat (map (cells (NodeP a)) (take sp C)) @ xs) fl3" by blast
  have g7: "good s6 (cells p (Nd a (take (sp - 1) K) (take sp C)) @
      cells p (Nd b (drop sp K) (drop sp C)) @ xs) fl3"
    by (rule good_perm [OF g6]) simp
  have fr: "keys (fresh_node ?o) = replicate (?o - 1) 0" "pointers (fresh_node ?o) = replicate ?o Null"
    by (simp_all add: fresh_node_def)
  have kp: "rd K (sp - 1) = Some (K ! (sp - 1))" using lK cb by (simp add: rd_def)
  have "split_node s (NodeP a) i key (ptr_of r) = Some (s6, K ! (sp - 1), NodeP b)"
    by (simp only: split_node_def a1 a2 mk Option.bind.simps prod.case os node_at_NodeP nd(1) nd'(1) nb
        n(1) n'(3) o1 TK TP OK(1) OP(1) NK(1) NP(1) kp Let_def sp [symmetric] fr order_set_node
        c2(7) [symmetric] NP(3) s6)
  moreover have "same s s6"
    by (rule same_trans [OF _ m6]) (simp add: same_trans [OF m1 same_trans [OF m2 m3]])
  ultimately show ?thesis using g7 by blast
qed

section \<open>The upward pass\<close>

lemma insert_into_new_root_good:
  assumes g: "good s (cells q l @ cells q' r @ xs) fl"
  shows "\<exists>s' b fl'. insert_into_new_root s (ptr_of l) key (ptr_of r) = Some (NodeP b, s') \<and>
    same s s' \<and> good s' (cells Null (Nd b [key] [l, r]) @ xs) fl'"
proof -
  let ?o = "order s" and ?B = "Cell Null False [key] [ptr_of l, ptr_of r] None"
  note o = good_order [OF g]
  obtain b s1 fl1 where mk: "make_node s = Some (NodeP b, s1)" and m1: "same s s1"
    and g1: "good s1 ((b, Cell Null False [] [Null] None) # cells q l @ cells q' r @ xs) fl1"
    and nb: "nodes s1 b = Some (fresh_node ?o)"
    by (rule make_node_good [OF g])
  have os: "order s1 = ?o" using m1 by (rule same_order)
  let ?ks = "(replicate (?o - 1) 0)[0 := key]"
  let ?ps = "(replicate ?o Null)[0 := ptr_of l, 1 := ptr_of r]"
  let ?nb = "fresh_node ?o\<lparr>keys := ?ks, pointers := ?ps, num_keys := num_keys (fresh_node ?o) + 1,
      parent := Null\<rparr>"
  obtain m where "?o = 3 + m" using le_Suc_ex [OF o] by blast
  then have om: "?o = Suc (Suc (Suc m))" by simp
  have r: "node_rel (order s1) ?nb ?B"
    by (simp add: node_rel_def fresh_node_def os om)
  let ?s2 = "set_node s1 (NodeP b) ?nb"
  have "good ?s2 ((b, ?B) # cells q l @ cells q' r @ xs) fl1"
    by (rule good_set_node [OF g1 r])
  then have g2: "good ?s2 (cells q l @ (b, ?B) # cells q' r @ xs) fl1"
    by (rule good_perm) simp
  obtain s3 where s3: "set_parent ?s2 (ptr_of l) (NodeP b) = Some s3" and m3: "same ?s2 s3"
    and g3: "good s3 (cells (NodeP b) l @ (b, ?B) # cells q' r @ xs) fl1"
    by (rule good_set_parent [OF g2])
  from g3 have g3': "good s3 (cells q' r @ (b, ?B) # cells (NodeP b) l @ xs) fl1"
    by (rule good_perm) simp
  obtain s4 where s4: "set_parent s3 (ptr_of r) (NodeP b) = Some s4" and m4: "same s3 s4"
    and g4: "good s4 (cells (NodeP b) r @ (b, ?B) # cells (NodeP b) l @ xs) fl1"
    by (rule good_set_parent [OF g3'])
  have g5: "good s4 (cells Null (Nd b [key] [l, r]) @ xs) fl1"
    by (rule good_perm [OF g4]) simp
  have fr: "keys (fresh_node ?o) = replicate (?o - 1) 0" "pointers (fresh_node ?o) = replicate ?o Null"
    by (simp_all add: fresh_node_def)
  have w: "wr (replicate (?o - 1) 0) 0 key = Some ?ks"
    "wr (replicate ?o Null) 0 (ptr_of l) = Some ((replicate ?o Null)[0 := ptr_of l])"
    "wr ((replicate ?o Null)[0 := ptr_of l]) 1 (ptr_of r) = Some ?ps"
    using o by (simp_all add: wr_def)
  have "insert_into_new_root s (ptr_of l) key (ptr_of r) = Some (NodeP b, s4)"
    by (simp only: insert_into_new_root_def mk Option.bind.simps prod.case node_at_NodeP nb fr w
        Let_def s3 s4)
  moreover have "same s s4"
    by (rule same_trans [OF _ same_trans [OF m3 m4]]) (simp add: m1)
  ultimately show ?thesis using g5 by blast
qed

lemma addr_in_cells: "(addr t, top_cell p t) \<in> set (cells p t)"
  by (simp add: cells_top)

lemma addr_plug_cong: "addr t = addr t' \<Longrightarrow> addr (plug t fs) = addr (plug t' fs)"
proof (induction t fs arbitrary: t' rule: plug.induct)
  case (2 t a kl cl kr cr fs)
  from "2.IH" [of "Nd a (kl @ kr) (cl @ t' # cr)"] show ?case by simp
qed simp

lemma get_left_index_good:
  assumes g: "good s ((a, Cell p False ks (map ptr_of (cl @ l # cr)) None) #
      concat (map (cells q) (cl @ l # cr)) @ xs) fl"
    and len: "length ks = length cl + length cr" and nd: "node_rel (order s) nd
      (Cell p False ks (map ptr_of (cl @ l # cr)) None)"
  shows "get_left_index nd (ptr_of l) = Some (length cl)"
proof -
  have "addr c \<noteq> addr l" if "c \<in> set cl" for c
  proof -
    have "addr c \<in> fst ` set (concat (map (cells q) cl))" "addr l \<in> fst ` set (cells q l)"
      using that addr_in_cells by (force simp: image_iff)+
    moreover have "fst ` set (concat (map (cells q) cl)) \<inter> fst ` set (cells q l) = {}"
      using good_distinct [OF g] by (simp add: Int_Un_distrib)
    ultimately show ?thesis by (metis disjoint_iff)
  qed
  then have "takeWhile (\<lambda>p. p \<noteq> ptr_of l) (map ptr_of (cl @ l # cr)) = map ptr_of cl"
    by (subst map_append, subst takeWhile_append2) auto
  moreover have "take (num_keys nd + 1) (pointers nd) = map ptr_of (cl @ l # cr)"
    "num_keys nd + 1 \<le> length (pointers nd)"
    using nd good_order [OF g] by (auto simp: node_rel_def)
  ultimately show ?thesis
    by (simp add: get_left_index_def scan_take)
qed

lemma insert_into_parent_up:
  assumes "good s (cells (par_of fs) l @ cells (par_of fs) r @ ctx_cells (ptr_of l) fs) fl"
    and "ctx_shape (order s) h fs" and "root = ptr_of (plug l fs)"
  shows "\<exists>t' s' fl' news. insert_into_parent s root (ptr_of l) k (ptr_of r) = Some (ptr_of t', s') \<and>
    t' = ins_up (order s) l k r fs news \<and> good s' (cells Null t') fl' \<and> same s s'"
  using assms
proof (induction fs arbitrary: s l k r fl h)
  case Nil
  obtain nl where nl: "nodes s (addr l) = Some nl" "node_rel (order s) nl (top_cell Null l)"
    using good_get [OF Nil.prems(1), of "addr l" "top_cell Null l"] addr_in_cells by auto
  then have "parent nl = Null" by (cases l) (auto simp: node_rel_def top_cell_def)
  then have eq: "insert_into_parent s root (ptr_of l) k (ptr_of r) =
      insert_into_new_root s (ptr_of l) k (ptr_of r)"
    using nl by (subst insert_into_parent.simps) simp
  from insert_into_new_root_good [of s Null l Null r "[]" fl k] Nil.prems(1) obtain s' b fl' where
    "insert_into_new_root s (ptr_of l) k (ptr_of r) = Some (NodeP b, s')" "same s s'"
    "good s' (cells Null (Nd b [k] [l, r])) fl'" by auto
  then show ?case
    unfolding eq by (intro exI [of _ "Nd b [k] [l, r]"] exI [of _ s'] exI [of _ fl'] exI [of _ "[b]"]) simp
next
  case (Cons f fs)
  obtain a kl cl kr cr where f: "f = Frame a kl cl kr cr" by (cases f)
  let ?ks = "kl @ kr" and ?cs = "cl @ l # cr" and ?C = "cl @ l # r # cr" and ?K = "kl @ k # kr"
  let ?A = "Cell (par_of fs) False ?ks (map ptr_of ?cs) None" and ?o = "order s"
  from Cons.prems(2) have len: "length cl = length kl" "length cr = length kr"
    and sz: "length ?ks \<le> ?o - 1" and up: "ctx_shape ?o (Suc h) fs" by (auto simp: f)
  have g: "good s ((a, ?A) # concat (map (cells (NodeP a)) ?C) @ ctx_cells (NodeP a) fs) fl"
    by (rule good_perm [OF Cons.prems(1)]) (simp add: f ac_simps)
  have g': "good s ((a, ?A) # concat (map (cells (NodeP a)) ?cs) @
      cells (NodeP a) r @ ctx_cells (NodeP a) fs) fl"
    by (rule good_perm [OF Cons.prems(1)]) (simp add: f ac_simps)
  obtain nl where nl: "nodes s (addr l) = Some nl" "node_rel ?o nl (top_cell (NodeP a) l)"
    using good_get [OF Cons.prems(1), of "addr l" "top_cell (NodeP a) l"] addr_in_cells by (auto simp: f)
  then have pl: "parent nl = NodeP a" by (cases l) (auto simp: node_rel_def top_cell_def)
  obtain na where na: "nodes s a = Some na" "node_rel ?o na ?A" by (rule good_head [OF g])
  have nk: "num_keys na = length ?ks" using na(2) by (simp add: node_rel_def)
  have li: "get_left_index na (ptr_of l) = Some (length kl)"
    using get_left_index_good [OF g' _ na(2)] len by simp
  have root: "root = ptr_of (plug (Nd a x y) fs)" for x y
    using Cons.prems(3) addr_plug_cong [of "Nd a ?ks ?cs" "Nd a x y" fs] by (simp add: f)
  have insK: "ins_at (length kl) k ?ks = ?K" and insC: "ins_at (Suc (length kl)) x (ys @ y # zs) = ys @ y # x # zs"
    if "length ys = length kl" for x y :: 'b and ys zs
    using that by (simp_all add: ins_at_def)
  show ?case
  proof (cases "length ?ks < ?o - 1")
    case True
    from insert_into_node_good [OF g True, of "length kl" root k "ptr_of r"] obtain s' where
      s': "insert_into_node s root (NodeP a) (length kl) k (ptr_of r) = Some (root, s')" "same s s'"
      "good s' ((a, Cell (par_of fs) False ?K (map ptr_of ?C) None) #
         concat (map (cells (NodeP a)) ?C) @ ctx_cells (NodeP a) fs) fl"
      using len by (auto simp: insK insC)
    have "insert_into_parent s root (ptr_of l) k (ptr_of r) = Some (root, s')"
      using nl na pl li True nk s'(1) by (subst insert_into_parent.simps) simp
    moreover have "good s' (cells Null (plug (Nd a ?K ?C) fs)) fl"
      by (rule good_perm [OF s'(3)]) (simp add: mset_cells_plug)
    ultimately show ?thesis
      using s'(2) True root [of ?K ?C] by (auto simp: f)
  next
    case False
    then have full: "length ?ks = ?o - 1" "length ?cs = ?o" "length kl \<le> ?o - 1"
      using sz len good_order [OF g] by simp_all
    define sp where "sp = cut ?o"
    from split_node_good [OF g full insK [symmetric] insC [symmetric] sp_def] len obtain s' b fl' where
      s': "split_node s (NodeP a) (length kl) k (ptr_of r) = Some (s', ?K ! (sp - 1), NodeP b)" "same s s'"
      "good s' (cells (par_of fs) (Nd a (take (sp - 1) ?K) (take sp ?C)) @
        cells (par_of fs) (Nd b (drop sp ?K) (drop sp ?C)) @ ctx_cells (NodeP a) fs) fl'"
      by blast
    have step: "insert_into_parent s root (ptr_of l) k (ptr_of r) =
        insert_into_parent s' root (NodeP a) (?K ! (sp - 1)) (NodeP b)"
      using nl na pl li full(1) nk s'(1) by (subst insert_into_parent.simps) simp
    have o': "order s' = ?o" using s'(2) by (rule same_order)
    from Cons.IH [of s' "Nd a (take (sp - 1) ?K) (take sp ?C)" "Nd b (drop sp ?K) (drop sp ?C)" fl'
        "Suc h" "?K ! (sp - 1)"] s'(3) up root
    obtain t' s'' fl'' news where
      "insert_into_parent s' root (NodeP a) (?K ! (sp - 1)) (NodeP b) = Some (ptr_of t', s'')"
      "t' = ins_up ?o (Nd a (take (sp - 1) ?K) (take sp ?C)) (?K ! (sp - 1))
         (Nd b (drop sp ?K) (drop sp ?C)) fs news" "good s'' (cells Null t') fl''" "same s' s''"
      unfolding o' by auto
    then show ?thesis
      unfolding step using False s'(2)
      by (intro exI [of _ t'] exI [of _ s''] exI [of _ fl''] exI [of _ "b # news"])
        (auto simp: f Let_def sp_def intro: same_trans)
  qed
qed

lemma plug_addr_in_ctx: "fs \<noteq> [] \<Longrightarrow> addr (plug t fs) \<in> fst ` set (ctx_cells p fs)"
proof (induction t fs arbitrary: p rule: plug.induct)
  case (2 t a kl cl kr cr fs)
  then show ?case by (cases "fs = []") auto
qed simp

lemma hole_not_root:
  assumes "good s (cells p t @ ctx_cells (ptr_of t) fs @ ex) fl" and "fs \<noteq> []"
  shows "addr t \<noteq> addr (plug t fs)"
proof -
  have "fst ` set (cells p t) \<inter> fst ` set (ctx_cells (ptr_of t) fs) = {}"
    using good_distinct [OF assms(1)] by (simp add: Int_Un_distrib)
  moreover have "addr t \<in> fst ` set (cells p t)" using addr_in_cells [of t p] by (force simp: image_iff)
  ultimately show ?thesis using plug_addr_in_ctx [OF assms(2)] by (metis disjoint_iff)
qed

end
