(* ===== verification/Btree_Map.thy ===== *)
theory Btree_Map
  imports Btree_Insert
begin

text \<open>
  The B+ tree as a finite map.  \<open>represents s root m\<close> says that the store holds a
  well-formed tree at \<open>root\<close> whose records give the map \<open>m\<close>: keys in order between the
  separators, node sizes within the bounds of the order, all leaves at one depth and
  chained from left to right, parent pointers in step, live records apart from the free
  ones.  Search and insertion are total on such states and act on \<open>m\<close> as lookup and update.
\<close>

section \<open>Records\<close>

definition rec_val :: "bpt \<Rightarrow> nat \<Rightarrow> u64 option" where
  "rec_val s a = (case recs s a of
      Some c \<Rightarrow> (case contents c of Value v \<Rightarrow> Some v | NextRec p \<Rightarrow> None) | None \<Rightarrow> None)"

fun rec_chain :: "bpt \<Rightarrow> ptr \<Rightarrow> nat list \<Rightarrow> bool" where
  "rec_chain s p [] \<longleftrightarrow> p = Null"
| "rec_chain s p (a # as) \<longleftrightarrow>
     p = RecP a \<and> (\<exists>c q. recs s a = Some c \<and> contents c = NextRec q \<and> rec_chain s q as)"

definition recs_good :: "bpt \<Rightarrow> nat list \<Rightarrow> nat list \<Rightarrow> bool" where
  "recs_good s live rl \<longleftrightarrow> distinct (live @ rl) \<and> (\<forall>a \<in> set live. rec_val s a \<noteq> None) \<and>
     rec_chain s (free_recs s) rl \<and> (\<forall>a \<in> set live \<union> set rl. a < rec_brk s) \<and> 0 < rec_slab s"

lemma rec_chain_cong:
  "(\<And>a. a \<in> set rl \<Longrightarrow> recs s' a = recs s a) \<Longrightarrow> rec_chain s' p rl = rec_chain s p rl"
  by (induction rl arbitrary: p) auto

lemma rec_at_RecP [simp]: "rec_at s (RecP a) = recs s a"
  by (simp add: rec_at_def)

lemma rec_val_cong: "recs s' a = recs s a \<Longrightarrow> rec_val s' a = rec_val s a"
  by (simp add: rec_val_def)

lemma recs_good_perm: "recs_good s xs rl \<Longrightarrow> mset xs = mset ys \<Longrightarrow> recs_good s ys rl"
  unfolding recs_good_def using mset_eq_setD [of xs ys] mset_eq_imp_distinct_iff [of xs ys]
  by (simp add: distinct_append)

lemma recs_good_same: "same s s' \<Longrightarrow> recs_good s' live rl = recs_good s live rl"
  by (auto simp: recs_good_def same_def rec_chain_cong [of rl s' s] rec_val_def)

lemma good_cong:
  assumes "nodes s' = nodes s" "free_nodes s' = free_nodes s" "node_brk s' = node_brk s"
    "node_slab s' = node_slab s" "mem_ok s' = mem_ok s" "order s' = order s"
  shows "good s' xs fl = good s xs fl"
proof -
  have "free_chain s' p fl = free_chain s p fl" for p
    using assms(1) by (intro free_chain_cong) simp
  then show ?thesis using assms by (simp add: good_def)
qed

lemma thread_recs_fields [simp]:
  "nodes (thread_recs is s) = nodes s" "free_nodes (thread_recs is s) = free_nodes s"
  "node_brk (thread_recs is s) = node_brk s" "node_slab (thread_recs is s) = node_slab s"
  "mem_ok (thread_recs is s) = mem_ok s" "order (thread_recs is s) = order s"
  "rec_brk (thread_recs is s) = rec_brk s" "rec_slab (thread_recs is s) = rec_slab s"
  by (induction "is" arbitrary: s) auto

lemma thread_recs_other: "a \<notin> set is \<Longrightarrow> recs (thread_recs is s) a = recs s a"
  by (induction "is" arbitrary: s) auto

lemma thread_recs_chain:
  "rec_chain s (free_recs s) rl \<Longrightarrow> distinct is \<Longrightarrow> set is \<inter> set rl = {} \<Longrightarrow>
   rec_chain (thread_recs is s) (free_recs (thread_recs is s)) (rev is @ rl)"
proof (induction "is" arbitrary: s rl)
  case (Cons i "is")
  let ?s = "s\<lparr>recs := (recs s)(i \<mapsto> zero_rec\<lparr>contents := NextRec (free_recs s)\<rparr>), free_recs := RecP i\<rparr>"
  have "rec_chain ?s (free_recs s) rl = rec_chain s (free_recs s) rl"
    using Cons.prems by (intro rec_chain_cong) auto
  with Cons.prems have "rec_chain ?s (free_recs ?s) (i # rl)" by simp
  from Cons.IH [OF this] Cons.prems show ?case by simp
qed simp

text \<open>After the refill the free list of records is non-empty and nothing live has changed.\<close>

lemma alloc_record_refill:
  assumes r: "recs_good s live rl" and g: "good s xs fl"
  obtains s' rl' where
    "(if free_recs s = Null then do {
        s \<leftarrow> allocate s RECORD_SLAB_GROW;
        let s' = thread_recs [rec_brk s ..< rec_brk s + rec_slab s] s;
        Some (s'\<lparr>rec_brk := rec_brk s + rec_slab s\<rparr>) } else Some s) = Some s'"
    and "recs_good s' live rl'" and "rl' \<noteq> []" and "\<forall>ys gl. good s ys gl \<longrightarrow> good s' ys gl"
    and "\<forall>a \<in> set live. rec_val s' a = rec_val s a" and "order s' = order s"
proof (cases "free_recs s = Null")
  case True
  then have [simp]: "rl = []" using r by (cases rl) (auto simp: recs_good_def)
  let ?s1 = "s\<lparr>allocator_stat := allocator_stat s + RECORD_SLAB_GROW, n_alloc := Suc (n_alloc s)\<rparr>"
  let ?is = "[rec_brk s ..< rec_brk s + rec_slab s]"
  let ?s2 = "thread_recs ?is ?s1"
  let ?s3 = "?s2\<lparr>rec_brk := rec_brk s + rec_slab s\<rparr>"
  have ok: "mem_ok s (n_alloc s)" using g by (simp add: good_def)
  have old: "recs ?s3 a = recs s a" if "a \<in> set live" for a
  proof -
    have "a < rec_brk s" using r that by (auto simp: recs_good_def)
    then show ?thesis by (simp add: thread_recs_other)
  qed
  then have vals: "rec_val ?s3 a = rec_val s a" if "a \<in> set live" for a
    using that by (intro rec_val_cong) simp
  have "rec_chain ?s3 p l = rec_chain ?s2 p l" for p l
    by (rule rec_chain_cong) simp
  then have ch: "rec_chain ?s3 (free_recs ?s3) (rev ?is)"
    using thread_recs_chain [of ?s1 "[]" ?is] True by simp
  have r3: "recs_good ?s3 live (rev ?is)"
    unfolding recs_good_def
  proof (intro conjI)
    show "distinct (live @ rev ?is)" using r by (fastforce simp: recs_good_def)
    show "\<forall>a \<in> set live \<union> set (rev ?is). a < rec_brk ?s3" using r by (fastforce simp: recs_good_def)
    show "\<forall>a \<in> set live. rec_val ?s3 a \<noteq> None" using r vals by (auto simp: recs_good_def)
  qed (use r ch in \<open>auto simp: recs_good_def\<close>)
  have g3: "\<forall>ys gl. good s ys gl \<longrightarrow> good ?s3 ys gl"
    by (intro allI, subst good_cong [of ?s3 s]) simp_all
  have ne: "rev ?is \<noteq> []" using r by (simp add: recs_good_def)
  show ?thesis
    by (rule that [OF _ r3 ne g3]) (use True ok vals in \<open>simp_all add: allocate_ok Let_def\<close>)
next
  case False
  then have "rl \<noteq> []" using r by (cases rl) (auto simp: recs_good_def)
  with False r g show ?thesis by (intro that [of s rl]) simp_all
qed

lemma make_record_good:
  assumes r: "recs_good s live rl" and g: "good s xs fl"
  obtains a s' rl' where "make_record s v = Some (RecP a, s')" and "recs_good s' (a # live) rl'"
    and "\<forall>ys gl. good s ys gl \<longrightarrow> good s' ys gl" and "rec_val s' a = Some v"
    and "\<forall>b \<in> set live. rec_val s' b = rec_val s b" and "order s' = order s"
proof -
  obtain s1 rl1 where s1: "(if free_recs s = Null then do {
        s \<leftarrow> allocate s RECORD_SLAB_GROW;
        let s' = thread_recs [rec_brk s ..< rec_brk s + rec_slab s] s;
        Some (s'\<lparr>rec_brk := rec_brk s + rec_slab s\<rparr>) } else Some s) = Some s1"
    and r1: "recs_good s1 live rl1" and ne: "rl1 \<noteq> []" and g1: "\<forall>ys gl. good s ys gl \<longrightarrow> good s1 ys gl"
    and v1: "\<forall>a \<in> set live. rec_val s1 a = rec_val s a" and o1: "order s1 = order s"
    by (rule alloc_record_refill [OF r g])
  obtain a rl2 where rl1: "rl1 = a # rl2" using ne by (cases rl1) auto
  then obtain c q where c: "free_recs s1 = RecP a" "recs s1 a = Some c" "contents c = NextRec q"
    and ch: "rec_chain s1 q rl2"
    using r1 by (auto simp: recs_good_def)
  let ?s2 = "s1\<lparr>free_recs := q\<rparr>"
  let ?s3 = "set_rec ?s2 (RecP a) (c\<lparr>contents := Value v\<rparr>)"
  have mk: "make_record s v = Some (RecP a, ?s3)"
    unfolding make_record_def alloc_record_def s1 using c by (simp add: rec_next_def)
  have rs: "recs ?s3 = (recs s1)(a \<mapsto> c\<lparr>contents := Value v\<rparr>)" by (simp add: set_rec_def)
  have fr: "a \<notin> set live" "a \<notin> set rl2" using r1 by (auto simp: recs_good_def rl1)
  have va: "rec_val ?s3 a = Some v" by (simp add: rec_val_def rs)
  have vb: "rec_val ?s3 b = rec_val s1 b" if "b \<noteq> a" for b
    using that by (intro rec_val_cong) (simp add: rs)
  have "rec_chain ?s3 q rl2" using ch fr(2) by (subst rec_chain_cong [of _ _ s1]) (auto simp: rs)
  moreover have "\<forall>b \<in> set (a # live). rec_val ?s3 b \<noteq> None"
  proof
    fix b assume "b \<in> set (a # live)"
    then show "rec_val ?s3 b \<noteq> None"
      using r1 va vb [of b] by (cases "b = a") (simp_all add: recs_good_def)
  qed
  ultimately have r3: "recs_good ?s3 (a # live) rl2"
    using r1 fr by (auto simp: recs_good_def rl1 set_rec_def)
  have g3: "\<forall>ys gl. good s ys gl \<longrightarrow> good ?s3 ys gl"
    using g1 by (intro allI, subst good_cong [of ?s3 s1]) (simp_all add: set_rec_def)
  have "\<forall>b \<in> set live. rec_val ?s3 b = rec_val s b"
    using fr(1) v1 vb by metis
  then show ?thesis using that [OF mk r3 g3 va] o1 by (simp add: set_rec_def)
qed

section \<open>Pure effect of an insertion\<close>

lemma takeWhile_less_split:
  assumes "sorted_wrt (<) (ks :: u64 list)" and "key \<notin> set ks"
    and i: "i = length (takeWhile (\<lambda>k. k < key) ks)"
  shows "sorted_wrt (<) (ins_at i key ks)"
proof -
  have tw: "take i ks = takeWhile (\<lambda>k. k < key) ks" "drop i ks = dropWhile (\<lambda>k. k < key) ks"
    by (simp_all add: i takeWhile_eq_take [symmetric] dropWhile_eq_drop [symmetric])
  have sp: "sorted_wrt (<) (take i ks @ drop i ks)" using assms(1) by simp
  have lt: "\<forall>x \<in> set (take i ks). x < key" unfolding tw by (auto dest: set_takeWhileD)
  have gt: "\<forall>x \<in> set (drop i ks). key < x"
  proof (cases "drop i ks")
    case (Cons y ys)
    then have "\<not> y < key" using hd_dropWhile [of "\<lambda>k. k < key" ks] by (simp add: tw)
    moreover have "y \<in> set ks" using Cons in_set_dropD [of y i ks] by simp
    ultimately have "key < y" using assms(2) by (metis not_less_iff_gr_or_eq)
    moreover have "\<forall>x \<in> set ys. y < x" using sp Cons by (simp add: sorted_wrt_append)
    ultimately show ?thesis using Cons by auto
  qed simp
  show ?thesis
    using sp lt gt by (auto simp: ins_at_def sorted_wrt_append intro: less_trans)
qed

lemma ordered_leaf_insert:
  assumes "ordered lo (Lf a ks rs l) hi" and "key \<notin> set ks" and "lo_le lo key" and "hi_gt key hi"
    and "i = length (takeWhile (\<lambda>k. k < key) ks)"
  shows "ordered lo (Lf a' (ins_at i key ks) rs' l') hi"
  using assms takeWhile_less_split [OF _ assms(2,5)] by (simp add: set_ins_at)

lemma ordered_leaf_split:
  assumes o: "ordered lo (Lf a K R l) hi" and sp: "0 < sp" "sp < length K"
  shows "ordered lo (Lf a' (take sp K) R1 l1) (Some (K ! sp))" and "lo_lt lo (K ! sp)"
    and "hi_gt (K ! sp) hi" and "ordered (Some (K ! sp)) (Lf b (drop sp K) R2 l2) hi"
proof -
  have K: "K = take sp K @ K ! sp # drop (Suc sp) K"
    using sp by (simp add: id_take_nth_drop [symmetric])
  have so: "sorted_wrt (<) (take sp K @ K ! sp # drop (Suc sp) K)"
    and b: "\<forall>k \<in> set K. lo_le lo k \<and> hi_gt k hi" using o K by auto
  have "K ! 0 < K ! sp" using o sp by (simp add: sorted_wrt_iff_nth_less)
  moreover have "lo_le lo (K ! 0)" using b sp by (metis length_greater_0_conv less_trans nth_mem)
  ultimately show "lo_lt lo (K ! sp)" by (rule lo_le_lt [rotated])
  show "hi_gt (K ! sp) hi" using b sp by simp
  show "ordered lo (Lf a' (take sp K) R1 l1) (Some (K ! sp))"
    using so b by (auto simp: sorted_wrt_append dest: in_set_takeD)
  have d: "drop sp K = K ! sp # drop (Suc sp) K" using sp by (simp add: drop_eq_nth_tl)
  show "ordered (Some (K ! sp)) (Lf b (drop sp K) R2 l2) hi"
    using so b sp unfolding d by (auto simp: sorted_wrt_append less_imp_le dest: in_set_dropD)
qed

lemma zip_ins_at:
  "length rs = length ks \<Longrightarrow> zip (ins_at i k ks) (ins_at i r rs) = ins_at i (k, r) (zip ks rs)"
  by (simp add: ins_at_def zip_append take_zip drop_zip)

lemma zip_take_drop: "length R = length K \<Longrightarrow> zip (take n K) (take n R) @ zip (drop n K) (drop n R) = zip K R"
  by (metis append_take_drop_id take_zip drop_zip)

lemma ins_at_middle:
  "i \<le> length ys \<Longrightarrow> xs @ ins_at i x ys @ zs = ins_at (length xs + i) x (xs @ ys @ zs)"
  by (simp add: ins_at_def)

lemma map_of_ins_at:
  "k \<notin> fst ` set es \<Longrightarrow> map_of (ins_at j (k, v) es) = (map_of es)(k \<mapsto> v)"
proof -
  assume k: "k \<notin> fst ` set es"
  then have "map_of (take j es) k = None"
    by (auto simp: map_of_eq_None_iff dest: in_set_takeD)
  then have "map_of (ins_at j (k, v) es) = (map_of (take j es @ drop j es))(k \<mapsto> v)"
    unfolding ins_at_def map_of_append map_of.simps by (auto simp: map_add_def split: option.split)
  then show ?thesis by simp
qed

section \<open>Well-formed trees\<close>

definition tree_ok :: "bpt \<Rightarrow> bt \<Rightarrow> bool" where
  "tree_ok s t \<longleftrightarrow> (\<exists>fl H. good s (cells Null t) fl \<and> root_shape (order s) H t) \<and>
     ordered None t None \<and> linked (leafseq t) Null"

text \<open>The leaf that a search reaches, with everything known about it.\<close>

lemma tree_leaf:
  assumes "tree_ok s t"
  obtains a ks rs l fs fl where "find_leaf s (ptr_of t) key = Some (NodeP a)"
    and "t = plug (Lf a ks rs l) fs"
    and "good s (cells Null t) fl"
    and "find_bpt s (ptr_of t) key = Some (rec_ptr (map_of (kvs t) key), NodeP a)"
    and "ctx_shape (order s) 0 fs" and "sub_shape (order s) 0 fs (Lf a ks rs l)"
    and "lo_le (hole_lo fs) key" and "hi_gt key (hole_hi fs)"
proof -
  obtain fl H where g: "good s (cells Null t) fl" and sh: "root_shape (order s) H t"
    and o: "ordered None t None" using assms by (auto simp: tree_ok_def)
  obtain t0 fs where z: "zoom key t [] = (t0, fs)" by (cases "zoom key t []")
  have ss: "sub_shape (order s) H [] t" using sh by (simp add: sub_shape_def)
  from zoom_shape [OF ss, of key] z obtain a ks rs l where t0: "t0 = Lf a ks rs l"
    and s0: "sub_shape (order s) 0 fs (Lf a ks rs l)" and c0: "ctx_shape (order s) 0 fs" by auto
  have t: "t = plug (Lf a ks rs l) fs" using zoom_plug [of key t "[]"] z t0 by simp
  have b: "lo_le (hole_lo fs) key" "hi_gt key (hole_hi fs)"
    using zoom_bounds [of "[]" key t] z by simp_all
  have fl: "find_leaf s (ptr_of t) key = Some (NodeP a)"
    using find_leaf_loop_zoom [OF g _ ss, of Null key] z t0 by (simp add: find_leaf_def)
  have len: "length rs = length ks"
    using s0 by (auto simp: sub_shape_def root_shape_def split: if_splits)
  have "(a, Cell (par_of fs) True ks rs (Some l)) \<in> set (cells Null t)"
    using arg_cong [OF mset_cells_plug [of "Lf a ks rs l" fs], of set_mset] t by auto
  then have "find_bpt s (ptr_of t) key = Some (rec_ptr (map_of (zip ks rs) key), NodeP a)"
    using find_bpt_zoom [OF g order.refl ss _ len] z t0 by simp
  moreover have "map_of (kvs t) key = map_of (zip ks rs) key"
    using map_of_hole [OF ctx_shape_frames [OF c0] _ b, of "Lf a ks rs l"] o t by simp
  ultimately show ?thesis using that [OF fl t g _ c0 s0 b] by simp
qed

lemma find_bpt_tree:
  "tree_ok s t \<Longrightarrow> \<exists>leaf. leaf \<noteq> Null \<and> find_bpt s (ptr_of t) key = Some (rec_ptr (map_of (kvs t) key), leaf)"
  by (erule tree_leaf [where key = key]) auto

text \<open>\<open>insert\<close> after the search: into the leaf, or by splitting it.\<close>

definition insert_at_leaf :: "bpt \<Rightarrow> ptr \<Rightarrow> u64 \<Rightarrow> ptr \<Rightarrow> (ptr \<times> bpt) option" where
  "insert_at_leaf s root key r = do {
     leaf \<leftarrow> find_leaf s root key;
     nd \<leftarrow> node_at s leaf;
     if num_keys nd < order s - 1 then do {
       s \<leftarrow> insert_into_leaf s leaf key r;
       Some (root, s) }
     else insert_into_leaf_after_splitting s root leaf key r }"

lemma insert_at_leaf_room:
  assumes ok: "tree_ok s t" and t: "t = plug (Lf a ks rs l) fs" and key: "key \<notin> set ks"
    and c: "ctx_shape (order s) 0 fs" and sh: "sub_shape (order s) 0 fs (Lf a ks rs l)"
    and b: "lo_le (hole_lo fs) key" "hi_gt key (hole_hi fs)"
    and i: "i = length (takeWhile (\<lambda>k. k < key) ks)" and room: "length ks < order s - 1"
    and t': "t' = plug (Lf a (ins_at i key ks) (ins_at i r rs) l) fs"
    and g': "good s' (cells Null t') fl'" and sm: "same s s'"
  shows "tree_ok s' t' \<and> (\<exists>j. kvs t' = ins_at j (key, r) (kvs t))"
proof -
  note ok_fs = ctx_shape_frames [OF c]
  from ok have o: "ordered None (plug (Lf a ks rs l) fs) None" and lk: "linked (leafseq t) Null"
    by (auto simp: tree_ok_def t)
  have il: "i \<le> length ks" by (simp add: i length_takeWhile_le)
  have len: "length rs = length ks"
    using sh by (auto simp: sub_shape_def root_shape_def split: if_splits)
  have "ordered None t' None"
    unfolding t'
    by (rule plug_ordered(2) [OF ok_fs o ordered_leaf_insert [OF plug_ordered(1) [OF ok_fs o] key b i]])
  moreover have "sub_shape (order s) 0 fs (Lf a (ins_at i key ks) (ins_at i r rs) l)"
    using sh room by (auto simp: sub_shape_def root_shape_def)
  then have "\<exists>H. root_shape (order s') H t'"
    using c same_order [OF sm] by (auto simp: t' plug_shape [OF ok_fs])
  moreover have "linked (leafseq t') Null" using lk by (simp add: t t' leafseq_plug)
  moreover have "kvs t' = ins_at (length (ctx_before kvs fs) + i) (key, r) (kvs t)"
    unfolding t t' kvs_plug using len il by (simp add: zip_ins_at ins_at_middle)
  ultimately show ?thesis using g' by (auto simp: tree_ok_def)
qed

lemma insert_at_leaf_split:
  assumes ok: "tree_ok s t" and t: "t = plug (Lf a ks rs l) fs" and key: "key \<notin> set ks"
    and c: "ctx_shape (order s) 0 fs" and sh: "sub_shape (order s) 0 fs (Lf a ks rs l)"
    and b: "lo_le (hole_lo fs) key" "hi_gt key (hole_hi fs)"
    and i: "i = length (takeWhile (\<lambda>k. k < key) ks)" and full: "length ks = order s - 1"
    and K: "K = ins_at i key ks" and R: "R = ins_at i r rs" and sp: "sp = cut (order s - 1)"
    and t': "t' = ins_up (order s) (Lf a (take sp K) (take sp R) (NodeP b')) (K ! sp)
       (Lf b' (drop sp K) (drop sp R) l) fs news"
    and g': "good s' (cells Null t') fl'" and sm: "same s s'"
  shows "tree_ok s' t' \<and> (\<exists>j. kvs t' = ins_at j (key, r) (kvs t))"
proof -
  note ok_fs = ctx_shape_frames [OF c]
  from ok have o: "ordered None (plug (Lf a ks rs l) fs) None" and lk: "linked (leafseq t) Null"
    by (auto simp: tree_ok_def t)
  have ord: "3 \<le> order s" using good_order [OF g'] same_order [OF sm] by simp
  note cb = cut_bounds [OF ord, folded sp]
  have il: "i \<le> length ks" by (simp add: i length_takeWhile_le)
  have len: "length rs = length ks"
    using sh by (auto simp: sub_shape_def root_shape_def split: if_splits)
  have lK: "length K = order s" "length R = order s" using full ord len by (simp_all add: K R)
  have oK: "ordered (hole_lo fs) (Lf a K R l) (hole_hi fs)"
    unfolding K by (rule ordered_leaf_insert [OF plug_ordered(1) [OF ok_fs o] key b i])
  have os: "0 < sp" "sp < length K" using cb lK by simp_all
  have "ordered None t' None"
    unfolding t' using ordered_leaf_split [OF oK os] o ord ok_fs by (intro ins_up_ordered) auto
  moreover have "shape (order s) 0 (Lf a (take sp K) (take sp R) (NodeP b'))"
    "shape (order s) 0 (Lf b' (drop sp K) (drop sp R) l)"
    unfolding shape.simps sp [symmetric] using cb lK by auto
  then have "\<exists>H. root_shape (order s') H t'"
    unfolding t' same_order [OF sm] by (rule ins_up_shape [OF ord c])
  moreover have "linked (leafseq t') Null"
    using lk by (cases "ctx_after leafseq fs")
      (auto simp: t t' leafseq_plug ins_up_leafseq linked_append first_leaf_def)
  moreover have "kvs t' = ins_at (length (ctx_before kvs fs) + i) (key, r) (kvs t)"
  proof -
    have "kvs t' = ctx_before kvs fs @ zip K R @ ctx_after kvs fs"
      unfolding t' ins_up_kvs using zip_take_drop [of R K sp] lK by simp
    then show ?thesis using len il by (simp add: t kvs_plug K R zip_ins_at ins_at_middle)
  qed
  ultimately show ?thesis using g' by (auto simp: tree_ok_def)
qed

lemma insert_at_leaf_tree:
  assumes ok: "tree_ok s t" and key: "key \<notin> fst ` set (kvs t)"
  shows "\<exists>t' s' j. insert_at_leaf s (ptr_of t) key r = Some (ptr_of t', s') \<and> same s s' \<and>
    tree_ok s' t' \<and> kvs t' = ins_at j (key, r) (kvs t)"
proof -
  obtain a ks rs l fs fl where fl: "find_leaf s (ptr_of t) key = Some (NodeP a)"
    and t: "t = plug (Lf a ks rs l) fs" and g: "good s (cells Null t) fl"
    and c: "ctx_shape (order s) 0 fs" and sh: "sub_shape (order s) 0 fs (Lf a ks rs l)"
    and b: "lo_le (hole_lo fs) key" "hi_gt key (hole_hi fs)"
    by (rule tree_leaf [OF ok, where key = key])
  have len: "length rs = length ks" and le: "length ks \<le> order s - 1"
    using sh by (auto simp: sub_shape_def root_shape_def split: if_splits)
  have "fst ` set (zip ks rs) = set ks" using len by (metis list.set_map map_fst_zip)
  then have kn: "key \<notin> set ks" using key by (auto simp: t kvs_plug)
  have g1: "good s ((a, Cell (par_of fs) True ks rs (Some l)) # ctx_cells (NodeP a) fs) fl"
    by (rule good_perm [OF g]) (simp add: t mset_cells_plug)
  obtain nd where nd: "nodes s a = Some nd" "num_keys nd = length ks"
    by (rule good_head [OF g1]) (auto simp: node_rel_def)
  define i where "i = length (takeWhile (\<lambda>k. k < key) ks)"
  show ?thesis
  proof (cases "length ks < order s - 1")
    case True
    define t' where "t' = plug (Lf a (ins_at i key ks) (ins_at i r rs) l) fs"
    from insert_into_leaf_good [OF g1 True i_def] obtain s' where
      s': "insert_into_leaf s (NodeP a) key r = Some s'" and sm: "same s s'" and g2: "good s'
        ((a, Cell (par_of fs) True (ins_at i key ks) (ins_at i r rs) (Some l)) # ctx_cells (NodeP a) fs) fl"
      by blast
    have g3: "good s' (cells Null t') fl" by (rule good_perm [OF g2]) (simp add: t'_def mset_cells_plug)
    have "insert_at_leaf s (ptr_of t) key r = Some (ptr_of t', s')"
      using fl nd True s' addr_plug_cong [of "Lf a ks rs l" "Lf a (ins_at i key ks) (ins_at i r rs) l" fs]
      by (simp add: insert_at_leaf_def t t'_def)
    with insert_at_leaf_room [OF ok t kn c sh b i_def True t'_def g3 sm] sm show ?thesis by blast
  next
    case False
    then have full: "length ks = order s - 1" using le by simp
    define K where "K = ins_at i key ks"
    define R where "R = ins_at i r rs"
    define sp where "sp = cut (order s - 1)"
    from split_leaf_good [OF g1 full len i_def K_def R_def sp_def] obtain s1 b' fl1 where
      s1: "split_leaf s (NodeP a) key r = Some (s1, K ! sp, NodeP b')" and m1: "same s s1" and
      g2: "good s1 ((a, Cell (par_of fs) True (take sp K) (take sp R) (Some (NodeP b'))) #
        (b', Cell (par_of fs) True (drop sp K) (drop sp R) (Some l)) # ctx_cells (NodeP a) fs) fl1"
      by blast
    let ?l = "Lf a (take sp K) (take sp R) (NodeP b')" and ?r = "Lf b' (drop sp K) (drop sp R) l"
    have o1: "order s1 = order s" using m1 by (rule same_order)
    have rt: "ptr_of t = ptr_of (plug ?l fs)" 
      unfolding t using addr_plug_cong [of "Lf a ks rs l" ?l fs] by simp
    have "good s1 (cells (par_of fs) ?l @ cells (par_of fs) ?r @ ctx_cells (ptr_of ?l) fs) fl1"
      using g2 by simp
    note up = insert_into_parent_up [OF this c [folded o1] rt, of "K ! sp", unfolded o1 addr.simps]
    from up obtain t' s' fl' news where
      s': "insert_into_parent s1 (ptr_of t) (NodeP a) (K ! sp) (NodeP b') = Some (ptr_of t', s')"
      and t': "t' = ins_up (order s) ?l (K ! sp) ?r fs news"
      and g3: "good s' (cells Null t') fl'" and m2: "same s1 s'" by blast
    have sm: "same s s'" using m1 m2 by (rule same_trans)
    have "insert_at_leaf s (ptr_of t) key r = Some (ptr_of t', s')"
      using fl nd False s1 s' by (simp add: insert_at_leaf_def insert_into_leaf_after_splitting_def)
    with insert_at_leaf_split [OF ok t kn c sh b i_def full K_def R_def sp_def t' g3 sm] sm
    show ?thesis by blast
  qed
qed

lemma start_new_tree_tree:
  assumes g: "good s [] fl"
  shows "\<exists>t' s'. start_new_tree s key r = Some (ptr_of t', s') \<and> same s s' \<and> tree_ok s' t' \<and>
    kvs t' = [(key, r)]"
proof -
  let ?o = "order s" and ?C = "Cell Null True [key] [r] (Some Null)"
  note o = good_order [OF g]
  obtain a s1 fl1 where mk: "make_leaf s = Some (NodeP a, s1)"
    and g1: "good s1 [(a, Cell Null True [] [] (Some Null))] fl1" and m1: "same s s1"
    and nd: "nodes s1 a = Some (fresh_node ?o\<lparr>is_leaf := True\<rparr>)"
    by (rule make_leaf_good [OF g])
  have os: "order s1 = ?o" using m1 by (rule same_order)
  let ?ks = "(replicate (?o - 1) 0)[0 := key]" and ?ps = "(replicate ?o Null)[0 := r, ?o - 1 := Null]"
  let ?nd = "fresh_node ?o\<lparr>is_leaf := True, keys := ?ks, pointers := ?ps, parent := Null, num_keys := 1\<rparr>"
  obtain m where "?o = 3 + m" using le_Suc_ex [OF o] by blast
  then have om: "?o = Suc (Suc (Suc m))" by simp
  have "node_rel (order s1) ?nd ?C" using o by (auto simp: node_rel_def fresh_node_def os nth_list_update list_update_same_conv take_Suc_conv_app_nth [of 0, simplified])
  then have g2: "good (set_node s1 (NodeP a) ?nd) [(a, ?C)] fl1" by (rule good_set_node [OF g1])
  let ?t = "Lf a [key] [r] Null"
  have "start_new_tree s key r = Some (NodeP a, set_node s1 (NodeP a) ?nd)"
    using o by (simp add: start_new_tree_def mk nd fresh_node_def os wr_def)
  moreover have "tree_ok (set_node s1 (NodeP a) ?nd) ?t"
    using g2 o by (auto simp: tree_ok_def root_shape_def os)
  ultimately show ?thesis using m1 by (intro exI [of _ ?t] exI [of _ "set_node s1 (NodeP a) ?nd"]) simp
qed

section \<open>The map a tree represents\<close>

definition tree_rep :: "bpt \<Rightarrow> ptr \<Rightarrow> (u64 \<times> nat) list \<Rightarrow> bool" where
  "tree_rep s root es \<longleftrightarrow>
     (if root = Null then es = [] \<and> (\<exists>fl. good s [] fl)
      else \<exists>t. root = ptr_of t \<and> tree_ok s t \<and> kvs t = map (map_prod id RecP) es)"

definition represents :: "bpt \<Rightarrow> ptr \<Rightarrow> (u64 \<Rightarrow> u64 option) \<Rightarrow> bool" where
  "represents s root m \<longleftrightarrow> (\<exists>es rl. tree_rep s root es \<and> recs_good s (map snd es) rl \<and>
     m = (\<lambda>k. Option.bind (map_of es k) (rec_val s)))"

lemma map_of_RecP: "map_of (map (map_prod id RecP) es) k = map_option RecP (map_of es k)"
  by (induction es) auto

lemma find_bpt_rep:
  assumes "tree_rep s root es"
  shows "\<exists>leaf. find_bpt s root key = Some (rec_ptr (map_option RecP (map_of es key)), leaf) \<and>
    (map_of es key \<noteq> None \<longrightarrow> leaf \<noteq> Null)"
proof (cases "root = Null")
  case True
  with assms show ?thesis by (simp add: tree_rep_def find_bpt_def rec_ptr_def)
next
  case False
  with assms obtain t where "root = ptr_of t" "tree_ok s t" "kvs t = map (map_prod id RecP) es"
    by (auto simp: tree_rep_def)
  with find_bpt_tree [of s t key] show ?thesis by (auto simp: map_of_RecP)
qed

lemma tree_rep_cong:
  assumes "nodes s' = nodes s" "free_nodes s' = free_nodes s" "node_brk s' = node_brk s"
    "node_slab s' = node_slab s" "mem_ok s' = mem_ok s" "order s' = order s"
  shows "tree_rep s' root es = tree_rep s root es"
proof -
  have "good s' = good s" using good_cong [OF assms] by (intro ext)
  then show ?thesis using assms(6) by (simp add: tree_rep_def tree_ok_def)
qed

lemma tree_rep_good: "tree_rep s root es \<Longrightarrow> \<exists>xs fl. good s xs fl"
  by (auto simp: tree_rep_def tree_ok_def split: if_splits)

text \<open>The record of a present key is overwritten in place.\<close>

lemma represents_set_rec:
  assumes t: "tree_rep s root es" and r: "recs_good s (map snd es) rl" and a: "map_of es key = Some a"
    and c: "recs s a = Some c"
  shows "represents (set_rec s (RecP a) (c\<lparr>contents := Value v\<rparr>)) root
    ((\<lambda>k. Option.bind (map_of es k) (rec_val s))(key \<mapsto> v))"
proof -
  let ?s = "set_rec s (RecP a) (c\<lparr>contents := Value v\<rparr>)"
  have rs: "recs ?s = (recs s)(a \<mapsto> c\<lparr>contents := Value v\<rparr>)" by (simp add: set_rec_def)
  have va: "rec_val ?s b = (if b = a then Some v else rec_val s b)" for b
    by (simp add: rec_val_def rs)
  have al: "a \<in> set (map snd es)" using map_of_SomeD [OF a] by force
  then have "a \<notin> set rl" using r by (auto simp: recs_good_def)
  then have "rec_chain ?s p rl = rec_chain s p rl" for p by (intro rec_chain_cong) (auto simp: rs)
  moreover have "\<forall>b \<in> set (map snd es). rec_val ?s b \<noteq> None"
    using r unfolding va by (simp add: recs_good_def)
  ultimately have r': "recs_good ?s (map snd es) rl"
    using r unfolding recs_good_def by (auto simp: set_rec_def)
  have t': "tree_rep ?s root es" using t by (subst tree_rep_cong [of _ s]) (simp_all add: set_rec_def)
  have inj: "distinct (map snd es)" using r by (simp add: recs_good_def)
  have ne: "map_of es k \<noteq> Some a" if "k \<noteq> key" for k
  proof
    assume "map_of es k = Some a"
    then have "(k, a) \<in> set es" "(key, a) \<in> set es" using a by (auto dest: map_of_SomeD)
    moreover have "inj_on snd (set es)" using inj by (simp add: distinct_map)
    ultimately show False using that by (auto dest: inj_onD [of snd "set es" "(k, a)" "(key, a)"])
  qed
  have "(\<lambda>k. Option.bind (map_of es k) (rec_val s))(key \<mapsto> v) =
      (\<lambda>k. Option.bind (map_of es k) (rec_val ?s))"
    using a ne by (auto simp: fun_eq_iff va bind_eq_Some_conv split: bind_splits)
  with t' r' show ?thesis unfolding represents_def by blast
qed

lemma represents_new_entry:
  assumes t: "tree_rep s' root (ins_at j (key, a) es)" and r: "recs_good s' (a # map snd es) rl"
    and key: "map_of es key = None" and va: "rec_val s' a = Some v"
    and old: "\<forall>b \<in> set (map snd es). rec_val s' b = rec_val s b"
  shows "represents s' root ((\<lambda>k. Option.bind (map_of es k) (rec_val s))(key \<mapsto> v))"
proof -
  let ?es = "ins_at j (key, a) es"
  have "mset (map snd ?es) = add_mset a (mset (map snd (take j es @ drop j es)))"
    unfolding map_append by (simp add: ins_at_def)
  then have "mset (a # map snd es) = mset (map snd ?es)" by simp
  then have r': "recs_good s' (map snd ?es) rl" using recs_good_perm [OF r] by blast
  have nk: "key \<notin> fst ` set es" using key by (simp add: map_of_eq_None_iff)
  have "Option.bind (map_of es k) (rec_val s) = Option.bind (map_of es k) (rec_val s')" for k
  proof (cases "map_of es k")
    case (Some b)
    then have "b \<in> set (map snd es)" using map_of_SomeD by force
    with old have "rec_val s' b = rec_val s b" by blast
    with Some show ?thesis by simp
  qed simp
  then have "(\<lambda>k. Option.bind (map_of es k) (rec_val s))(key \<mapsto> v) =
      (\<lambda>k. Option.bind (map_of ?es k) (rec_val s'))"
    using va by (auto simp: fun_eq_iff map_of_ins_at [OF nk])
  with t r' show ?thesis unfolding represents_def by blast
qed

lemma make_record_rep:
  assumes r: "recs_good s live rl" and t: "tree_rep s root es"
  obtains a s' rl' where "make_record s v = Some (RecP a, s')" and "recs_good s' (a # live) rl'"
    and "rec_val s' a = Some v" and "\<forall>b \<in> set live. rec_val s' b = rec_val s b"
    and "tree_rep s' root es"
proof -
  obtain xs fl where g: "good s xs fl" using tree_rep_good [OF t] by blast
  obtain a s' rl' where mk: "make_record s v = Some (RecP a, s')" and r': "recs_good s' (a # live) rl'"
    and va: "rec_val s' a = Some v" and old: "\<forall>b \<in> set live. rec_val s' b = rec_val s b"
    and gs: "\<forall>ys gl. good s ys gl \<longrightarrow> good s' ys gl" and o: "order s' = order s"
    by (rule make_record_good [OF r g])
  have "tree_rep s' root es"
    using t gs o by (fastforce simp: tree_rep_def tree_ok_def split: if_splits)
  then show ?thesis by (rule that [OF mk r' va old])
qed

lemma insert_rep:
  assumes "tree_rep s root es" and "map_of es key = None"
  shows "\<exists>t' s' j. (if root = Null then start_new_tree s key (RecP a)
        else insert_at_leaf s root key (RecP a)) = Some (ptr_of t', s') \<and> same s s' \<and> tree_ok s' t' \<and>
    kvs t' = map (map_prod id RecP) (ins_at j (key, a) es)"
proof (cases "root = Null")
  case True
  then obtain fl where "good s [] fl" "es = []" using assms by (auto simp: tree_rep_def)
  with start_new_tree_tree [of s fl key "RecP a"] True show ?thesis
    by (auto simp: ins_at_def)
next
  case False
  with assms obtain t where t: "root = ptr_of t" "tree_ok s t" "kvs t = map (map_prod id RecP) es"
    by (auto simp: tree_rep_def)
  have "key \<notin> fst ` set (kvs t)" using assms(2) unfolding t(3) by (force simp: map_of_eq_None_iff)
  from insert_at_leaf_tree [OF t(2) this, of "RecP a"] obtain t' s' j where
    "insert_at_leaf s (ptr_of t) key (RecP a) = Some (ptr_of t', s')" "same s s'" "tree_ok s' t'"
    "kvs t' = ins_at j (key, RecP a) (kvs t)" by blast
  moreover have "ins_at j (key, RecP a) (kvs t) = map (map_prod id RecP) (ins_at j (key, a) es)"
    by (simp add: t(3) map_ins_at)
  ultimately show ?thesis using t(1) by auto
qed

lemma insert_bpt_represents:
  assumes "represents s root m"
  shows "\<exists>root' s'. insert_bpt s root key v = Some (root', s') \<and> root' \<noteq> Null \<and>
    represents s' root' (m(key \<mapsto> v))"
proof -
  from assms obtain es rl where t: "tree_rep s root es" and r: "recs_good s (map snd es) rl"
    and m: "m = (\<lambda>k. Option.bind (map_of es k) (rec_val s))" by (auto simp: represents_def)
  from find_bpt_rep [OF t, of key] obtain leaf where
    f: "find_bpt s root key = Some (rec_ptr (map_option RecP (map_of es key)), leaf)" by blast
  show ?thesis
  proof (cases "map_of es key")
    case (Some a)
    then have "a \<in> set (map snd es)" using map_of_SomeD by force
    then have "rec_val s a \<noteq> None" using r by (auto simp: recs_good_def)
    then obtain c where c: "recs s a = Some c" by (auto simp: rec_val_def split: option.splits)
    have "root \<noteq> Null" using t Some by (auto simp: tree_rep_def)
    with represents_set_rec [OF t r Some c, of v] show ?thesis
      by (simp add: insert_bpt_def f Some rec_ptr_def c m)
  next
    case None
    obtain xs fl where g: "good s xs fl" using tree_rep_good [OF t] by blast
    obtain a s1 rl1 where mk: "make_record s v = Some (RecP a, s1)"
      and r1: "recs_good s1 (a # map snd es) rl1" and va: "rec_val s1 a = Some v"
      and old: "\<forall>b \<in> set (map snd es). rec_val s1 b = rec_val s b" and t1: "tree_rep s1 root es"
      by (rule make_record_rep [OF r t])
    have ins: "insert_bpt s root key v = (if root = Null then start_new_tree s1 key (RecP a)
        else insert_at_leaf s1 root key (RecP a))"
      by (simp add: insert_bpt_def f None rec_ptr_def mk insert_at_leaf_def)
    have "\<exists>t' s' j. insert_bpt s root key v = Some (ptr_of t', s') \<and> same s1 s' \<and> tree_ok s' t' \<and>
        kvs t' = map (map_prod id RecP) (ins_at j (key, a) es)"
      unfolding ins using insert_rep [OF t1 None] .
    then obtain t' s' j where s': "insert_bpt s root key v = Some (ptr_of t', s')" "same s1 s'"
      "tree_ok s' t'" "kvs t' = map (map_prod id RecP) (ins_at j (key, a) es)" by blast
    have vs: "rec_val s' b = rec_val s1 b" for b
      using s'(2) by (intro rec_val_cong) (simp add: same_def)
    have "represents s' (ptr_of t') (m(key \<mapsto> v))"
      unfolding m
    proof (rule represents_new_entry [where rl = rl1 and a = a and j = j])
      show "tree_rep s' (ptr_of t') (ins_at j (key, a) es)"
        using s'(3,4) by (auto simp: tree_rep_def)
      show "recs_good s' (a # map snd es) rl1" using r1 by (simp add: recs_good_same [OF s'(2)])
    qed (use None va old vs in auto)
    with s'(1) show ?thesis by blast
  qed
qed

section \<open>Lookup\<close>

text \<open>What a caller of \<open>find\<close> sees: the value of the record, or nothing for a null result.\<close>

definition lookup_bpt :: "bpt \<Rightarrow> ptr \<Rightarrow> u64 \<Rightarrow> u64 option option" where
  "lookup_bpt s root key = do {
     (p, _) \<leftarrow> find_bpt s root key;
     if p = Null then Some None
     else do {
       c \<leftarrow> rec_at s p;
       case contents c of Value v \<Rightarrow> Some (Some v) | NextRec _ \<Rightarrow> None } }"

lemma lookup_bpt_represents:
  assumes "represents s root m"
  shows "lookup_bpt s root key = Some (m key)"
proof -
  from assms obtain es rl where t: "tree_rep s root es" and r: "recs_good s (map snd es) rl"
    and m: "m = (\<lambda>k. Option.bind (map_of es k) (rec_val s))" by (auto simp: represents_def)
  show ?thesis
  proof (cases "map_of es key")
    case None
    with find_bpt_rep [OF t, of key] show ?thesis by (auto simp: lookup_bpt_def rec_ptr_def m)
  next
    case (Some a)
    then have "a \<in> set (map snd es)" using map_of_SomeD by force
    then have "rec_val s a \<noteq> None" using r by (auto simp: recs_good_def)
    with Some find_bpt_rep [OF t, of key] show ?thesis
      by (auto simp: lookup_bpt_def rec_ptr_def m rec_val_def split: option.splits rec_union.splits)
  qed
qed

lemma represents_start:
  assumes "3 \<le> ord" and "ord < 2 ^ 64" and "\<forall>i. ok i"
  shows "represents (bpt_start ord ok) Null (\<lambda>_. None)"
proof -
  have "unat NODE_SLAB_GROW div sizeof_node = 5461" "unat RECORD_SLAB_GROW div sizeof_record = 16384"
    by (simp_all add: NODE_SLAB_GROW_def RECORD_SLAB_GROW_def sizeof_node_def sizeof_record_def
        push_bit_eq_mult)
  then have "good (bpt_start ord ok) [] []" "recs_good (bpt_start ord ok) [] []"
    using assms by (auto simp: good_def recs_good_def bpt_start_def)
  then show ?thesis by (auto simp: represents_def tree_rep_def intro!: exI [of _ "[]"])
qed

section \<open>Properties\<close>

text \<open>
  C6.  On every well-formed tree \<open>insert\<close> returns, and the tree it returns is well-formed
  again (key order, node sizes, uniform depth, leaf chain, parent pointers, record and node
  free lists) and stands for the old map with the key bound to the new value, whether the
  key was present, the leaf had room, or nodes had to be split up to a new root.
\<close>

theorem insert_bpt_updates:
  assumes "represents s root m"
  shows "\<exists>root' s'. insert_bpt s root key v = Some (root', s') \<and> represents s' root' (m(key \<mapsto> v))"
  using insert_bpt_represents [OF assms] by blast

theorem insert_bpt_updates_witness:
  "\<exists>root' s'. insert_bpt (bpt_start 4 (\<lambda>_. True)) Null 5 70 = Some (root', s') \<and>
     represents s' root' ((\<lambda>_. None)(5 \<mapsto> 70))"
  by (rule insert_bpt_updates, rule represents_start) simp_all

text \<open>
  C8.  On every well-formed tree \<open>find\<close> returns: null when the key is absent, otherwise a
  live record that holds the value of the key.
\<close>

theorem find_bpt_correct:
  assumes "represents s root m"
  shows "\<exists>r leaf. find_bpt s root key = Some (r, leaf) \<and>
    (case m key of None \<Rightarrow> r = Null
     | Some v \<Rightarrow> r \<noteq> Null \<and> leaf \<noteq> Null \<and> (\<exists>c. rec_at s r = Some c \<and> contents c = Value v))"
proof -
  from assms obtain es rl where t: "tree_rep s root es" and r: "recs_good s (map snd es) rl"
    and m: "m = (\<lambda>k. Option.bind (map_of es k) (rec_val s))" by (auto simp: represents_def)
  from find_bpt_rep [OF t, of key] obtain leaf where
    f: "find_bpt s root key = Some (rec_ptr (map_option RecP (map_of es key)), leaf)"
    "map_of es key \<noteq> None \<longrightarrow> leaf \<noteq> Null" by blast
  show ?thesis
  proof (cases "map_of es key")
    case None
    then show ?thesis using f by (simp add: m rec_ptr_def)
  next
    case (Some a)
    then have "a \<in> set (map snd es)" using map_of_SomeD by force
    then have "rec_val s a \<noteq> None" using r by (auto simp: recs_good_def)
    with Some f show ?thesis
      by (auto simp: m rec_ptr_def rec_val_def split: option.splits rec_union.splits)
  qed
qed

theorem find_bpt_correct_witness:
  "\<exists>r leaf. find_bpt (bpt_start 4 (\<lambda>_. True)) Null 5 = Some (r, leaf) \<and> r = Null"
  using find_bpt_correct [OF represents_start [of 4 "\<lambda>_. True"], of 5] by simp

end
