(* ===== verification/Btree_Delete.thy ===== *)
theory Btree_Delete
  imports Btree_Map
begin

text \<open>
  Deletion from the B+ tree.  Each function of the deletion path is shown to act on the
  represented tree as intended: an entry leaves its node, two siblings become one, or one
  entry moves between siblings through the separator.  The upward pass then restores the
  node sizes level by level and the tree loses exactly the deleted key.
\<close>

section \<open>Removing an entry from a node\<close>

lemma shift_remove:
  assumes "take n xs = us @ v # ws" and "n \<le> length xs" and "n = length us + Suc (length ws)"
  shows "\<exists>ys. shift_down xs n (length us + 1) = Some ys \<and> length ys = length xs \<and>
    take (n - 1) ys = us @ ws \<and> (\<forall>j \<ge> n. ys ! j = xs ! j)"
proof -
  have xs: "xs = us @ v # ws @ drop n xs"
    using append_take_drop_id [of n xs] assms(1) by simp
  have t: "take (length us) xs = us" "drop (length us + 1) (take n xs) = ws"
    using arg_cong [OF xs, of "take (length us)"] assms(1) by simp_all
  have "shift_down xs n (length us + 1) = Some (us @ ws @ drop (n - 1) xs)"
    using shift_down_eq [of "length us + 1" n xs] assms(2,3) t by simp
  moreover have "(us @ ws @ drop (n - 1) xs) ! j = xs ! j" if "j \<ge> n" for j
    using that assms(2,3) by (auto simp: nth_append)
  ultimately show ?thesis using assms(2,3) by auto
qed

lemma index_of_take:
  assumes "take n xs = us @ v # ws" and "v \<notin> set us"
  shows "index_of xs v = Some (length us)"
proof -
  have "xs = us @ v # (ws @ drop n xs)"
    using append_take_drop_id [of n xs] assms(1) by simp
  with index_of_append [OF assms(2)] show ?thesis by metis
qed

lemma remove_leaf_good:
  assumes g: "good s ((a, Cell p True (kl @ k # kr) (rl @ r # rr) (Some l)) # xs) fl"
    and len: "length rl = length kl" "length rr = length kr" and k: "k \<notin> set kl" "r \<notin> set rl"
  shows "\<exists>s'. remove_entry_from_node s (NodeP a) k r = Some s' \<and> same s s' \<and>
    good s' ((a, Cell p True (kl @ kr) (rl @ rr) (Some l)) # xs) fl"
proof -
  let ?o = "order s" and ?n = "length kl + Suc (length kr)"
  obtain nd where nd: "nodes s a = Some nd"
    "node_rel ?o nd (Cell p True (kl @ k # kr) (rl @ r # rr) (Some l))" by (rule good_head [OF g])
  then have n: "num_keys nd = ?n" "?n \<le> ?o - 1" "length (keys nd) = ?o - 1" "length (pointers nd) = ?o"
    "take ?n (keys nd) = kl @ k # kr" "take ?n (pointers nd) = rl @ r # rr" "is_leaf nd"
    "pointers nd ! (?o - 1) = l" "parent nd = p"
    by (auto simp: node_rel_def)
  have o: "?n \<le> ?o" "?n \<le> ?o - 1" using n(2) by simp_all
  obtain ks where ks: "shift_down (keys nd) ?n (length kl + 1) = Some ks" "length ks = ?o - 1"
    "take (?n - 1) ks = kl @ kr"
    using shift_remove [OF n(5)] n by auto
  obtain ps where ps: "shift_down (pointers nd) ?n (length rl + 1) = Some ps" "length ps = ?o"
    "take (?n - 1) ps = rl @ rr" "ps ! (?o - 1) = l"
    using shift_remove [OF n(6)] n len o by auto
  obtain ps' where ps': "fill Null ps (?o - 1) (?n - 1) = Some ps'" "length ps' = ?o"
    "take (?n - 1) ps' = rl @ rr" "ps' ! (?o - 1) = l"
    using fill_props [of "?n - 1" "?o - 1" ps Null] n(2) ps(2,3,4) by auto
  let ?nd = "nd\<lparr>keys := ks, pointers := ps', num_keys := ?n - 1\<rparr>"
  have i: "index_of (keys nd) k = Some (length kl)" "index_of (pointers nd) r = Some (length rl)"
    using index_of_take [OF n(5) k(1)] index_of_take [OF n(6) k(2)] by simp_all
  have "remove_entry_from_node s (NodeP a) k r = Some (set_node s (NodeP a) ?nd)"
    by (simp only: remove_entry_from_node_def node_at_NodeP nd(1) Option.bind.simps i n(1) n(7) Let_def
        ks(1) ps(1) ps'(1) if_True)
  moreover have "node_rel ?o ?nd (Cell p True (kl @ kr) (rl @ rr) (Some l))"
    using n ks(2,3) ps'(2,3,4) len by (simp add: node_rel_def)
  ultimately show ?thesis using good_set_node [OF g] by (metis same_set_node)
qed

lemma remove_node_good:
  assumes g: "good s ((a, Cell p False (kl @ k # kr) (pl @ q # pr) None) # xs) fl"
    and len: "length pl + length pr = Suc (length kl + length kr)" and k: "k \<notin> set kl" "q \<notin> set pl"
  shows "\<exists>s'. remove_entry_from_node s (NodeP a) k q = Some s' \<and> same s s' \<and>
    good s' ((a, Cell p False (kl @ kr) (pl @ pr) None) # xs) fl"
proof -
  let ?o = "order s" and ?n = "length kl + Suc (length kr)"
  obtain nd where nd: "nodes s a = Some nd"
    "node_rel ?o nd (Cell p False (kl @ k # kr) (pl @ q # pr) None)" by (rule good_head [OF g])
  then have n: "num_keys nd = ?n" "?n \<le> ?o - 1" "length (keys nd) = ?o - 1" "length (pointers nd) = ?o"
    "take ?n (keys nd) = kl @ k # kr" "take (?n + 1) (pointers nd) = pl @ q # pr" "\<not> is_leaf nd"
    "parent nd = p"
    by (auto simp: node_rel_def)
  have o: "?n + 1 \<le> ?o" using n(2) good_order [OF g] by simp
  obtain ks where ks: "shift_down (keys nd) ?n (length kl + 1) = Some ks" "length ks = ?o - 1"
    "take (?n - 1) ks = kl @ kr"
    using shift_remove [OF n(5)] n by auto
  obtain ps where ps: "shift_down (pointers nd) (?n + 1) (length pl + 1) = Some ps" "length ps = ?o"
    "take ?n ps = pl @ pr"
    using shift_remove [OF n(6)] n(4) o len by auto
  let ?ps = "take ?n ps @ replicate (?o - ?n) Null"
  have ps': "fill Null ps ?o (?n - 1 + 1) = Some ?ps"
    using fill_eq [of "?n - 1 + 1" ?o ps Null] o ps(2) by simp
  let ?nd = "nd\<lparr>keys := ks, pointers := ?ps, num_keys := ?n - 1\<rparr>"
  have i: "index_of (keys nd) k = Some (length kl)" "index_of (pointers nd) q = Some (length pl)"
    using index_of_take [OF n(5) k(1)] index_of_take [OF n(6) k(2)] by simp_all
  have "remove_entry_from_node s (NodeP a) k q = Some (set_node s (NodeP a) ?nd)"
    using n(7) by (simp only: remove_entry_from_node_def node_at_NodeP nd(1) Option.bind.simps i n(1)
        Let_def ks(1) ps(1) ps' if_False)
  moreover have "node_rel ?o ?nd (Cell p False (kl @ kr) (pl @ pr) None)"
    using n ks(2,3) ps(2,3) o len by (simp add: node_rel_def)
  ultimately show ?thesis using good_set_node [OF g] by (metis same_set_node)
qed

text \<open>A released node goes to the free list.\<close>

lemma release_node_good:
  assumes g: "good s ((a, c) # xs) fl"
  shows "\<exists>s'. release_node s (NodeP a) = Some s' \<and> same s s' \<and> good s' xs (a # fl)"
proof -
  obtain nd where nd: "nodes s a = Some nd" by (rule good_head [OF g])
  let ?nd = "nd\<lparr>keys := [], pointers := [], next_p := free_nodes s\<rparr>"
  let ?s = "(set_node s (NodeP a) ?nd)\<lparr>free_nodes := NodeP a\<rparr>"
  have "release_node s (NodeP a) = Some ?s"
    by (simp add: release_node_def nd free_node_def set_node_def)
  moreover have "same s ?s" by (simp add: same_def set_node_def)
  moreover have "good ?s xs (a # fl)"
  proof -
    have fr: "a \<notin> fst ` set xs" "a \<notin> set fl" using g by (auto simp: good_def)
    have "free_chain ?s p fl = free_chain s p fl" for p
      using fr(2) by (intro free_chain_cong) auto
    then have "free_chain ?s (NodeP a) (a # fl)" using g by (simp add: good_def)
    moreover have "\<forall>(b, d) \<in> set xs. \<exists>nd'. nodes ?s b = Some nd' \<and> node_rel (order s) nd' d"
      using g fr by (fastforce simp: good_def image_iff)
    ultimately show ?thesis using g fr by (auto simp: good_def)
  qed
  ultimately show ?thesis by blast
qed

section \<open>Merging two siblings\<close>

lemma set_parents_append:
  "set_parents s (xs @ ys) p = do { s \<leftarrow> set_parents s xs p; set_parents s ys p }"
  by (induction xs arbitrary: s) (auto split: bind_splits)

lemma copy_append:
  assumes "take n dst = us" "n \<le> length dst" and "take m src = ws" "m \<le> length src"
    and "n + m \<le> length dst"
  shows "\<exists>ys. copy_range src dst m 0 n = Some ys \<and> length ys = length dst \<and>
    take (n + m) ys = us @ ws \<and> (\<forall>j \<ge> n + m. ys ! j = dst ! j)"
proof -
  have "copy_range src dst m 0 n = Some (us @ ws @ drop (n + m) dst)"
    using copy_range_eq [of 0 m src n dst] assms by simp
  moreover have "length us = n" "length ws = m" using assms by auto
  moreover have "(us @ ws @ drop (n + m) dst) ! j = dst ! j" if "j \<ge> n + m" for j
    using that \<open>length us = n\<close> \<open>length ws = m\<close> assms(5) by (auto simp: nth_append)
  ultimately show ?thesis using assms(5) by auto
qed

lemma merge_leaf_good:
  assumes g: "good s ((a, Cell p True ks1 rs1 l1) # (b, Cell p True ks2 rs2 (Some l2)) # xs) fl"
    and len: "length rs1 = length ks1" "length rs2 = length ks2"
    and cap: "length ks1 + length ks2 \<le> order s - 1"
    and nn: "(n, nb) = (if idx = -1 then (NodeP a, NodeP b) else (NodeP b, NodeP a))"
  shows "\<exists>s'. merge_nodes s n nb idx k = Some (s', NodeP b) \<and> same s s' \<and>
    good s' ((a, Cell p True (ks1 @ ks2) (rs1 @ rs2) (Some l2)) # (b, Cell p True ks2 rs2 (Some l2)) # xs) fl"
proof -
  let ?o = "order s"
  note o = good_order [OF g]
  have sw: "(if idx = -1 then (nb, n) else (n, nb)) = (NodeP b, NodeP a)"
    using nn by (cases "idx = -1") simp_all
  obtain na where na: "nodes s a = Some na" "node_rel ?o na (Cell p True ks1 rs1 l1)"
    by (rule good_head [OF g])
  obtain nb' where nb: "nodes s b = Some nb'" "node_rel ?o nb' (Cell p True ks2 rs2 (Some l2))"
    by (rule good_head [OF good_swap2 [OF g]])
  from na(2) have A: "num_keys na = length ks1" "length (keys na) = ?o - 1" "length (pointers na) = ?o"
    "take (length ks1) (keys na) = ks1" "take (length ks1) (pointers na) = rs1" "is_leaf na"
    by (auto simp: node_rel_def)
  from nb(2) have B: "num_keys nb' = length ks2" "length (keys nb') = ?o - 1" "length (pointers nb') = ?o"
    "take (length ks2) (keys nb') = ks2" "take (length ks2) (pointers nb') = rs2" "is_leaf nb'"
    "pointers nb' ! (?o - 1) = l2"
    by (auto simp: node_rel_def)
  obtain ks where ks: "copy_range (keys nb') (keys na) (length ks2) 0 (length ks1) = Some ks"
    "length ks = ?o - 1" "take (length ks1 + length ks2) ks = ks1 @ ks2"
    using copy_append [OF A(4) _ B(4)] A(2) B(2) cap by auto
  obtain ps where ps: "copy_range (pointers nb') (pointers na) (length ks2) 0 (length ks1) = Some ps"
    "length ps = ?o" "take (length ks1 + length ks2) ps = rs1 @ rs2"
    using copy_append [OF A(5) _ B(5)] A(3) B(3) le_trans [OF cap diff_le_self] by auto
  have lk: "rd (pointers nb') (?o - 1) = Some l2" "wr ps (?o - 1) l2 = Some (ps[?o - 1 := l2])"
    using B(3,7) ps(2) o by (simp_all add: rd_def wr_def)
  let ?nd = "na\<lparr>keys := ks, pointers := ps[?o - 1 := l2], num_keys := length ks1 + length ks2\<rparr>"
  have "merge_nodes s n nb idx k = Some (set_node s (NodeP a) ?nd, NodeP b)"
    using A(1) B(1,6) by (simp only: merge_nodes_def sw if_False prod.case Let_def node_at_NodeP
        na(1) nb(1) Option.bind.simps not_True_eq_False ks(1) ps(1) lk)
  moreover have "node_rel ?o ?nd (Cell p True (ks1 @ ks2) (rs1 @ rs2) (Some l2))"
    using na(2) ks(2,3) ps(2,3) cap o by (simp add: node_rel_def take_update_cancel)
  ultimately show ?thesis using good_set_node [OF g] by (metis same_set_node)
qed

lemma merge_node_good:
  assumes g: "good s ((a, Cell p False ks1 (map ptr_of cs1) None) #
      (b, Cell p False ks2 (map ptr_of cs2) None) #
      concat (map (cells (NodeP a)) cs1) @ concat (map (cells (NodeP b)) cs2) @ xs) fl"
    and len: "length cs1 = Suc (length ks1)" "length cs2 = Suc (length ks2)"
    and cap: "length ks1 + length ks2 < order s - 1"
    and nn: "(n, nb) = (if idx = -1 then (NodeP a, NodeP b) else (NodeP b, NodeP a))"
  shows "\<exists>s' ps. merge_nodes s n nb idx k = Some (s', NodeP b) \<and> same s s' \<and>
    good s' ((a, Cell p False (ks1 @ k # ks2) (map ptr_of (cs1 @ cs2)) None) #
      (b, Cell p False [] ps None) # concat (map (cells (NodeP a)) (cs1 @ cs2)) @ xs) fl"
proof -
  let ?o = "order s" and ?n1 = "length ks1" and ?n2 = "length ks2"
  note o = good_order [OF g]
  have sw: "(if idx = -1 then (nb, n) else (n, nb)) = (NodeP b, NodeP a)"
    using nn by (cases "idx = -1") simp_all
  obtain na where na: "nodes s a = Some na" "node_rel ?o na (Cell p False ks1 (map ptr_of cs1) None)"
    by (rule good_head [OF g])
  obtain nb' where nb: "nodes s b = Some nb'" "node_rel ?o nb' (Cell p False ks2 (map ptr_of cs2) None)"
    by (rule good_head [OF good_swap2 [OF g]])
  from na(2) have A: "num_keys na = ?n1" "length (keys na) = ?o - 1" "length (pointers na) = ?o"
    "take ?n1 (keys na) = ks1" "take (?n1 + 1) (pointers na) = map ptr_of cs1" "\<not> is_leaf na"
    by (auto simp: node_rel_def)
  from nb(2) have B: "num_keys nb' = ?n2" "length (keys nb') = ?o - 1" "length (pointers nb') = ?o"
    "take ?n2 (keys nb') = ks2" "take (?n2 + 1) (pointers nb') = map ptr_of cs2" "\<not> is_leaf nb'"
    by (auto simp: node_rel_def)
  have cap2: "Suc (Suc (?n1 + ?n2)) \<le> ?o" using cap o by simp
  have w: "wr (keys na) ?n1 k = Some ((keys na)[?n1 := k])"
    and tk: "take (?n1 + 1) ((keys na)[?n1 := k]) = ks1 @ [k]"
    using A(2,4) cap by (simp_all add: wr_def take_list_update_Suc)
  obtain ks where ks: "copy_range (keys nb') ((keys na)[?n1 := k]) ?n2 0 (?n1 + 1) = Some ks"
    "length ks = ?o - 1" "take (?n1 + 1 + ?n2) ks = (ks1 @ [k]) @ ks2"
    using copy_append [OF tk _ B(4)] A(2) B(2) cap by auto
  obtain ps where ps: "copy_range (pointers nb') (pointers na) (?n2 + 1) 0 (?n1 + 1) = Some ps"
    "length ps = ?o" "take (?n1 + 1 + (?n2 + 1)) ps = map ptr_of (cs1 @ cs2)"
    using copy_append [OF A(5) _ B(5)] A(3) B(3) cap2 by auto
  have ps3: "take (?n1 + 1 + ?n2 + 1) ps = map ptr_of (cs1 @ cs2)" using ps(3) by (simp add: ac_simps)
  let ?b = "nb'\<lparr>num_keys := 0\<rparr>"
  let ?a = "na\<lparr>keys := ks, pointers := ps, num_keys := ?n1 + 1 + ?n2\<rparr>"
  let ?s1 = "set_node s (NodeP b) ?b" and ?Ca = "Cell p False (ks1 @ k # ks2) (map ptr_of (cs1 @ cs2)) None"
  let ?s2 = "set_node ?s1 (NodeP a) ?a" and ?Cb = "Cell p False [] (take 1 (pointers nb')) None"
  have rb: "node_rel ?o ?b ?Cb" using nb(2) by (simp add: node_rel_def)
  have ra: "node_rel (order ?s1) ?a ?Ca" using na(2) ks(2,3) ps(2) ps3 cap by (simp add: node_rel_def)
  have "good ?s1 ((b, ?Cb) # (a, Cell p False ks1 (map ptr_of cs1) None) #
      concat (map (cells (NodeP a)) cs1) @ concat (map (cells (NodeP b)) cs2) @ xs) fl"
    by (rule good_set_node [OF good_swap2 [OF g] rb])
  from good_set_node [OF good_swap2 [OF this] ra]
  have "good ?s2 (concat (map (cells (NodeP a)) cs1) @ (a, ?Ca) # (b, ?Cb) #
      concat (map (cells (NodeP b)) cs2) @ xs) fl" by (rule good_perm) simp
  from good_set_parents [OF this, of "NodeP a"] obtain s3 where
    s3: "set_parents ?s2 (map ptr_of cs1) (NodeP a) = Some s3" "same ?s2 s3" and
    "good s3 (concat (map (cells (NodeP a)) cs1) @ (a, ?Ca) # (b, ?Cb) #
      concat (map (cells (NodeP b)) cs2) @ xs) fl" by blast
  then have "good s3 (concat (map (cells (NodeP b)) cs2) @ (a, ?Ca) # (b, ?Cb) #
      concat (map (cells (NodeP a)) cs1) @ xs) fl" by (elim good_perm) simp
  from good_set_parents [OF this, of "NodeP a"] obtain s4 where
    s4: "set_parents s3 (map ptr_of cs2) (NodeP a) = Some s4" "same s3 s4" and
    g4: "good s4 (concat (map (cells (NodeP a)) cs2) @ (a, ?Ca) # (b, ?Cb) #
      concat (map (cells (NodeP a)) cs1) @ xs) fl" by blast
  have sp: "set_parents ?s2 (map ptr_of (cs1 @ cs2)) (NodeP a) = Some s4"
    by (simp only: map_append set_parents_append s3 s4 Option.bind.simps)
  have "merge_nodes s n nb idx k = Some (s4, NodeP b)"
    using A(1) B(1,6) by (simp only: merge_nodes_def sw if_True prod.case Let_def node_at_NodeP
        na(1) nb(1) Option.bind.simps not_False_eq_True w ks(1) ps(1) ps3 order_set_node sp)
  moreover have "same s s4" by (rule same_trans [OF _ same_trans [OF s3(2) s4(2)]]) simp
  moreover have "good s4 ((a, ?Ca) # (b, ?Cb) # concat (map (cells (NodeP a)) (cs1 @ cs2)) @ xs) fl"
    by (rule good_perm [OF g4]) simp
  ultimately show ?thesis by blast
qed

section \<open>Moving an entry between siblings\<close>

lemma good_set_parent_ex:
  assumes "good s (cells p t @ xs) fl"
  shows "\<exists>s'. set_parent s (ptr_of t) q = Some s' \<and> same s s' \<and> good s' (cells q t @ xs) fl \<and>
    (\<forall>a. a \<noteq> addr t \<longrightarrow> nodes s' a = nodes s a)"
  by (rule good_set_parent [OF assms, of q]) auto

lemma set_parent_key_good:
  assumes g: "good s ((a, Cell p False (kl @ k # kr) ps None) # xs) fl"
    and nd: "nodes s b = Some nd" "parent nd = NodeP a"
  shows "\<exists>s'. set_parent_key s (NodeP b) (length kl) k' = Some s' \<and> same s s' \<and>
    good s' ((a, Cell p False (kl @ k' # kr) ps None) # xs) fl"
proof -
  obtain na where na: "nodes s a = Some na"
    "node_rel (order s) na (Cell p False (kl @ k # kr) ps None)" by (rule good_head [OF g])
  let ?n = "length kl + Suc (length kr)"
  from na(2) have n: "take ?n (keys na) = kl @ k # kr" "?n \<le> length (keys na)" by (auto simp: node_rel_def)
  let ?na = "na\<lparr>keys := (keys na)[length kl := k']\<rparr>"
  have "take ?n ((keys na)[length kl := k']) = kl @ k' # kr"
    using n(1) by (simp add: take_update_swap)
  then have "node_rel (order s) ?na (Cell p False (kl @ k' # kr) ps None)"
    using na(2) by (auto simp: node_rel_def)
  from good_set_node [OF g this] show ?thesis
    using n(2) by (simp add: set_parent_key_def nd na(1) wr_def)
qed

lemma shift_push:
  assumes "take n xs = us" and "n < length xs"
  shows "\<exists>zs. shift_up xs 0 n = Some zs \<and> wr zs 0 v = Some (zs[0 := v]) \<and> length zs = length xs \<and>
    take (Suc n) (zs[0 := v]) = v # us \<and> (\<forall>j > n. zs[0 := v] ! j = xs ! j)"
proof -
  from shift_insert [of 0 n xs v] assms obtain zs ys where
    "shift_up xs 0 n = Some zs" "wr zs 0 v = Some ys" "length ys = length xs"
    "take (Suc n) ys = ins_at 0 v (take n xs)" "\<forall>j > n. ys ! j = xs ! j" by auto
  then show ?thesis using assms(1) by (auto simp: wr_eq_Some_iff ins_at_def)
qed

lemma shift_pop:
  assumes "take (Suc n) xs = v # us" and "Suc n \<le> length xs" and "length us = n"
  shows "\<exists>ys. shift_down xs (Suc n) 1 = Some ys \<and> length ys = length xs \<and> take n ys = us \<and>
    (\<forall>j \<ge> Suc n. ys ! j = xs ! j)"
  using shift_remove [of "Suc n" xs "[]" v us, unfolded append_Nil list.size add_0 diff_Suc_1,
      OF assms(1,2)] assms(3) by auto

lemma take_snoc_read:
  assumes "take (Suc n) xs = us @ [v]" and "length us = n" and "Suc n \<le> length xs"
  shows "rd xs n = Some v" and "take n xs = us"
proof -
  have "xs ! n = take (Suc n) xs ! n" by simp
  then show "rd xs n = Some v" using assms by (simp add: rd_def nth_append)
  have "take n xs = take n (take (Suc n) xs)" by simp
  then show "take n xs = us" using assms by simp
qed

lemma redistribute_left_leaf:
  assumes g: "good s ((a, Cell p True (ks1 @ [k1]) (rs1 @ [r1]) l1) # (b, Cell p True ks2 rs2 l2) #
      (c, Cell q False (kl @ k # kr) ps None) # xs) fl"
    and p: "p = NodeP c" and len: "length rs1 = length ks1" "length rs2 = length ks2"
    and room: "length ks2 < order s - 1"
  shows "\<exists>s'. redistribute_from_left s (NodeP b) (NodeP a) (length kl) k0 = Some s' \<and> same s s' \<and>
    good s' ((a, Cell p True ks1 rs1 l1) # (b, Cell p True (k1 # ks2) (r1 # rs2) l2) #
      (c, Cell q False (kl @ k1 # kr) ps None) # xs) fl"
proof -
  let ?o = "order s" and ?n1 = "length ks1" and ?n2 = "length ks2"
  note o = good_order [OF g]
  obtain na where na: "nodes s a = Some na" "node_rel ?o na (Cell p True (ks1 @ [k1]) (rs1 @ [r1]) l1)"
    by (rule good_head [OF g])
  obtain nb where nb: "nodes s b = Some nb" "node_rel ?o nb (Cell p True ks2 rs2 l2)"
    by (rule good_head [OF good_swap2 [OF g]])
  from na(2) have A: "num_keys na = Suc ?n1" "length (keys na) = ?o - 1" "length (pointers na) = ?o"
    "take (Suc ?n1) (keys na) = ks1 @ [k1]" "take (Suc ?n1) (pointers na) = rs1 @ [r1]" "Suc ?n1 \<le> ?o - 1"
    by (auto simp: node_rel_def)
  from nb(2) have B: "num_keys nb = ?n2" "length (keys nb) = ?o - 1" "length (pointers nb) = ?o"
    "take ?n2 (keys nb) = ks2" "take ?n2 (pointers nb) = rs2" "is_leaf nb" "parent nb = NodeP c"
    by (auto simp: node_rel_def p)
  have n1: "Suc (length ks1) - 1 = length ks1" by simp
  have room2: "?n2 < ?o" using room by simp
  obtain ks where ks: "shift_up (keys nb) 0 ?n2 = Some ks" "wr ks 0 k1 = Some (ks[0 := k1])"
    "length ks = ?o - 1" "take (Suc ?n2) (ks[0 := k1]) = k1 # ks2"
    using shift_push [OF B(4), of k1] B(2) room by auto
  obtain rs where rs: "shift_up (pointers nb) 0 ?n2 = Some rs" "wr rs 0 r1 = Some (rs[0 := r1])"
    "length rs = ?o" "take (Suc ?n2) (rs[0 := r1]) = r1 # rs2" "rs[0 := r1] ! (?o - 1) = pointers nb ! (?o - 1)"
    using shift_push [OF B(5), of r1] B(3) room room2 by auto
  have ra: "rd (pointers na) ?n1 = Some r1" "rd (keys na) ?n1 = Some k1"
    "take ?n1 (keys na) = ks1" "take ?n1 (pointers na) = rs1"
    using take_snoc_read [OF A(5)] take_snoc_read [OF A(4)] A len by auto
  have wa: "wr (pointers na) ?n1 Null = Some ((pointers na)[?n1 := Null])"
    using A(3,6) by (simp add: wr_def)
  have "good s ((c, Cell q False (kl @ k # kr) ps None) # (b, Cell p True ks2 rs2 l2) #
      (a, Cell p True (ks1 @ [k1]) (rs1 @ [r1]) l1) # xs) fl" by (rule good_perm [OF g]) simp
  from set_parent_key_good [OF this nb(1) B(7), of k1] obtain s1 where
    s1: "set_parent_key s (NodeP b) (length kl) k1 = Some s1" "same s s1" and
    "good s1 ((c, Cell q False (kl @ k1 # kr) ps None) # (b, Cell p True ks2 rs2 l2) #
      (a, Cell p True (ks1 @ [k1]) (rs1 @ [r1]) l1) # xs) fl" by blast
  then have g1: "good s1 ((b, Cell p True ks2 rs2 l2) # (a, Cell p True (ks1 @ [k1]) (rs1 @ [r1]) l1) #
      (c, Cell q False (kl @ k1 # kr) ps None) # xs) fl" by (elim good_perm) simp
  let ?b = "nb\<lparr>keys := ks[0 := k1], pointers := rs[0 := r1], num_keys := ?n2 + 1\<rparr>"
  let ?a = "na\<lparr>pointers := (pointers na)[?n1 := Null], num_keys := ?n1\<rparr>"
  have o1: "order s1 = ?o" using s1(2) by (rule same_order)
  have rb: "node_rel (order s1) ?b (Cell p True (k1 # ks2) (r1 # rs2) l2)"
    unfolding o1 using nb(2) ks(3,4) rs(3,4,5) room by (simp add: node_rel_def)
  let ?s2 = "set_node s1 (NodeP b) ?b"
  have "node_rel (order ?s2) ?a (Cell p True ks1 rs1 l1)"
    using na(2) ra(3,4) A(6) by (simp add: node_rel_def o1 take_update_cancel)
  from good_set_node [OF good_swap2 [OF good_set_node [OF g1 rb]] this]
  have "good (set_node ?s2 (NodeP a) ?a) ((a, Cell p True ks1 rs1 l1) #
      (b, Cell p True (k1 # ks2) (r1 # rs2) l2) # (c, Cell q False (kl @ k1 # kr) ps None) # xs) fl" .
  moreover have "redistribute_from_left s (NodeP b) (NodeP a) (length kl) k0 = Some (set_node ?s2 (NodeP a) ?a)"
    using B(6) by (simp only: redistribute_from_left_def node_at_NodeP na(1) nb(1) Option.bind.simps A(1) B(1)
        if_True if_False not_True_eq_False n1 ks(1,2) rs(1,2) ra wa s1(1) Let_def)
  ultimately show ?thesis using s1(2) by auto
qed

lemma redistribute_left_node:
  assumes g: "good s ((a, Cell p False (ks1 @ [k1]) (map ptr_of (cs1 @ [t])) None) #
      (b, Cell p False ks2 (map ptr_of cs2) None) # (c, Cell q False (kl @ k # kr) ps None) #
      cells (NodeP a) t @ xs) fl"
    and p: "p = NodeP c" and len: "length cs1 = Suc (length ks1)" "length cs2 = Suc (length ks2)"
    and room: "length ks2 < order s - 1"
  shows "\<exists>s'. redistribute_from_left s (NodeP b) (NodeP a) (length kl) k = Some s' \<and> same s s' \<and>
    good s' ((a, Cell p False ks1 (map ptr_of cs1) None) # (b, Cell p False (k # ks2) (map ptr_of (t # cs2)) None) #
      (c, Cell q False (kl @ k1 # kr) ps None) # cells (NodeP b) t @ xs) fl"
proof -
  let ?o = "order s" and ?n1 = "length ks1" and ?n2 = "length ks2"
  let ?A = "Cell p False (ks1 @ [k1]) (map ptr_of (cs1 @ [t])) None" and ?B = "Cell p False ks2 (map ptr_of cs2) None"
  let ?C = "Cell q False (kl @ k # kr) ps None" and ?C' = "Cell q False (kl @ k1 # kr) ps None"
  note o = good_order [OF g]
  obtain na where na: "nodes s a = Some na" "node_rel ?o na ?A" by (rule good_head [OF g])
  obtain nb where nb: "nodes s b = Some nb" "node_rel ?o nb ?B" by (rule good_head [OF good_swap2 [OF g]])
  from na(2) have A: "num_keys na = Suc ?n1" "length (keys na) = ?o - 1" "length (pointers na) = ?o"
    "take (Suc ?n1) (keys na) = ks1 @ [k1]" "take (Suc (Suc ?n1)) (pointers na) = map ptr_of cs1 @ [ptr_of t]"
    "Suc ?n1 \<le> ?o - 1" by (auto simp: node_rel_def)
  from nb(2) have B: "num_keys nb = ?n2" "length (keys nb) = ?o - 1" "length (pointers nb) = ?o"
    "take ?n2 (keys nb) = ks2" "take (Suc ?n2) (pointers nb) = map ptr_of cs2" "\<not> is_leaf nb" "parent nb = NodeP c"
    by (auto simp: node_rel_def p)
  have n1: "Suc ?n1 - 1 = ?n1" "?n2 + 1 = Suc ?n2" by simp_all
  have o1: "Suc ?n2 < ?o" "Suc (Suc ?n1) \<le> ?o" using room A(6) o by simp_all
  obtain ks where ks: "shift_up (keys nb) 0 ?n2 = Some ks" "wr ks 0 k = Some (ks[0 := k])"
    "length ks = ?o - 1" "take (Suc ?n2) (ks[0 := k]) = k # ks2"
    using shift_push [OF B(4), of k] B(2) room by auto
  obtain rs where rs: "shift_up (pointers nb) 0 (Suc ?n2) = Some rs" "wr rs 0 (ptr_of t) = Some (rs[0 := ptr_of t])"
    "length rs = ?o" "take (Suc (Suc ?n2)) (rs[0 := ptr_of t]) = ptr_of t # map ptr_of cs2"
    using shift_push [OF B(5), of "ptr_of t"] B(3) o1 by auto
  have ra: "rd (pointers na) (Suc ?n1) = Some (ptr_of t)" "take (Suc ?n1) (pointers na) = map ptr_of cs1"
    using take_snoc_read [OF A(5)] A(3) len o1 by simp_all
  have rk: "rd (keys na) ?n1 = Some k1" "take ?n1 (keys na) = ks1"
    using take_snoc_read [OF A(4)] A(2,6) by simp_all
  have wa: "wr (pointers na) (Suc ?n1) Null = Some ((pointers na)[Suc ?n1 := Null])"
    using A(3) o1 by (simp add: wr_def)
  have "good s (cells (NodeP a) t @ (c, ?C) # (b, ?B) # (a, ?A) # xs) fl" by (rule good_perm [OF g]) simp
  then obtain s1 where s1: "set_parent s (ptr_of t) (NodeP b) = Some s1" "same s s1"
    and g1: "good s1 (cells (NodeP b) t @ (c, ?C) # (b, ?B) # (a, ?A) # xs) fl"
    and fr: "\<forall>a. a \<noteq> addr t \<longrightarrow> nodes s1 a = nodes s a"
    using good_set_parent_ex by blast
  have "addr t \<noteq> b" using good_distinct [OF g] addr_in_cells [of t "NodeP a"] by (force simp: image_iff)
  then have nb1: "nodes s1 b = Some nb" using fr nb(1) by simp
  from g1 have "good s1 ((c, ?C) # (b, ?B) # (a, ?A) # cells (NodeP b) t @ xs) fl" by (rule good_perm) simp
  from set_parent_key_good [OF this nb1 B(7), of k1] obtain s2 where
    s2: "set_parent_key s1 (NodeP b) (length kl) k1 = Some s2" "same s1 s2" and
    "good s2 ((c, ?C') # (b, ?B) # (a, ?A) # cells (NodeP b) t @ xs) fl" by blast
  then have g2: "good s2 ((b, ?B) # (a, ?A) # (c, ?C') # cells (NodeP b) t @ xs) fl"
    by (elim good_perm) simp
  have sm: "same s s2" using s1(2) s2(2) by (rule same_trans)
  let ?b = "nb\<lparr>keys := ks[0 := k], pointers := rs[0 := ptr_of t], num_keys := Suc ?n2\<rparr>"
  let ?a = "na\<lparr>pointers := (pointers na)[Suc ?n1 := Null], num_keys := ?n1\<rparr>"
  have os: "order s2 = ?o" using sm by (rule same_order)
  have rb: "node_rel (order s2) ?b (Cell p False (k # ks2) (map ptr_of (t # cs2)) None)"
    unfolding os using nb(2) ks(3,4) rs(3,4) room by (simp add: node_rel_def)
  let ?s3 = "set_node s2 (NodeP b) ?b"
  have "node_rel (order ?s3) ?a (Cell p False ks1 (map ptr_of cs1) None)"
    using na(2) ra(2) rk(2) A(6) by (simp add: node_rel_def os take_update_cancel)
  from good_set_node [OF good_swap2 [OF good_set_node [OF g2 rb]] this]
  have "good (set_node ?s3 (NodeP a) ?a) ((a, Cell p False ks1 (map ptr_of cs1) None) #
      (b, Cell p False (k # ks2) (map ptr_of (t # cs2)) None) # (c, ?C') # cells (NodeP b) t @ xs) fl" .
  moreover have "redistribute_from_left s (NodeP b) (NodeP a) (length kl) k = Some (set_node ?s3 (NodeP a) ?a)"
    using B(6) by (simp only: redistribute_from_left_def node_at_NodeP na(1) nb(1) Option.bind.simps A(1) B(1)
        if_True if_False not_False_eq_True n1 ks(1,2) rs(1,2) ra rk wa s1(1) s2(1) Let_def)
  ultimately show ?thesis using sm by auto
qed

lemma redistribute_right_leaf:
  assumes g: "good s ((a, Cell p True ks1 rs1 l1) # (b, Cell p True (k2 # k3 # ks2) (r2 # rs2) l2) #
      (c, Cell q False (kl @ k # kr) ps None) # xs) fl"
    and p: "p = NodeP c" and len: "length rs1 = length ks1" "length rs2 = Suc (length ks2)"
    and room: "length ks1 < order s - 1"
  shows "\<exists>s'. redistribute_from_right s (NodeP a) (NodeP b) (length kl) k0 = Some s' \<and> same s s' \<and>
    good s' ((a, Cell p True (ks1 @ [k2]) (rs1 @ [r2]) l1) # (b, Cell p True (k3 # ks2) rs2 l2) #
      (c, Cell q False (kl @ k3 # kr) ps None) # xs) fl"
proof -
  let ?o = "order s" and ?n1 = "length ks1" and ?n2 = "Suc (length ks2)"
  let ?A = "Cell p True ks1 rs1 l1" and ?B = "Cell p True (k2 # k3 # ks2) (r2 # rs2) l2"
  let ?C = "Cell q False (kl @ k # kr) ps None" and ?C' = "Cell q False (kl @ k3 # kr) ps None"
  note o = good_order [OF g]
  obtain na where na: "nodes s a = Some na" "node_rel ?o na ?A" by (rule good_head [OF g])
  obtain nb where nb: "nodes s b = Some nb" "node_rel ?o nb ?B" by (rule good_head [OF good_swap2 [OF g]])
  from na(2) have A: "num_keys na = ?n1" "length (keys na) = ?o - 1" "length (pointers na) = ?o"
    "take ?n1 (keys na) = ks1" "take ?n1 (pointers na) = rs1" "is_leaf na" "parent na = NodeP c"
    by (auto simp: node_rel_def p)
  from nb(2) have B: "num_keys nb = Suc ?n2" "length (keys nb) = ?o - 1" "length (pointers nb) = ?o"
    "take (Suc ?n2) (keys nb) = k2 # k3 # ks2" "take (Suc ?n2) (pointers nb) = r2 # rs2" "Suc ?n2 \<le> ?o - 1"
    by (auto simp: node_rel_def)
  have n1: "Suc ?n2 - 1 = ?n2" "?n1 + 1 = Suc ?n1" by simp_all
  have o1: "?n1 < ?o" "Suc ?n2 \<le> ?o" using room B(6) by simp_all
  have rb: "rd (pointers nb) 0 = Some r2" "rd (keys nb) 0 = Some k2" "rd (keys nb) 1 = Some k3"
    using rd_take [of 0 "Suc ?n2" "pointers nb"] rd_take [of 0 "Suc ?n2" "keys nb"]
      rd_take [of 1 "Suc ?n2" "keys nb"] B o1 by simp_all
  obtain ks where ks: "shift_down (keys nb) (Suc ?n2) 1 = Some ks" "length ks = ?o - 1"
    "take ?n2 ks = k3 # ks2" using shift_pop [OF B(4)] B(2,6) by auto
  obtain rs where rs: "shift_down (pointers nb) (Suc ?n2) 1 = Some rs" "length rs = ?o"
    "take ?n2 rs = rs2" "rs ! (?o - 1) = pointers nb ! (?o - 1)"
    using shift_pop [OF B(5)] B(3,6) o1 len by auto
  have wa: "wr (keys na) ?n1 k2 = Some ((keys na)[?n1 := k2])" "wr (pointers na) ?n1 r2 = Some ((pointers na)[?n1 := r2])"
    using A(2,3) room o1 by (simp_all add: wr_def)
  have "good s ((c, ?C) # (a, ?A) # (b, ?B) # xs) fl" by (rule good_perm [OF g]) simp
  from set_parent_key_good [OF this na(1) A(7), of k3] obtain s1 where
    s1: "set_parent_key s (NodeP a) (length kl) k3 = Some s1" "same s s1" and
    "good s1 ((c, ?C') # (a, ?A) # (b, ?B) # xs) fl" by blast
  then have g1: "good s1 ((a, ?A) # (b, ?B) # (c, ?C') # xs) fl" by (elim good_perm) simp
  let ?a = "na\<lparr>keys := (keys na)[?n1 := k2], pointers := (pointers na)[?n1 := r2], num_keys := Suc ?n1\<rparr>"
  let ?b = "nb\<lparr>keys := ks, pointers := rs, num_keys := ?n2\<rparr>"
  have os: "order s1 = ?o" using s1(2) by (rule same_order)
  have ra: "node_rel (order s1) ?a (Cell p True (ks1 @ [k2]) (rs1 @ [r2]) l1)"
    unfolding os using na(2) room len o1 by (auto simp: node_rel_def take_list_update_Suc)
  let ?s2 = "set_node s1 (NodeP a) ?a"
  have "node_rel (order ?s2) ?b (Cell p True (k3 # ks2) rs2 l2)"
    using nb(2) ks(2,3) rs(2,3,4) B(6) by (simp add: node_rel_def os)
  from good_swap2 [OF good_set_node [OF good_swap2 [OF good_set_node [OF g1 ra]] this]]
  have "good (set_node ?s2 (NodeP b) ?b) ((a, Cell p True (ks1 @ [k2]) (rs1 @ [r2]) l1) #
      (b, Cell p True (k3 # ks2) rs2 l2) # (c, ?C') # xs) fl" .
  moreover have "redistribute_from_right s (NodeP a) (NodeP b) (length kl) k0 = Some (set_node ?s2 (NodeP b) ?b)"
    using A(6) by (simp only: redistribute_from_right_def node_at_NodeP na(1) nb(1) Option.bind.simps A(1) B(1)
        if_True n1 ks(1) rs(1) rb wa s1(1) Let_def)
  ultimately show ?thesis using s1(2) by auto
qed

lemma redistribute_right_node:
  assumes g: "good s ((a, Cell p False ks1 (map ptr_of cs1) None) #
      (b, Cell p False (k2 # ks2) (map ptr_of (t # cs2)) None) # (c, Cell q False (kl @ k # kr) ps None) #
      cells (NodeP b) t @ xs) fl"
    and p: "p = NodeP c" and len: "length cs1 = Suc (length ks1)" "length cs2 = Suc (length ks2)"
    and room: "length ks1 < order s - 1"
  shows "\<exists>s'. redistribute_from_right s (NodeP a) (NodeP b) (length kl) k = Some s' \<and> same s s' \<and>
    good s' ((a, Cell p False (ks1 @ [k]) (map ptr_of (cs1 @ [t])) None) #
      (b, Cell p False ks2 (map ptr_of cs2) None) # (c, Cell q False (kl @ k2 # kr) ps None) #
      cells (NodeP a) t @ xs) fl"
proof -
  let ?o = "order s" and ?n1 = "length ks1" and ?n2 = "length ks2"
  let ?A = "Cell p False ks1 (map ptr_of cs1) None" and ?B = "Cell p False (k2 # ks2) (map ptr_of (t # cs2)) None"
  let ?C = "Cell q False (kl @ k # kr) ps None" and ?C' = "Cell q False (kl @ k2 # kr) ps None"
  note o = good_order [OF g]
  obtain na where na: "nodes s a = Some na" "node_rel ?o na ?A" by (rule good_head [OF g])
  obtain nb where nb: "nodes s b = Some nb" "node_rel ?o nb ?B" by (rule good_head [OF good_swap2 [OF g]])
  from na(2) have A: "num_keys na = ?n1" "length (keys na) = ?o - 1" "length (pointers na) = ?o"
    "take ?n1 (keys na) = ks1" "take (Suc ?n1) (pointers na) = map ptr_of cs1" "\<not> is_leaf na" "parent na = NodeP c"
    by (auto simp: node_rel_def p)
  from nb(2) have B: "num_keys nb = Suc ?n2" "length (keys nb) = ?o - 1" "length (pointers nb) = ?o"
    "take (Suc ?n2) (keys nb) = k2 # ks2" "take (Suc (Suc ?n2)) (pointers nb) = ptr_of t # map ptr_of cs2"
    "Suc ?n2 \<le> ?o - 1"
    by (auto simp: node_rel_def)
  have n1: "Suc ?n2 - 1 = ?n2" "?n1 + 1 = Suc ?n1" "Suc ?n2 + 1 = Suc (Suc ?n2)" by simp_all
  have o1: "Suc ?n1 < ?o" "Suc (Suc ?n2) \<le> ?o" using room B(6) o by simp_all
  have rb: "rd (pointers nb) 0 = Some (ptr_of t)" "rd (keys nb) 0 = Some k2"
    using rd_take [of 0 "Suc (Suc ?n2)" "pointers nb"] rd_take [of 0 "Suc ?n2" "keys nb"] B o1 by simp_all
  obtain ks where ks: "shift_down (keys nb) (Suc ?n2) 1 = Some ks" "length ks = ?o - 1"
    "take ?n2 ks = ks2" using shift_pop [OF B(4)] B(2,6) by auto
  obtain rs where rs: "shift_down (pointers nb) (Suc (Suc ?n2)) 1 = Some rs" "length rs = ?o"
    "take (Suc ?n2) rs = map ptr_of cs2" using shift_pop [OF B(5)] B(3) o1 len by auto
  have wa: "wr (keys na) ?n1 k = Some ((keys na)[?n1 := k])"
    "wr (pointers na) (Suc ?n1) (ptr_of t) = Some ((pointers na)[Suc ?n1 := ptr_of t])"
    using A(2,3) room o1 by (simp_all add: wr_def)
  have "good s (cells (NodeP b) t @ (c, ?C) # (a, ?A) # (b, ?B) # xs) fl" by (rule good_perm [OF g]) simp
  then obtain s1 where s1: "set_parent s (ptr_of t) (NodeP a) = Some s1" "same s s1"
    and g1: "good s1 (cells (NodeP a) t @ (c, ?C) # (a, ?A) # (b, ?B) # xs) fl"
    and fr: "\<forall>a. a \<noteq> addr t \<longrightarrow> nodes s1 a = nodes s a"
    using good_set_parent_ex by blast
  have "addr t \<noteq> a" using good_distinct [OF g] addr_in_cells [of t "NodeP b"] by (force simp: image_iff)
  then have na1: "nodes s1 a = Some na" using fr na(1) by simp
  from g1 have "good s1 ((c, ?C) # (a, ?A) # (b, ?B) # cells (NodeP a) t @ xs) fl" by (rule good_perm) simp
  from set_parent_key_good [OF this na1 A(7), of k2] obtain s2 where
    s2: "set_parent_key s1 (NodeP a) (length kl) k2 = Some s2" "same s1 s2" and
    "good s2 ((c, ?C') # (a, ?A) # (b, ?B) # cells (NodeP a) t @ xs) fl" by blast
  then have g2: "good s2 ((a, ?A) # (b, ?B) # (c, ?C') # cells (NodeP a) t @ xs) fl"
    by (elim good_perm) simp
  have sm: "same s s2" using s1(2) s2(2) by (rule same_trans)
  let ?a = "na\<lparr>keys := (keys na)[?n1 := k], pointers := (pointers na)[Suc ?n1 := ptr_of t], num_keys := Suc ?n1\<rparr>"
  let ?b = "nb\<lparr>keys := ks, pointers := rs, num_keys := ?n2\<rparr>"
  have os: "order s2 = ?o" using sm by (rule same_order)
  have ra: "node_rel (order s2) ?a (Cell p False (ks1 @ [k]) (map ptr_of (cs1 @ [t])) None)"
    unfolding os using na(2) room len o1 by (auto simp: node_rel_def take_list_update_Suc)
  let ?s3 = "set_node s2 (NodeP a) ?a"
  have "node_rel (order ?s3) ?b (Cell p False ks2 (map ptr_of cs2) None)"
    using nb(2) ks(2,3) rs(2,3) B(6) by (simp add: node_rel_def os)
  from good_swap2 [OF good_set_node [OF good_swap2 [OF good_set_node [OF g2 ra]] this]]
  have "good (set_node ?s3 (NodeP b) ?b) ((a, Cell p False (ks1 @ [k]) (map ptr_of (cs1 @ [t])) None) #
      (b, Cell p False ks2 (map ptr_of cs2) None) # (c, ?C') # cells (NodeP a) t @ xs) fl" .
  moreover have "redistribute_from_right s (NodeP a) (NodeP b) (length kl) k = Some (set_node ?s3 (NodeP b) ?b)"
    using A(6) by (simp only: redistribute_from_right_def node_at_NodeP na(1) nb(1) Option.bind.simps A(1) B(1)
        if_False n1 ks(1) rs(1) rb wa s1(1) s2(1) Let_def)
  ultimately show ?thesis using sm by auto
qed

end
