(* ===== verification/Btree_Del_Pure.thy ===== *)
theory Btree_Del_Pure
  imports Btree_Map
begin

text \<open>
  The upward pass of a deletion on trees without a store: an underfull node is merged with
  a sibling or takes an entry from it, and the pass goes on one level up after a merge.
  The lemmas show that the pass keeps order, sizes, heights and the leaf chain, and that it
  changes no entry.
\<close>

section \<open>The upward pass over trees\<close>

primrec nkeys :: "bt \<Rightarrow> nat" where
  "nkeys (Lf a ks rs l) = length ks"
| "nkeys (Nd a ks cs) = length ks"

primrec leaf_bt :: "bt \<Rightarrow> bool" where
  "leaf_bt (Lf a ks rs l) = True"
| "leaf_bt (Nd a ks cs) = False"

primrec leaf_link :: "bt \<Rightarrow> ptr" where
  "leaf_link (Lf a ks rs l) = l"
| "leaf_link (Nd a ks cs) = Null"

definition min_size :: "nat \<Rightarrow> bool \<Rightarrow> nat" where
  "min_size ord lf = (if lf then cut (ord - 1) else cut ord - 1)"

fun merge_bt :: "bt \<Rightarrow> u64 \<Rightarrow> bt \<Rightarrow> bt" where
  "merge_bt (Lf a ks rs l) k (Lf b ks' rs' l') = Lf a (ks @ ks') (rs @ rs') l'"
| "merge_bt (Nd a ks cs) k (Nd b ks' cs') = Nd a (ks @ k # ks') (cs @ cs')"
| "merge_bt l k r = l"

text \<open>A redistribution cuts the merged node again, one entry further left or right.\<close>

primrec split_bt :: "nat \<Rightarrow> ptr \<Rightarrow> nat \<Rightarrow> bt \<Rightarrow> bt \<times> u64 \<times> bt" where
  "split_bt i lk b (Lf a ks rs l) =
     (Lf a (take i ks) (take i rs) lk, ks ! i, Lf b (drop i ks) (drop i rs) l)"
| "split_bt i lk b (Nd a ks cs) =
     (Nd a (take i ks) (take (Suc i) cs), ks ! i, Nd b (drop (Suc i) ks) (drop (Suc i) cs))"

text \<open>The two siblings that are merged or balanced, with what stands around them.\<close>

definition siblings :: "u64 list \<Rightarrow> bt list \<Rightarrow> bt \<Rightarrow> u64 list \<Rightarrow> bt list \<Rightarrow>
    u64 list \<times> u64 \<times> u64 list \<times> bt list \<times> bt \<times> bt \<times> bt list" where
  "siblings kl cl t kr cr =
    (if cl = [] then ([], hd kr, tl kr, [], t, hd cr, tl cr)
     else (butlast kl, last kl, kr, butlast cl, last cl, t, cr))"

fun del_up :: "nat \<Rightarrow> bt \<Rightarrow> frame list \<Rightarrow> bt option" where
  "del_up ord t [] = (if 0 < nkeys t then Some t else
     (case t of Lf a ks rs l \<Rightarrow> None | Nd a ks cs \<Rightarrow> Some (hd cs)))"
| "del_up ord t (Frame a kl cl kr cr # fs) =
    (if min_size ord (leaf_bt t) \<le> nkeys t then Some (plug t (Frame a kl cl kr cr # fs))
     else
       let (kl', k, kr', cl', l, r, cr') = siblings kl cl t kr cr in
       if nkeys l + nkeys r < (if leaf_bt t then ord else ord - 1)
       then del_up ord (Nd a (kl' @ kr') (cl' @ merge_bt l k r # cr')) fs
       else
         let (l', k', r') = split_bt (if cl = [] then nkeys l + 1 else nkeys l - 1) (leaf_link l)
               (addr r) (merge_bt l k r)
         in Some (plug (Nd a (kl' @ k' # kr') (cl' @ l' # r' # cr')) fs))"

declare del_up.simps(2) [simp del]

text \<open>Like \<open>shape\<close> and \<open>root_shape\<close>, but one entry may be missing.\<close>

definition low_shape :: "nat \<Rightarrow> nat \<Rightarrow> bt \<Rightarrow> bool" where
  "low_shape ord h t \<longleftrightarrow> (case t of
      Lf a ks rs l \<Rightarrow> h = 0 \<and> cut (ord - 1) - 1 \<le> length ks \<and> length ks \<le> ord - 1 \<and> length rs = length ks
    | Nd a ks cs \<Rightarrow> h \<noteq> 0 \<and> cut ord - 2 \<le> length ks \<and> length ks \<le> ord - 1 \<and>
        length cs = Suc (length ks) \<and> (\<forall>c \<in> set cs. shape ord (h - 1) c))"

definition low_root :: "nat \<Rightarrow> nat \<Rightarrow> bt \<Rightarrow> bool" where
  "low_root ord h t \<longleftrightarrow> (case t of
      Lf a ks rs l \<Rightarrow> h = 0 \<and> length ks \<le> ord - 1 \<and> length rs = length ks
    | Nd a ks cs \<Rightarrow> h \<noteq> 0 \<and> length ks \<le> ord - 1 \<and>
        length cs = Suc (length ks) \<and> (\<forall>c \<in> set cs. shape ord (h - 1) c))"

definition low_sub :: "nat \<Rightarrow> nat \<Rightarrow> frame list \<Rightarrow> bt \<Rightarrow> bool" where
  "low_sub ord h fs t \<longleftrightarrow> (if fs = [] then low_root ord h t else low_shape ord h t)"

lemma low_shape_full:
  "low_shape ord h t \<Longrightarrow> min_size ord (leaf_bt t) \<le> nkeys t \<Longrightarrow> shape ord h t"
  by (cases t) (auto simp: low_shape_def min_size_def)

lemma shape_leaf: "shape ord h t \<Longrightarrow> leaf_bt t = (h = 0)"
  by (cases t) auto

lemma low_shape_leaf: "low_shape ord h t \<Longrightarrow> leaf_bt t = (h = 0)"
  by (cases t) (auto simp: low_shape_def)

text \<open>What \<open>siblings\<close> returns for a frame that fits.\<close>

lemma siblings_split:
  assumes "siblings kl cl t kr cr = (kl', k, kr', cl', l, r, cr')"
    and "length cl = length kl" "length cr = length kr" "kl @ kr \<noteq> []"
  shows "kl @ kr = kl' @ k # kr'" and "cl @ t # cr = cl' @ l # r # cr'"
    and "length cl' = length kl'" and "length cr' = length kr'"
    and "cl = [] \<Longrightarrow> l = t \<and> kl' = [] \<and> r \<in> set cr" and "cl \<noteq> [] \<Longrightarrow> r = t \<and> l \<in> set cl \<and> length cl = Suc (length kl')"
proof -
  have "kl @ kr = kl' @ k # kr' \<and> cl @ t # cr = cl' @ l # r # cr' \<and> length cl' = length kl' \<and>
    length cr' = length kr' \<and> (cl = [] \<longrightarrow> l = t \<and> kl' = [] \<and> r \<in> set cr) \<and>
    (cl \<noteq> [] \<longrightarrow> r = t \<and> l \<in> set cl \<and> length cl = Suc (length kl'))"
  proof (cases "cl = []")
    case True
    with assms have "kl = []" "kr \<noteq> []" "cr \<noteq> []" by auto
    with True assms show ?thesis by (auto simp: siblings_def)
  next
    case False
    with assms have "kl \<noteq> []" by auto
    with False assms show ?thesis by (auto simp: siblings_def)
  qed
  then show "kl @ kr = kl' @ k # kr'" and "cl @ t # cr = cl' @ l # r # cr'"
    and "length cl' = length kl'" and "length cr' = length kr'"
    and "cl = [] \<Longrightarrow> l = t \<and> kl' = [] \<and> r \<in> set cr" and "cl \<noteq> [] \<Longrightarrow> r = t \<and> l \<in> set cl \<and> length cl = Suc (length kl')"
    by blast+
qed

section \<open>Merging and cutting keep the contents\<close>

definition len_ok :: "bt \<Rightarrow> bool" where
  "len_ok t = (case t of Lf a ks rs l \<Rightarrow> length rs = length ks | Nd a ks cs \<Rightarrow> length cs = Suc (length ks))"

lemma len_ok_simps [simp]:
  "len_ok (Lf a ks rs l) \<longleftrightarrow> length rs = length ks" "len_ok (Nd a ks cs) \<longleftrightarrow> length cs = Suc (length ks)"
  by (simp_all add: len_ok_def)

lemma shape_len_ok: "shape ord h t \<Longrightarrow> len_ok t"
  by (cases t) auto

lemma low_shape_len_ok: "low_shape ord h t \<Longrightarrow> len_ok t"
  by (cases t) (auto simp: low_shape_def)

lemma merge_len_ok: "len_ok l \<Longrightarrow> len_ok r \<Longrightarrow> leaf_bt l = leaf_bt r \<Longrightarrow> len_ok (merge_bt l k r)"
  by (cases l; cases r) auto

lemma merge_kvs:
  "len_ok l \<Longrightarrow> leaf_bt l = leaf_bt r \<Longrightarrow> kvs (merge_bt l k r) = kvs l @ kvs r"
  by (cases l; cases r) auto

lemma split_kvs:
  "split_bt i lk b m = (l, k, r) \<Longrightarrow> len_ok m \<Longrightarrow> kvs l @ kvs r = kvs m"
proof (cases m)
  case (Nd a ks cs)
  moreover assume "split_bt i lk b m = (l, k, r)"
  ultimately have "kvs l @ kvs r = concat (map kvs (take (Suc i) cs @ drop (Suc i) cs))"
    unfolding map_append concat_append by auto
  then show ?thesis by (simp add: Nd)
qed (auto simp: zip_take_drop)

lemma merge_linked:
  assumes "linked (xs @ leafseq l @ leafseq r @ ys) z" and "leaf_bt l = leaf_bt r"
  shows "linked (xs @ leafseq (merge_bt l k r) @ ys) z"
  using assms by (cases l; cases r; cases ys) (auto simp: linked_append first_leaf_def split: list.splits)

lemma split_linked:
  assumes "linked (xs @ leafseq l @ leafseq r @ ys) z" and "leaf_bt l = leaf_bt r"
    and "split_bt i (leaf_link l) (addr r) (merge_bt l k r) = (l', k', r')"
  shows "linked (xs @ leafseq l' @ leafseq r' @ ys) z"
proof (cases l)
  case (Lf a ks rs lk)
  with assms show ?thesis by (cases r; cases ys) (auto simp: linked_append first_leaf_def)
next
  case (Nd a ks cs)
  with assms obtain b ks2 cs2 where r: "r = Nd b ks2 cs2" by (cases r) auto
  have "leafseq l' @ leafseq r' = concat (map leafseq (take (Suc i) (cs @ cs2) @ drop (Suc i) (cs @ cs2)))"
    using assms(3) unfolding Nd r map_append concat_append by auto
  then have "leafseq l' @ leafseq r' = leafseq l @ leafseq r"
    unfolding append_take_drop_id by (simp add: Nd r)
  then show ?thesis using assms(1) by (metis append_assoc)
qed

lemma merge_ordered:
  assumes "ordered lo l (Some k)" and "lo_lt lo k" and "hi_gt k hi" and "ordered (Some k) r hi"
    and "leaf_bt l = leaf_bt r" and "len_ok l"
  shows "ordered lo (merge_bt l k r) hi"
proof (cases l)
  case (Lf a ks rs lk)
  with assms obtain b ks2 rs2 lk2 where r: "r = Lf b ks2 rs2 lk2" by (cases r) auto
  have "x < y" if "x \<in> set ks" "y \<in> set ks2" for x y
    using assms(1,4) that by (force simp: Lf r)
  moreover have "hi_gt x hi" if "x \<in> set ks" for x
    using assms(1) hi_gt_trans [OF assms(3)] that by (auto simp: Lf less_imp_le)
  moreover have "lo_le lo y" if "y \<in> set ks2" for y
    using assms(4) lo_le_trans [OF lo_lt_le [OF assms(2)]] that by (auto simp: r)
  ultimately show ?thesis using assms(1,4) by (auto simp: Lf r sorted_wrt_append)
next
  case (Nd a ks cs)
  with assms obtain b ks2 cs2 where r: "r = Nd b ks2 cs2" by (cases r) auto
  show ?thesis using assms by (simp add: Nd r ord_children_append)
qed

lemma split_ordered:
  assumes "ordered lo m hi" and "len_ok m" and "0 < i \<or> \<not> leaf_bt m" and "i < nkeys m"
    and "split_bt i lk b m = (l, k, r)"
  shows "ordered lo l (Some k)" and "lo_lt lo k" and "hi_gt k hi" and "ordered (Some k) r hi"
proof -
  have "ordered lo l (Some k) \<and> lo_lt lo k \<and> hi_gt k hi \<and> ordered (Some k) r hi"
  proof (cases m)
    case (Lf a ks rs lk')
    then have i: "0 < i" "i < length ks" using assms by auto
    from ordered_leaf_split [OF assms(1) [unfolded Lf] i] assms(5) show ?thesis
      unfolding Lf split_bt.simps by blast
  next
    case (Nd a ks cs)
    have "ord_children lo ks cs hi" "i < length ks" "length cs = Suc (length ks)"
      using assms by (auto simp: Nd)
    from ordered_split [OF this] assms(5) show ?thesis by (auto simp: Nd)
  qed
  then show "ordered lo l (Some k)" and "lo_lt lo k" and "hi_gt k hi" and "ordered (Some k) r hi"
    by blast+
qed

section \<open>Sizes\<close>

lemma merge_shape:
  assumes "3 \<le> ord" and "low_shape ord h l \<and> shape ord h r \<or> shape ord h l \<and> low_shape ord h r"
    and "nkeys l + nkeys r < (if leaf_bt l then ord else ord - 1)"
  shows "shape ord h (merge_bt l k r)"
  using assms by (cases l; cases r) (auto simp: low_shape_def)

lemma nkeys_merge:
  "leaf_bt l = leaf_bt r \<Longrightarrow> nkeys (merge_bt l k r) = nkeys l + nkeys r + (if leaf_bt l then 0 else 1)"
  "leaf_bt (merge_bt l k r) = leaf_bt l"
  by (cases l; cases r; simp)+

lemma split_index:
  assumes "3 \<le> ord" and "leaf_bt l = leaf_bt r" and "\<not> min_size ord (leaf_bt l) \<le> nkeys (if b then l else r)"
    and "\<not> nkeys l + nkeys r < (if leaf_bt l then ord else ord - 1)"
  defines "i \<equiv> if b then nkeys l + 1 else nkeys l - 1"
  shows "0 < i \<or> \<not> leaf_bt (merge_bt l k r)" and "i < nkeys (merge_bt l k r)"
  using assms(3,4) cut_bounds [OF assms(1)]
  by (auto simp: nkeys_merge(1) [OF assms(2)] nkeys_merge(2) i_def min_size_def split: if_splits)

lemma node_split_shape:
  assumes "\<forall>c \<in> set cs. shape ord (h - 1) c" and "h \<noteq> 0" and "length cs = Suc (length ks)"
    and "i < length ks" and "cut ord - 1 \<le> i" and "i \<le> ord - 1"
    and "cut ord - 1 \<le> length ks - Suc i" and "length ks - Suc i \<le> ord - 1"
    and "split_bt i lk b (Nd a ks cs) = (l, k, r)"
  shows "shape ord h l \<and> shape ord h r"
proof -
  have "\<forall>c \<in> set (take (Suc i) cs). shape ord (h - 1) c" "\<forall>c \<in> set (drop (Suc i) cs). shape ord (h - 1) c"
    using assms(1) by (meson in_set_takeD in_set_dropD)+
  moreover have "length ks - i = Suc (length ks - Suc i)" using assms(4) by simp
  ultimately show ?thesis using assms by auto
qed

lemma split_shape_right:
  assumes "3 \<le> ord" and "shape ord h l" and "low_shape ord h r"
    and "\<not> min_size ord (leaf_bt r) \<le> nkeys r"
    and "\<not> nkeys l + nkeys r < (if leaf_bt r then ord else ord - 1)"
    and "split_bt (nkeys l - 1) lk b (merge_bt l k r) = (l', k', r')"
  shows "shape ord h l' \<and> shape ord h r'"
proof (cases l)
  case (Lf a ks rs lk)
  then obtain b ks2 rs2 lk2 where r: "r = Lf b ks2 rs2 lk2" using assms by (cases r) (auto simp: low_shape_def)
  then show ?thesis
    using assms cut_bounds [OF assms(1)] by (auto simp: Lf low_shape_def min_size_def)
next
  case (Nd a ks cs)
  then obtain b2 ks2 cs2 where r: "r = Nd b2 ks2 cs2" using assms by (cases r) (auto simp: low_shape_def)
  have n: "length ks2 < cut ord - 1" "ord - 1 \<le> length ks + length ks2" "cut ord - 2 \<le> length ks2"
    "length ks \<le> ord - 1" and c: "\<forall>c \<in> set (cs @ cs2). shape ord (h - 1) c" "h \<noteq> 0"
    "length (cs @ cs2) = Suc (length (ks @ k # ks2))"
    using assms by (auto simp: Nd r low_shape_def min_size_def)
  have b: "length ks - 1 < length (ks @ k # ks2)" "cut ord - 1 \<le> length ks - 1" "length ks - 1 \<le> ord - 1"
    "cut ord - 1 \<le> length (ks @ k # ks2) - Suc (length ks - 1)"
    "length (ks @ k # ks2) - Suc (length ks - 1) \<le> ord - 1"
    using n cut_bounds(1-3) [OF assms(1)] assms(1) by simp_all
  show ?thesis by (rule node_split_shape [OF c b assms(6) [unfolded Nd r merge_bt.simps nkeys.simps]])
qed

lemma split_shape_left:
  assumes "3 \<le> ord" and "low_shape ord h l" and "shape ord h r"
    and "\<not> min_size ord (leaf_bt l) \<le> nkeys l"
    and "\<not> nkeys l + nkeys r < (if leaf_bt l then ord else ord - 1)"
    and "split_bt (nkeys l + 1) lk b (merge_bt l k r) = (l', k', r')"
  shows "shape ord h l' \<and> shape ord h r'"
proof (cases l)
  case (Lf a ks rs lk)
  then obtain b ks2 rs2 lk2 where r: "r = Lf b ks2 rs2 lk2" using assms by (cases r) (auto simp: low_shape_def)
  then show ?thesis
    using assms cut_bounds [OF assms(1)] by (auto simp: Lf low_shape_def min_size_def)
next
  case (Nd a ks cs)
  then obtain b2 ks2 cs2 where r: "r = Nd b2 ks2 cs2" using assms by (cases r) (auto simp: low_shape_def)
  have n: "length ks < cut ord - 1" "ord - 1 \<le> length ks + length ks2" "cut ord - 2 \<le> length ks"
    "length ks2 \<le> ord - 1" and c: "\<forall>c \<in> set (cs @ cs2). shape ord (h - 1) c" "h \<noteq> 0"
    "length (cs @ cs2) = Suc (length (ks @ k # ks2))"
    using assms by (auto simp: Nd r low_shape_def min_size_def)
  have "ks2 \<noteq> []" using n cut_bounds(1-3) [OF assms(1)] by (cases ks2) auto
  then have b: "length ks + 1 < length (ks @ k # ks2)" "cut ord - 1 \<le> length ks + 1" "length ks + 1 \<le> ord - 1"
    "cut ord - 1 \<le> length (ks @ k # ks2) - Suc (length ks + 1)"
    "length (ks @ k # ks2) - Suc (length ks + 1) \<le> ord - 1"
    using n cut_bounds(1-3) [OF assms(1)] assms(1) by simp_all
  show ?thesis by (rule node_split_shape [OF c b assms(6) [unfolded Nd r merge_bt.simps nkeys.simps]])
qed

section \<open>The pass as a whole\<close>

text \<open>What the pass needs of the subtree in the hole, and what it promises.\<close>

definition hole_ok :: "nat \<Rightarrow> nat \<Rightarrow> frame list \<Rightarrow> bt \<Rightarrow> bool" where
  "hole_ok ord h fs t \<longleftrightarrow> ctx_shape ord h fs \<and> low_sub ord h fs t \<and>
     (\<exists>t0. ordered None (plug t0 fs) None) \<and> ordered (hole_lo fs) t (hole_hi fs) \<and>
     linked (ctx_before leafseq fs @ leafseq t @ ctx_after leafseq fs) Null"

definition pass_ok :: "nat \<Rightarrow> frame list \<Rightarrow> bt \<Rightarrow> bt option \<Rightarrow> bool" where
  "pass_ok ord fs t res \<longleftrightarrow> (case res of
      None \<Rightarrow> ctx_before kvs fs @ kvs t @ ctx_after kvs fs = []
    | Some t' \<Rightarrow> (\<exists>H. root_shape ord H t') \<and> ordered None t' None \<and> linked (leafseq t') Null \<and>
        kvs t' = ctx_before kvs fs @ kvs t @ ctx_after kvs fs)"

lemma plug_ok:
  assumes "hole_ok ord h fs t" and "sub_shape ord h fs t"
  shows "pass_ok ord fs t (Some (plug t fs))"
proof -
  from assms(1) have c: "ctx_shape ord h fs" and o: "ordered (hole_lo fs) t (hole_hi fs)"
    and lk: "linked (leafseq (plug t fs)) Null"
    by (simp_all add: hole_ok_def leafseq_plug)
  obtain t0 where "ordered None (plug t0 fs) None" using assms(1) by (auto simp: hole_ok_def)
  from plug_ordered(2) [OF ctx_shape_frames [OF c] this o] have "ordered None (plug t fs) None" .
  moreover have "\<exists>H. root_shape ord H (plug t fs)"
    using assms(2) c plug_shape [OF ctx_shape_frames [OF c]] by blast
  ultimately show ?thesis using lk by (simp add: pass_ok_def kvs_plug)
qed

lemma root_pass_ok:
  assumes "3 \<le> ord" and "hole_ok ord h [] t"
  shows "pass_ok ord [] t (del_up ord t [])"
proof (cases t)
  case (Lf a ks rs l)
  with assms show ?thesis
    by (auto simp: hole_ok_def pass_ok_def low_sub_def low_root_def root_shape_def Suc_le_eq)
next
  case (Nd a ks cs)
  show ?thesis
  proof (cases "ks = []")
    case True
    then obtain c where c: "cs = [c]" using assms Nd
      by (auto simp: hole_ok_def low_sub_def low_root_def length_Suc_conv)
    with assms Nd have "shape ord (h - 1) c" by (auto simp: hole_ok_def low_sub_def low_root_def)
    from shape_root [OF assms(1) this] assms c Nd True show ?thesis
      by (auto simp: hole_ok_def pass_ok_def)
  next
    case False
    then have n: "Suc 0 \<le> length ks" by (cases ks) auto
    from assms Nd have "h \<noteq> 0 \<and> length ks \<le> ord - 1 \<and>
        length cs = Suc (length ks) \<and> (\<forall>c \<in> set cs. shape ord (h - 1) c)"
      by (simp add: hole_ok_def low_sub_def low_root_def)
    with n have "root_shape ord h t" by (simp add: root_shape_def Nd)
    with False assms show ?thesis by (auto simp: hole_ok_def pass_ok_def Nd)
  qed
qed

text \<open>Siblings in a frame: the facts about the pair, and how the parent changes with it.\<close>

lemma sibling_facts:
  assumes ok: "hole_ok ord h (Frame a kl cl kr cr # fs) t"
    and sb: "siblings kl cl t kr cr = (kl', k, kr', cl', l, r, cr')"
    and ord: "3 \<le> ord"
  defines "lo \<equiv> seg_lo (hole_lo fs) kl'" and "hi \<equiv> seg_hi kr' (hole_hi fs)"
  shows "ordered lo l (Some k)" and "lo_lt lo k" and "hi_gt k hi" and "ordered (Some k) r hi"
    and "leaf_bt l = leaf_bt t" "leaf_bt r = leaf_bt t" and "len_ok l" "len_ok r"
    and "cl = [] \<Longrightarrow> low_shape ord h l \<and> shape ord h r" and "cl \<noteq> [] \<Longrightarrow> shape ord h l \<and> low_shape ord h r"
    and "kl @ kr = kl' @ k # kr'" and "cl @ t # cr = cl' @ l # r # cr'"
    and "length cl' = length kl'" and "length cr' = length kr'"
    and "\<And>ks ts. length ts = Suc (length ks) \<Longrightarrow> ord_children lo ks ts hi \<Longrightarrow>
      ord_children (hole_lo fs) (kl' @ ks @ kr') (cl' @ ts @ cr') (hole_hi fs)"
proof -
  from ok have len: "length cl = length kl" "length cr = length kr" and ch: "\<forall>c \<in> set cl \<union> set cr. shape ord h c"
    and ne: "(if fs = [] then 1 else cut ord - 1) \<le> length kl + length kr" and up: "ctx_shape ord (Suc h) fs"
    and lt: "low_shape ord h t" by (auto simp: hole_ok_def low_sub_def)
  have ne': "kl @ kr \<noteq> []" using ne cut_bounds(1) [OF ord] by (cases kl; cases kr) (auto split: if_splits)
  note S = siblings_split [OF sb len ne']
  show kk: "kl @ kr = kl' @ k # kr'" and cc: "cl @ t # cr = cl' @ l # r # cr'"
    and l1: "length cl' = length kl'" and l2: "length cr' = length kr'" by (fact S(1), fact S(2), fact S(3), fact S(4))
  show A: "cl = [] \<Longrightarrow> low_shape ord h l \<and> shape ord h r" and B: "cl \<noteq> [] \<Longrightarrow> shape ord h l \<and> low_shape ord h r"
    using S(5,6) ch lt by auto
  show "leaf_bt l = leaf_bt t" "leaf_bt r = leaf_bt t" "len_ok l" "len_ok r"
    using A B lt by (cases "cl = []"; auto simp: shape_leaf low_shape_leaf intro: shape_len_ok low_shape_len_ok)+
  obtain t0 where t0: "ordered None (plug (Nd a (kl @ kr) (cl @ t0 # cr)) fs) None"
    using ok by (auto simp: hole_ok_def)
  have "ord_children (hole_lo fs) (kl @ [] @ kr) (cl @ [t0] @ cr) (hole_hi fs)"
    using plug_ordered(1) [OF ctx_shape_frames [OF up] t0] by simp
  from ord_children_seg(2) [OF this len, of "[t]" "[]"] ok
  have oc: "ord_children (hole_lo fs) (kl' @ [k] @ kr') (cl' @ [l, r] @ cr') (hole_hi fs)"
    using kk cc by (simp add: hole_ok_def)
  have two: "length [l, r] = Suc (length [k])" by simp
  from ord_children_seg(1) [OF oc l1 l2 two] show "ordered lo l (Some k)" and "lo_lt lo k" and "hi_gt k hi"
    and "ordered (Some k) r hi" by (simp_all add: lo_def hi_def)
  show "\<And>ks ts. length ts = Suc (length ks) \<Longrightarrow> ord_children lo ks ts hi \<Longrightarrow>
      ord_children (hole_lo fs) (kl' @ ks @ kr') (cl' @ ts @ cr') (hole_hi fs)"
    unfolding lo_def hi_def by (rule ord_children_seg(2) [OF oc l1 l2 two])
qed

lemma concat_siblings:
  assumes "cl @ t # cr = cl' @ l # r # cr'" and "concat (map f ts) = f l @ f r"
  shows "concat (map f cl) @ f t @ concat (map f cr) = concat (map f (cl' @ ts @ cr'))"
  using arg_cong [OF assms(1), of "\<lambda>cs. concat (map f cs)"] assms(2) by simp

lemma parent_hole_ok:
  assumes ok: "hole_ok ord h (Frame a kl cl kr cr # fs) t"
    and sb: "siblings kl cl t kr cr = (kl', k, kr', cl', l, r, cr')" and ord: "3 \<le> ord"
    and ts: "length ts = Suc (length ks)" "length ks \<le> 1" "\<forall>c \<in> set ts. shape ord h c"
      "ord_children (seg_lo (hole_lo fs) kl') ks ts (seg_hi kr' (hole_hi fs))"
    and lk: "\<And>xs ys. linked (xs @ leafseq l @ leafseq r @ ys) Null \<Longrightarrow>
      linked (xs @ concat (map leafseq ts) @ ys) Null"
  shows "hole_ok ord (Suc h) fs (Nd a (kl' @ ks @ kr') (cl' @ ts @ cr'))"
    and "ks \<noteq> [] \<Longrightarrow> sub_shape ord (Suc h) fs (Nd a (kl' @ ks @ kr') (cl' @ ts @ cr'))"
proof -
  note F = sibling_facts [OF ok sb ord]
  from ok have ch: "\<forall>c \<in> set cl \<union> set cr. shape ord h c" and len: "length cl = length kl" "length cr = length kr"
    and sz: "(if fs = [] then 1 else cut ord - 1) \<le> length kl + length kr" "length kl + length kr \<le> ord - 1"
    and up: "ctx_shape ord (Suc h) fs" by (auto simp: hole_ok_def)
  have n: "length kl + length kr = Suc (length kl' + length kr')"
    using arg_cong [OF F(11), of length] by simp
  have "set cl' \<union> set cr' \<subseteq> set cl \<union> set cr"
    using sb by (cases cr) (auto simp: siblings_def dest: in_set_butlastD split: if_splits)
  with ch ts(3) have all: "\<forall>c \<in> set (cl' @ ts @ cr'). shape ord h c" by auto
  have l: "length (cl' @ ts @ cr') = Suc (length (kl' @ ks @ kr'))" using F(13,14) ts(1) by simp
  have "low_sub ord (Suc h) fs (Nd a (kl' @ ks @ kr') (cl' @ ts @ cr'))"
    using sz n ts(2) all l by (auto simp: low_sub_def low_root_def low_shape_def)
  moreover have "ordered (hole_lo fs) (Nd a (kl' @ ks @ kr') (cl' @ ts @ cr')) (hole_hi fs)"
    using F(15) [OF ts(1,4)] by simp
  moreover have "\<exists>t0. ordered None (plug t0 fs) None" using ok by (auto simp: hole_ok_def)
  moreover have "linked (ctx_before leafseq fs @ leafseq (Nd a (kl' @ ks @ kr') (cl' @ ts @ cr')) @
      ctx_after leafseq fs) Null"
  proof -
    have "linked (ctx_before leafseq fs @ (concat (map leafseq cl) @ leafseq t @ concat (map leafseq cr)) @
        ctx_after leafseq fs) Null" using ok by (simp add: hole_ok_def)
    then have "linked ((ctx_before leafseq fs @ concat (map leafseq cl')) @ leafseq l @ leafseq r @
        concat (map leafseq cr') @ ctx_after leafseq fs) Null"
      using concat_siblings [OF F(12), of leafseq "[l, r]"] by simp
    from lk [OF this] show ?thesis by simp
  qed
  ultimately show "hole_ok ord (Suc h) fs (Nd a (kl' @ ks @ kr') (cl' @ ts @ cr'))"
    using up by (simp add: hole_ok_def)
  show "sub_shape ord (Suc h) fs (Nd a (kl' @ ks @ kr') (cl' @ ts @ cr'))" if "ks \<noteq> []"
  proof -
    have "length ks = 1" using that ts(2) by (cases ks) auto
    with sz n all l show ?thesis by (auto simp: sub_shape_def root_shape_def)
  qed
qed

lemma pass_parent:
  assumes "pass_ok ord fs (Nd a ks cs) res"
    and "concat (map kvs cs) = concat (map kvs cl) @ kvs t @ concat (map kvs cr)"
  shows "pass_ok ord (Frame a kl cl kr cr # fs) t res"
  using assms by (auto simp: pass_ok_def split: option.splits)

lemma merge_hole_ok:
  assumes ord: "3 \<le> ord" and ok: "hole_ok ord h (Frame a kl cl kr cr # fs) t"
    and sb: "siblings kl cl t kr cr = (kl', k, kr', cl', l, r, cr')"
    and cap: "nkeys l + nkeys r < (if leaf_bt t then ord else ord - 1)"
  shows "hole_ok ord (Suc h) fs (Nd a (kl' @ kr') (cl' @ merge_bt l k r # cr'))"
proof -
  note F = sibling_facts [OF ok sb ord]
  have lf: "leaf_bt l = leaf_bt r" using F(5,6) by simp
  have "shape ord h (merge_bt l k r)" using merge_shape [OF ord] F(5,9,10) cap by (cases "cl = []") auto
  then have "hole_ok ord (Suc h) fs (Nd a (kl' @ [] @ kr') (cl' @ [merge_bt l k r] @ cr'))"
    using merge_ordered [OF F(1-4) lf F(7)] merge_linked [OF _ lf]
    by (intro parent_hole_ok(1) [OF ok sb ord]) simp_all
  then show ?thesis by simp
qed

lemma del_up_ok:
  assumes "3 \<le> ord" and "hole_ok ord h fs t"
  shows "pass_ok ord fs t (del_up ord t fs)"
  using assms
proof (induction ord t fs arbitrary: h rule: del_up.induct)
  case (1 ord t)
  then show ?case by (rule root_pass_ok)
next
  case (2 ord t a kl cl kr cr fs)
  note ord = "2.prems"(1) and ok = "2.prems"(2)
  let ?fs = "Frame a kl cl kr cr # fs"
  show ?case
  proof (cases "min_size ord (leaf_bt t) \<le> nkeys t")
    case True
    have "sub_shape ord h ?fs t"
      using ok True low_shape_full by (auto simp: hole_ok_def low_sub_def sub_shape_def)
    from plug_ok [OF ok this] True show ?thesis by (simp add: del_up.simps)
  next
    case False
    obtain kl' k kr' cl' l r cr' where sb: "siblings kl cl t kr cr = (kl', k, kr', cl', l, r, cr')"
      by (cases "siblings kl cl t kr cr")
    note F = sibling_facts [OF ok sb ord]
    define m where "m = merge_bt l k r"
    have lf: "leaf_bt l = leaf_bt r" using F(5,6) by simp
    have om: "ordered (seg_lo (hole_lo fs) kl') m (seg_hi kr' (hole_hi fs))"
      unfolding m_def by (rule merge_ordered [OF F(1-4) lf F(7)])
    show ?thesis
    proof (cases "nkeys l + nkeys r < (if leaf_bt t then ord else ord - 1)")
      case cap: True
      note p = merge_hole_ok [OF ord ok sb cap]
      have pk: "pass_ok ord fs (Nd a (kl' @ kr') (cl' @ m # cr')) (del_up ord (Nd a (kl' @ kr') (cl' @ m # cr')) fs)"
        using "2.IH" [OF False sb [symmetric] refl refl refl refl refl refl cap ord, of "Suc h"] p
        by (simp add: m_def)
      have "pass_ok ord ?fs t (del_up ord (Nd a (kl' @ kr') (cl' @ m # cr')) fs)"
        using concat_siblings [OF F(12), of kvs "[m]"] merge_kvs [OF F(7) lf, of k]
        by (intro pass_parent [OF pk]) (simp add: m_def)
      with False sb cap show ?thesis by (simp add: del_up.simps m_def)
    next
      case cap: False
      let ?i = "if cl = [] then nkeys l + 1 else nkeys l - 1"
      obtain l' k' r' where sp: "split_bt ?i (leaf_link l) (addr r) m = (l', k', r')"
        by (cases "split_bt ?i (leaf_link l) (addr r) m")
      have t: "t = (if cl = [] then l else r)" using sb by (auto simp: siblings_def split: if_splits)
      have u: "\<not> min_size ord (leaf_bt l) \<le> nkeys (if cl = [] then l else r)"
        using False unfolding t [symmetric] F(5) .
      note i = split_index [OF ord lf u cap [folded F(5)], of k, folded m_def]
      have sh: "shape ord h l' \<and> shape ord h r'"
      proof (cases "cl = []")
        case True
        have sp': "split_bt (nkeys l + 1) (leaf_link l) (addr r) (merge_bt l k r) = (l', k', r')"
          using sp unfolding m_def if_P [OF True] .
        show ?thesis
          using F(9) [OF True] u cap F(5) True by (intro split_shape_left [OF ord _ _ _ _ sp']) simp_all
      next
        case ne: False
        have sp': "split_bt (nkeys l - 1) (leaf_link l) (addr r) (merge_bt l k r) = (l', k', r')"
          using sp unfolding m_def if_not_P [OF ne] .
        show ?thesis
          using F(10) [OF ne] u cap F(5,6) ne by (intro split_shape_right [OF ord _ _ _ _ sp']) simp_all
      qed
      note os = split_ordered [OF om merge_len_ok [OF F(7,8) lf, of k, folded m_def] i sp]
      have lk: "linked (xs @ concat (map leafseq [l', r']) @ ys) Null"
        if "linked (xs @ leafseq l @ leafseq r @ ys) Null" for xs ys
        using split_linked [OF that lf sp [unfolded m_def]] by simp
      have p: "hole_ok ord (Suc h) fs (Nd a (kl' @ [k'] @ kr') (cl' @ [l', r'] @ cr'))"
        and q: "sub_shape ord (Suc h) fs (Nd a (kl' @ [k'] @ kr') (cl' @ [l', r'] @ cr'))"
        using sh os lk by (intro parent_hole_ok [OF ok sb ord]; simp)+
      have "kvs l' @ kvs r' = kvs l @ kvs r"
        using split_kvs [OF sp merge_len_ok [OF F(7,8) lf, of k, folded m_def]] merge_kvs [OF F(7) lf, of k]
        by (simp add: m_def)
      then have "pass_ok ord ?fs t (Some (plug (Nd a (kl' @ [k'] @ kr') (cl' @ [l', r'] @ cr')) fs))"
        using concat_siblings [OF F(12), of kvs "[l', r']"] by (intro pass_parent [OF plug_ok [OF p q]]) simp
      with False sb cap sp show ?thesis by (simp add: del_up.simps m_def)
    qed
  qed
qed

end
