(* ===== verification/Btree_Del_Map.thy ===== *)
theory Btree_Del_Map
  imports Btree_Delete Btree_Del_Pure
begin

text \<open>
  Deletion on the store follows the upward pass on trees: \<open>delete_entry\<close> leaves the cells of
  \<open>del_up\<close>, every merged-away node is back on the free list, and \<open>delete\<close> removes the key
  from the represented map and frees its record.
\<close>

section \<open>Pairs of siblings in the store\<close>

lemma merge_pair_good:
  assumes g: "good s (cells p l @ cells p r @ xs) fl" and lf: "leaf_bt l = leaf_bt r"
    and len: "len_ok l" "len_ok r"
    and cap: "nkeys l + nkeys r < (if leaf_bt l then order s else order s - 1)"
    and nn: "(n, nb) = (if idx = -1 then (ptr_of l, ptr_of r) else (ptr_of r, ptr_of l))"
  shows "\<exists>s' c. merge_nodes s n nb idx k = Some (s', ptr_of r) \<and> same s s' \<and> c_par c = p \<and>
    good s' (cells p (merge_bt l k r) @ (addr r, c) # xs) fl"
proof (cases l)
  case (Lf a ks1 rs1 l1)
  then obtain b ks2 rs2 l2 where r: "r = Lf b ks2 rs2 l2" using lf by (cases r) auto
  have "good s ((a, Cell p True ks1 rs1 (Some l1)) # (b, Cell p True ks2 rs2 (Some l2)) # xs) fl"
    using g by (simp add: Lf r)
  moreover have "length ks1 + length ks2 \<le> order s - 1" using cap by (simp add: Lf r)
  ultimately obtain s' where
    "merge_nodes s n nb idx k = Some (s', NodeP b)" "same s s'" "good s' ((a, Cell p True (ks1 @ ks2)
      (rs1 @ rs2) (Some l2)) # (b, Cell p True ks2 rs2 (Some l2)) # xs) fl"
    using merge_leaf_good [OF _ _ _ _ nn [unfolded Lf r addr.simps], of s p ks1 rs1 "Some l1" ks2 rs2 l2 xs fl k] len
    by (auto simp: Lf r)
  then show ?thesis by (auto simp: Lf r intro!: exI [of _ s'] exI [of _ "Cell p True ks2 rs2 (Some l2)"])
next
  case (Nd a ks1 cs1)
  then obtain b ks2 cs2 where r: "r = Nd b ks2 cs2" using lf by (cases r) auto
  have "good s ((a, Cell p False ks1 (map ptr_of cs1) None) # (b, Cell p False ks2 (map ptr_of cs2) None) #
      concat (map (cells (NodeP a)) cs1) @ concat (map (cells (NodeP b)) cs2) @ xs) fl"
    by (rule good_perm [OF g]) (simp add: Nd r)
  from merge_node_good [OF this _ _ _ nn [unfolded Nd r addr.simps], of k] len cap obtain s' ps where
    "merge_nodes s n nb idx k = Some (s', NodeP b)" "same s s'" and
    g': "good s' ((a, Cell p False (ks1 @ k # ks2) (map ptr_of (cs1 @ cs2)) None) #
      (b, Cell p False [] ps None) # concat (map (cells (NodeP a)) (cs1 @ cs2)) @ xs) fl"
    by (auto simp: Nd r)
  moreover have "good s' (cells p (merge_bt l k r) @ (b, Cell p False [] ps None) # xs) fl"
    by (rule good_perm [OF g']) (simp add: Nd r)
  ultimately show ?thesis by (auto simp: r intro!: exI [of _ s'] exI [of _ "Cell p False [] ps None"])
qed

definition can_move :: "nat \<Rightarrow> bool \<Rightarrow> bt \<Rightarrow> bt \<Rightarrow> bool" where
  "can_move ord first l r \<longleftrightarrow> (if first then nkeys l < ord - 1 \<and> (if leaf_bt r then 2 else 1) \<le> nkeys r
     else nkeys r < ord - 1 \<and> 1 \<le> nkeys l)"

lemma redistribute_first_good:
  assumes g: "good s (cells p l @ cells p r @ (c, Cell q False (kl @ k # kr) ps None) # xs) fl"
    and p: "p = NodeP c" and lf: "leaf_bt l = leaf_bt r" and len: "len_ok l" "len_ok r"
    and mv: "can_move (order s) True l r"
    and sp: "split_bt (nkeys l + 1) (leaf_link l) (addr r) (merge_bt l k r) = (l', k', r')"
  shows "\<exists>s'. redistribute_from_right s (ptr_of l) (ptr_of r) (length kl) k = Some s' \<and> same s s' \<and>
    good s' (cells p l' @ cells p r' @ (c, Cell q False (kl @ k' # kr) ps None) # xs) fl"
proof (cases l)
  case (Lf a ks1 rs1 l1)
  then obtain b ks rs l2 where r0: "r = Lf b ks rs l2" using lf by (cases r) auto
  then obtain k2 k3 ks2 r2 rs2 where r: "r = Lf b (k2 # k3 # ks2) (r2 # rs2) l2"
    using mv len(2) by (cases ks; cases "tl ks"; cases rs) (auto simp: can_move_def)
  have "good s ((a, Cell p True ks1 rs1 (Some l1)) # (b, Cell p True (k2 # k3 # ks2) (r2 # rs2) (Some l2)) #
      (c, Cell q False (kl @ k # kr) ps None) # xs) fl" using g by (simp add: Lf r)
  from redistribute_right_leaf [OF this p, of k] len mv sp show ?thesis
    by (auto simp: Lf r can_move_def nth_append)
next
  case (Nd a ks1 cs1)
  then obtain b ks cs where r0: "r = Nd b ks cs" using lf by (cases r) auto
  then obtain k2 ks2 t cs2 where r: "r = Nd b (k2 # ks2) (t # cs2)"
    using mv len(2) by (cases ks; cases cs) (auto simp: can_move_def)
  have "good s ((a, Cell p False ks1 (map ptr_of cs1) None) # (b, Cell p False (k2 # ks2) (map ptr_of (t # cs2)) None) #
      (c, Cell q False (kl @ k # kr) ps None) # cells (NodeP b) t @
      concat (map (cells (NodeP a)) cs1) @ concat (map (cells (NodeP b)) cs2) @ xs) fl"
    by (rule good_perm [OF g]) (simp add: Nd r ac_simps)
  from redistribute_right_node [OF this p] len mv obtain s' where
    "redistribute_from_right s (NodeP a) (NodeP b) (length kl) k = Some s'" "same s s'" and
    g': "good s' ((a, Cell p False (ks1 @ [k]) (map ptr_of (cs1 @ [t])) None) #
      (b, Cell p False ks2 (map ptr_of cs2) None) # (c, Cell q False (kl @ k2 # kr) ps None) #
      cells (NodeP a) t @ concat (map (cells (NodeP a)) cs1) @ concat (map (cells (NodeP b)) cs2) @ xs) fl"
    by (auto simp: Nd r can_move_def)
  moreover have "l' = Nd a (ks1 @ [k]) (cs1 @ [t])" "k' = k2" "r' = Nd b ks2 cs2"
    using sp len by (auto simp: Nd r nth_append)
  moreover from this have "good s' (cells p l' @ cells p r' @ (c, Cell q False (kl @ k' # kr) ps None) # xs) fl"
    by (intro good_perm [OF g']) (simp add: ac_simps)
  ultimately show ?thesis by (auto simp: Nd r)
qed

lemma snoc_cases: "1 \<le> length xs \<Longrightarrow> \<exists>ys y. xs = ys @ [y]"
  by (cases xs rule: rev_cases) auto

lemma redistribute_other_good:
  assumes g: "good s (cells p l @ cells p r @ (c, Cell q False (kl @ k # kr) ps None) # xs) fl"
    and p: "p = NodeP c" and lf: "leaf_bt l = leaf_bt r" and len: "len_ok l" "len_ok r"
    and mv: "can_move (order s) False l r"
    and sp: "split_bt (nkeys l - 1) (leaf_link l) (addr r) (merge_bt l k r) = (l', k', r')"
  shows "\<exists>s'. redistribute_from_left s (ptr_of r) (ptr_of l) (length kl) k = Some s' \<and> same s s' \<and>
    good s' (cells p l' @ cells p r' @ (c, Cell q False (kl @ k' # kr) ps None) # xs) fl"
proof (cases l)
  case (Lf a ks rs l1)
  then obtain ks1 k1 rs1 r1 where l: "l = Lf a (ks1 @ [k1]) (rs1 @ [r1]) l1"
    using mv len(1) snoc_cases [of ks] snoc_cases [of rs] by (auto simp: can_move_def)
  obtain b ks2 rs2 l2 where r: "r = Lf b ks2 rs2 l2" using lf Lf by (cases r) auto
  have "good s ((a, Cell p True (ks1 @ [k1]) (rs1 @ [r1]) (Some l1)) # (b, Cell p True ks2 rs2 (Some l2)) #
      (c, Cell q False (kl @ k # kr) ps None) # xs) fl" using g by (simp add: l r)
  from redistribute_left_leaf [OF this p, of k] len mv sp show ?thesis
    by (auto simp: l r can_move_def nth_append)
next
  case (Nd a ks cs)
  then obtain ks1 k1 cs1 t where l: "l = Nd a (ks1 @ [k1]) (cs1 @ [t])"
    using mv len(1) snoc_cases [of ks] snoc_cases [of cs] by (auto simp: can_move_def)
  obtain b ks2 cs2 where r: "r = Nd b ks2 cs2" using lf Nd by (cases r) auto
  have "good s ((a, Cell p False (ks1 @ [k1]) (map ptr_of (cs1 @ [t])) None) #
      (b, Cell p False ks2 (map ptr_of cs2) None) # (c, Cell q False (kl @ k # kr) ps None) #
      cells (NodeP a) t @ concat (map (cells (NodeP a)) cs1) @ concat (map (cells (NodeP b)) cs2) @ xs) fl"
    by (rule good_perm [OF g]) (simp add: l r ac_simps)
  from redistribute_left_node [OF this p] len mv obtain s' where
    "redistribute_from_left s (NodeP b) (NodeP a) (length kl) k = Some s'" "same s s'" and
    g': "good s' ((a, Cell p False ks1 (map ptr_of cs1) None) # (b, Cell p False (k # ks2) (map ptr_of (t # cs2)) None) #
      (c, Cell q False (kl @ k1 # kr) ps None) # cells (NodeP b) t @
      concat (map (cells (NodeP a)) cs1) @ concat (map (cells (NodeP b)) cs2) @ xs) fl"
    by (auto simp: l r can_move_def)
  moreover have "l' = Nd a ks1 cs1" "k' = k1" "r' = Nd b (k # ks2) (t # cs2)"
    using sp len by (auto simp: l r nth_append)
  moreover from this have "good s' (cells p l' @ cells p r' @ (c, Cell q False (kl @ k' # kr) ps None) # xs) fl"
    by (intro good_perm [OF g']) (simp add: ac_simps)
  ultimately show ?thesis by (auto simp: l r)
qed

section \<open>The upward pass in the store\<close>

lemma adjust_root_good:
  assumes g: "good s (cells Null t @ ex) fl" and ok: "low_root ord h t"
  shows "\<exists>s' fl'. adjust_root s (ptr_of t) =
      Some (case del_up ord t [] of None \<Rightarrow> Null | Some t' \<Rightarrow> ptr_of t', s') \<and> same s s' \<and>
    good s' ((case del_up ord t [] of None \<Rightarrow> [] | Some t' \<Rightarrow> cells Null t') @ ex) fl'"
proof -
  obtain nd where nd: "nodes s (addr t) = Some nd" "node_rel (order s) nd (top_cell Null t)"
    using good_get [OF g, of "addr t" "top_cell Null t"] addr_in_cells by auto
  have nk: "num_keys nd = nkeys t" "is_leaf nd = leaf_bt t"
    using nd(2) by (cases t; auto simp: node_rel_def top_cell_def)+
  show ?thesis
  proof (cases "0 < nkeys t")
    case True
    then have "adjust_root s (ptr_of t) = Some (ptr_of t, s)" using nd nk by (simp add: adjust_root_def)
    with True g show ?thesis by auto
  next
    case False
    show ?thesis
    proof (cases t)
      case (Lf a ks rs l)
      from g have "good s ((a, Cell Null True ks rs (Some l)) # ex) fl" by (simp add: Lf)
      from release_node_good [OF this] False nd nk show ?thesis by (auto simp: adjust_root_def Lf)
    next
      case (Nd a ks cs)
      with ok False obtain c where c: "cs = [c]" "ks = []" by (auto simp: low_root_def length_Suc_conv)
      let ?A = "Cell Null False [] [ptr_of c] None"
      have "good s (cells (NodeP a) c @ (a, ?A) # ex) fl" by (rule good_perm [OF g]) (simp add: Nd c)
      from good_set_parent_ex [OF this, of Null] obtain s1 where
        s1: "set_parent s (ptr_of c) Null = Some s1" "same s s1"
        and "good s1 (cells Null c @ (a, ?A) # ex) fl" by blast
      then have "good s1 ((a, ?A) # cells Null c @ ex) fl" by (elim good_perm) simp
      from release_node_good [OF this] obtain s2 where
        s2: "release_node s1 (NodeP a) = Some s2" "same s1 s2" "good s2 (cells Null c @ ex) (a # fl)" by blast
      have "rd (pointers nd) 0 = Some (ptr_of c)"
        using node_rel_child [of "order s" nd Null "[]" "[ptr_of c]" None 0] nd(2) by (simp add: top_cell_def Nd c)
      then have "adjust_root s (ptr_of t) = Some (ptr_of c, s2)"
        using nd nk False s1 s2 by (simp add: adjust_root_def Nd)
      with s2 same_trans [OF s1(2) s2(2)] False show ?thesis by (auto simp: Nd c)
    qed
  qed
qed

lemma get_neighbor_index_good:
  assumes nt: "nodes s b = Some nd" "parent nd = NodeP a" and g: "good s ((a, Cell p False ks
      (map ptr_of (cl @ t # cr)) None) # concat (map (cells (NodeP a)) (cl @ t # cr)) @ xs) fl"
    and len: "length ks = length cl + length cr" and b: "b = addr t"
  shows "get_neighbor_index s (NodeP b) = Some (of_nat (length cl) - 1)"
proof -
  obtain na where na: "nodes s a = Some na" "node_rel (order s) na (Cell p False ks (map ptr_of (cl @ t # cr)) None)"
    by (rule good_head [OF g])
  have "scan (\<lambda>p. p \<noteq> ptr_of t) (pointers na) (num_keys na + 1) 0 = Some (length cl)"
    using get_left_index_good [OF g len na(2)] by (simp add: get_left_index_def)
  moreover have "num_keys na = length ks" using na(2) by (simp add: node_rel_def)
  ultimately show ?thesis using nt na(1) len b by (simp add: get_neighbor_index_def)
qed

lemma neighbor_index_word:
  assumes "n < 2 ^ 64"
  shows "(of_nat n - 1 = (-1 :: u64)) = (n = 0)" and "n \<noteq> 0 \<Longrightarrow> unat (of_nat n - 1 :: u64) = n - 1"
proof -
  have "(of_nat n :: u64) = 0 \<longleftrightarrow> n = 0"
    using assms by (auto simp: word_of_nat_eq_0_iff dest: dvd_imp_le)
  then show "(of_nat n - 1 = (-1 :: u64)) = (n = 0)" by simp
  show "unat (of_nat n - 1 :: u64) = n - 1" if "n \<noteq> 0"
  proof -
    have "(of_nat n - 1 :: u64) = of_nat (n - 1)" using that by (simp add: of_nat_diff)
    then show ?thesis using assms by (simp add: unat_of_nat take_bit_eq_mod)
  qed
qed

lemma ord_children_sorted:
  "ord_children lo ks cs hi \<Longrightarrow> sorted_wrt (<) ks \<and> (\<forall>k \<in> set ks. lo_lt lo k)"
proof (induction ks arbitrary: lo cs)
  case (Cons k ks)
  then obtain c cs' where "cs = c # cs'" by (cases cs) auto
  with Cons show ?case by (fastforce intro: lo_lt_trans less_imp_le)
qed simp

lemma addr_merge [simp]: "addr (merge_bt l k r) = addr l"
  by (cases l; cases r) auto

lemma addr_split: "split_bt i lk b m = (l, k, r) \<Longrightarrow> addr l = addr m \<and> addr r = b"
  by (cases m) auto

lemma rd_prefix: "take n xs = us @ v # ws \<Longrightarrow> n \<le> length xs \<Longrightarrow> rd xs (length us) = Some v"
proof -
  assume "take n xs = us @ v # ws" "n \<le> length xs"
  then have "xs = us @ v # ws @ drop n xs" using append_take_drop_id [of n xs] by simp
  then show ?thesis unfolding rd_def by (metis length_append length_Cons less_add_Suc1 nth_append_length add_Suc_right)
qed

text \<open>The cells of a frame with its hole filled, arranged around the pair of siblings.\<close>

lemma frame_cells:
  assumes g: "good s (cells (NodeP a) t @ ctx_cells (ptr_of t) (Frame a kl cl kr cr # fs) @ ex) fl"
    and kk: "kl @ kr = kl' @ k # kr'" and cc: "cl @ t # cr = cl' @ l # r # cr'"
  defines "rest \<equiv> concat (map (cells (NodeP a)) (cl' @ cr')) @ ctx_cells (NodeP a) fs @ ex"
  shows "good s ((a, Cell (par_of fs) False (kl @ kr) (map ptr_of (cl @ t # cr)) None) #
      concat (map (cells (NodeP a)) (cl @ t # cr)) @ ctx_cells (NodeP a) fs @ ex) fl"
    and "good s (cells (NodeP a) l @ cells (NodeP a) r @ (a, Cell (par_of fs) False (kl' @ k # kr')
      (map ptr_of (cl' @ l # r # cr')) None) # rest) fl"
proof -
  show g1: "good s ((a, Cell (par_of fs) False (kl @ kr) (map ptr_of (cl @ t # cr)) None) #
      concat (map (cells (NodeP a)) (cl @ t # cr)) @ ctx_cells (NodeP a) fs @ ex) fl"
    by (rule good_perm [OF g]) (simp add: ac_simps)
  show "good s (cells (NodeP a) l @ cells (NodeP a) r @ (a, Cell (par_of fs) False (kl' @ k # kr')
      (map ptr_of (cl' @ l # r # cr')) None) # rest) fl"
    by (rule good_perm [OF g1 [unfolded kk cc]]) (simp add: rest_def ac_simps)
qed

text \<open>Everything that \<open>delete_entry\<close> reads before it merges or balances.\<close>

lemma delete_entry_reads:
  assumes rm: "remove_entry_from_node s (ptr_of t) key p = Some s1"
    and g: "good s1 (cells (NodeP a) t @ ctx_cells (ptr_of t) (Frame a kl cl kr cr # fs) @ ex) fl"
    and ok: "hole_ok (order s1) h (Frame a kl cl kr cr # fs) t"
    and root: "root = ptr_of (plug t (Frame a kl cl kr cr # fs))"
    and low: "\<not> min_size (order s1) (leaf_bt t) \<le> nkeys t"
    and sb: "siblings kl cl t kr cr = (kl', k, kr', cl', l, r, cr')"
  defines "idx \<equiv> of_nat (length cl) - (1 :: u64)"
    and "nb \<equiv> if cl = [] then r else l"
  shows "delete_entry s root (ptr_of t) key p =
    (if nkeys l + nkeys r < (if leaf_bt t then order s1 else order s1 - 1) then do {
       (s, dead) \<leftarrow> merge_nodes s1 (ptr_of t) (ptr_of nb) idx k;
       dn \<leftarrow> node_at s dead;
       (root, s) \<leftarrow> delete_entry s root (parent dn) k dead;
       s \<leftarrow> release_node s dead;
       Some (root, s) }
     else redistribute_nodes s1 root (ptr_of t) (ptr_of nb) idx (length kl') k)"
    and "idx = -1 \<longleftrightarrow> cl = []"
proof -
  let ?fs = "Frame a kl cl kr cr # fs" and ?P = "Cell (par_of fs) False (kl @ kr) (map ptr_of (cl @ t # cr)) None"
  note F = sibling_facts [OF ok sb good_order [OF g]]
  note G = frame_cells [OF g F(11,12)]
  obtain nd where nd: "nodes s1 (addr t) = Some nd" "node_rel (order s1) nd (top_cell (NodeP a) t)"
    using good_get [OF g, of "addr t" "top_cell (NodeP a) t"] addr_in_cells by auto
  have nk: "num_keys nd = nkeys t" "is_leaf nd = leaf_bt t" "parent nd = NodeP a"
    using nd(2) by (cases t; auto simp: node_rel_def top_cell_def)+
  obtain na where na: "nodes s1 a = Some na" "node_rel (order s1) na ?P" by (rule good_head [OF G(1)])
  have len: "length cl = length kl" "length cr = length kr" "length (kl @ kr) \<le> order s1 - 1"
    using ok by (auto simp: hole_ok_def)
  have bnd: "length cl < 2 ^ 64" using len good_order_bound [OF g] by simp
  note ni = neighbor_index_word [OF bnd, folded idx_def]
  show im: "idx = -1 \<longleftrightarrow> cl = []" using ni(1) by simp
  have t: "t = (if cl = [] then l else r)" using sb by (auto simp: siblings_def split: if_splits)
  have ix: "(if idx = -1 then 0 else unat idx) = length kl'"
    "(if idx = -1 then 1 else unat idx) = (if cl = [] then Suc (length cl') else length cl')"
    using siblings_split(5,6) [OF sb len(1,2)] F(11,13) ni im by auto
  have kp: "rd (keys na) (length kl') = Some k"
    using na(2) F(11) by (intro rd_prefix [of "num_keys na" _ _ _ kr']) (auto simp: node_rel_def)
  have nbp: "rd (pointers na) (if cl = [] then Suc (length cl') else length cl') = Some (ptr_of nb)"
    using node_rel_child [OF na(2), of "if cl = [] then Suc (length cl') else length cl'"]
    unfolding F(12) by (auto simp: nb_def nth_append)
  obtain nn where nn: "nodes s1 (addr nb) = Some nn" "node_rel (order s1) nn (top_cell (NodeP a) nb)"
    using good_get [OF G(2), of "addr nb" "top_cell (NodeP a) nb"] addr_in_cells [of nb "NodeP a"]
    by (auto simp: nb_def split: if_splits)
  then have nnk: "num_keys nn = nkeys nb" by (cases nb; auto simp: node_rel_def top_cell_def)
  have ngh: "get_neighbor_index s1 (ptr_of t) = Some idx"
    unfolding idx_def using get_neighbor_index_good [OF nd(1) nk(3) G(1)] len by simp
  have nr: "ptr_of t \<noteq> root" using hole_not_root [OF g] root by simp
  have mk: "\<not> nkeys t \<ge> (if leaf_bt t then cut (order s1 - 1) else cut (order s1) - 1)"
    using low by (simp add: min_size_def)
  have sum: "nkeys nb + nkeys t = nkeys l + nkeys r" using t by (simp add: nb_def)
  show "delete_entry s root (ptr_of t) key p =
    (if nkeys l + nkeys r < (if leaf_bt t then order s1 else order s1 - 1) then do {
       (s, dead) \<leftarrow> merge_nodes s1 (ptr_of t) (ptr_of nb) idx k;
       dn \<leftarrow> node_at s dead;
       (root, s) \<leftarrow> delete_entry s root (parent dn) k dead;
       s \<leftarrow> release_node s dead;
       Some (root, s) }
     else redistribute_nodes s1 root (ptr_of t) (ptr_of nb) idx (length kl') k)"
    using nr by (subst delete_entry.simps) (simp only: rm Option.bind.simps if_False node_at_NodeP nd(1) nk
        Let_def mk ngh ix na(1) kp nbp nn(1) nnk sum)
qed

lemma can_move_sizes:
  assumes "3 \<le> ord" and "leaf_bt l = leaf_bt r"
    and "\<not> min_size ord (leaf_bt l) \<le> nkeys (if b then l else r)"
    and "\<not> nkeys l + nkeys r < (if leaf_bt l then ord else ord - 1)"
  shows "can_move ord b l r"
  using assms(2-) cut_bounds [OF assms(1)] by (auto simp: can_move_def min_size_def split: if_splits)

abbreviation root_of :: "bt option \<Rightarrow> ptr" where
  "root_of res \<equiv> (case res of None \<Rightarrow> Null | Some t \<Rightarrow> ptr_of t)"

abbreviation tree_cells :: "bt option \<Rightarrow> (nat \<times> cell) list" where
  "tree_cells res \<equiv> (case res of None \<Rightarrow> [] | Some t \<Rightarrow> cells Null t)"

lemma sibling_ptr_fresh:
  assumes "good s (cells p r @ concat (map (cells p) cs) @ xs) fl"
  shows "ptr_of r \<notin> set (map ptr_of cs)"
proof
  assume "ptr_of r \<in> set (map ptr_of cs)"
  then obtain c where c: "c \<in> set cs" "addr c = addr r" by auto
  have "addr r \<in> fst ` set (cells p r)" using addr_in_cells [of r p] by (force simp: image_iff)
  moreover have "addr r \<in> fst ` set (concat (map (cells p) cs))"
    using c addr_in_cells [of c p] by (force simp: image_iff)
  moreover have "fst ` set (cells p r) \<inter> fst ` set (concat (map (cells p) cs)) = {}"
    using good_distinct [OF assms] by (simp add: Int_Un_distrib)
  ultimately show False by (metis disjoint_iff)
qed

lemma merge_step:
  assumes g: "good s1 (cells (NodeP a) t @ ctx_cells (ptr_of t) (Frame a kl cl kr cr # fs) @ ex) fl"
    and ok: "hole_ok (order s1) h (Frame a kl cl kr cr # fs) t"
    and sb: "siblings kl cl t kr cr = (kl', k, kr', cl', l, r, cr')"
    and cap: "nkeys l + nkeys r < (if leaf_bt t then order s1 else order s1 - 1)"
    and idx: "idx = -1 \<longleftrightarrow> cl = []"
  shows "\<exists>s2 s3 dn c. merge_nodes s1 (ptr_of t) (ptr_of (if cl = [] then r else l)) idx k = Some (s2, ptr_of r) \<and>
    node_at s2 (ptr_of r) = Some dn \<and> parent dn = NodeP a \<and>
    remove_entry_from_node s2 (NodeP a) k (ptr_of r) = Some s3 \<and> same s1 s3 \<and>
    good s3 (cells (par_of fs) (Nd a (kl' @ kr') (cl' @ merge_bt l k r # cr')) @
      ctx_cells (NodeP a) fs @ (addr r, c) # ex) fl"
proof -
  note F = sibling_facts [OF ok sb good_order [OF g]]
  note G = frame_cells(2) [OF g F(11,12)]
  let ?rest = "concat (map (cells (NodeP a)) (cl' @ cr')) @ ctx_cells (NodeP a) fs @ ex"
  let ?P = "Cell (par_of fs) False (kl' @ k # kr') (map ptr_of (cl' @ l # r # cr')) None"
  have t: "t = (if cl = [] then l else r)" using sb by (auto simp: siblings_def split: if_splits)
  have lf: "leaf_bt l = leaf_bt r" using F(5,6) by simp
  have "(ptr_of t, ptr_of (if cl = [] then r else l)) =
      (if idx = -1 then (ptr_of l, ptr_of r) else (ptr_of r, ptr_of l))" using idx t by simp
  from merge_pair_good [OF G lf F(7,8) _ this, of k] cap F(5) obtain s2 c where
    s2: "merge_nodes s1 (ptr_of t) (ptr_of (if cl = [] then r else l)) idx k = Some (s2, ptr_of r)"
    "same s1 s2" "c_par c = NodeP a" and
    g2: "good s2 (cells (NodeP a) (merge_bt l k r) @ (addr r, c) # (a, ?P) # ?rest) fl" by auto
  obtain dn where dn: "nodes s2 (addr r) = Some dn" "node_rel (order s2) dn c"
    using good_get [OF g2, of "addr r" c] by auto
  have "ord_children (hole_lo fs) (kl' @ [k] @ kr') (cl' @ [l, r] @ cr') (hole_hi fs)"
    using F(15) [of "[l, r]" "[k]"] F(1-4) by simp
  then have kn: "k \<notin> set kl'" using ord_children_sorted by (fastforce simp: sorted_wrt_append)
  have fr: "ptr_of r \<notin> set (map ptr_of (cl' @ [l]))"
    by (rule sibling_ptr_fresh [OF good_perm [OF G, of "cells (NodeP a) r @ concat (map (cells (NodeP a)) (cl' @ [l])) @
      (a, ?P) # concat (map (cells (NodeP a)) cr') @ ctx_cells (NodeP a) fs @ ex"]]) simp
  from g2 have g2': "good s2 ((a, Cell (par_of fs) False (kl' @ k # kr')
      (map ptr_of (cl' @ [l]) @ ptr_of r # map ptr_of cr') None) #
      cells (NodeP a) (merge_bt l k r) @ (addr r, c) # ?rest) fl" by (rule good_perm) simp
  have ln: "length (map ptr_of (cl' @ [l])) + length (map ptr_of cr') = Suc (length kl' + length kr')"
    using F(13,14) by simp
  from remove_node_good [OF g2' ln kn fr] obtain s3 where
    s3: "remove_entry_from_node s2 (NodeP a) k (ptr_of r) = Some s3" "same s2 s3"
    and g3: "good s3 ((a, Cell (par_of fs) False (kl' @ kr') (map ptr_of (cl' @ [l]) @ map ptr_of cr') None) #
      cells (NodeP a) (merge_bt l k r) @ (addr r, c) # ?rest) fl" by blast
  have "good s3 (cells (par_of fs) (Nd a (kl' @ kr') (cl' @ merge_bt l k r # cr')) @
      ctx_cells (NodeP a) fs @ (addr r, c) # ex) fl"
    by (rule good_perm [OF g3]) (simp add: ac_simps)
  with s2 s3 dn same_trans [OF s2(2) s3(2)] show ?thesis by (auto simp: node_rel_def)
qed

lemma redistribute_step:
  assumes g: "good s1 (cells (NodeP a) t @ ctx_cells (ptr_of t) (Frame a kl cl kr cr # fs) @ ex) fl"
    and ok: "hole_ok (order s1) h (Frame a kl cl kr cr # fs) t"
    and sb: "siblings kl cl t kr cr = (kl', k, kr', cl', l, r, cr')"
    and low: "\<not> min_size (order s1) (leaf_bt t) \<le> nkeys t"
    and cap: "\<not> nkeys l + nkeys r < (if leaf_bt t then order s1 else order s1 - 1)"
    and idx: "idx = -1 \<longleftrightarrow> cl = []"
    and sp: "split_bt (if cl = [] then nkeys l + 1 else nkeys l - 1) (leaf_link l) (addr r) (merge_bt l k r) = (l', k', r')"
  shows "\<exists>s'. redistribute_nodes s1 root (ptr_of t) (ptr_of (if cl = [] then r else l)) idx (length kl') k =
      Some (root, s') \<and> same s1 s' \<and>
    good s' (cells Null (plug (Nd a (kl' @ k' # kr') (cl' @ l' # r' # cr')) fs) @ ex) fl"
proof -
  note F = sibling_facts [OF ok sb good_order [OF g]]
  note G = frame_cells(2) [OF g F(11,12)]
  let ?rest = "concat (map (cells (NodeP a)) (cl' @ cr')) @ ctx_cells (NodeP a) fs @ ex"
  let ?ps = "map ptr_of (cl' @ l # r # cr')"
  have t: "t = (if cl = [] then l else r)" using sb by (auto simp: siblings_def split: if_splits)
  have lf: "leaf_bt l = leaf_bt r" using F(5,6) by simp
  have mv: "can_move (order s1) (cl = []) l r"
    using low cap t F(5) by (intro can_move_sizes [OF good_order [OF g] lf]) simp_all
  have "\<exists>s'. redistribute_nodes s1 root (ptr_of t) (ptr_of (if cl = [] then r else l)) idx (length kl') k =
      Some (root, s') \<and> same s1 s' \<and> good s' (cells (NodeP a) l' @ cells (NodeP a) r' @
        (a, Cell (par_of fs) False (kl' @ k' # kr') ?ps None) # ?rest) fl"
  proof (cases "cl = []")
    case True
    from redistribute_first_good [OF G refl lf F(7,8)] mv sp True t idx show ?thesis
      by (auto simp: redistribute_nodes_def)
  next
    case False
    from redistribute_other_good [OF G refl lf F(7,8)] mv sp False t idx show ?thesis
      by (auto simp: redistribute_nodes_def)
  qed
  then obtain s' where s': "redistribute_nodes s1 root (ptr_of t) (ptr_of (if cl = [] then r else l)) idx
      (length kl') k = Some (root, s')" "same s1 s'" and g': "good s' (cells (NodeP a) l' @ cells (NodeP a) r' @
        (a, Cell (par_of fs) False (kl' @ k' # kr') ?ps None) # ?rest) fl" by blast
  have "addr l' = addr l" "addr r' = addr r" using addr_split [OF sp] by simp_all
  then have "good s' (cells Null (plug (Nd a (kl' @ k' # kr') (cl' @ l' # r' # cr')) fs) @ ex) fl"
    by (intro good_perm [OF g']) (simp add: mset_cells_plug ac_simps)
  with s' show ?thesis by blast
qed

lemma delete_entry_full:
  assumes rm: "remove_entry_from_node s (ptr_of t) key p = Some s1"
    and g: "good s1 (cells q t @ ctx_cells (ptr_of t) fs @ ex) fl"
    and fs: "fs \<noteq> []" and full: "min_size (order s1) (leaf_bt t) \<le> nkeys t"
  shows "delete_entry s (ptr_of (plug t fs)) (ptr_of t) key p = Some (ptr_of (plug t fs), s1)"
proof -
  obtain nd where nd: "nodes s1 (addr t) = Some nd" "node_rel (order s1) nd (top_cell q t)"
    using good_get [OF g, of "addr t" "top_cell q t"] addr_in_cells by auto
  have nk: "num_keys nd = nkeys t" "is_leaf nd = leaf_bt t"
    using nd(2) by (cases t; auto simp: node_rel_def top_cell_def)+
  have mk: "(if leaf_bt t then cut (order s1 - 1) else cut (order s1) - 1) \<le> nkeys t"
    using full by (simp add: min_size_def)
  show ?thesis
    using hole_not_root [OF g fs] by (subst delete_entry.simps)
      (simp only: rm Option.bind.simps ptr.inject if_False node_at_NodeP nd(1) nk Let_def mk if_True)
qed

lemma delete_entry_up:
  assumes "remove_entry_from_node s (ptr_of t) key p = Some s1"
    and "good s1 (cells (par_of fs) t @ ctx_cells (ptr_of t) fs @ ex) fl"
    and "hole_ok (order s1) h fs t" and "root = ptr_of (plug t fs)"
  shows "\<exists>s' fl'. delete_entry s root (ptr_of t) key p = Some (root_of (del_up (order s1) t fs), s') \<and>
    same s1 s' \<and> good s' (tree_cells (del_up (order s1) t fs) @ ex) fl'"
  using assms
proof (induction fs arbitrary: s t key p s1 ex fl h)
  case Nil
  have "delete_entry s root (ptr_of t) key p = adjust_root s1 (ptr_of t)"
    using Nil by (subst delete_entry.simps) simp
  then show ?case
    using adjust_root_good [of s1 t ex fl "order s1" h] Nil.prems(2,3) by (simp add: hole_ok_def low_sub_def)
next
  case (Cons f fs)
  obtain a kl cl kr cr where f: "f = Frame a kl cl kr cr" by (cases f)
  let ?fs = "Frame a kl cl kr cr # fs" and ?o = "order s1"
  note rm = Cons.prems(1) and ok = Cons.prems(3) [unfolded f] and root = Cons.prems(4) [unfolded f]
  have g: "good s1 (cells (NodeP a) t @ ctx_cells (ptr_of t) ?fs @ ex) fl"
    using Cons.prems(2) by (simp add: f)
  note ord = good_order [OF g]
  show ?case
  proof (cases "min_size ?o (leaf_bt t) \<le> nkeys t")
    case True
    have "delete_entry s root (ptr_of t) key p = Some (root, s1)"
      unfolding root by (rule delete_entry_full [OF rm g _ True]) simp
    moreover have "good s1 (cells Null (plug t ?fs) @ ex) fl"
      by (rule good_perm [OF g]) (simp add: mset_cells_plug)
    ultimately show ?thesis using True root by (auto simp: f del_up.simps)
  next
    case low: False
    obtain kl' k kr' cl' l r cr' where sb: "siblings kl cl t kr cr = (kl', k, kr', cl', l, r, cr')"
      by (cases "siblings kl cl t kr cr")
    note D = delete_entry_reads [OF rm g ok root low sb]
    show ?thesis
    proof (cases "nkeys l + nkeys r < (if leaf_bt t then ?o else ?o - 1)")
      case cap: True
      let ?t = "Nd a (kl' @ kr') (cl' @ merge_bt l k r # cr')"
      from merge_step [OF g ok sb cap D(2)] obtain s2 s3 dn c where
        M: "merge_nodes s1 (ptr_of t) (ptr_of (if cl = [] then r else l)) (of_nat (length cl) - 1) k = Some (s2, ptr_of r)"
        "node_at s2 (ptr_of r) = Some dn" "parent dn = NodeP a"
        and rm3: "remove_entry_from_node s2 (NodeP a) k (ptr_of r) = Some s3" and m3: "same s1 s3"
        and g3: "good s3 (cells (par_of fs) ?t @ ctx_cells (NodeP a) fs @ (addr r, c) # ex) fl" by blast
      have o3: "order s3 = ?o" using m3 by (rule same_order)
      have du: "del_up ?o t ?fs = del_up ?o ?t fs" using low sb cap by (simp add: del_up.simps)
      have ok3: "hole_ok (order s3) (Suc h) fs ?t" unfolding o3 by (rule merge_hole_ok [OF ord ok sb cap])
      have rt: "root = ptr_of (plug ?t fs)"
        using root addr_plug_cong [of "Nd a (kl @ kr) (cl @ t # cr)" ?t fs] by simp
      from Cons.IH [of s2 ?t k "ptr_of r" s3 "(addr r, c) # ex" fl "Suc h"] rm3 g3 ok3 rt
      obtain s4 fl4 where s4: "delete_entry s2 root (NodeP a) k (ptr_of r) = Some (root_of (del_up ?o ?t fs), s4)"
        "same s3 s4" and g4: "good s4 (tree_cells (del_up ?o ?t fs) @ (addr r, c) # ex) fl4"
        unfolding o3 by auto
      from g4 have "good s4 ((addr r, c) # tree_cells (del_up ?o ?t fs) @ ex) fl4" by (rule good_perm) simp
      from release_node_good [OF this] obtain s5 where s5: "release_node s4 (ptr_of r) = Some s5" "same s4 s5"
        "good s5 (tree_cells (del_up ?o ?t fs) @ ex) (addr r # fl4)" by blast
      have "delete_entry s root (ptr_of t) key p = Some (root_of (del_up ?o ?t fs), s5)"
        using cap D(1) by (simp only: if_True M s4(1) s5(1) Option.bind.simps prod.case)
      then show ?thesis
        using s5 same_trans [OF m3 same_trans [OF s4(2) s5(2)]] by (auto simp: f du)
    next
      case cap: False
      obtain l' k' r' where sp: "split_bt (if cl = [] then nkeys l + 1 else nkeys l - 1) (leaf_link l) (addr r)
          (merge_bt l k r) = (l', k', r')"
        by (cases "split_bt (if cl = [] then nkeys l + 1 else nkeys l - 1) (leaf_link l) (addr r) (merge_bt l k r)")
      let ?t = "plug (Nd a (kl' @ k' # kr') (cl' @ l' # r' # cr')) fs"
      have du: "del_up ?o t ?fs = Some ?t" using low sb cap sp by (simp add: del_up.simps)
      have rt: "root = ptr_of ?t"
        using root addr_plug_cong [of "Nd a (kl @ kr) (cl @ t # cr)" "Nd a (kl' @ k' # kr') (cl' @ l' # r' # cr')" fs]
        by simp
      from redistribute_step [OF g ok sb low cap D(2) sp, of root] D(1) cap show ?thesis
        by (auto simp: f du rt)
    qed
  qed
qed

section \<open>Deletion on the represented map\<close>

lemma leaf_remove_hole_ok:
  assumes ok: "tree_ok s t" and t: "t = plug (Lf a (kl @ key # kr) (rl @ r # rr) l) fs"
    and len: "length rl = length kl" "length rr = length kr"
    and c: "ctx_shape ord 0 fs" and sh: "sub_shape ord 0 fs (Lf a (kl @ key # kr) (rl @ r # rr) l)"
  shows "hole_ok ord 0 fs (Lf a (kl @ kr) (rl @ rr) l)"
proof -
  from ok have o: "ordered None (plug (Lf a (kl @ key # kr) (rl @ r # rr) l) fs) None"
    and lk: "linked (leafseq t) Null" by (auto simp: tree_ok_def t)
  have "ordered (hole_lo fs) (Lf a (kl @ key # kr) (rl @ r # rr) l) (hole_hi fs)"
    by (rule plug_ordered(1) [OF ctx_shape_frames [OF c] o])
  then have "ordered (hole_lo fs) (Lf a (kl @ kr) (rl @ rr) l) (hole_hi fs)"
    by (auto simp: sorted_wrt_append)
  moreover have "low_sub ord 0 fs (Lf a (kl @ kr) (rl @ rr) l)"
    using sh len by (auto simp: low_sub_def sub_shape_def low_root_def low_shape_def root_shape_def)
  moreover have "linked (ctx_before leafseq fs @ leafseq (Lf a (kl @ kr) (rl @ rr) l) @ ctx_after leafseq fs) Null"
    using lk by (simp add: t leafseq_plug)
  ultimately show ?thesis using c o by (auto simp: hole_ok_def)
qed

lemma map_of_zip_split:
  assumes "map_of (zip ks rs) key = Some r" and "length rs = length ks"
  shows "\<exists>kl kr rl rr. ks = kl @ key # kr \<and> rs = rl @ r # rr \<and> length rl = length kl \<and>
    length rr = length kr \<and> key \<notin> set kl"
  using assms
proof (induction ks arbitrary: rs)
  case (Cons k ks)
  then obtain x xs where rs: "rs = x # xs" "length xs = length ks" by (cases rs) auto
  show ?case
  proof (cases "k = key")
    case True
    with Cons.prems rs show ?thesis by (intro exI [of _ "[]"] exI [of _ ks] exI [of _ xs]) simp
  next
    case False
    with Cons.prems rs have "map_of (zip ks xs) key = Some r" by simp
    from Cons.IH [OF this rs(2)] obtain kl kr rl rr where
      "ks = kl @ key # kr" "xs = rl @ r # rr" "length rl = length kl" "length rr = length kr" "key \<notin> set kl"
      by blast
    with False rs(1) show ?thesis by (intro exI [of _ "k # kl"] exI [of _ kr] exI [of _ "x # rl"] exI [of _ rr]) simp
  qed
qed simp

lemma delete_entry_tree:
  assumes ok: "tree_ok s t" and m: "map_of (kvs t) key = Some r" and di: "distinct (map snd (kvs t))"
  shows "\<exists>leaf res s' es1 es2 fl. find_bpt s (ptr_of t) key = Some (rec_ptr (Some r), leaf) \<and> leaf \<noteq> Null \<and>
    delete_entry s (ptr_of t) leaf key r = Some (root_of res, s') \<and> same s s' \<and>
    kvs t = es1 @ (key, r) # es2 \<and>
    (case res of None \<Rightarrow> es1 @ es2 = [] \<and> good s' [] fl | Some t' \<Rightarrow> tree_ok s' t' \<and> kvs t' = es1 @ es2)"
proof -
  obtain a ks rs l fs fl where f: "find_bpt s (ptr_of t) key = Some (rec_ptr (map_of (kvs t) key), NodeP a)"
    and t: "t = plug (Lf a ks rs l) fs" and g: "good s (cells Null t) fl"
    and c: "ctx_shape (order s) 0 fs" and sh: "sub_shape (order s) 0 fs (Lf a ks rs l)"
    and b: "lo_le (hole_lo fs) key" "hi_gt key (hole_hi fs)"
    by (rule tree_leaf [OF ok, where key = key])
  have len: "length rs = length ks"
    using sh by (auto simp: sub_shape_def root_shape_def split: if_splits)
  have "ordered None (plug (Lf a ks rs l) fs) None" using ok by (auto simp: tree_ok_def t)
  from map_of_hole [OF ctx_shape_frames [OF c] this b] m have "map_of (zip ks rs) key = Some r" by (simp add: t)
  from map_of_zip_split [OF this len] obtain kl kr rl rr where ks: "ks = kl @ key # kr" "rs = rl @ r # rr"
    and ln: "length rl = length kl" "length rr = length kr" and kn: "key \<notin> set kl" by blast
  define es1 where "es1 = ctx_before kvs fs @ zip kl rl"
  define es2 where "es2 = zip kr rr @ ctx_after kvs fs"
  have kv: "kvs t = es1 @ (key, r) # es2" using ln by (simp add: t ks kvs_plug es1_def es2_def)
  have "snd ` set (zip kl rl) = set rl" using ln by (metis list.set_map map_snd_zip)
  then have "set rl \<subseteq> snd ` set es1" by (auto simp: es1_def)
  then have rn: "r \<notin> set rl" using di unfolding kv by auto
  have "good s ((a, Cell (par_of fs) True (kl @ key # kr) (rl @ r # rr) (Some l)) # ctx_cells (NodeP a) fs) fl"
    by (rule good_perm [OF g]) (simp add: t ks mset_cells_plug)
  from remove_leaf_good [OF this ln kn rn] obtain s1 where
    s1: "remove_entry_from_node s (NodeP a) key r = Some s1" "same s s1" and
    g1: "good s1 ((a, Cell (par_of fs) True (kl @ kr) (rl @ rr) (Some l)) # ctx_cells (NodeP a) fs) fl" by blast
  let ?t = "Lf a (kl @ kr) (rl @ rr) l" and ?o = "order s"
  have o1: "order s1 = ?o" using s1(2) by (rule same_order)
  have ho: "hole_ok ?o 0 fs ?t" by (rule leaf_remove_hole_ok [OF ok t [unfolded ks] ln c sh [unfolded ks]])
  have rt: "ptr_of t = ptr_of (plug ?t fs)" using addr_plug_cong [of "Lf a ks rs l" ?t fs] by (simp add: t)
  from delete_entry_up [of s ?t key r s1 fs "[]" fl 0 "ptr_of t"] s1(1) g1 ho rt obtain s' fl' where
    s': "delete_entry s (ptr_of t) (NodeP a) key r = Some (root_of (del_up ?o ?t fs), s')" "same s1 s'"
    and g': "good s' (tree_cells (del_up ?o ?t fs)) fl'" unfolding o1 by auto
  have pk: "pass_ok ?o fs ?t (del_up ?o ?t fs)" by (rule del_up_ok [OF good_order [OF g] ho])
  have kv': "ctx_before kvs fs @ kvs ?t @ ctx_after kvs fs = es1 @ es2" using ln by (simp add: es1_def es2_def)
  have sm: "same s s'" using s1(2) s'(2) by (rule same_trans)
  have "case del_up ?o ?t fs of None \<Rightarrow> es1 @ es2 = [] \<and> good s' [] fl'
      | Some t' \<Rightarrow> tree_ok s' t' \<and> kvs t' = es1 @ es2"
    using pk g' same_order [OF sm] unfolding pass_ok_def kv' by (auto simp: tree_ok_def split: option.splits)
  with f m s'(1) sm kv show ?thesis by auto
qed

lemma free_record_good:
  assumes "recs_good s (a # live) rl"
  shows "\<exists>s'. free_record s (RecP a) = Some s' \<and> recs_good s' live (a # rl) \<and>
    (\<forall>b \<in> set live. rec_val s' b = rec_val s b) \<and> (\<forall>root es. tree_rep s' root es = tree_rep s root es)"
proof -
  from assms have "rec_val s a \<noteq> None" by (simp add: recs_good_def)
  then obtain c where c: "recs s a = Some c" by (auto simp: rec_val_def split: option.splits)
  let ?s = "(set_rec s (RecP a) (c\<lparr>contents := NextRec (free_recs s)\<rparr>))\<lparr>free_recs := RecP a\<rparr>"
  have rs: "recs ?s = (recs s)(a \<mapsto> c\<lparr>contents := NextRec (free_recs s)\<rparr>)" by (simp add: set_rec_def)
  have fr: "a \<notin> set live" "a \<notin> set rl" using assms by (auto simp: recs_good_def)
  have v: "\<forall>b \<in> set live. rec_val ?s b = rec_val s b" using fr(1) by (auto intro!: rec_val_cong simp: rs)
  have "rec_chain ?s p rl = rec_chain s p rl" for p using fr(2) by (intro rec_chain_cong) (auto simp: rs)
  then have "rec_chain ?s (RecP a) (a # rl)" using assms by (simp add: recs_good_def rs)
  moreover have "\<forall>b \<in> set live. rec_val ?s b \<noteq> None" using v assms by (simp add: recs_good_def)
  ultimately have "recs_good ?s live (a # rl)"
    using assms unfolding recs_good_def by (auto simp: set_rec_def)
  moreover have "tree_rep ?s root es = tree_rep s root es" for root es
    by (rule tree_rep_cong) (simp_all add: set_rec_def)
  ultimately show ?thesis using v by (simp add: free_record_def c)
qed

lemma map_of_remove:
  assumes "distinct (map fst (es1 @ (key, r) # es2))"
  shows "map_of (es1 @ es2) = (map_of (es1 @ (key, r) # es2))(key := None)"
proof -
  from assms have k: "map_of es1 key = None" "map_of es2 key = None"
    by (auto simp: map_of_eq_None_iff)
  show ?thesis
  proof
    fix x
    show "map_of (es1 @ es2) x = ((map_of (es1 @ (key, r) # es2))(key := None)) x"
      using k by (cases "x = key") (simp_all add: map_add_def split: option.split)
  qed
qed

lemma tree_rep_distinct:
  assumes "tree_rep s root es"
  shows "distinct (map fst es)"
proof (cases "root = Null")
  case False
  with assms obtain t where "ordered None t None" "kvs t = map (map_prod id RecP) es"
    by (auto simp: tree_rep_def tree_ok_def)
  with ordered_kvs(1) [of None t None] have "sorted_wrt (<) (map fst es)" by (simp add: comp_def)
  then show ?thesis by (metis strict_sorted_iff)
qed (use assms in \<open>simp add: tree_rep_def\<close>)

lemma delete_bpt_represents:
  assumes "represents s root m"
  shows "\<exists>root' s'. delete_bpt s root key = Some (root', s') \<and> represents s' root' (m(key := None))"
proof -
  from assms obtain es rl where t: "tree_rep s root es" and r: "recs_good s (map snd es) rl"
    and m: "m = (\<lambda>k. Option.bind (map_of es k) (rec_val s))" by (auto simp: represents_def)
  show ?thesis
  proof (cases "map_of es key")
    case None
    from find_bpt_rep [OF t, of key] None have "delete_bpt s root key = Some (root, s)"
      by (auto simp: delete_bpt_def rec_ptr_def)
    moreover have "m(key := None) = m" using None by (auto simp: m)
    ultimately show ?thesis using assms by auto
  next
    case (Some a)
    then have "root \<noteq> Null" using t by (auto simp: tree_rep_def)
    then obtain tr where tr: "root = ptr_of tr" "tree_ok s tr" "kvs tr = map (map_prod id RecP) es"
      using t by (auto simp: tree_rep_def)
    have di: "distinct (map snd (kvs tr))"
    proof -
      have "map snd (kvs tr) = map RecP (map snd es)" by (simp add: tr(3))
      moreover have "distinct (map snd es)" using r by (simp add: recs_good_def)
      ultimately show ?thesis by (simp only: distinct_map [of RecP]) (simp add: inj_on_def)
    qed
    have mo: "map_of (kvs tr) key = Some (RecP a)" using Some by (simp add: tr(3) map_of_RecP)
    from delete_entry_tree [OF tr(2) mo di] obtain leaf res s1 ks1 ks2 fl where
      f: "find_bpt s root key = Some (RecP a, leaf)" "leaf \<noteq> Null"
      and d: "delete_entry s root leaf key (RecP a) = Some (root_of res, s1)" and sm: "same s s1"
      and kv: "kvs tr = ks1 @ (key, RecP a) # ks2"
      and res: "case res of None \<Rightarrow> ks1 @ ks2 = [] \<and> good s1 [] fl | Some t' \<Rightarrow> tree_ok s1 t' \<and> kvs t' = ks1 @ ks2"
      unfolding tr(1) rec_ptr_def option.case by blast
    from kv tr(3) obtain es1 es2 where es: "es = es1 @ (key, a) # es2"
      "ks1 = map (map_prod id RecP) es1" "ks2 = map (map_prod id RecP) es2"
      by (auto simp: map_eq_append_conv map_eq_Cons_conv)
    have t1: "tree_rep s1 (root_of res) (es1 @ es2)"
      using res es(2,3) by (auto simp: tree_rep_def split: option.splits)
    have "recs_good s (a # map snd (es1 @ es2)) rl"
      by (rule recs_good_perm [OF r]) (simp add: es(1))
    then have "recs_good s1 (a # map snd (es1 @ es2)) rl" by (simp only: recs_good_same [OF sm])
    from free_record_good [OF this] obtain s2 where s2: "free_record s1 (RecP a) = Some s2"
      "recs_good s2 (map snd (es1 @ es2)) (a # rl)"
      and v: "\<forall>b \<in> set (map snd (es1 @ es2)). rec_val s2 b = rec_val s1 b"
      and t2: "tree_rep s2 (root_of res) (es1 @ es2)" using t1 by blast
    have "delete_bpt s root key = Some (root_of res, s2)"
      using f d s2(1) by (simp add: delete_bpt_def)
    moreover have "m(key := None) = (\<lambda>k. Option.bind (map_of (es1 @ es2) k) (rec_val s2))"
    proof
      fix x
      have vv: "rec_val s2 b = rec_val s b" if "map_of (es1 @ es2) x = Some b" for b
      proof -
        have "b \<in> set (map snd (es1 @ es2))" using map_of_SomeD [OF that] by force
        then have "rec_val s2 b = rec_val s1 b" using v by blast
        also have "\<dots> = rec_val s b" using sm by (intro rec_val_cong) (simp add: same_def)
        finally show ?thesis .
      qed
      have "map_of (es1 @ es2) = (map_of es)(key := None)"
        unfolding es(1) by (rule map_of_remove) (use tree_rep_distinct [OF t] es(1) in simp)
      then show "(m(key := None)) x = Option.bind (map_of (es1 @ es2) x) (rec_val s2)"
        using vv by (cases "map_of (es1 @ es2) x") (auto simp: m split: if_splits)
    qed
    ultimately show ?thesis using t2 s2(2) unfolding represents_def by blast
  qed
qed

section \<open>Property\<close>

text \<open>
  C7.  On every well-formed tree \<open>delete\<close> returns, and the tree it returns is well-formed
  again and stands for the old map without the key: entries are removed from the leaf,
  underfull nodes are merged with or refilled from a sibling up to the root, merged nodes go
  to the node free list and the record of the key to the record free list.
\<close>

theorem delete_bpt_removes:
  assumes "represents s root m"
  shows "\<exists>root' s'. delete_bpt s root key = Some (root', s') \<and> represents s' root' (m(key := None))"
  using delete_bpt_represents [OF assms] .

theorem delete_bpt_removes_witness:
  "\<exists>root' s'. delete_bpt (bpt_start 4 (\<lambda>_. True)) Null 5 = Some (root', s') \<and>
     represents s' root' ((\<lambda>_. None)(5 := None))"
  by (rule delete_bpt_removes, rule represents_start) simp_all

end
