(* ===== verification/Map_Interface.thy ===== *)
theory Map_Interface
  imports Bench_Prelude
begin

text \<open>
  The contract between a store of key/value pairs and its clients.  \<open>rep s m\<close> relates a
  concrete state to the map it stands for; the operations may fail, and the laws say that
  they do not as long as the state stands for a map.  The clients' facts are proved here
  once, for every store that meets the laws.
\<close>

fun ins_all :: "('s \<Rightarrow> 'k \<Rightarrow> 'v \<Rightarrow> 's option) \<Rightarrow> ('k \<times> 'v) list \<Rightarrow> 's \<Rightarrow> 's option" where
  "ins_all ins [] s = Some s"
| "ins_all ins ((k, v) # kvs) s = do { s \<leftarrow> ins s k v; ins_all ins kvs s }"

lemma ins_all_append:
  "ins_all ins (xs @ ys) s = do { s \<leftarrow> ins_all ins xs s; ins_all ins ys s }"
  by (induction xs arbitrary: s) (auto split: bind_splits)

locale map_store =
  fixes rep :: "'s \<Rightarrow> ('k \<Rightarrow> 'v option) \<Rightarrow> bool"
    and ins :: "'s \<Rightarrow> 'k \<Rightarrow> 'v \<Rightarrow> 's option"
    and look :: "'s \<Rightarrow> 'k \<Rightarrow> 'v option option"
  assumes rep_ins: "rep s m \<Longrightarrow> \<exists>s'. ins s k v = Some s' \<and> rep s' (m(k \<mapsto> v))"
    and rep_look: "rep s m \<Longrightarrow> look s k = Some (m k)"
begin

lemma rep_ins_all:
  "rep s m \<Longrightarrow> \<exists>s'. ins_all ins kvs s = Some s' \<and> rep s' (m ++ map_of (rev kvs))"
proof (induction kvs arbitrary: s m)
  case (Cons kv kvs)
  obtain k v where kv: "kv = (k, v)" by fastforce
  obtain s1 where s1: "ins s k v = Some s1" "rep s1 (m(k \<mapsto> v))" using rep_ins [OF Cons.prems] by blast
  have "m(k \<mapsto> v) ++ map_of (rev kvs) = m ++ map_of (rev (kv # kvs))"
    by (simp add: kv map_add_def fun_eq_iff split: option.split)
  with Cons.IH [OF s1(2)] show ?case by (simp only: kv ins_all.simps s1(1) Option.bind.simps)
qed simp

lemma look_ins_all:
  assumes "rep s m" and "ins_all ins kvs s = Some s'"
  shows "look s' k = Some ((m ++ map_of (rev kvs)) k)"
  using rep_ins_all [OF assms(1), of kvs] assms(2) rep_look [of s'] by auto

lemma rep_unique: "rep s m \<Longrightarrow> rep s m' \<Longrightarrow> m = m'"
  by (intro ext) (metis rep_look option.inject)

end

section \<open>Stores with deletion\<close>

datatype ('k, 'v) map_op = Ins 'k 'v | Del 'k | Look 'k

text \<open>The reference run of a sequence of operations, over maps.\<close>

fun run_spec :: "('k, 'v) map_op list \<Rightarrow> ('k \<Rightarrow> 'v option) \<Rightarrow> 'v option list \<times> ('k \<Rightarrow> 'v option)" where
  "run_spec [] m = ([], m)"
| "run_spec (Ins k v # ops) m = run_spec ops (m(k \<mapsto> v))"
| "run_spec (Del k # ops) m = run_spec ops (m(k := None))"
| "run_spec (Look k # ops) m = (let (rs, m') = run_spec ops m in (m k # rs, m'))"

fun run_ops :: "('s \<Rightarrow> 'k \<Rightarrow> 'v \<Rightarrow> 's option) \<Rightarrow> ('s \<Rightarrow> 'k \<Rightarrow> 's option) \<Rightarrow> ('s \<Rightarrow> 'k \<Rightarrow> 'v option option) \<Rightarrow>
    ('k, 'v) map_op list \<Rightarrow> 's \<Rightarrow> ('v option list \<times> 's) option" where
  "run_ops ins del look [] s = Some ([], s)"
| "run_ops ins del look (Ins k v # ops) s = do { s \<leftarrow> ins s k v; run_ops ins del look ops s }"
| "run_ops ins del look (Del k # ops) s = do { s \<leftarrow> del s k; run_ops ins del look ops s }"
| "run_ops ins del look (Look k # ops) s = do {
     r \<leftarrow> look s k;
     (rs, s) \<leftarrow> run_ops ins del look ops s;
     Some (r # rs, s) }"

locale map_store_del = map_store +
  fixes del :: "'a \<Rightarrow> 'b \<Rightarrow> 'a option"
  assumes rep_del: "rep s m \<Longrightarrow> \<exists>s'. del s k = Some s' \<and> rep s' (m(k := None))"
begin

lemma run_ops_refines:
  "rep s m \<Longrightarrow> \<exists>s'. run_ops ins del look ops s = Some (fst (run_spec ops m), s') \<and>
     rep s' (snd (run_spec ops m))"
proof (induction ops arbitrary: s m)
  case (Cons op ops)
  show ?case
  proof (cases op)
    case (Ins k v)
    obtain s1 where "ins s k v = Some s1" "rep s1 (m(k \<mapsto> v))" using rep_ins [OF Cons.prems] by blast
    with Cons.IH [of s1] show ?thesis by (simp add: Ins)
  next
    case (Del k)
    obtain s1 where "del s k = Some s1" "rep s1 (m(k := None))" using rep_del [OF Cons.prems] by blast
    with Cons.IH [of s1] show ?thesis by (simp add: Del)
  next
    case (Look k)
    with Cons.IH [OF Cons.prems] rep_look [OF Cons.prems, of k] show ?thesis
      by (auto simp: split_beta)
  qed
qed simp

end

end
