(* ===== verification/Rand48.thy ===== *)
theory Rand48
  imports Bench_Prelude
begin

text \<open>
  The 48-bit linear congruential generator of the B+ tree benchmark
  (\<open>redisLrand48\<close>, \<open>redisSrand48\<close> and \<open>next\<close> in \<open>btree.c\<close>): the state is kept in
  three 16-bit limbs and the product is formed limb by limb with explicit carries.
  The theory shows that the limb arithmetic is one step of
  \<open>x \<mapsto> (a * x + c) mod 2 ^ 48\<close>.
\<close>

section \<open>The macros and the state\<close>

text \<open>\<open>LOW\<close> casts to \<open>unsigned\<close> and masks; \<open>HIGH\<close> shifts its argument right first.\<close>

definition LOW32 :: "u32 \<Rightarrow> u64" where
  "LOW32 l = ucast (l AND 65535)"

definition LOW :: "u64 \<Rightarrow> u64" where
  "LOW v = LOW32 (ucast v)"

definition HIGH32 :: "u32 \<Rightarrow> u64" where
  "HIGH32 l = LOW32 (signed_drop_bit 16 l)"

text \<open>\<open>MUL\<close> stores the product in an \<open>int32_t\<close> before it is cut into two limbs.\<close>

definition MUL :: "u64 \<Rightarrow> u64 \<Rightarrow> u64 \<times> u64" where
  "MUL u v = (let l = (ucast (u * v) :: u32) in (LOW32 l, HIGH32 l))"

definition CARRY :: "u64 \<Rightarrow> u64 \<Rightarrow> u64" where
  "CARRY u v = (if 65535 <s (scast (ucast u :: u32) :: u64) + v then 1 else 0)"

text \<open>\<open>ADDEQU(x, y, z)\<close> yields the new \<open>x\<close> and the carry \<open>z\<close>.\<close>

definition ADDEQU :: "u64 \<Rightarrow> u64 \<Rightarrow> u64 \<times> u64" where
  "ADDEQU u v = (LOW (u + v), CARRY u v)"

record rand48 =
  x0 :: u64
  x1 :: u64
  x2 :: u64
  a0 :: u64
  a1 :: u64
  a2 :: u64
  c0 :: u64

definition rand48_init :: rand48 where
  "rand48_init = \<lparr>x0 = 0x330E, x1 = 0xABCD, x2 = 0x1234,
     a0 = 0xE66D, a1 = 0xDEEC, a2 = 0x5, c0 = 0xB\<rparr>"

definition redisSrand48 :: "u32 \<Rightarrow> rand48 \<Rightarrow> rand48" where
  "redisSrand48 seedval g = \<lparr>x0 = 0x330E, x1 = LOW32 seedval, x2 = HIGH32 seedval,
     a0 = 0xE66D, a1 = 0xDEEC, a2 = 0x5, c0 = 0xB\<rparr>"

definition next48 :: "rand48 \<Rightarrow> rand48" where
  "next48 g =
    (let (p0, p1) = MUL (a0 g) (x0 g);
         (p0, carry0) = ADDEQU p0 (c0 g);
         (p1, carry1) = ADDEQU p1 carry0;
         (q0, q1) = MUL (a0 g) (x1 g);
         (p1, carry0) = ADDEQU p1 q0;
         (r0, r1) = MUL (a1 g) (x0 g);
         x2' = LOW (carry0 + carry1 + CARRY p1 r0 + q1 + r1 +
                 a0 g * x2 g + a1 g * x1 g + a2 g * x0 g)
     in g\<lparr>x2 := x2', x1 := LOW (p1 + r0), x0 := LOW p0\<rparr>)"

definition redisLrand48 :: "rand48 \<Rightarrow> u64 \<times> rand48" where
  "redisLrand48 g =
    (let g' = next48 g in (push_bit 15 (x2 g') + drop_bit 1 (x1 g'), g'))"

section \<open>The state as one 48-bit number\<close>

definition limbs_ok :: "rand48 \<Rightarrow> bool" where
  "limbs_ok g \<longleftrightarrow> unat (x0 g) < 65536 \<and> unat (x1 g) < 65536 \<and> unat (x2 g) < 65536 \<and>
     a0 g = 0xE66D \<and> a1 g = 0xDEEC \<and> a2 g = 0x5 \<and> c0 g = 0xB"

definition seed48 :: "rand48 \<Rightarrow> nat" where
  "seed48 g = unat (x0 g) + 65536 * unat (x1 g) + 4294967296 * unat (x2 g)"

text \<open>The reference: one step of the generator over the natural numbers.\<close>

definition lcg48 :: "nat \<Rightarrow> nat" where
  "lcg48 s = (25214903917 * s + 11) mod 281474976710656"

lemma unat_ucast_up [word_nat_simps]: "unat (ucast (l :: u32) :: u64) = unat l"
proof -
  have "unat l < 4294967296" using unsigned_less [of l] by simp
  then show ?thesis by (simp add: unsigned_ucast_eq take_bit_eq_mod)
qed

lemma unat_LOW32 [word_nat_simps]: "unat (LOW32 l) = unat l mod 65536"
  by (simp add: LOW32_def unat_ucast_up unat_and_mask16)

lemma unat_LOW [word_nat_simps]: "unat (LOW v) = unat v mod 65536"
proof -
  have "unat (LOW v) = unat v mod 4294967296 mod 65536"
    by (simp add: LOW_def unat_LOW32 unsigned_ucast_eq take_bit_eq_mod)
  then show ?thesis by (simp add: mod_mod_cancel)
qed

lemma unat_HIGH32 [word_nat_simps]: "unat (HIGH32 l) = unat l div 65536"
proof -
  have "signed_drop_bit 16 l AND 65535 = drop_bit 16 l"
  proof (rule bit_word_eqI)
    fix n :: nat
    assume n: "n < LENGTH(32)"
    have m: "(65535 :: u32) = mask 16" by (simp add: mask_eq_exp_minus_1)
    show "bit (signed_drop_bit 16 l AND 65535) n = bit (drop_bit 16 l) n"
      using n by (auto simp: m bit_simps dest: bit_imp_le_length)
  qed
  then have "HIGH32 l = ucast (drop_bit 16 l)"
    by (simp add: HIGH32_def LOW32_def)
  then show ?thesis
    by (simp add: unat_ucast_up drop_bit_eq_div unat_div)
qed

lemma unat_MUL:
  assumes "unat u < 65536" and "unat v < 65536"
  shows "unat (fst (MUL u v)) = unat u * unat v mod 65536"
    and "unat (snd (MUL u v)) = unat u * unat v div 65536"
proof -
  have b: "unat u * unat v < 4294967296"
    using mult_strict_mono [OF assms] by simp
  have "unat (ucast (u * v) :: u32) = unat u * unat v"
    using b by (simp add: unsigned_ucast_eq unat_word_ariths take_bit_eq_mod)
  then show "unat (fst (MUL u v)) = unat u * unat v mod 65536"
    and "unat (snd (MUL u v)) = unat u * unat v div 65536"
    by (simp_all add: MUL_def Let_def unat_LOW32 unat_HIGH32)
qed

lemma signed_take_bit_nonneg: "0 \<le> k \<Longrightarrow> k < 2 ^ n \<Longrightarrow> signed_take_bit n k = (k :: int)"
  by (intro signed_take_bit_int_eq_self) (auto intro: order_trans [of _ 0])

lemma unat_CARRY:
  assumes "unat u < 65536" and "unat v < 65536"
  shows "unat (CARRY u v) = (unat u + unat v) div 65536"
proof -
  have u: "uint u < 65536" and v: "uint v < 65536"
    using assms by (subst uint_nat, linarith)+
  have uu: "uint (ucast u :: u32) = uint u"
    unfolding unsigned_ucast_eq using u by (intro take_bit_int_eq_self) auto
  have s1: "sint (ucast u :: u32) = uint u"
    unfolding sint_uint uu using u by (intro signed_take_bit_nonneg) simp_all
  have sx: "sint (scast (ucast u :: u32) :: u64) = uint u"
    unfolding signed_scast_eq s1 using u by (intro signed_take_bit_nonneg) simp_all
  have sv: "sint v = uint v"
    unfolding sint_uint using v by (intro signed_take_bit_nonneg) simp_all
  have "sint ((scast (ucast u :: u32) :: u64) + v) = uint u + uint v"
    unfolding sint_word_ariths sx sv using u v by (intro signed_take_bit_nonneg) simp_all
  then have "CARRY u v = (if 65535 < uint u + uint v then 1 else 0)"
    by (simp add: CARRY_def word_sless_alt)
  moreover have "65535 < uint u + uint v \<longleftrightarrow> 65535 < unat u + unat v"
    by (subst (1 2) uint_nat) linarith
  moreover have "(unat u + unat v) div 65536 = (if 65535 < unat u + unat v then 1 else 0)"
    using assms by (auto simp: div_eq_0_iff intro!: div_nat_eqI)
  ultimately show ?thesis by simp
qed

text \<open>
  The limb arithmetic over the natural numbers: with \<open>c = 11\<close> and 16-bit limbs, the two
  low limbs with their carries and the top limb recompose to the 48-bit product.
\<close>

lemma limb_sum:
  fixes u0 u1 u2 :: nat
  assumes "58989 * u0 = p1 * 65536 + p0" and "58989 * u1 = q1 * 65536 + q0"
    and "57068 * u0 = r1 * 65536 + r0" and "p0 + 11 = e1 * 65536 + e0"
    and "p1 + e1 = f1 * 65536 + f0" and "f0 + q0 = h1 * 65536 + h0"
    and "h0 + r0 = d1 * 65536 + d0"
    and "t = h1 + f1 + d1 + q1 + r1 + 58989 * u2 + 57068 * u1 + 5 * u0"
  shows "25214903917 * (u0 + 65536 * u1 + 4294967296 * u2) + 11 =
    e0 + 65536 * d0 + 4294967296 * t + 281474976710656 * (57068 * u2 + 5 * u1 + 327680 * u2)"
  using assms by algebra

lemma limbs_mod:
  fixes t :: nat
  assumes "a < 65536" and "d < 65536"
  shows "(a + 65536 * d + 4294967296 * t) mod 281474976710656 =
    a + 65536 * d + 4294967296 * (t mod 65536)"
proof -
  let ?m = "a + 65536 * d + 4294967296 * (t mod 65536)"
  have "t mod 65536 < 65536" by simp
  with assms have lt: "?m < 281474976710656" by linarith
  have "4294967296 * t = 4294967296 * (t mod 65536) + 281474976710656 * (t div 65536)"
    using div_mult_mod_eq [of t 65536] by linarith
  then have "a + 65536 * d + 4294967296 * t = ?m + 281474976710656 * (t div 65536)"
    by simp
  then have "(a + 65536 * d + 4294967296 * t) mod 281474976710656 = ?m mod 281474976710656"
    by (simp only: mod_mult_self2)
  with lt show ?thesis by simp
qed

lemma unat_LOW_of_nat: "unat (LOW (of_nat n)) = n mod 65536"
proof -
  have "unat (LOW (of_nat n)) = n mod 2 ^ 64 mod 65536"
    by (simp add: unat_LOW unat_of_nat)
  also have "\<dots> = n mod 65536" by (rule mod_mod_cancel) simp
  finally show ?thesis .
qed

lemma unat_LOW_add: "unat (LOW (u + v)) = (unat u + unat v) mod 65536"
  using unat_LOW_of_nat [of "unat u + unat v"] by simp

lemma MUL_decomp:
  assumes "MUL u v = (l, h)" and "unat u < 65536" and "unat v < 65536"
  shows "unat u * unat v = unat h * 65536 + unat l" and "unat l < 65536" and "unat h < 65536"
proof -
  have l: "unat l = unat u * unat v mod 65536" and h: "unat h = unat u * unat v div 65536"
    using unat_MUL [OF assms(2,3)] assms(1) by simp_all
  then show "unat u * unat v = unat h * 65536 + unat l" and "unat l < 65536" by simp_all
  have "unat u * unat v < 4294967296" using mult_strict_mono [OF assms(2,3)] by simp
  then show "unat h < 65536" by (simp add: h less_mult_imp_div_less)
qed

lemma carry_decomp:
  assumes "unat u < 65536" and "unat v < 65536"
  shows "unat u + unat v = unat (CARRY u v) * 65536 + unat (LOW (u + v))"
  using unat_CARRY [OF assms] by (simp add: unat_LOW_add)

lemma unat_LOW_less: "unat (LOW v) < 65536"
  by (simp add: unat_LOW)

lemma unat_CARRY_less: "unat (CARRY u v) < 65536"
  by (simp add: CARRY_def)

lemma LOW_idem: "LOW (LOW v) = LOW v"
  by (simp add: word_unat_eq_iff unat_LOW)

lemma seed48_next48:
  assumes ok: "limbs_ok g"
  shows "seed48 (next48 g) = lcg48 (seed48 g)"
proof -
  have lt: "unat (x0 g) < 65536" "unat (x1 g) < 65536"
    and a: "a0 g = 58989" "a1 g = 57068" "a2 g = 5" "c0 g = 11"
    using ok by (simp_all add: limbs_ok_def)
  obtain p0 p1 where P: "MUL 58989 (x0 g) = (p0, p1)" by fastforce
  obtain q0 q1 where Q: "MUL 58989 (x1 g) = (q0, q1)" by fastforce
  obtain r0 r1 where R: "MUL 57068 (x0 g) = (r0, r1)" by fastforce
  note p = MUL_decomp [OF P, simplified, OF lt(1)]
    and q = MUL_decomp [OF Q, simplified, OF lt(2)]
    and r = MUL_decomp [OF R, simplified, OF lt(1)]
  define e where "e = CARRY p0 11"
  define y where "y = LOW (p1 + e)"
  define z where "z = LOW (y + q0)"
  define top where "top = CARRY y q0 + CARRY p1 e + CARRY z r0 + q1 + r1 +
      58989 * x2 g + 57068 * x1 g + 5 * x0 g"
  define t where "t = unat (CARRY y q0) + unat (CARRY p1 e) + unat (CARRY z r0) + unat q1 + unat r1
      + 58989 * unat (x2 g) + 57068 * unat (x1 g) + 5 * unat (x0 g)"
  have nx: "next48 g = g\<lparr>x2 := LOW top, x1 := LOW (z + r0), x0 := LOW (p0 + 11)\<rparr>"
    by (simp add: next48_def P Q R ADDEQU_def Let_def y_def z_def a e_def top_def LOW_idem)
  have "top = of_nat t" by (simp add: top_def t_def)
  then have top: "unat (LOW top) = t mod 65536" by (simp only: unat_LOW_of_nat)
  have c1: "unat p0 + 11 = unat e * 65536 + unat (LOW (p0 + 11))"
    using carry_decomp [OF p(2), of 11] by (simp add: e_def)
  have c2: "unat p1 + unat e = unat (CARRY p1 e) * 65536 + unat y"
    unfolding y_def e_def by (rule carry_decomp [OF p(3) unat_CARRY_less])
  have c3: "unat y + unat q0 = unat (CARRY y q0) * 65536 + unat z"
    unfolding z_def by (rule carry_decomp [OF _ q(2)]) (simp add: y_def unat_LOW_less)
  have c4: "unat z + unat r0 = unat (CARRY z r0) * 65536 + unat (LOW (z + r0))"
    by (rule carry_decomp [OF _ r(2)]) (simp add: z_def unat_LOW_less)
  have "seed48 (next48 g) =
      unat (LOW (p0 + 11)) + 65536 * unat (LOW (z + r0)) + 4294967296 * (t mod 65536)"
    by (simp add: nx seed48_def top)
  also have "\<dots> =
      (unat (LOW (p0 + 11)) + 65536 * unat (LOW (z + r0)) + 4294967296 * t) mod 281474976710656"
    by (rule limbs_mod [symmetric]) (rule unat_LOW_less)+
  also have "\<dots> = lcg48 (seed48 g)"
    unfolding lcg48_def seed48_def
    by (simp only: limb_sum [OF p(1) q(1) r(1) c1 c2 c3 c4 t_def] mod_mult_self2)
  finally show ?thesis .
qed

lemma limbs_ok_next48: "limbs_ok g \<Longrightarrow> limbs_ok (next48 g)"
  by (simp add: limbs_ok_def next48_def ADDEQU_def Let_def split_beta unat_LOW_less)

section \<open>The output sequence\<close>

text \<open>The results of \<open>n\<close> successive calls of \<open>redisLrand48\<close>.\<close>

fun lrand48_outputs :: "nat \<Rightarrow> rand48 \<Rightarrow> u64 list" where
  "lrand48_outputs 0 g = []"
| "lrand48_outputs (Suc n) g = (let (v, g') = redisLrand48 g in v # lrand48_outputs n g')"

lemma limbs_ok_redisSrand48: "limbs_ok (redisSrand48 sv g)"
proof -
  have "unat sv < 4294967296" using unsigned_less [of sv, where 'a = nat] by simp
  then have "unat sv div 65536 < 65536" by (intro less_mult_imp_div_less) simp
  then show ?thesis by (simp add: limbs_ok_def redisSrand48_def unat_LOW32 unat_HIGH32)
qed

lemma seed48_redisSrand48: "seed48 (redisSrand48 sv g) = 13070 + 65536 * unat sv"
proof -
  have "65536 * (unat sv mod 65536) + 4294967296 * (unat sv div 65536) = 65536 * unat sv"
    using div_mult_mod_eq [of "unat sv" 65536] by linarith
  then show ?thesis by (simp add: seed48_def redisSrand48_def unat_LOW32 unat_HIGH32)
qed

text \<open>The returned value is the top 31 bits of the 48-bit state.\<close>

lemma limb_top:
  "(u1 :: nat) = d * 2 + m \<Longrightarrow>
   u0 + 65536 * u1 + 4294967296 * u2 = u0 + 65536 * m + 131072 * (32768 * u2 + d)"
  by simp

lemma unat_redisLrand48:
  assumes "limbs_ok g"
  shows "unat (fst (redisLrand48 g)) = lcg48 (seed48 g) div 131072"
proof -
  let ?g = "next48 g"
  have b: "unat (x0 ?g) < 65536" "unat (x1 ?g) < 65536" "unat (x2 ?g) < 65536"
    using limbs_ok_next48 [OF assms] by (simp_all add: limbs_ok_def)
  have "lcg48 (seed48 g) = (unat (x0 ?g) + 65536 * (unat (x1 ?g) mod 2)) +
      131072 * (32768 * unat (x2 ?g) + unat (x1 ?g) div 2)"
    unfolding seed48_next48 [OF assms, symmetric] unfolding seed48_def [of ?g]
    by (rule limb_top [OF div_mult_mod_eq [symmetric]])
  moreover have "unat (x0 ?g) + 65536 * (unat (x1 ?g) mod 2) < 131072"
    using b(1) mod_less_divisor [of 2 "unat (x1 ?g)"] by linarith
  ultimately have "lcg48 (seed48 g) div 131072 = 32768 * unat (x2 ?g) + unat (x1 ?g) div 2"
    by simp
  moreover have "unat (push_bit 15 (x2 ?g) + drop_bit 1 (x1 ?g)) =
      32768 * unat (x2 ?g) + unat (x1 ?g) div 2"
    using b by (simp add: unat_word_ariths push_bit_eq_mult drop_bit_eq_div unat_div)
  ultimately show ?thesis by (simp add: redisLrand48_def Let_def)
qed

lemma snd_redisLrand48 [simp]: "snd (redisLrand48 g) = next48 g"
  by (simp add: redisLrand48_def Let_def)

lemma lrand48_outputs_lcg:
  "limbs_ok g \<Longrightarrow> map unat (lrand48_outputs n g) =
     map (\<lambda>i. (lcg48 ^^ Suc i) (seed48 g) div 131072) [0..<n]"
proof (induction n arbitrary: g)
  case (Suc n)
  have "map unat (lrand48_outputs (Suc n) g) =
      lcg48 (seed48 g) div 131072 # map unat (lrand48_outputs n (next48 g))"
    by (simp add: split_beta unat_redisLrand48 [OF Suc.prems])
  also have "map unat (lrand48_outputs n (next48 g)) =
      map (\<lambda>i. (lcg48 ^^ Suc i) (lcg48 (seed48 g)) div 131072) [0..<n]"
    using Suc.IH [OF limbs_ok_next48 [OF Suc.prems]] by (simp only: seed48_next48 [OF Suc.prems])
  also have "\<dots> = map (\<lambda>i. (lcg48 ^^ Suc i) (seed48 g) div 131072) (map Suc [0..<n])"
    by (simp only: map_map comp_def funpow_Suc_right [of "Suc _"])
  finally show ?case
    by (simp only: map_Suc_upt upt_conv_Cons [OF zero_less_Suc] list.map funpow_0 funpow_Suc_right
        comp_apply)
qed simp

text \<open>
  C16.  However often it is called, the limb-by-limb generator seeded with \<open>sv\<close> returns the
  top 31 bits of the 48-bit congruential sequence that starts at \<open>sv * 2 ^ 16 + 0x330E\<close>.
\<close>

theorem lrand48_is_lcg:
  "map unat (lrand48_outputs n (redisSrand48 sv g)) =
     map (\<lambda>i. (lcg48 ^^ Suc i) (13070 + 65536 * unat sv) div 131072) [0..<n]"
  using lrand48_outputs_lcg [OF limbs_ok_redisSrand48] by (simp add: seed48_redisSrand48)

end
