(* ===== verification/Btree_Driver.thy ===== *)
theory Btree_Driver
  imports Btree_Del_Map Map_Interface Rand48
begin

text \<open>
  The program around the tree: \<open>main\<close> of \<open>btree.c\<close> fills the tree with the keys
  \<open>0 .. NELEMENTS - 1\<close>, alternating from both ends, and then looks up two pseudo-random
  keys per iteration; \<open>btree_throughput\<close> counts the iterations and reports the count from a
  signal handler.  The tree meets the contract of a map store, and the facts about the
  driver rest on that contract.
\<close>

section \<open>The tree as a map store\<close>

type_synonym bpt_state = "ptr \<times> bpt"

definition bpt_rep :: "bpt_state \<Rightarrow> (u64 \<Rightarrow> u64 option) \<Rightarrow> bool" where
  "bpt_rep st m \<longleftrightarrow> represents (snd st) (fst st) m"

definition bpt_ins :: "bpt_state \<Rightarrow> u64 \<Rightarrow> u64 \<Rightarrow> bpt_state option" where
  "bpt_ins st k v = insert_bpt (snd st) (fst st) k v"

definition bpt_look :: "bpt_state \<Rightarrow> u64 \<Rightarrow> u64 option option" where
  "bpt_look st k = lookup_bpt (snd st) (fst st) k"

definition bpt_del :: "bpt_state \<Rightarrow> u64 \<Rightarrow> bpt_state option" where
  "bpt_del st k = delete_bpt (snd st) (fst st) k"

interpretation bpt: map_store_del bpt_rep bpt_ins bpt_look bpt_del
proof
  fix st m k v
  assume "bpt_rep st m"
  then show "\<exists>st'. bpt_ins st k v = Some st' \<and> bpt_rep st' (m(k \<mapsto> v))"
    using insert_bpt_represents [of "snd st" "fst st" m k v] by (auto simp: bpt_rep_def bpt_ins_def)
next
  fix st m k
  assume "bpt_rep st m"
  then show "bpt_look st k = Some (m k)"
    by (simp add: bpt_rep_def bpt_look_def lookup_bpt_represents)
next
  fix st m k
  assume "bpt_rep st m"
  then show "\<exists>st'. bpt_del st k = Some st' \<and> bpt_rep st' (m(k := None))"
    using delete_bpt_represents [of "snd st" "fst st" m k] by (auto simp: bpt_rep_def bpt_del_def)
qed

section \<open>main\<close>

definition sizeof_element :: nat where
  "sizeof_element = 16"

text \<open>\<open>&elms[j]\<close>.\<close>

definition element_addr :: "u64 \<Rightarrow> nat \<Rightarrow> u64" where
  "element_addr elms j = elms + of_nat (sizeof_element * j)"

function build_loop :: "nat \<Rightarrow> u64 \<Rightarrow> u64 \<Rightarrow> nat \<Rightarrow> bpt_state \<Rightarrow> bpt_state option" where
  "build_loop n elms elms2 i st =
    (if i < n then do {
       st \<leftarrow> bpt_ins st (of_nat i) (element_addr elms (i div 2));
       st \<leftarrow> bpt_ins st (of_nat (n - i - 1)) (element_addr elms2 (i div 2));
       build_loop n elms elms2 (i + 2) st }
     else Some st)"
  by pat_completeness auto
termination
  by (relation "measure (\<lambda>(n, e, e2, i, st). n - i)") auto

declare build_loop.simps [simp del]

text \<open>
  One lookup: \<open>payload a\<close> is what a read of \<open>e->payload\<close> at address \<open>a\<close> gives, \<open>None\<close> when
  no element lives there.
\<close>

definition lookup_add :: "(u64 \<Rightarrow> u64 option) \<Rightarrow> bpt_state \<Rightarrow> u64 \<Rightarrow> u64 \<Rightarrow> u64 option" where
  "lookup_add payload st key acc = do {
     (r, _) \<leftarrow> find_bpt (snd st) (fst st) key;
     if r = Null then Some acc
     else do {
       c \<leftarrow> rec_at (snd st) r;
       (case contents c of
          NextRec _ \<Rightarrow> None
        | Value e \<Rightarrow> if e = 0 then Some acc else do { p \<leftarrow> payload e; Some (acc + p) }) } }"

fun lookup_loop :: "nat \<Rightarrow> u64 \<Rightarrow> (u64 \<Rightarrow> u64 option) \<Rightarrow> bpt_state \<Rightarrow> rand48 \<times> u64 \<Rightarrow>
    (rand48 \<times> u64) option" where
  "lookup_loop 0 nelements payload st (g, acc) = Some (g, acc)"
| "lookup_loop (Suc n) nelements payload st (g, acc) = do {
     let (rdn, g) = redisLrand48 g;
     acc \<leftarrow> lookup_add payload st (rdn mod nelements) acc;
     acc \<leftarrow> lookup_add payload st (push_bit 2 (rdn + 1) mod nelements) acc;
     lookup_loop n nelements payload st (g, acc) }"

text \<open>
  \<open>main\<close> up to the end of the build loop.  The two arrays of elements are at \<open>elms\<close> and \<open>elms2\<close>, where
  \<open>posix_memalign\<close> puts them; the size of both is \<open>main_bytes\<close>.
\<close>

definition main_bytes :: "nat \<Rightarrow> nat" where
  "main_bytes nelements = nelements div 2 * sizeof_element"

definition main_tree :: "nat \<Rightarrow> u64 \<Rightarrow> u64 \<Rightarrow> (nat \<Rightarrow> bool) \<Rightarrow> bpt_state option" where
  "main_tree nelements elms elms2 ok = do {
     let s = (bpt_start 4 ok)\<lparr>order := 16\<rparr>;
     s \<leftarrow> allocate s (of_nat (main_bytes nelements));
     s \<leftarrow> allocate s (of_nat (main_bytes nelements));
     build_loop nelements elms elms2 0 (Null, s) }"

text \<open>
  The rest of \<open>main\<close>: its exit status and the sum it prints, if it prints one.  \<open>ready\<close> and \<open>done_ok\<close> say
  whether \<open>fopen\<close> can create the two files that signal the phases.
\<close>

definition main_lookups :: "nat \<Rightarrow> nat \<Rightarrow> (u64 \<Rightarrow> u64 option) \<Rightarrow> bpt_state \<Rightarrow> rand48 \<Rightarrow> bool \<Rightarrow> bool \<Rightarrow>
    (int \<times> u64 option) option" where
  "main_lookups nelements nlookup payload st g ready done_ok =
    (if \<not> ready then Some (- 1, None)
     else do {
       (g, acc) \<leftarrow> lookup_loop nlookup (of_nat nelements) payload st (g, 0);
       Some (if done_ok then 0 else - 1, Some acc) })"

text \<open>
  The \<open>memset\<close> of \<open>allocate\<close>, on a memory that is read in words of 8 bytes: a word inside the zeroed
  bytes is 0.
\<close>

definition memset0 :: "u64 \<Rightarrow> nat \<Rightarrow> (u64 \<Rightarrow> u64 option) \<Rightarrow> u64 \<Rightarrow> u64 option" where
  "memset0 p len mem = (\<lambda>a. if unat (a - p) + 8 \<le> len then Some 0 else mem a)"

text \<open>The elements are not written between their allocation and the lookups.\<close>

definition main_bpt :: "nat \<Rightarrow> nat \<Rightarrow> u64 \<Rightarrow> u64 \<Rightarrow> (u64 \<Rightarrow> u64 option) \<Rightarrow> (nat \<Rightarrow> bool) \<Rightarrow> bool \<Rightarrow> bool \<Rightarrow>
    (int \<times> u64 option) option" where
  "main_bpt nelements nlookup elms elms2 mem ok ready done_ok = do {
     let g = redisSrand48 0xcafebabe rand48_init;
     st \<leftarrow> main_tree nelements elms elms2 ok;
     let mem = memset0 elms2 (main_bytes nelements) (memset0 elms (main_bytes nelements) mem);
     main_lookups nelements nlookup mem st g ready done_ok }"

section \<open>What the build loop leaves in the tree\<close>

definition build_map :: "nat \<Rightarrow> u64 \<Rightarrow> u64 \<Rightarrow> nat \<Rightarrow> u64 \<Rightarrow> u64 option" where
  "build_map n elms elms2 i k =
    (if unat k < n then
       if even (unat k) then
         if unat k < i then Some (element_addr elms (unat k div 2)) else None
       else if n - 1 - unat k < i then Some (element_addr elms2 ((n - 1 - unat k) div 2)) else None
     else None)"

lemma of_nat_eq_iff_unat: "n < 2 ^ 64 \<Longrightarrow> (k :: u64) = of_nat n \<longleftrightarrow> unat k = n"
  by (auto simp: unat_of_nat take_bit_eq_mod)

lemma even_less_add2: "even (a :: nat) \<Longrightarrow> even b \<Longrightarrow> a < b + 2 \<longleftrightarrow> a < b \<or> a = b"
  by presburger

lemma build_map_step:
  assumes "even n" "even i" "i < n" "n < 2 ^ 64"
  shows "(build_map n elms elms2 i)(of_nat i \<mapsto> element_addr elms (i div 2),
      of_nat (n - i - 1) \<mapsto> element_addr elms2 (i div 2)) = build_map n elms elms2 (i + 2)"
proof
  fix k :: u64
  have k1: "k = of_nat i \<longleftrightarrow> unat k = i" and k2: "k = of_nat (n - i - 1) \<longleftrightarrow> unat k = n - i - 1"
    using assms by (simp_all only: of_nat_eq_iff_unat)
  have odd: "odd (n - i - 1)" using assms by simp
  show "((build_map n elms elms2 i)(of_nat i \<mapsto> element_addr elms (i div 2),
      of_nat (n - i - 1) \<mapsto> element_addr elms2 (i div 2))) k = build_map n elms elms2 (i + 2) k"
  proof (cases "even (unat k)")
    case True
    have "unat k < i + 2 \<longleftrightarrow> unat k < i \<or> unat k = i" by (rule even_less_add2 [OF True assms(2)])
    moreover have "k \<noteq> of_nat (n - i - 1)" using True odd unfolding k2 by metis
    ultimately show ?thesis
      using True assms(3) k1 unfolding build_map_def fun_upd_apply by auto
  next
    case False
    show ?thesis
    proof (cases "unat k < n")
      case lt: True
      have "even (n - 1 - unat k)" using False lt assms(1) by simp
      then have "n - 1 - unat k < i + 2 \<longleftrightarrow> n - 1 - unat k < i \<or> n - 1 - unat k = i"
        by (rule even_less_add2 [OF _ assms(2)])
      moreover have "k = of_nat (n - i - 1) \<longleftrightarrow> n - 1 - unat k = i"
        unfolding k2 using lt assms(3) by arith
      moreover have "k \<noteq> of_nat i" using False assms(2) unfolding k1 by metis
      ultimately show ?thesis
        using False lt unfolding build_map_def fun_upd_apply by auto
    next
      case ge: False
      then have "k \<noteq> of_nat i" "k \<noteq> of_nat (n - i - 1)" unfolding k1 k2 using assms(3) by auto
      with ge show ?thesis unfolding build_map_def fun_upd_apply by simp
    qed
  qed
qed

lemma build_loop_rep:
  assumes "even n" "n < 2 ^ 64" and "even i" and "bpt_rep st (build_map n elms elms2 i)"
  shows "\<exists>st'. build_loop n elms elms2 i st = Some st' \<and> bpt_rep st' (build_map n elms elms2 n)"
  using assms
proof (induction n elms elms2 i st rule: build_loop.induct)
  case (1 n elms elms2 i st)
  show ?case
  proof (cases "i < n")
    case True
    obtain st1 where st1: "bpt_ins st (of_nat i) (element_addr elms (i div 2)) = Some st1"
      "bpt_rep st1 ((build_map n elms elms2 i)(of_nat i \<mapsto> element_addr elms (i div 2)))"
      using bpt.rep_ins [OF "1.prems"(4)] by blast
    obtain st2 where st2: "bpt_ins st1 (of_nat (n - i - 1)) (element_addr elms2 (i div 2)) = Some st2"
      "bpt_rep st2 (build_map n elms elms2 (i + 2))"
      using bpt.rep_ins [OF st1(2), of "of_nat (n - i - 1)"]
        build_map_step [OF "1.prems"(1,3) True "1.prems"(2)] by metis
    from "1.IH" [OF True, of st1 st2] st2(2) "1.prems" show ?thesis
      by (subst build_loop.simps) (simp only: True st1(1) st2(1) Option.bind.simps if_True, simp)
  next
    case False
    have "build_map n elms elms2 i = build_map n elms elms2 n"
      using False by (auto simp: build_map_def fun_eq_iff)
    with False "1.prems"(4) show ?thesis by (simp add: build_loop.simps)
  qed
qed

lemma build_map_start: "build_map n elms elms2 0 = (\<lambda>_. None)"
  by (simp add: build_map_def fun_eq_iff)

lemma build_map_full:
  assumes "unat k < n"
  shows "build_map n elms elms2 n k = Some (if even (unat k) then element_addr elms (unat k div 2)
    else element_addr elms2 ((n - 1 - unat k) div 2))"
  using assms by (simp add: build_map_def)

section \<open>The lookups\<close>

lemma lookup_add_rep:
  assumes "bpt_rep st m"
  shows "lookup_add payload st key acc = (case m key of None \<Rightarrow> Some acc
    | Some e \<Rightarrow> if e = 0 then Some acc else map_option (\<lambda>p. acc + p) (payload e))"
proof -
  have l: "lookup_bpt (snd st) (fst st) key = Some (m key)"
    using bpt.rep_look [OF assms] by (simp add: bpt_look_def)
  then obtain r leaf where f: "find_bpt (snd st) (fst st) key = Some (r, leaf)"
    by (auto simp: lookup_bpt_def bind_eq_Some_conv)
  show ?thesis
  proof (cases "r = Null")
    case True
    with l show ?thesis by (simp add: lookup_bpt_def lookup_add_def f flip: None_eq_map_option_iff)
  next
    case False
    with l obtain c v where "rec_at (snd st) r = Some c" "contents c = Value v" "m key = Some v"
      by (cases "rec_at (snd st) r") (auto simp: lookup_bpt_def f split: rec_union.splits)
    with False show ?thesis
      by (cases "payload v") (simp_all add: lookup_add_def f)
  qed
qed

lemma lookup_add_value:
  assumes "bpt_rep st m" and "m key = Some e" and "payload e = Some v" and "e \<noteq> 0 \<or> v = 0"
  shows "lookup_add payload st key acc = Some (acc + v)"
  using assms by (auto simp: lookup_add_rep [OF assms(1)])

text \<open>The \<open>i\<close>-th random number of the program, and the two keys that it looks up.\<close>

definition main_random :: "nat \<Rightarrow> nat \<Rightarrow> nat" where
  "main_random sd i = (lcg48 ^^ Suc i) sd div 131072"

lemma main_random_Suc: "main_random sd (Suc i) = main_random (lcg48 sd) i"
  by (simp only: main_random_def funpow_Suc_right comp_apply)

lemma lookup_keys:
  assumes "limbs_ok g" and "0 < n" and "n < 2 ^ 64" and r: "fst (redisLrand48 g) = r"
  shows "unat (r mod of_nat n) = main_random (seed48 g) 0 mod n"
    and "unat (push_bit 2 (r + 1) mod of_nat n :: u64) = 4 * (main_random (seed48 g) 0 + 1) mod n"
proof -
  have u: "unat r = main_random (seed48 g) 0"
    using unat_redisLrand48 [OF assms(1)] by (simp add: r main_random_def)
  have "lcg48 (seed48 g) < 281474976710656" by (simp add: lcg48_def)
  then have "unat r < 2147483648" by (simp add: u main_random_def less_mult_imp_div_less)
  then have "unat (push_bit 2 (r + 1)) = 4 * (unat r + 1)"
    by (simp add: push_bit_eq_mult unat_word_ariths)
  then show "unat (r mod of_nat n) = main_random (seed48 g) 0 mod n"
    and "unat (push_bit 2 (r + 1) mod of_nat n :: u64) = 4 * (main_random (seed48 g) 0 + 1) mod n"
    using assms(3) by (simp_all add: unat_mod u unat_of_nat take_bit_eq_mod)
qed

lemma lookup_loop_sum:
  assumes rep: "bpt_rep st m" and n: "0 < n" "n < 2 ^ 64" and "limbs_ok g"
    and vals: "\<And>k. unat k < n \<Longrightarrow> \<exists>e. m k = Some e \<and> payload e = Some (pv (unat k)) \<and> (e \<noteq> 0 \<or> pv (unat k) = 0)"
  shows "\<exists>g'. lookup_loop c (of_nat n) payload st (g, acc) = Some (g', acc + (\<Sum>i<c.
    pv (main_random (seed48 g) i mod n) + pv (4 * (main_random (seed48 g) i + 1) mod n)))"
  using assms(4)
proof (induction c arbitrary: g acc)
  case (Suc c)
  obtain r where r: "redisLrand48 g = (r, next48 g)" by (metis prod.collapse snd_redisLrand48)
  note keys = lookup_keys [OF Suc.prems n, of r]
  have add: "lookup_add payload st k acc = Some (acc + pv (unat k))" if "unat k < n" for k acc
    using vals [OF that] lookup_add_value [OF rep] by blast
  have "main_random (seed48 g) 0 mod n < n" "4 * (main_random (seed48 g) 0 + 1) mod n < n" using n(1) by simp_all
  then have a: "lookup_add payload st (r mod of_nat n) x = Some (x + pv (main_random (seed48 g) 0 mod n))"
    "lookup_add payload st (push_bit 2 (r + 1) mod of_nat n) x =
      Some (x + pv (4 * (main_random (seed48 g) 0 + 1) mod n))" for x
    using add keys r by simp_all
  define v where "v = pv (main_random (seed48 g) 0 mod n) + pv (4 * (main_random (seed48 g) 0 + 1) mod n)"
  have "lookup_loop (Suc c) (of_nat n) payload st (g, acc) = lookup_loop c (of_nat n) payload st (next48 g, acc + v)"
    by (simp add: r a v_def add.assoc)
  moreover have "(\<Sum>i<Suc c. pv (main_random (seed48 g) i mod n) + pv (4 * (main_random (seed48 g) i + 1) mod n)) =
      v + (\<Sum>i<c. pv (main_random (seed48 (next48 g)) i mod n) + pv (4 * (main_random (seed48 (next48 g)) i + 1) mod n))"
    unfolding v_def seed48_next48 [OF Suc.prems] main_random_Suc [symmetric] by (rule sum.lessThan_Suc_shift)
  ultimately show ?case
    using Suc.IH [OF limbs_ok_next48 [OF Suc.prems], of "acc + v"] by (simp only: add.assoc)
qed simp

lemma bpt_rep_main_start:
  assumes "\<forall>i. ok i"
  shows "\<exists>s. (do { s \<leftarrow> allocate ((bpt_start 4 ok)\<lparr>order := 16\<rparr>) n; allocate s n }) = Some s \<and>
    bpt_rep (Null, s) (\<lambda>_. None)"
proof -
  let ?b = "bpt_start 16 ok"
  let ?s = "?b\<lparr>allocator_stat := n + n, n_alloc := 2\<rparr>"
  have "(do { s \<leftarrow> allocate ((bpt_start 4 ok)\<lparr>order := 16\<rparr>) n; allocate s n }) = Some ?s"
    using assms by (simp add: allocate_def bpt_start_def numeral_2_eq_2)
  moreover have "represents ?s Null (\<lambda>_. None)"
  proof -
    have "represents ?b Null (\<lambda>_. None)" using assms by (intro represents_start) simp_all
    then have "good ?b [] [] \<and> recs_good ?b [] []"
      by (auto simp: represents_def tree_rep_def good_def recs_good_def bpt_start_def)
    then have "good ?s [] [] \<and> recs_good ?s [] []"
      by (simp add: good_def recs_good_def bpt_start_def)
    then show ?thesis by (auto simp: represents_def tree_rep_def intro!: exI [of _ "[]"])
  qed
  ultimately show ?thesis by (auto simp: bpt_rep_def)
qed

section \<open>Counting in \<open>btree_throughput\<close>\<close>

text \<open>
  \<open>processed\<close> and \<open>time_total\<close> are \<open>unsigned long\<close>; every run of the handler appends one
  line to the report.
\<close>

record throughput =
  processed :: u64
  time_total :: u64
  reported :: "(u64 \<times> u64) list"

definition throughput_init :: throughput where
  "throughput_init = \<lparr>processed = 0, time_total = 0, reported = []\<rparr>"

definition sig_handler :: "throughput \<Rightarrow> throughput" where
  "sig_handler t = t\<lparr>time_total := time_total t + 1,
     reported := reported t @ [(time_total t + 1, processed t)], processed := 0\<rparr>"

definition count_lookup :: "throughput \<Rightarrow> throughput" where
  "count_lookup t = t\<lparr>processed := processed t + 1\<rparr>"

text \<open>
  An iteration of the lookup loop ends with \<open>processed++\<close>; the alarm may strike between
  any two iterations.  The index counts the iterations.
\<close>

inductive throughput_run :: "nat \<Rightarrow> throughput \<Rightarrow> bool" where
  start: "throughput_run 0 throughput_init"
| lookup: "throughput_run n t \<Longrightarrow> throughput_run (Suc n) (count_lookup t)"
| alarm: "throughput_run n t \<Longrightarrow> throughput_run n (sig_handler t)"

inductive_cases throughput_runE: "throughput_run n t"

lemma throughput_conserved:
  "throughput_run n t \<Longrightarrow> sum_list (map snd (reported t)) + processed t = of_nat n \<and>
     map fst (reported t) = map (\<lambda>i. of_nat (Suc i)) [0..<length (reported t)] \<and>
     time_total t = of_nat (length (reported t))"
  by (induction rule: throughput_run.induct)
    (auto simp: throughput_init_def count_lookup_def sig_handler_def ac_simps)

section \<open>Properties\<close>

text \<open>
  C1.  Every sequence of insertions, deletions and lookups that starts with the empty tree
  runs to its end, and every lookup in it returns what a finite map would return at that
  point.
\<close>

theorem bpt_refines_map:
  assumes "3 \<le> ord" and "ord < 2 ^ 64" and "\<forall>i. ok i"
  shows "\<exists>st. run_ops bpt_ins bpt_del bpt_look ops (Null, bpt_start ord ok) =
      Some (fst (run_spec ops (\<lambda>_. None)), st) \<and>
    represents (snd st) (fst st) (snd (run_spec ops (\<lambda>_. None)))"
  using bpt.run_ops_refines [of "(Null, bpt_start ord ok)" "\<lambda>_. None" ops] represents_start [OF assms]
  by (simp add: bpt_rep_def)

theorem bpt_refines_map_witness:
  "\<exists>st. run_ops bpt_ins bpt_del bpt_look [Ins 1 10, Ins 2 20, Ins 1 30, Del 2, Look 1, Look 2]
       (Null, bpt_start 3 (\<lambda>_. True)) = Some ([Some 30, None], st)"
  using bpt_refines_map [of 3 "\<lambda>_. True" "[Ins 1 10, Ins 2 20, Ins 1 30, Del 2, Look 1, Look 2]"] by auto

text \<open>
  For an even number \<open>n\<close> of elements the build loop returns a tree that holds exactly
  the keys \<open>0 .. n - 1\<close>: an even key the address of its element in the first array, an odd
  key the address of its element in the second one.
\<close>

theorem build_loop_fills:
  assumes "even n" and "n < 2 ^ 64" and "3 \<le> ord" and "ord < 2 ^ 64" and "\<forall>i. ok i"
  shows "\<exists>root s. build_loop n elms elms2 0 (Null, bpt_start ord ok) = Some (root, s) \<and>
    represents s root (\<lambda>k. if unat k < n then Some (if even (unat k)
        then element_addr elms (unat k div 2) else element_addr elms2 ((n - 1 - unat k) div 2))
      else None)"
proof -
  have "bpt_rep (Null, bpt_start ord ok) (build_map n elms elms2 0)"
    using represents_start [OF assms(3,4,5)] by (simp add: bpt_rep_def build_map_start)
  from build_loop_rep [OF assms(1,2) _ this] obtain st where
    "build_loop n elms elms2 0 (Null, bpt_start ord ok) = Some st"
    "bpt_rep st (build_map n elms elms2 n)" by auto
  moreover have "build_map n elms elms2 n = (\<lambda>k. if unat k < n then Some (if even (unat k)
        then element_addr elms (unat k div 2) else element_addr elms2 ((n - 1 - unat k) div 2))
      else None)"
    by (auto simp: build_map_def fun_eq_iff)
  ultimately show ?thesis by (cases st) (auto simp: bpt_rep_def)
qed

theorem build_loop_fills_witness:
  "\<exists>root s. build_loop 10 4096 8192 0 (Null, bpt_start 3 (\<lambda>_. True)) = Some (root, s) \<and>
    represents s root (\<lambda>k. if unat k < 10 then Some (if even (unat k)
        then element_addr 4096 (unat k div 2) else element_addr 8192 ((10 - 1 - unat k) div 2))
      else None)"
  by (rule build_loop_fills) simp_all

text \<open>The element that the build loop enters under a key.\<close>

definition key_element :: "nat \<Rightarrow> u64 \<Rightarrow> u64 \<Rightarrow> nat \<Rightarrow> u64" where
  "key_element n elms elms2 k =
    (if even k then element_addr elms (k div 2) else element_addr elms2 ((n - 1 - k) div 2))"

lemma main_tree_rep:
  assumes "even n" "n < 2 ^ 64" "\<forall>i. ok i"
  shows "\<exists>st. main_tree n elms elms2 ok = Some st \<and>
    bpt_rep st (\<lambda>k. if unat k < n then Some (key_element n elms elms2 (unat k)) else None)"
proof -
  obtain s where s: "(do { s \<leftarrow> allocate ((bpt_start 4 ok)\<lparr>order := 16\<rparr>) (of_nat (main_bytes n));
      allocate s (of_nat (main_bytes n)) }) = Some s" and r0: "bpt_rep (Null, s) (build_map n elms elms2 0)"
    using bpt_rep_main_start [OF assms(3)] by (auto simp: build_map_start)
  from build_loop_rep [OF assms(1,2) _ r0] obtain st where
    st: "build_loop n elms elms2 0 (Null, s) = Some st" "bpt_rep st (build_map n elms elms2 n)" by auto
  moreover have "build_map n elms elms2 n = (\<lambda>k. if unat k < n then Some (key_element n elms elms2 (unat k)) else None)"
    by (auto simp: build_map_def key_element_def fun_eq_iff)
  moreover have "main_tree n elms elms2 ok = Some st"
    using s st(1) by (auto simp: main_tree_def Let_def bind_eq_Some_conv)
  ultimately show ?thesis by auto
qed

lemma memset0_elements:
  assumes "even n" "n < 2 ^ 60" "k < n"
  shows "memset0 elms2 (main_bytes n) (memset0 elms (main_bytes n) mem) (key_element n elms elms2 k) = Some 0"
proof -
  have j: "k div 2 < n div 2" "(n - 1 - k) div 2 < n div 2" using assms(1,3) by (auto elim!: evenE)
  have "unat (element_addr p i - p) + 8 \<le> main_bytes n" if "i < n div 2" for p i
  proof -
    have "unat (of_nat (16 * i) :: u64) = 16 * i" using that assms(2) by (simp only: unat_of_nat take_bit_eq_mod) simp
    then show ?thesis using that unfolding element_addr_def main_bytes_def sizeof_element_def add_diff_cancel_left' by linarith
  qed
  with j show ?thesis by (simp add: memset0_def key_element_def)
qed

text \<open>
  C28.  The build and lookup loops of \<open>main\<close>, run by one thread.  The build loop returns, and with
  any payloads in the elements the lookups then add up, for each random number \<open>r\<close> of the program,
  the payload of the element under key \<open>r mod n\<close> and that of the element under key
  \<open>4 * (r + 1) mod n\<close>: none is missed, each is counted once.  The payloads are zeroed when they are
  allocated and never written, so the total that the program itself prints is 0.  It exits with
  -1 and no total when the first file cannot be created, with -1 after the total when the second
  one cannot be, and with 0 otherwise.
\<close>

theorem main_bpt_total:
  assumes n: "even n" "0 < n" "n < 2 ^ 60" and ok: "\<forall>i. ok i"
  shows "\<exists>st. main_tree n elms elms2 ok = Some st \<and>
    (\<forall>payload pv. (\<forall>k < n. key_element n elms elms2 k \<noteq> 0 \<and> payload (key_element n elms elms2 k) = Some (pv k)) \<longrightarrow>
      main_lookups n nlookup payload st (redisSrand48 0xcafebabe rand48_init) True done_ok =
        Some (if done_ok then 0 else - 1, Some (\<Sum>i < nlookup. let r = main_random (13070 + 65536 * 0xcafebabe) i in
          pv (r mod n) + pv (4 * (r + 1) mod n)))) \<and>
    main_bpt n nlookup elms elms2 mem ok ready done_ok =
      Some (if ready \<and> done_ok then 0 else - 1, if ready then Some 0 else None)"
proof -
  let ?g = "redisSrand48 0xcafebabe rand48_init" and ?e = "key_element n elms elms2"
  let ?r = "main_random (13070 + 65536 * 0xcafebabe)"
  have n64: "n < 2 ^ 64" using n(3) by simp
  from main_tree_rep [OF n(1) n64 ok] obtain st where
    st: "main_tree n elms elms2 ok = Some st" "bpt_rep st (\<lambda>k. if unat k < n then Some (?e (unat k)) else None)" by blast
  have look: "main_lookups n nlookup payload st ?g True done_ok =
      Some (if done_ok then 0 else - 1, Some (\<Sum>i < nlookup. pv (?r i mod n) + pv (4 * (?r i + 1) mod n)))"
    if "\<forall>k < n. payload (?e k) = Some (pv k) \<and> (?e k \<noteq> 0 \<or> pv k = 0)" for payload pv
  proof -
    have "\<exists>g'. lookup_loop nlookup (of_nat n) payload st (?g, 0) = Some (g', 0 + (\<Sum>i<nlookup.
        pv (main_random (seed48 ?g) i mod n) + pv (4 * (main_random (seed48 ?g) i + 1) mod n)))"
      using that by (intro lookup_loop_sum [OF st(2) n(2) n64 limbs_ok_redisSrand48]) simp
    then show ?thesis by (auto simp: main_lookups_def seed48_redisSrand48)
  qed
  have "main_bpt n nlookup elms elms2 mem ok ready done_ok =
      Some (if ready \<and> done_ok then 0 else - 1, if ready then Some 0 else None)"
  proof (cases ready)
    case True
    then show ?thesis
      using look [of "memset0 elms2 (main_bytes n) (memset0 elms (main_bytes n) mem)" "\<lambda>k. 0"]
        memset0_elements [OF n(1,3)] by (simp add: main_bpt_def st(1) Let_def)
  qed (simp add: main_bpt_def main_lookups_def st(1) Let_def)
  then show ?thesis using st(1) look by (auto simp: Let_def)
qed

theorem main_bpt_total_witness:
  "\<exists>st. main_tree 2 4096 8192 (\<lambda>_. True) = Some st \<and>
    main_lookups 2 1000 (\<lambda>_. Some 1) st (redisSrand48 0xcafebabe rand48_init) True True = Some (0, Some 2000) \<and>
    main_bpt 2 1000 4096 8192 (\<lambda>_. None) (\<lambda>_. True) False True = Some (- 1, None)"
proof -
  have k: "\<forall>k < 2. key_element 2 4096 8192 k \<noteq> 0 \<and> Some 1 = Some ((\<lambda>_. 1 :: u64) k)"
    by (auto simp: less_2_cases_iff key_element_def element_addr_def sizeof_element_def)
  obtain st where st: "main_tree 2 4096 8192 (\<lambda>_. True) = Some st"
    "\<forall>payload pv. (\<forall>k < 2. key_element 2 4096 8192 k \<noteq> 0 \<and> payload (key_element 2 4096 8192 k) = Some (pv k)) \<longrightarrow>
      main_lookups 2 1000 payload st (redisSrand48 0xcafebabe rand48_init) True True =
        Some (0, Some (\<Sum>i < 1000. let r = main_random (13070 + 65536 * 0xcafebabe) i in pv (r mod 2) + pv (4 * (r + 1) mod 2)))"
    "main_bpt 2 1000 4096 8192 (\<lambda>_. None) (\<lambda>_. True) False True = Some (- 1, None)"
    using main_bpt_total [of 2 "\<lambda>_. True" 4096 8192 1000 True "\<lambda>_. None" False] by auto
  show ?thesis using st(1,3) st(2) [rule_format, OF k [rule_format]] by auto
qed

text \<open>
  Wherever the alarm strikes, the counts in the report and the count not yet reported
  add up to the number of lookups done (modulo the width of the counters), and the report
  is numbered 1, 2, 3 and so on.
\<close>

theorem throughput_accounts:
  assumes "throughput_run n t"
  shows "sum_list (map snd (reported t)) + processed t = of_nat n \<and>
    map fst (reported t) = map (\<lambda>i. of_nat (Suc i)) [0..<length (reported t)]"
  using throughput_conserved [OF assms] by blast

theorem throughput_accounts_witness:
  "sum_list (map snd (reported (sig_handler (count_lookup (count_lookup throughput_init))))) +
     processed (sig_handler (count_lookup (count_lookup throughput_init))) = of_nat 2"
  using throughput_accounts [OF throughput_run.alarm [OF throughput_run.lookup
    [OF throughput_run.lookup [OF throughput_run.start]]]] by (simp add: numeral_2_eq_2)

end
