(* ===== verification/Btree_Range.thy ===== *)
theory Btree_Range
  imports Btree_Map
begin

text \<open>
  Range queries over the chain of leaves, and the height of a tree.  \<open>find_range\<close> goes to
  the leaf where the first key belongs and then follows the leaf links; it gives the whole
  range when that leaf holds a key that is not below the first key, and nothing otherwise.
\<close>

section \<open>The leaves of a tree\<close>

fun leaves :: "bt \<Rightarrow> bt list" where
  "leaves (Lf a ks rs l) = [Lf a ks rs l]"
| "leaves (Nd a ks cs) = concat (map leaves cs)"

primrec link_of :: "bt \<Rightarrow> ptr" where
  "link_of (Lf a ks rs l) = l"
| "link_of (Nd a ks cs) = Null"

lemma concat_map_concat: "concat (map f (concat xss)) = concat (map (\<lambda>xs. concat (map f xs)) xss)"
  by (induction xss) auto

lemma kvs_leaves: "kvs t = concat (map kvs (leaves t))"
proof (induction t)
  case (Nd a ks cs)
  then have "map kvs cs = map (\<lambda>c. concat (map kvs (leaves c))) cs" by simp
  then show ?case by (simp only: kvs.simps leaves.simps concat_map_concat map_map comp_def)
qed simp

lemma leafseq_leaves: "leafseq t = map (\<lambda>t. (addr t, link_of t)) (leaves t)"
  by (induction t) (auto simp: map_concat comp_def intro!: arg_cong [where f = concat])

lemma leaves_cells:
  "l \<in> set (leaves t) \<Longrightarrow> \<exists>a ks rs lk q. l = Lf a ks rs lk \<and> (a, Cell q True ks rs (Some lk)) \<in> set (cells p t)"
proof (induction t arbitrary: p)
  case (Nd a ks cs)
  then obtain c where "c \<in> set cs" "l \<in> set (leaves c)" by auto
  with Nd.IH [of c "NodeP a"] show ?case by fastforce
qed auto

lemma leaves_shape: "shape ord h t \<Longrightarrow> l \<in> set (leaves t) \<Longrightarrow> shape ord 0 l"
  by (induction t arbitrary: h) auto

section \<open>Output arrays\<close>

definition put :: "nat \<Rightarrow> 'a list \<Rightarrow> 'a list \<Rightarrow> 'a list" where
  "put n xs es = take n xs @ es @ drop (n + length es) xs"

lemma put_Nil [simp]: "put n xs [] = xs"
  by (simp add: put_def)

lemma length_put: "n + length es \<le> length xs \<Longrightarrow> length (put n xs es) = length xs"
  by (simp add: put_def)

lemma put_Cons: "n < length xs \<Longrightarrow> put (Suc n) (xs[n := e]) es = put n xs (e # es)"
  by (simp add: put_def take_Suc_conv_app_nth)

lemma put_put:
  "n + length e1 \<le> length xs \<Longrightarrow> put (n + length e1) (put n xs e1) e2 = put n xs (e1 @ e2)"
  by (simp add: put_def ac_simps)

lemma take_put: "n + length es \<le> length xs \<Longrightarrow> take (n + length es) (put n xs es) = take n xs @ es"
  by (simp add: put_def)

section \<open>The loops of \<open>find_range\<close>\<close>

definition upto_key :: "u64 \<Rightarrow> (u64 \<times> ptr) list \<Rightarrow> (u64 \<times> ptr) list" where
  "upto_key b es = takeWhile (\<lambda>e. fst e \<le> b) es"

lemma range_leaf_eq:
  assumes rel: "node_rel ord nd (Cell p True ks rs l)" and len: "length rs = length ks"
    and es: "es = upto_key b (drop i (zip ks rs))" and i: "i \<le> length ks"
    and room: "n + length es \<le> length ka" "n + length es \<le> length pa"
  shows "range_leaf nd b i (ka, pa, n) = Some (put n ka (map fst es), put n pa (map snd es), n + length es)"
  using es i room
proof (induction "length ks - i" arbitrary: i n ka pa es)
  case 0
  then have "es = []" "\<not> i < num_keys nd" using rel by (simp_all add: upto_key_def node_rel_def)
  then show ?case by (simp add: range_leaf.simps)
next
  case (Suc d)
  then have i: "i < length ks" by simp
  have nk: "num_keys nd = length ks" "take (length ks) (keys nd) = ks" "take (length ks) (pointers nd) = rs"
    "length ks \<le> length (keys nd)" "length ks \<le> length (pointers nd)"
    using rel by (auto simp: node_rel_def)
  have rk: "rd (keys nd) i = Some (ks ! i)" "rd (pointers nd) i = Some (rs ! i)"
    using rd_take [OF i nk(4)] rd_take [OF i nk(5)] nk by simp_all
  have dz: "drop i (zip ks rs) = (ks ! i, rs ! i) # drop (Suc i) (zip ks rs)"
    using i len by (subst drop_eq_nth_tl) simp_all
  show ?case
  proof (cases "ks ! i \<le> b")
    case True
    define es' where "es' = upto_key b (drop (Suc i) (zip ks rs))"
    have es: "es = (ks ! i, rs ! i) # es'" using True Suc.prems(1) by (simp add: dz upto_key_def es'_def)
    have rm: "Suc n + length es' \<le> length ka" "Suc n + length es' \<le> length pa"
      using Suc.prems(3,4) unfolding es by simp_all
    have "range_leaf nd b (Suc i) (ka[n := ks ! i], pa[n := rs ! i], Suc n) =
        Some (put (Suc n) (ka[n := ks ! i]) (map fst es'), put (Suc n) (pa[n := rs ! i]) (map snd es'),
          Suc n + length es')"
      using Suc.hyps(2) i rm by (intro Suc.hyps(1) [OF _ es'_def]) simp_all
    with True i rk Suc.prems(3,4) show ?thesis
      by (subst range_leaf.simps) (simp add: nk(1) es put_Cons wr_def)
  next
    case False
    then have "es = []" using Suc.prems(1) by (simp add: dz upto_key_def)
    with False i rk show ?thesis by (subst range_leaf.simps) (simp add: nk(1))
  qed
qed

lemma range_loop_Null [simp]: "range_loop s b Null i out = Some out"
  by (simp add: range_loop.simps)

lemma range_loop_leaves:
  assumes "\<forall>l \<in> set ls. \<exists>a ks rs lk q nd. l = Lf a ks rs lk \<and> length rs = length ks \<and>
      nodes s a = Some nd \<and> node_rel (order s) nd (Cell q True ks rs (Some lk))"
    and "linked (map (\<lambda>t. (addr t, link_of t)) ls) Null" and "3 \<le> order s"
    and "n + length (concat (map (upto_key b \<circ> kvs) ls)) \<le> length ka"
    and "n + length (concat (map (upto_key b \<circ> kvs) ls)) \<le> length pa"
  shows "range_loop s b (first_leaf (map (\<lambda>t. (addr t, link_of t)) ls) Null) 0 (ka, pa, n) =
    Some (put n ka (map fst (concat (map (upto_key b \<circ> kvs) ls))),
      put n pa (map snd (concat (map (upto_key b \<circ> kvs) ls))), n + length (concat (map (upto_key b \<circ> kvs) ls)))"
  using assms
proof (induction ls arbitrary: ka pa n)
  case Nil
  then show ?case by (simp add: first_leaf_def)
next
  case (Cons t ls)
  from Cons.prems(1) obtain a ks rs lk q nd where t: "t = Lf a ks rs lk" "length rs = length ks"
    "nodes s a = Some nd" "node_rel (order s) nd (Cell q True ks rs (Some lk))" by auto
  define es where "es = upto_key b (zip ks rs)"
  define rest where "rest = concat (map (upto_key b \<circ> kvs) ls)"
  have leaf: "range_leaf nd b 0 (ka, pa, n) = Some (put n ka (map fst es), put n pa (map snd es), n + length es)"
    using Cons.prems(4,5) by (intro range_leaf_eq [OF t(4,2)]) (simp_all add: es_def t(1))
  have link: "rd (pointers nd) (order s - 1) = Some lk"
    using t(4) Cons.prems(3) by (auto simp: node_rel_def rd_def)
  have nxt: "lk = first_leaf (map (\<lambda>t. (addr t, link_of t)) ls) Null"
    and lk': "linked (map (\<lambda>t. (addr t, link_of t)) ls) Null"
    using Cons.prems(2) by (cases ls; auto simp: t(1) first_leaf_def)+
  have "range_loop s b lk 0 (put n ka (map fst es), put n pa (map snd es), n + length es) =
      Some (put (n + length es) (put n ka (map fst es)) (map fst rest),
        put (n + length es) (put n pa (map snd es)) (map snd rest), n + length es + length rest)"
    unfolding nxt rest_def using Cons.prems lk'
    by (intro Cons.IH) (simp_all add: length_put es_def t(1) add.assoc)
  moreover have "n + length (map fst es) \<le> length ka" "n + length (map snd es) \<le> length pa"
    using Cons.prems(4,5) by (simp_all add: es_def t(1))
  then have "put (n + length es) (put n ka (map fst es)) (map fst rest) = put n ka (map fst (es @ rest))"
    "put (n + length es) (put n pa (map snd es)) (map snd rest) = put n pa (map snd (es @ rest))"
    using put_put [of n "map fst es" ka "map fst rest"] put_put [of n "map snd es" pa "map snd rest"] by simp_all
  ultimately show ?case
    using t leaf link by (subst range_loop.simps) (simp add: first_leaf_def es_def rest_def add.assoc)
qed

section \<open>Range queries on trees\<close>

text \<open>
  \<open>zoom\<close> splits the leaves of the tree at the leaf of the first key; the entries before it
  are smaller, so the query sees the suffix of the entry sequence from that leaf on.
\<close>

lemma upto_key_filter:
  "sorted_wrt (<) (map fst es) \<Longrightarrow> upto_key b es = filter (\<lambda>e. fst e \<le> b) es"
proof (induction es)
  case (Cons e es)
  show ?case
  proof (cases "fst e \<le> b")
    case False
    then have "\<not> fst x \<le> b" if "x \<in> set es" for x using Cons.prems that by auto
    with False show ?thesis by (simp add: upto_key_def filter_empty_conv)
  qed (use Cons in \<open>simp add: upto_key_def\<close>)
qed (simp add: upto_key_def)

lemma concat_upto_filter:
  "sorted_wrt (<) (map fst (concat (map kvs ls))) \<Longrightarrow>
   concat (map (upto_key b \<circ> kvs) ls) = filter (\<lambda>e. fst e \<le> b) (concat (map kvs ls))"
  by (induction ls) (simp_all add: sorted_wrt_append upto_key_filter)

lemma filter_from:
  assumes "sorted_wrt (<) (map fst (es :: (u64 \<times> ptr) list))" and "i = length (takeWhile (\<lambda>k. k < a) (map fst es))"
  shows "filter (\<lambda>e. a \<le> fst e \<and> fst e \<le> b) es = filter (\<lambda>e. fst e \<le> b) (drop i es)"
proof -
  have i: "i = length (takeWhile (\<lambda>e. fst e < a) es)"
    using assms(2) by (simp add: takeWhile_map comp_def)
  then have t: "take i es = takeWhile (\<lambda>e. fst e < a) es" "drop i es = dropWhile (\<lambda>e. fst e < a) es"
    by (simp_all add: takeWhile_eq_take [symmetric] dropWhile_eq_drop [symmetric])
  have s: "sorted_wrt (<) (map fst (drop i es))" using assms(1) by (simp add: drop_map [symmetric] sorted_wrt_drop)
  have ge: "a \<le> fst x" if "x \<in> set (drop i es)" for x
  proof (cases "drop i es")
    case (Cons y ys)
    then have "\<not> fst y < a" using hd_dropWhile [of "\<lambda>e. fst e < a" es] t(2) by simp
    with Cons s that show ?thesis by auto
  qed (use that in simp)
  have "filter (\<lambda>e. a \<le> fst e \<and> fst e \<le> b) (take i es) = []"
    unfolding t(1) by (auto simp: filter_empty_conv dest: set_takeWhileD)
  moreover have "filter (\<lambda>e. a \<le> fst e \<and> fst e \<le> b) (drop i es) = filter (\<lambda>e. fst e \<le> b) (drop i es)"
    using ge by (intro filter_cong) auto
  moreover have "filter (\<lambda>e. a \<le> fst e \<and> fst e \<le> b) es =
      filter (\<lambda>e. a \<le> fst e \<and> fst e \<le> b) (take i es) @ filter (\<lambda>e. a \<le> fst e \<and> fst e \<le> b) (drop i es)"
    by (metis append_take_drop_id filter_append)
  ultimately show ?thesis by simp
qed

lemmas leaves_plug = plug_seq [of leaves, OF leaves.simps(2)]

lemma ctx_after_leaves: "ctx_after kvs fs = concat (map kvs (ctx_after leaves fs))"
proof (induction fs)
  case (Cons f fs)
  obtain a kl cl kr cr where f: "f = Frame a kl cl kr cr" by (cases f)
  have "map kvs cr = map (\<lambda>c. concat (map kvs (leaves c))) cr" using kvs_leaves by simp
  then have "concat (map kvs cr) = concat (map kvs (concat (map leaves cr)))"
    by (simp only: concat_map_concat map_map comp_def)
  with Cons show ?case by (simp add: f)
qed simp

lemma root_leaves:
  assumes g: "good s (cells Null t) fl" and sh: "root_shape (order s) h t" and l: "l \<in> set (leaves t)"
  shows "\<exists>a ks rs lk q nd. l = Lf a ks rs lk \<and> length rs = length ks \<and>
      nodes s a = Some nd \<and> node_rel (order s) nd (Cell q True ks rs (Some lk))"
proof -
  from leaves_cells [OF l, of Null] obtain a ks rs lk q where
    lf: "l = Lf a ks rs lk" "(a, Cell q True ks rs (Some lk)) \<in> set (cells Null t)" by blast
  have "length rs = length ks"
  proof (cases t)
    case (Lf a' ks' rs' l')
    with sh l lf(1) show ?thesis by (simp add: root_shape_def)
  next
    case (Nd a' ks' cs)
    with sh l obtain c where "c \<in> set cs" "shape (order s) (h - 1) c" "l \<in> set (leaves c)"
      by (auto simp: root_shape_def)
    with leaves_shape [of "order s" "h - 1" c l] lf(1) show ?thesis by simp
  qed
  moreover obtain nd where "nodes s a = Some nd" "node_rel (order s) nd (Cell q True ks rs (Some lk))"
    by (rule good_get [OF g lf(2)])
  ultimately show ?thesis using lf(1) by blast
qed

text \<open>
  Whether every key of the leaf where \<open>a\<close> belongs is smaller than \<open>a\<close>: then \<open>find_range\<close> gives up,
  although the range may go on in the next leaf.
\<close>

definition leaf_below :: "bpt \<Rightarrow> ptr \<Rightarrow> u64 \<Rightarrow> bool" where
  "leaf_below s root a \<longleftrightarrow>
    (case find_leaf s root a of
       Some (NodeP ad) \<Rightarrow> (case nodes s ad of None \<Rightarrow> False | Some nd \<Rightarrow> \<forall>k \<in> set (take (num_keys nd) (keys nd)). k < a)
     | _ \<Rightarrow> False)"

lemma all_below: "(\<forall>k \<in> set ks. k < (a :: u64)) \<longleftrightarrow> length (takeWhile (\<lambda>k. k < a) ks) = length ks"
  by (induction ks) auto

lemma find_range_tree:
  assumes ok: "tree_ok s t" and es: "es = filter (\<lambda>e. a \<le> fst e \<and> fst e \<le> b) (kvs t)"
    and room: "length es \<le> length ka" "length es \<le> length pa"
  shows "if leaf_below s (ptr_of t) a
    then find_range s (ptr_of t) a b ka pa = Some (ka, pa, 0) \<and> a \<notin> fst ` set (kvs t)
    else find_range s (ptr_of t) a b ka pa = Some (put 0 ka (map fst es), put 0 pa (map snd es), length es)"
proof -
  obtain ad ks rs l fs fl where fl: "find_leaf s (ptr_of t) a = Some (NodeP ad)"
    and t: "t = plug (Lf ad ks rs l) fs" and g: "good s (cells Null t) fl"
    and c: "ctx_shape (order s) 0 fs" and sh: "sub_shape (order s) 0 fs (Lf ad ks rs l)"
    and bd: "lo_le (hole_lo fs) a" "hi_gt a (hole_hi fs)"
    by (rule tree_leaf [OF ok, where key = a])
  obtain H where H: "root_shape (order s) H t" using ok by (auto simp: tree_ok_def)
  have o: "ordered None t None" and lk: "linked (leafseq t) Null" using ok by (auto simp: tree_ok_def)
  let ?ls = "ctx_after leaves fs"
  have lv: "leaves t = ctx_before leaves fs @ Lf ad ks rs l # ?ls" by (simp add: t leaves_plug)
  have kv: "kvs t = ctx_before kvs fs @ zip ks rs @ concat (map kvs ?ls)"
    by (simp add: t kvs_plug ctx_after_leaves)
  from root_leaves [OF g H, of "Lf ad ks rs l"] lv obtain q nd where len: "length rs = length ks"
    and nd: "nodes s ad = Some nd" "node_rel (order s) nd (Cell q True ks rs (Some l))" by auto
  note out = hole_outside [OF ctx_shape_frames [OF c], of "Lf ad ks rs l", folded t, OF o]
  have so: "sorted_wrt (<) (map fst (kvs t))" using ordered_kvs(1) [OF o] by blast
  define i where "i = length (takeWhile (\<lambda>k. k < a) ks)"
  define e0 where "e0 = upto_key b (drop i (zip ks rs))"
  define e1 where "e1 = concat (map (upto_key b \<circ> kvs) ?ls)"
  have mz: "map fst (zip ks rs) = ks" using len by simp
  have sorts: "sorted_wrt (<) (map fst (zip ks rs))" "sorted_wrt (<) (map fst (concat (map kvs ?ls)))"
    using so unfolding kv map_append sorted_wrt_append by blast+
  have esq: "es = e0 @ e1"
  proof -
    have "filter (\<lambda>e. a \<le> fst e \<and> fst e \<le> b) (ctx_before kvs fs) = []"
      using out bd(1) by (auto simp: filter_empty_conv not_le)
    moreover have "filter (\<lambda>e. a \<le> fst e \<and> fst e \<le> b) (zip ks rs) = e0"
      using filter_from [OF sorts(1), of i a b] sorts(1) unfolding mz e0_def
      by (subst upto_key_filter) (simp_all add: i_def drop_map [symmetric] sorted_wrt_drop mz)
    moreover have "filter (\<lambda>e. a \<le> fst e \<and> fst e \<le> b) (concat (map kvs ?ls)) = e1"
    proof -
      have "\<forall>e \<in> set (concat (map kvs ?ls)). a < fst e"
        using out bd(2) unfolding ctx_after_leaves by fastforce
      then show ?thesis
        unfolding e1_def concat_upto_filter [OF sorts(2)] by (intro filter_cong) (auto intro: less_imp_le)
    qed
    ultimately show ?thesis by (simp add: es kv)
  qed
  have ni: "num_keys nd = length ks" "scan (\<lambda>k. k < a) (keys nd) (num_keys nd) 0 = Some i"
    using nd(2) node_rel_scan [OF nd(2)] by (simp_all add: node_rel_def i_def)
  have "take (num_keys nd) (keys nd) = ks" using nd(2) by (auto simp: node_rel_def)
  then have lb: "leaf_below s (ptr_of t) a \<longleftrightarrow> i = length ks"
    using fl nd(1) all_below [of ks a] by (simp add: leaf_below_def i_def)
  show ?thesis
  proof (cases "i = length ks")
    case True
    have "a \<notin> set ks"
    proof
      assume "a \<in> set ks"
      moreover have "takeWhile (\<lambda>k. k < a) ks = ks" using True unfolding i_def by (metis takeWhile_eq_take take_all order_refl)
      ultimately show False by (metis less_irrefl set_takeWhileD)
    qed
    moreover have "a \<notin> fst ` set (ctx_before kvs fs)" "a \<notin> fst ` set (concat (map kvs ?ls))"
      using out bd by (force simp: ctx_after_leaves)+
    moreover have "fst ` set (kvs t) = fst ` set (ctx_before kvs fs) \<union> set ks \<union> fst ` set (concat (map kvs ?ls))"
      unfolding kv set_append image_Un using arg_cong [OF mz, of set] by (simp only: set_map Un_assoc)
    ultimately have "a \<notin> fst ` set (kvs t)" by blast
    moreover have "find_range s (ptr_of t) a b ka pa = Some (ka, pa, 0)"
      using True ni nd(1) fl by (simp add: find_range_def)
    ultimately show ?thesis using True lb by simp
  next
    case False
    then have i: "i \<le> length ks" by (simp add: i_def length_takeWhile_le)
    have leaf: "range_leaf nd b i (ka, pa, 0) = Some (put 0 ka (map fst e0), put 0 pa (map snd e0), 0 + length e0)"
      using room esq by (intro range_leaf_eq [OF nd(2) len e0_def i]) simp_all
    have link: "rd (pointers nd) (order s - 1) = Some l"
      using nd(2) good_order [OF g] by (auto simp: node_rel_def rd_def)
    have l: "l = first_leaf (map (\<lambda>t. (addr t, link_of t)) ?ls) Null"
      and lk': "linked (map (\<lambda>t. (addr t, link_of t)) ?ls) Null"
      using lk unfolding leafseq_leaves lv map_append linked_append
      by (cases ?ls; auto simp: first_leaf_def)+
    have "\<forall>x \<in> set ?ls. \<exists>a ks rs lk q nd. x = Lf a ks rs lk \<and> length rs = length ks \<and>
      nodes s a = Some nd \<and> node_rel (order s) nd (Cell q True ks rs (Some lk))"
      using root_leaves [OF g H] lv by auto
    then have "range_loop s b l 0 (put 0 ka (map fst e0), put 0 pa (map snd e0), length e0) =
      Some (put (length e0) (put 0 ka (map fst e0)) (map fst e1),
        put (length e0) (put 0 pa (map snd e0)) (map snd e1), length e0 + length e1)"
      unfolding l e1_def using room esq good_order [OF g] lk'
      by (intro range_loop_leaves) (simp_all add: length_put e1_def)
    moreover have "put (length e0) (put 0 ka (map fst e0)) (map fst e1) = put 0 ka (map fst es)"
      "put (length e0) (put 0 pa (map snd e0)) (map snd e1) = put 0 pa (map snd es)"
      using put_put [of 0 "map fst e0" ka "map fst e1"] put_put [of 0 "map snd e0" pa "map snd e1"] room esq
      by simp_all
    ultimately have "range_loop s b (NodeP ad) i (ka, pa, 0) =
        Some (put 0 ka (map fst es), put 0 pa (map snd es), length es)"
      using nd(1) leaf link esq by (subst range_loop.simps) simp
    then show ?thesis using False lb ni nd(1) fl by (simp add: find_range_def)
  qed
qed

section \<open>Height\<close>

lemma height_loop_tree:
  assumes "good s xs fl" and "set (cells p t) \<subseteq> set xs" and "sub_shape (order s) h fs t"
  shows "height_loop s (ptr_of t) n = Some (n + h)"
  using assms(2,3)
proof (induction t arbitrary: p h fs n)
  case (Lf a ks rs l)
  then obtain nd where "nodes s a = Some nd" "node_rel (order s) nd (Cell p True ks rs (Some l))"
    using good_get [OF assms(1), of a "Cell p True ks rs (Some l)"] by auto
  moreover have "h = 0" using Lf.prems by (auto simp: sub_shape_def root_shape_def split: if_splits)
  ultimately show ?case by (simp add: height_loop.simps node_rel_def)
next
  case (Nd a ks cs)
  then have mem: "(a, Cell p False ks (map ptr_of cs) None) \<in> set xs" by simp
  obtain nd where nd: "nodes s a = Some nd" "node_rel (order s) nd (Cell p False ks (map ptr_of cs) None)"
    by (rule good_get [OF assms(1) mem])
  have sh: "h \<noteq> 0" "length cs = Suc (length ks)" "\<forall>c \<in> set cs. shape (order s) (h - 1) c"
    using Nd.prems(2) by (auto simp: sub_shape_def root_shape_def split: if_splits)
  then obtain c cs' where cs: "cs = c # cs'" by (cases cs) auto
  have "height_loop s (ptr_of c) (Suc n) = Some (Suc n + (h - 1))"
    using Nd.prems(1) sh(3)
    by (intro Nd.IH [of c "NodeP a" "h - 1" "[Frame a [] [] [] []]"]) (auto simp: cs sub_shape_def)
  moreover have "rd (pointers nd) 0 = Some (ptr_of c)"
    using node_rel_child [OF nd(2), of 0] by (simp add: cs)
  moreover have "\<not> is_leaf nd" using nd(2) by (simp add: node_rel_def)
  ultimately show ?case using nd(1) sh(1) by (simp add: height_loop.simps)
qed

lemma path_loop_tree:
  assumes "good s (cells (par_of fs) t @ ctx_cells (ptr_of t) fs @ ex) fl"
  shows "path_loop s (ptr_of (plug t fs)) (ptr_of t) n = Some (n + length fs)"
  using assms
proof (induction t fs arbitrary: n ex rule: plug.induct)
  case (1 t)
  then show ?case by (simp add: path_loop.simps)
next
  case (2 t a kl cl kr cr fs)
  let ?fs = "Frame a kl cl kr cr # fs" and ?t = "Nd a (kl @ kr) (cl @ t # cr)"
  obtain nd where nd: "nodes s (addr t) = Some nd" "node_rel (order s) nd (top_cell (NodeP a) t)"
    using good_get [OF "2.prems", of "addr t" "top_cell (NodeP a) t"] addr_in_cells by auto
  have pa: "parent nd = NodeP a" using nd(2) by (cases t) (auto simp: node_rel_def top_cell_def)
  have ne: "addr t \<noteq> addr (plug ?t fs)"
    using hole_not_root [of s "NodeP a" t ?fs ex fl] "2.prems" by simp
  have "good s (cells (par_of fs) ?t @ ctx_cells (ptr_of ?t) fs @ ex) fl"
    by (rule good_perm [OF "2.prems"]) (simp add: ac_simps)
  from "2.IH" [OF this, of "Suc n"] ne nd(1) pa show ?case
    by (subst path_loop.simps) simp
qed

text \<open>Every node but the root is at least half full, so the height is logarithmic.\<close>

lemma sum_list_ge: "(\<forall>c \<in> set cs. (k :: nat) \<le> f c) \<Longrightarrow> length cs * k \<le> sum_list (map f cs)"
  by (induction cs) auto

lemma shape_entries: "3 \<le> ord \<Longrightarrow> shape ord h t \<Longrightarrow> 2 ^ h \<le> length (kvs t)"
proof (induction t arbitrary: h)
  case (Lf a ks rs l)
  then show ?case using cut_bounds(4) [OF Lf.prems(1)] by auto
next
  case (Nd a ks cs)
  then have "\<forall>c \<in> set cs. 2 ^ (h - 1) \<le> length (kvs c)" by auto
  from sum_list_ge [OF this] have "length cs * 2 ^ (h - 1) \<le> length (kvs (Nd a ks cs))"
    by (simp add: length_concat comp_def)
  moreover have "2 \<le> length cs" "h \<noteq> 0" using Nd.prems cut_bounds(1) [OF Nd.prems(1)] by auto
  moreover from this have "2 * 2 ^ (h - 1) \<le> length cs * 2 ^ (h - 1)" by simp
  moreover have "2 * 2 ^ (h - 1) = (2 :: nat) ^ h" using \<open>h \<noteq> 0\<close> by (cases h) simp_all
  ultimately show ?case by linarith
qed

lemma root_entries:
  assumes "3 \<le> ord" and "root_shape ord h t"
  shows "2 ^ h \<le> length (kvs t)"
proof (cases t)
  case (Lf a ks rs l)
  with assms show ?thesis by (auto simp: root_shape_def)
next
  case (Nd a ks cs)
  with assms have "\<forall>c \<in> set cs. 2 ^ (h - 1) \<le> length (kvs c)"
    by (auto simp: root_shape_def intro: shape_entries)
  from sum_list_ge [OF this] have "length cs * 2 ^ (h - 1) \<le> length (kvs t)"
    by (simp add: Nd length_concat comp_def)
  moreover have "2 \<le> length cs" "h \<noteq> 0" using assms Nd by (auto simp: root_shape_def)
  moreover from this have "2 * 2 ^ (h - 1) \<le> length cs * 2 ^ (h - 1)" by simp
  moreover have "2 * 2 ^ (h - 1) = (2 :: nat) ^ h" using \<open>h \<noteq> 0\<close> by (cases h) simp_all
  ultimately show ?thesis by linarith
qed

lemma represents_dom:
  assumes "tree_rep s root es" and "recs_good s (map snd es) rl"
    and "m = (\<lambda>k. Option.bind (map_of es k) (rec_val s))"
  shows "dom m = fst ` set es"
proof -
  have "m k \<noteq> None \<longleftrightarrow> map_of es k \<noteq> None" for k
  proof (cases "map_of es k")
    case (Some a)
    then have "a \<in> set (map snd es)" using map_of_SomeD by force
    then have "rec_val s a \<noteq> None" using assms(2) by (auto simp: recs_good_def)
    with Some show ?thesis by (simp add: assms(3))
  qed (simp add: assms(3))
  then show ?thesis by (auto simp: dom_def map_of_eq_None_iff)
qed

section \<open>Properties\<close>

lemma represents_range:
  assumes t: "tree_rep s root es" and r: "recs_good s (map snd es) rl"
    and m: "m = (\<lambda>k. Option.bind (map_of es k) (rec_val s))"
    and so: "sorted_wrt (<) (map fst es)" and f: "fs = filter (\<lambda>e. a \<le> fst e \<and> fst e \<le> b) es"
  shows "map fst fs = sorted_list_of_set {k. a \<le> k \<and> k \<le> b \<and> m k \<noteq> None}"
    and "list_all2 (\<lambda>k p. \<exists>c. rec_at s p = Some c \<and> map_option Value (m k) = Some (contents c))
      (map fst fs) (map (RecP \<circ> snd) fs)"
proof -
  have d: "{k. m k \<noteq> None} = fst ` set es" using represents_dom [OF t r m] by (simp add: dom_def)
  have s': "sorted_wrt (<) (map fst fs)"
    unfolding f using so by (induction es) (auto simp: image_iff)
  have "set (map fst fs) = {k. a \<le> k \<and> k \<le> b} \<inter> {k. m k \<noteq> None}" unfolding d f by auto
  moreover have "sorted_list_of_set (set (map fst fs)) = map fst fs"
    using s' by (intro sorted_list_of_set.idem_if_sorted_distinct) (simp_all add: strict_sorted_iff)
  ultimately show "map fst fs = sorted_list_of_set {k. a \<le> k \<and> k \<le> b \<and> m k \<noteq> None}"
    by (simp add: Collect_conj_eq Int_assoc)
  have "\<exists>c. recs s q = Some c \<and> map_option Value (m k) = Some (contents c)" if "(k, q) \<in> set fs" for k q
  proof -
    have kq: "(k, q) \<in> set es" using that f by simp
    have "distinct (map fst es)" using so by (simp add: strict_sorted_iff)
    with kq have "map_of es k = Some q" by simp
    moreover have "rec_val s q \<noteq> None" using r kq by (force simp: recs_good_def)
    ultimately show ?thesis by (auto simp: m rec_val_def split: option.splits rec_union.splits)
  qed
  then show "list_all2 (\<lambda>k p. \<exists>c. rec_at s p = Some c \<and> map_option Value (m k) = Some (contents c))
      (map fst fs) (map (RecP \<circ> snd) fs)"
    by (auto simp: list_all2_conv_all_nth)
qed

lemma tree_rep_sorted: "tree_rep s root es \<Longrightarrow> sorted_wrt (<) (map fst es)"
proof (cases "root = Null")
  case False
  moreover assume "tree_rep s root es"
  ultimately obtain t where t: "tree_ok s t" "kvs t = map (map_prod id RecP) es" by (auto simp: tree_rep_def)
  from t(1) have "sorted_wrt (<) (map fst (kvs t))" using ordered_kvs(1) by (auto simp: tree_ok_def)
  then show ?thesis by (simp add: t(2) comp_def)
qed (simp add: tree_rep_def)

text \<open>
  C14. The exact answer of a range query on a tree that represents a map, with arrays that have room
  for the range.  Unless all keys of the leaf where the first key belongs are smaller than the
  first key, the answer is every key of the range, bounds included, in ascending order, each with
  a live record that holds its value.  If they are all smaller, the answer is empty, whatever the
  next leaves hold: then the first key is not in the map, but later keys of the range may be,
  against the comment on the function; the witness has such a tree.
\<close>
theorem find_range_exact:
  assumes "represents s root m"
    and "card {k. a \<le> k \<and> k \<le> b \<and> m k \<noteq> None} \<le> length ka"
    and "card {k. a \<le> k \<and> k \<le> b \<and> m k \<noteq> None} \<le> length pa"
  shows "\<exists>ka' pa' n. find_range s root a b ka pa = Some (ka', pa', n) \<and>
    (if leaf_below s root a then n = 0 \<and> m a = None
     else take n ka' = sorted_list_of_set {k. a \<le> k \<and> k \<le> b \<and> m k \<noteq> None} \<and>
       list_all2 (\<lambda>k p. \<exists>c. rec_at s p = Some c \<and> map_option Value (m k) = Some (contents c))
         (take n ka') (take n pa'))"
proof -
  from assms(1) obtain es rl where t: "tree_rep s root es" and r: "recs_good s (map snd es) rl"
    and m: "m = (\<lambda>k. Option.bind (map_of es k) (rec_val s))" by (auto simp: represents_def)
  define fs where "fs = filter (\<lambda>e. a \<le> fst e \<and> fst e \<le> b) es"
  note rng = represents_range [OF t r m tree_rep_sorted [OF t] fs_def]
  have len: "length fs \<le> length ka" "length fs \<le> length pa"
    using assms(2,3) arg_cong [OF rng(1), of length] by simp_all
  show ?thesis
  proof (cases "root = Null")
    case True
    with t have "fs = []" by (simp add: tree_rep_def fs_def)
    with True rng show ?thesis by (simp add: find_range_def find_leaf_def leaf_below_def)
  next
    case False
    with t obtain tr where tr: "root = ptr_of tr" "tree_ok s tr" "kvs tr = map (map_prod id RecP) es"
      by (auto simp: tree_rep_def)
    have e: "map (map_prod id RecP) fs = filter (\<lambda>e. a \<le> fst e \<and> fst e \<le> b) (kvs tr)"
      by (simp add: tr(3) fs_def filter_map comp_def)
    have dm: "a \<notin> fst ` set (kvs tr) \<Longrightarrow> m a = None"
    proof -
      assume "a \<notin> fst ` set (kvs tr)"
      then have "map_of es a = None" by (force simp: tr(3) map_of_eq_None_iff)
      then show "m a = None" by (simp add: m)
    qed
    show ?thesis
    proof (cases "leaf_below s root a")
      case True
      then show ?thesis using find_range_tree [OF tr(2) e, of ka pa] len dm unfolding tr(1) by simp
    next
      case False
      then have "find_range s root a b ka pa = Some (put 0 ka (map fst fs), put 0 pa (map (RecP \<circ> snd) fs), length fs)"
        using find_range_tree [OF tr(2) e, of ka pa] len unfolding tr(1) by (simp add: comp_def)
      moreover have "take (length fs) (put 0 ka (map fst fs)) = map fst fs"
        "take (length fs) (put 0 pa (map (RecP \<circ> snd) fs)) = map (RecP \<circ> snd) fs"
        using take_put [of 0 "map fst fs" ka] take_put [of 0 "map (RecP \<circ> snd) fs" pa] len by simp_all
      ultimately show ?thesis using False rng by simp
    qed
  qed
qed

text \<open>A tree of order 3 with the keys 10, 20 and 30 in two leaves.\<close>

definition small_tree :: bpt where
  "small_tree = (bpt_start 3 (\<lambda>_. True))\<lparr>
     nodes := [0 \<mapsto> \<lparr>pointers = [NodeP 1, NodeP 2, Null], keys = [20, 0], parent = Null, is_leaf = False, num_keys = 1, next_p = Null\<rparr>,
       1 \<mapsto> \<lparr>pointers = [RecP 0, Null, NodeP 2], keys = [10, 0], parent = NodeP 0, is_leaf = True, num_keys = 1, next_p = Null\<rparr>,
       2 \<mapsto> \<lparr>pointers = [RecP 1, RecP 2, Null], keys = [20, 30], parent = NodeP 0, is_leaf = True, num_keys = 2, next_p = Null\<rparr>],
     recs := [0 \<mapsto> \<lparr>contents = Value 1, flags = 0\<rparr>, 1 \<mapsto> \<lparr>contents = Value 2, flags = 0\<rparr>, 2 \<mapsto> \<lparr>contents = Value 3, flags = 0\<rparr>],
     node_brk := 3, rec_brk := 3\<rparr>"

lemma small_tree_represents: "represents small_tree (NodeP 0) [10 \<mapsto> 1, 20 \<mapsto> 2, 30 \<mapsto> 3]"
proof -
  define t where "t = Nd 0 [20] [Lf 1 [10] [RecP 0] (NodeP 2), Lf 2 [20, 30] [RecP 1, RecP 2] Null]"
  have start: "good (bpt_start 3 (\<lambda>_. True)) [] [] \<and> recs_good (bpt_start 3 (\<lambda>_. True)) [] []"
    using represents_start [of 3 "\<lambda>_. True"]
    by (auto simp: represents_def tree_rep_def good_def recs_good_def bpt_start_def)
  then have "good small_tree (cells Null t) []"
    by (simp add: good_def t_def small_tree_def node_rel_def bpt_start_def)
  moreover have "root_shape (order small_tree) 1 t"
    by (simp add: root_shape_def t_def small_tree_def bpt_start_def cut_def)
  moreover have "ordered None t None" "linked (leafseq t) Null" by (simp_all add: t_def)
  ultimately have "tree_rep small_tree (NodeP 0) [(10, 0), (20, 1), (30, 2)]"
    unfolding tree_rep_def tree_ok_def by (auto intro!: exI [of _ t]) (auto simp: t_def)
  moreover have "recs_good small_tree [0, 1, 2] []"
    using start by (simp add: recs_good_def small_tree_def rec_val_def bpt_start_def)
  moreover have "[10 \<mapsto> 1, 20 \<mapsto> 2, 30 \<mapsto> 3] = (\<lambda>k :: u64. Option.bind (map_of [(10, 0), (20, 1), (30, 2)] k) (rec_val small_tree))"
    by (rule ext) (simp add: rec_val_def small_tree_def)
  ultimately show ?thesis
    unfolding represents_def by (intro exI [of _ "[(10, 0), (20, 1), (30, 2)]"] exI [of _ "[]"]) simp
qed

lemma small_tree_leaf:
  "find_leaf small_tree (NodeP 0) key = Some (NodeP (if 20 \<le> key then 2 else 1))"
  by (simp add: find_leaf_def find_leaf_loop.simps small_tree_def node_at_def scan.simps rd_def numeral_2_eq_2)

theorem find_range_exact_witness:
  "represents small_tree (NodeP 0) [10 \<mapsto> 1, 20 \<mapsto> 2, 30 \<mapsto> 3] \<and>
   (\<exists>ka pa n. find_range small_tree (NodeP 0) 10 25 [0, 0] [Null, Null] = Some (ka, pa, n) \<and> take n ka = [10, 20]) \<and>
   (\<exists>ka pa. find_range small_tree (NodeP 0) 15 45 [0, 0] [Null, Null] = Some (ka, pa, 0))"
proof -
  let ?m = "[10 \<mapsto> 1, 20 \<mapsto> 2, 30 \<mapsto> 3] :: u64 \<Rightarrow> u64 option"
  note r = small_tree_represents
  have k: "{k :: u64. 10 \<le> k \<and> k \<le> 25 \<and> ?m k \<noteq> None} = {10, 20}"
    "{k :: u64. 15 \<le> k \<and> k \<le> 45 \<and> ?m k \<noteq> None} = {20, 30}" by (auto split: if_splits)
  have "\<not> leaf_below small_tree (NodeP 0) 10" "leaf_below small_tree (NodeP 0) 15"
    by (simp_all add: leaf_below_def small_tree_leaf) (simp_all add: small_tree_def)
  then show ?thesis
    using find_range_exact [OF r, of 10 25 "[0, 0]" "[Null, Null]"] find_range_exact [OF r, of 15 45 "[0, 0]" "[Null, Null]"] r
    unfolding k by auto
qed

text \<open>
  C15. In a non-empty tree that represents a map every search path has the same length, the height
  that \<open>height\<close> reports and \<open>path_to_root\<close> walks back, and the map has at least two to the
  height entries: searches are logarithmic in the number of keys.
\<close>
theorem height_logarithmic:
  assumes "represents s root m" and "root \<noteq> Null"
  shows "\<exists>H. height s root = Some H \<and> 2 ^ H \<le> card (dom m) \<and>
    (\<forall>key. \<exists>leaf. find_leaf s root key = Some leaf \<and> path_to_root s root leaf = Some H)"
proof -
  from assms(1) obtain es rl where t: "tree_rep s root es" and r: "recs_good s (map snd es) rl"
    and m: "m = (\<lambda>k. Option.bind (map_of es k) (rec_val s))" by (auto simp: represents_def)
  from t assms(2) obtain tr where tr: "root = ptr_of tr" "tree_ok s tr" "kvs tr = map (map_prod id RecP) es"
    by (auto simp: tree_rep_def)
  obtain fl H where g: "good s (cells Null tr) fl" and sh: "root_shape (order s) H tr"
    using tr(2) by (auto simp: tree_ok_def)
  have "height s root = Some H"
    using height_loop_tree [OF g order.refl, of H "[]" 0] sh by (simp add: height_def tr(1) sub_shape_def)
  moreover have "card (dom m) = length es"
    using tree_rep_sorted [OF t] represents_dom [OF t r m] distinct_card [of "map fst es"]
    by (simp add: strict_sorted_iff)
  then have "2 ^ H \<le> card (dom m)"
    using root_entries [OF good_order [OF g] sh] by (simp add: tr(3))
  moreover have "\<exists>leaf. find_leaf s root key = Some leaf \<and> path_to_root s root leaf = Some H" for key
  proof -
    obtain ad ks rs l fs fl' where fl: "find_leaf s (ptr_of tr) key = Some (NodeP ad)"
      and p: "tr = plug (Lf ad ks rs l) fs" and g': "good s (cells Null tr) fl'"
      and c: "ctx_shape (order s) 0 fs"
      by (rule tree_leaf [OF tr(2), where key = key])
    have "good s (cells (par_of fs) (Lf ad ks rs l) @ ctx_cells (ptr_of (Lf ad ks rs l)) fs @ []) fl'"
      using mset_cells_plug [of "Lf ad ks rs l" fs] by (intro good_perm [OF g']) (simp add: p)
    from path_loop_tree [OF this, of 0] have "path_to_root s root (NodeP ad) = Some (length fs)"
      by (simp add: path_to_root_def tr(1) p)
    moreover have "H = length fs"
      using sh unfolding p plug_shape [OF ctx_shape_frames [OF c]]
      by (auto simp: sub_shape_def root_shape_def split: if_splits)
    ultimately show ?thesis using fl tr(1) by auto
  qed
  ultimately show ?thesis by blast
qed

theorem height_logarithmic_witness:
  "\<exists>s root H. represents s root [5 \<mapsto> 7] \<and> root \<noteq> Null \<and> height s root = Some H \<and> 2 ^ H \<le> (1 :: nat)"
proof -
  obtain root s where r: "represents s root [5 \<mapsto> 7]" "root \<noteq> Null"
    using insert_bpt_represents [OF represents_start [of 4 "\<lambda>_. True"], of 5 7] by auto
  show ?thesis using height_logarithmic [OF r] r by auto
qed

end
