(* ===== verification/Btree_Print.thy ===== *)
theory Btree_Print
  imports Btree_Range
begin

text \<open>
  \<open>print_leaves\<close> of the B+ tree: it walks down to the leftmost leaf and then along the leaf links.
  The output is a list of tokens; the model has the flag \<open>verbose_output\<close> as an argument.
\<close>

section \<open>The code\<close>

datatype leaf_token = Empty_tree | Key_tok u64 | Ptr_tok ptr | Bar | Newline

partial_function (option) leftmost_loop :: "bpt \<Rightarrow> ptr \<Rightarrow> ptr option" where
  "leftmost_loop s c = do {
     nd \<leftarrow> node_at s c;
     if is_leaf nd then Some c
     else do { p \<leftarrow> rd (pointers nd) 0; leftmost_loop s p } }"

fun print_keys :: "bool \<Rightarrow> node \<Rightarrow> nat \<Rightarrow> leaf_token list option" where
  "print_keys verbose nd 0 = Some []"
| "print_keys verbose nd (Suc i) = do {
     out \<leftarrow> print_keys verbose nd i;
     ps \<leftarrow> (if verbose then map_option (\<lambda>p. [Ptr_tok p]) (rd (pointers nd) i) else Some []);
     k \<leftarrow> rd (keys nd) i;
     Some (out @ ps @ [Key_tok k]) }"

partial_function (option) leaves_loop :: "bool \<Rightarrow> bpt \<Rightarrow> ptr \<Rightarrow> leaf_token list \<Rightarrow> leaf_token list option" where
  "leaves_loop verbose s c out = do {
     nd \<leftarrow> node_at s c;
     ks \<leftarrow> print_keys verbose nd (num_keys nd);
     l \<leftarrow> rd (pointers nd) (order s - 1);
     let out = out @ ks @ (if verbose then [Ptr_tok l] else []);
     if l \<noteq> Null then leaves_loop verbose s l (out @ [Bar])
     else Some (out @ [Newline]) }"

definition print_leaves :: "bool \<Rightarrow> bpt \<Rightarrow> ptr \<Rightarrow> leaf_token list option" where
  "print_leaves verbose s root =
    (if root = Null then Some [Empty_tree]
     else do { c \<leftarrow> leftmost_loop s root; leaves_loop verbose s c [] })"

section \<open>Proofs\<close>

lemma leftmost_loop_tree:
  assumes "good s xs fl" and "set (cells p t) \<subseteq> set xs" and "sub_shape (order s) h fs t"
  shows "leftmost_loop s (ptr_of t) = Some (NodeP (addr (hd (leaves t)))) \<and> leaves t \<noteq> []"
  using assms(2,3)
proof (induction t arbitrary: p h fs)
  case (Lf a ks rs l)
  then obtain nd where "nodes s a = Some nd" "node_rel (order s) nd (Cell p True ks rs (Some l))"
    using good_get [OF assms(1), of a "Cell p True ks rs (Some l)"] by auto
  then show ?case by (simp add: leftmost_loop.simps node_rel_def)
next
  case (Nd a ks cs)
  then have mem: "(a, Cell p False ks (map ptr_of cs) None) \<in> set xs" by simp
  obtain nd where nd: "nodes s a = Some nd" "node_rel (order s) nd (Cell p False ks (map ptr_of cs) None)"
    by (rule good_get [OF assms(1) mem])
  have sh: "length cs = Suc (length ks)" "\<forall>c \<in> set cs. shape (order s) (h - 1) c"
    using Nd.prems(2) by (auto simp: sub_shape_def root_shape_def split: if_splits)
  then obtain c cs' where cs: "cs = c # cs'" by (cases cs) auto
  have "leftmost_loop s (ptr_of c) = Some (NodeP (addr (hd (leaves c)))) \<and> leaves c \<noteq> []"
    using Nd.prems(1) sh(2)
    by (intro Nd.IH [of c "NodeP a" "h - 1" "[Frame a [] [] [] []]"]) (auto simp: cs sub_shape_def)
  moreover have "rd (pointers nd) 0 = Some (ptr_of c)"
    using node_rel_child [OF nd(2), of 0] by (simp add: cs)
  moreover have "\<not> is_leaf nd" using nd(2) by (simp add: node_rel_def)
  ultimately show ?case using nd(1) by (simp add: leftmost_loop.simps cs)
qed

lemma print_keys_eq:
  assumes rel: "node_rel ord nd (Cell p True ks rs l)" and "i \<le> length ks"
  shows "print_keys False nd i = Some (map Key_tok (take i ks))"
  using assms(2)
proof (induction i)
  case (Suc i)
  have "take (length ks) (keys nd) = ks" "length ks \<le> length (keys nd)"
    using rel by (auto simp: node_rel_def)
  then have "rd (keys nd) i = Some (ks ! i)"
    using rd_take [of i "length ks" "keys nd"] Suc.prems by simp
  with Suc show ?case by (simp add: take_Suc_conv_app_nth)
qed simp

primrec token_keys :: "leaf_token list \<Rightarrow> u64 list" where
  "token_keys [] = []"
| "token_keys (t # ts) = (case t of Key_tok k \<Rightarrow> k # token_keys ts | _ \<Rightarrow> token_keys ts)"

lemma token_keys_append [simp]: "token_keys (xs @ ys) = token_keys xs @ token_keys ys"
  by (induction xs) (auto split: leaf_token.split)

lemma token_keys_map [simp]: "token_keys (map Key_tok ks) = ks"
  by (induction ks) auto

lemma leaves_loop_leaves:
  assumes "\<forall>l \<in> set ls. \<exists>a ks rs lk q nd. l = Lf a ks rs lk \<and> length rs = length ks \<and>
      nodes s a = Some nd \<and> node_rel (order s) nd (Cell q True ks rs (Some lk))"
    and "linked (map (\<lambda>t. (addr t, link_of t)) ls) Null" and "3 \<le> order s" and "ls \<noteq> []"
  shows "\<exists>out'. leaves_loop False s (NodeP (addr (hd ls))) out = Some (out' @ [Newline]) \<and>
    token_keys out' = token_keys out @ map fst (concat (map kvs ls)) \<and>
    count_list out' Bar = count_list out Bar + (length ls - 1)"
  using assms
proof (induction ls arbitrary: out)
  case (Cons t ls)
  from Cons.prems(1) obtain a ks rs lk q nd where t: "t = Lf a ks rs lk" "length rs = length ks"
    "nodes s a = Some nd" "node_rel (order s) nd (Cell q True ks rs (Some lk))" by auto
  have pk: "print_keys False nd (num_keys nd) = Some (map Key_tok ks)"
    using print_keys_eq [OF t(4), of "length ks"] t(4) by (simp add: node_rel_def)
  have link: "rd (pointers nd) (order s - 1) = Some lk"
    using t(4) Cons.prems(3) by (auto simp: node_rel_def rd_def)
  have nb: "count_list (map Key_tok ks) Bar = 0" by (induction ks) auto
  show ?case
  proof (cases ls)
    case Nil
    then have "lk = Null" using Cons.prems(2) t(1) by simp
    with Nil t pk link nb show ?thesis
      by (subst leaves_loop.simps) (auto intro!: exI [of _ "out @ map Key_tok ks"])
  next
    case (Cons u us)
    have lk: "lk = NodeP (addr u)" "linked (map (\<lambda>t. (addr t, link_of t)) ls) Null"
      using Cons.prems(2) Cons t(1) by (auto simp: first_leaf_def)
    obtain out' where out': "leaves_loop False s (NodeP (addr (hd ls))) ((out @ map Key_tok ks) @ [Bar]) = Some (out' @ [Newline])"
      "token_keys out' = token_keys ((out @ map Key_tok ks) @ [Bar]) @ map fst (concat (map kvs ls))"
      "count_list out' Bar = count_list ((out @ map Key_tok ks) @ [Bar]) Bar + (length ls - 1)"
      using Cons.IH [OF _ lk(2) Cons.prems(3), of "(out @ map Key_tok ks) @ [Bar]"] Cons.prems(1) Cons by auto
    have "leaves_loop False s (NodeP (addr (hd (t # ls)))) out = Some (out' @ [Newline])"
      using t pk link lk(1) out'(1) Cons by (subst leaves_loop.simps) simp
    then show ?thesis using out'(2,3) t(1,2) nb Cons by auto
  qed
qed simp

text \<open>
  C24. On a tree that represents a map, \<open>print_leaves\<close> ends; it prints the keys of the map in
  ascending order, each once, with a bar between two leaves.
\<close>
theorem print_leaves_ascending:
  assumes "represents s root m" and "root \<noteq> Null"
  shows "\<exists>out. print_leaves False s root = Some (out @ [Newline]) \<and> token_keys out = sorted_list_of_set (dom m)"
proof -
  from assms(1) obtain es rl where t: "tree_rep s root es" and r: "recs_good s (map snd es) rl"
    and m: "m = (\<lambda>k. Option.bind (map_of es k) (rec_val s))" by (auto simp: represents_def)
  from t assms(2) obtain tr where tr: "root = ptr_of tr" "tree_ok s tr" "kvs tr = map (map_prod id RecP) es"
    by (auto simp: tree_rep_def)
  obtain fl H where g: "good s (cells Null tr) fl" and sh: "root_shape (order s) H tr"
    and lk: "linked (leafseq tr) Null" using tr(2) by (auto simp: tree_ok_def)
  have lm: "leftmost_loop s root = Some (NodeP (addr (hd (leaves tr))))" "leaves tr \<noteq> []"
    using leftmost_loop_tree [OF g order.refl, of H "[]"] sh by (auto simp: tr(1) sub_shape_def)
  obtain out where out: "leaves_loop False s (NodeP (addr (hd (leaves tr)))) [] = Some (out @ [Newline])"
    "token_keys out = map fst (kvs tr)"
    using leaves_loop_leaves [of "leaves tr" s "[]"] root_leaves [OF g sh] lk lm(2) good_order [OF g]
    by (auto simp: leafseq_leaves kvs_leaves [symmetric])
  have "map fst es = sorted_list_of_set (dom m)"
    using tree_rep_sorted [OF t] sorted_list_of_set.idem_if_sorted_distinct [of "map fst es"]
    by (simp add: represents_dom [OF t r m] strict_sorted_iff)
  then have "token_keys out = sorted_list_of_set (dom m)" by (simp add: out(2) tr(3) comp_def)
  with lm(1) out(1) assms(2) show ?thesis by (simp add: print_leaves_def)
qed

theorem print_leaves_ascending_witness:
  "\<exists>s root out. represents s root [5 \<mapsto> 7, 3 \<mapsto> 1] \<and> print_leaves False s root = Some (out @ [Newline]) \<and>
     token_keys out = [3, 5]"
proof -
  obtain root s where r: "represents s root [5 \<mapsto> 7]"
    using insert_bpt_represents [OF represents_start [of 4 "\<lambda>_. True"], of 5 7] by auto
  obtain root' s' where r': "represents s' root' [5 \<mapsto> 7, 3 \<mapsto> 1]" "root' \<noteq> Null"
    using insert_bpt_represents [OF r, of 3 1] by auto
  have "sorted_list_of_set (dom [5 :: u64 \<mapsto> 7 :: u64, 3 \<mapsto> 1]) = [3, 5]" by simp
  with print_leaves_ascending [OF r'] r'(1) show ?thesis by auto
qed

end
