(* ===== verification/Page_Memory.thy ===== *)
theory Page_Memory
  imports Bench_Prelude
begin

text \<open>
  The memory of the page-filling workloads: anonymous mappings of \<open>int\<close> cells by address, the
  image of a mapping while a fill loop writes it from its first cell on, and the loop itself.
  A store outside every mapping is a segmentation fault, \<open>None\<close> here.
\<close>

type_synonym memory = "u64 \<Rightarrow> u32 option"

section \<open>Mappings\<close>

definition MAP_FAILED :: u64 where
  "MAP_FAILED = - 1"

definition in_map :: "u64 \<Rightarrow> u64 \<Rightarrow> u64 \<Rightarrow> bool" where
  "in_map base len a \<longleftrightarrow> a - base < len \<and> unat (a - base) mod 4 = 0"

definition map_zero :: "u64 \<Rightarrow> u64 \<Rightarrow> memory \<Rightarrow> memory" where
  "map_zero base len m = (\<lambda>a. if in_map base len a then Some 0 else m a)"

text \<open>The memory after the first \<open>k\<close> cells of a new mapping are written; cell \<open>i\<close> receives \<open>f i\<close>.\<close>

definition filled :: "u64 \<Rightarrow> u64 \<Rightarrow> (nat \<Rightarrow> u32) \<Rightarrow> nat \<Rightarrow> memory \<Rightarrow> memory" where
  "filled base len f k m = (\<lambda>a. if in_map base len a
     then Some (if unat (a - base) div 4 < k then f (unat (a - base) div 4) else 0) else m a)"

lemma filled_0: "filled base len f 0 m = map_zero base len m"
  by (simp add: filled_def map_zero_def fun_eq_iff)

lemma unat_offset: "k < unat (len :: u64) div 4 \<Longrightarrow> unat (4 * word_of_nat k :: u64) = 4 * k"
proof -
  assume k: "k < unat len div 4"
  then have "4 * k < 18446744073709551616" using unat_less_64 [of len] by linarith
  then have "unat (word_of_nat (4 * k) :: u64) = 4 * k" by (simp only: unat_of_nat take_bit_eq_mod) simp
  then show ?thesis by (simp only: of_nat_mult of_nat_numeral)
qed

lemma in_map_cell: "k < unat len div 4 \<Longrightarrow> in_map base len (base + 4 * word_of_nat k)"
proof -
  assume k: "k < unat len div 4"
  then have "4 * k < unat len" by linarith
  then show ?thesis using unat_offset [OF k] by (simp add: in_map_def word_less_nat_alt)
qed

lemma in_map_iff:
  assumes "4 dvd unat len"
  shows "in_map base len a \<longleftrightarrow> (\<exists>i < unat len div 4. a = base + 4 * word_of_nat i)"
proof
  assume "in_map base len a"
  then have a: "a - base < len" "unat (a - base) mod 4 = 0" by (auto simp: in_map_def)
  define i where "i = unat (a - base) div 4"
  have u: "unat (a - base) = 4 * i" using a(2) by (auto simp: i_def)
  have "unat (a - base) < unat len" using a(1) by (simp add: word_less_nat_alt)
  with u assms have i: "i < unat len div 4" by (auto simp: dvd_def)
  have "a - base = 4 * word_of_nat i" by (simp only: word_unat_eq_iff u unat_offset [OF i])
  with i show "\<exists>i < unat len div 4. a = base + 4 * word_of_nat i" by (auto simp: algebra_simps)
qed (auto simp: in_map_cell)

lemma filled_at:
  assumes "k < unat len div 4"
  shows "filled base len f n m (base + 4 * word_of_nat k) = Some (if k < n then f k else 0)"
  using unat_offset [OF assms] in_map_cell [OF assms, of base] by (simp add: filled_def)

lemma filled_outside: "\<not> in_map base len a \<Longrightarrow> filled base len f n m a = m a"
  by (simp add: filled_def)

lemma filled_Suc:
  assumes "k < unat len div 4"
  shows "(filled base len f k m)(base + 4 * word_of_nat k \<mapsto> f k) = filled base len f (Suc k) m"
    (is "?l = ?r")
proof
  fix a
  show "?l a = ?r a"
  proof (cases "a = base + 4 * word_of_nat k")
    case True
    then show ?thesis using filled_at [OF assms, of base f "Suc k"] by simp
  next
    case False
    have "\<not> (unat (a - base) mod 4 = 0 \<and> unat (a - base) div 4 = k)"
    proof
      assume "unat (a - base) mod 4 = 0 \<and> unat (a - base) div 4 = k"
      then have "unat (a - base) = 4 * k" by (metis mult_div_mod_eq add.right_neutral)
      then have "a - base = 4 * word_of_nat k" by (simp only: word_unat_eq_iff unat_offset [OF assms])
      with False show False by (simp add: algebra_simps)
    qed
    with False show ?thesis by (auto simp: filled_def in_map_def less_Suc_eq)
  qed
qed

lemma idx_less_iff:
  "k \<le> unat (len :: u64) div 4 \<Longrightarrow> (word_of_nat k :: u64) < len div 4 \<longleftrightarrow> k < unat len div 4"
proof -
  assume "k \<le> unat len div 4"
  then have "k < 18446744073709551616" using unat_less_64 [of len] by linarith
  then have "unat (word_of_nat k :: u64) = k" by (simp add: unat_of_nat take_bit_eq_mod)
  then show ?thesis by (simp add: word_less_nat_alt unat_div)
qed

section \<open>The size of a mapping and the values written\<close>

definition mapping_size :: "u32 \<Rightarrow> u64" where
  "mapping_size n = 1024 * 4 * scast n"

definition fill_value :: "u64 \<Rightarrow> u32 \<Rightarrow> u32" where
  "fill_value i m = ucast (i * scast m)"

definition ints :: "u32 \<Rightarrow> nat" where
  "ints n = unat (mapping_size n) div 4"

lemma uint_mapping_size: "uint (mapping_size n) = 4096 * sint n mod 18446744073709551616"
proof -
  have "mapping_size n = word_of_int (4096 * sint n)"
    by (simp add: mapping_size_def)
  then show ?thesis by (simp only: uint_word_of_int) simp
qed

lemma numeral_le_unat: "numeral k \<le> uint w \<Longrightarrow> numeral k \<le> unat w"
  by (metis of_nat_le_iff of_nat_numeral uint_nat)

lemma sint_32_bounds: "- 2147483648 \<le> sint (n :: u32)" "sint n < 2147483648"
  using sint_ge [of n] sint_less [of n] by simp_all

lemma mapping_size_nonneg: "0 \<le> sint n \<Longrightarrow> unat (mapping_size n) = 4096 * nat (sint n)"
  using uint_mapping_size [of n] sint_32_bounds [of n]
  by (simp add: nat_mult_distrib flip: nat_uint_eq)

lemma mapping_size_neg:
  assumes "sint n < 0" shows "uint (mapping_size n) = 18446744073709551616 + 4096 * sint n"
proof -
  have "(18446744073709551616 + 4096 * sint n) mod 18446744073709551616 = 18446744073709551616 + 4096 * sint n"
    using sint_32_bounds [of n] assms by (intro mod_pos_pos_trivial) linarith+
  then show ?thesis by (simp add: uint_mapping_size)
qed

lemma mapping_size_dvd: "4096 dvd unat (mapping_size n)"
proof -
  have "(4096 :: int) dvd 4096 * sint n mod 18446744073709551616" by (simp add: dvd_mod)
  then have "4096 dvd uint (mapping_size n)" by (simp add: uint_mapping_size)
  then show ?thesis by (metis int_dvd_int_iff of_nat_numeral uint_nat)
qed

lemma fill_value_nat: "fill_value (word_of_nat i) m = word_of_nat i * m"
proof -
  have "(ucast (word_of_int k :: u64) :: u32) = word_of_int k" for k
    by transfer (simp add: take_bit_take_bit)
  then have "(ucast (word_of_int (int i * sint m) :: u64) :: u32) = word_of_int (int i * sint m)" .
  then show ?thesis by (simp add: fill_value_def)
qed

lemma mapping_size_dvd4: "4 dvd unat (mapping_size n)"
  using mapping_size_dvd [of n] by (rule dvd_trans [rotated]) simp

lemma ints_nonneg: "0 \<le> sint n \<Longrightarrow> ints n = 1024 * nat (sint n)"
  by (simp add: ints_def mapping_size_nonneg)

lemma ints_pos:
  assumes "n \<noteq> 0" shows "1024 \<le> ints n"
proof -
  have "unat (mapping_size n) \<noteq> 0"
  proof (cases "0 \<le> sint n")
    case True
    moreover have "sint n \<noteq> 0" using assms signed_word_eqI [of n 0] by auto
    ultimately show ?thesis by (simp add: mapping_size_nonneg)
  next
    case False
    then have "uint (mapping_size n) \<noteq> 0" using mapping_size_neg [of n] sint_32_bounds [of n] by simp
    then show ?thesis by (auto simp: unsigned_eq_0_iff)
  qed
  then have "4096 \<le> unat (mapping_size n)" by (intro dvd_imp_le mapping_size_dvd) simp
  then show ?thesis by (simp add: ints_def)
qed

lemma u32_of_nat_inj:
  assumes "(word_of_nat a :: u32) = word_of_nat b" "a < 2 ^ 32" "b < 2 ^ 32" shows "a = b"
  using arg_cong [OF assms(1), of unat] assms(2,3) by (simp add: unat_of_nat take_bit_eq_mod)

section \<open>Fill loops\<close>

text \<open>
  \<open>while (i < size / sizeof (int)) { *(addr + i) = v; i++; }\<close> where the value may come from a
  generator with state, such as \<open>rand\<close>.
\<close>

function fill_loop :: "(u64 \<Rightarrow> 'g \<Rightarrow> u32 \<times> 'g) \<Rightarrow> u64 \<Rightarrow> u64 \<Rightarrow> u64 \<Rightarrow> memory \<Rightarrow> 'g \<Rightarrow> (memory \<times> 'g) option" where
  "fill_loop gen base len i m g =
    (if i < len div 4 then
       (case m (base + 4 * i) of
          None \<Rightarrow> None
        | Some old \<Rightarrow> fill_loop gen base len (i + 1) (m(base + 4 * i \<mapsto> fst (gen i g))) (snd (gen i g)))
     else Some (m, g))"
  by pat_completeness auto
termination
proof (relation "measure (\<lambda>(gen, base, len, i, m, g). unat (len div 4) - unat i)")
  fix i len :: u64 and gen :: "u64 \<Rightarrow> 'g \<Rightarrow> u32 \<times> 'g" and base m g old
  assume "i < len div 4"
  then have "unat i < unat (len div 4)" by (simp add: word_less_nat_alt)
  moreover from this have "unat (i + 1) = Suc (unat i)"
    using unat_less_64 [of "len div 4"] by (simp add: unat_word_ariths)
  ultimately show "((gen, base, len, i + 1, m(base + 4 * i \<mapsto> fst (gen i g)), snd (gen i g)), gen, base, len, i, m, g)
      \<in> measure (\<lambda>(gen, base, len, i, m, g). unat (len div 4) - unat i)"
    by simp
qed simp

declare fill_loop.simps [simp del]

primrec gen_state :: "(u64 \<Rightarrow> 'g \<Rightarrow> u32 \<times> 'g) \<Rightarrow> 'g \<Rightarrow> nat \<Rightarrow> 'g" where
  "gen_state gen g 0 = g"
| "gen_state gen g (Suc k) = snd (gen (word_of_nat k) (gen_state gen g k))"

definition gen_value :: "(u64 \<Rightarrow> 'g \<Rightarrow> u32 \<times> 'g) \<Rightarrow> 'g \<Rightarrow> nat \<Rightarrow> u32" where
  "gen_value gen g k = fst (gen (word_of_nat k) (gen_state gen g k))"

lemma const_gen: "gen_state (\<lambda>i c. (v i, c)) c k = c" "gen_value (\<lambda>i c. (v i, c)) c k = v (word_of_nat k)"
proof -
  show "gen_state (\<lambda>i c. (v i, c)) c k = c" by (induction k) simp_all
  then show "gen_value (\<lambda>i c. (v i, c)) c k = v (word_of_nat k)" by (simp add: gen_value_def)
qed

lemma fill_loop_from:
  assumes "k \<le> unat len div 4"
  shows "fill_loop gen base len (word_of_nat k) (filled base len (gen_value gen g) k m) (gen_state gen g k) =
    Some (filled base len (gen_value gen g) (unat len div 4) m, gen_state gen g (unat len div 4))"
  using assms
proof (induction "unat len div 4 - k" arbitrary: k)
  case 0
  then have "k = unat len div 4" by simp
  then show ?case using idx_less_iff [of k len] by (subst fill_loop.simps) simp
next
  case (Suc d)
  then have k: "k < unat len div 4" by simp
  have "fill_loop gen base len (word_of_nat (Suc k)) (filled base len (gen_value gen g) (Suc k) m)
      (gen_state gen g (Suc k)) =
    Some (filled base len (gen_value gen g) (unat len div 4) m, gen_state gen g (unat len div 4))"
    using Suc k by (intro Suc.hyps(1)) simp_all
  then show ?case
    using idx_less_iff [of k len] k filled_at [OF k] filled_Suc [OF k, of base "gen_value gen g" m]
    by (subst fill_loop.simps) (simp add: gen_value_def add.commute)
qed

lemma fill_loop_filled:
  "fill_loop gen base len 0 (map_zero base len m) g =
    Some (filled base len (gen_value gen g) (unat len div 4) m, gen_state gen g (unat len div 4))"
  using fill_loop_from [of 0 len gen base g m] by (simp add: filled_0)

section \<open>Pages\<close>

text \<open>A page holds 1024 \<open>int\<close>s; two pages can be merged when their contents are equal.\<close>

definition page_at :: "memory \<Rightarrow> u64 \<Rightarrow> nat \<Rightarrow> u32 option list" where
  "page_at m base k = map (\<lambda>j. m (base + 4 * word_of_nat (1024 * k + j))) [0..<1024]"

lemma page_at_filled:
  assumes "1024 * Suc k \<le> unat len div 4"
  shows "page_at (filled base len f (unat len div 4) m) base k = map (\<lambda>j. Some (f (1024 * k + j))) [0..<1024]"
proof -
  have "1024 * k + j < unat len div 4" if "j < 1024" for j using that assms by simp
  then have "filled base len f (unat len div 4) m (base + 4 * word_of_nat (1024 * k + j)) = Some (f (1024 * k + j))"
    if "j < 1024" for j using that filled_at [of "1024 * k + j" len base f "unat len div 4" m] by simp
  then show ?thesis unfolding page_at_def by (intro map_cong) simp_all
qed

lemma page_eq_iff:
  "map (\<lambda>j. Some (f (1024 * k + j))) [0..<1024] = map (\<lambda>j. Some (f' (1024 * k' + j))) [0..<1024] \<longleftrightarrow>
   (\<forall>j < 1024. f (1024 * k + j) = f' (1024 * k' + j))"
  by (simp add: list_eq_iff_nth_eq)

end
