(* ===== verification/C_Strings.thy ===== *)
theory C_Strings
  imports Bench_Prelude
begin

text \<open>
  C strings as lists of characters without the final zero: the character classes, numbers printed
  in decimal, and the library functions that read them.
\<close>

section \<open>The library function \<open>atoi\<close>\<close>

text \<open>
  White space is skipped, an optional sign is read, then digits up to the first other
  character.  The C standard leaves a value that is no \<open>int\<close> undefined: \<open>None\<close>.
\<close>

definition is_space :: "char \<Rightarrow> bool" where
  "is_space c \<longleftrightarrow> of_char c = (32 :: nat) \<or> 9 \<le> (of_char c :: nat) \<and> of_char c \<le> (13 :: nat)"

definition is_digit :: "char \<Rightarrow> bool" where
  "is_digit c \<longleftrightarrow> 48 \<le> (of_char c :: nat) \<and> of_char c \<le> (57 :: nat)"

fun digits_val :: "nat \<Rightarrow> string \<Rightarrow> nat" where
  "digits_val n [] = n"
| "digits_val n (c # cs) = (if is_digit c then digits_val (10 * n + (of_char c - 48)) cs else n)"

fun signed_val :: "string \<Rightarrow> int" where
  "signed_val [] = 0"
| "signed_val (c # cs) =
    (if c = CHR ''-'' then - int (digits_val 0 cs)
     else if c = CHR ''+'' then int (digits_val 0 cs)
     else int (digits_val 0 (c # cs)))"

definition atoi :: "string \<Rightarrow> u32 option" where
  "atoi s = (let v = signed_val (dropWhile is_space s) in
     if - (2 ^ 31) \<le> v \<and> v < 2 ^ 31 then Some (word_of_int v) else None)"

section \<open>Numbers printed and read back\<close>

definition digit_char :: "nat \<Rightarrow> char" where
  "digit_char d = char_of (48 + d)"

fun show_nat :: "nat \<Rightarrow> string" where
  "show_nat n = (if n < 10 then [digit_char n] else show_nat (n div 10) @ [digit_char (n mod 10)])"

declare show_nat.simps [simp del]

definition show_int :: "int \<Rightarrow> string" where
  "show_int v = (if v < 0 then CHR ''-'' # show_nat (nat (- v)) else show_nat (nat v))"

lemma of_digit_char [simp]: "d < 10 \<Longrightarrow> of_char (digit_char d) = 48 + d"
  by (simp add: digit_char_def of_char_of)

lemma digit_char_is_digit [simp]: "d < 10 \<Longrightarrow> is_digit (digit_char d)"
  by (simp add: is_digit_def)

lemma digits_val_append:
  "list_all is_digit s \<Longrightarrow> digits_val n (s @ t) = digits_val (digits_val n s) t"
  by (induction s arbitrary: n) auto

lemma show_nat_digits: "list_all is_digit (show_nat n) \<and> show_nat n \<noteq> [] \<and> digits_val 0 (show_nat n) = n"
proof (induction n rule: show_nat.induct)
  case (1 n)
  show ?case
  proof (cases "n < 10")
    case False
    with 1 have "digits_val 0 (show_nat (n div 10) @ [digit_char (n mod 10)]) = n"
      by (simp add: digits_val_append)
    with False 1 show ?thesis by (subst (1 2 3) show_nat.simps) simp
  qed (simp add: show_nat.simps)
qed

lemma digits_val_stop: "rest = [] \<or> \<not> is_digit (hd rest) \<Longrightarrow> digits_val n rest = n"
  by (cases rest) auto

lemma digits_val_show: "rest = [] \<or> \<not> is_digit (hd rest) \<Longrightarrow> digits_val 0 (show_nat n @ rest) = n"
  by (simp add: digits_val_append show_nat_digits digits_val_stop)

lemma show_nat_Cons: "\<exists>c cs. show_nat n = c # cs \<and> is_digit c"
  using show_nat_digits [of n] by (cases "show_nat n") auto

lemma is_digit_not_special:
  assumes "is_digit c" shows "\<not> is_space c" "c \<noteq> CHR ''-''" "c \<noteq> CHR ''+''"
  using assms by (auto simp: is_digit_def is_space_def)

lemma signed_val_show:
  assumes "rest = [] \<or> \<not> is_digit (hd rest)"
  shows "signed_val (dropWhile is_space (show_int v @ rest)) = v"
proof (cases "v < 0")
  case True
  then show ?thesis using assms by (simp add: show_int_def is_space_def digits_val_show)
next
  case False
  obtain c cs where c: "show_nat (nat v) = c # cs" "is_digit c" using show_nat_Cons by blast
  have "digits_val 0 (c # cs @ rest) = nat v" using digits_val_show [OF assms, of "nat v"] c(1) by simp
  with c False is_digit_not_special [OF c(2)] show ?thesis by (simp add: show_int_def)
qed

lemma atoi_show:
  assumes "list_all is_space ws" and "rest = [] \<or> \<not> is_digit (hd rest)" and "- (2 ^ 31) \<le> v" "v < 2 ^ 31"
  shows "atoi (ws @ show_int v @ rest) = Some (word_of_int v)"
proof -
  have "dropWhile is_space (ws @ show_int v @ rest) = dropWhile is_space (show_int v @ rest)"
    using assms(1) by (simp add: dropWhile_append2 list_all_iff)
  with signed_val_show [OF assms(2), of v] assms(3,4) show ?thesis by (simp add: atoi_def)
qed

end
