(* ===== verification/Input_Pages.thy ===== *)
theory Input_Pages
  imports Page_Memory C_Strings
begin

text \<open>
  The memory-pinning workload \<open>basic-inputpages-pin.c\<close>: a process that maps the number of
  pages given on its command line, writes \<open>i * multiplier\<close> into the \<open>i\<close>-th \<open>int\<close> of the
  mapping, and then sleeps for ever so that its pages can be scanned and merged.
  \<open>main_step\<close> executes one statement of \<open>main\<close>; a run is an iteration of it.  The kernel's
  \<open>mmap\<close> and the clock are parameters; every library and system call of the program is an
  event of the trace.
\<close>

section \<open>The program\<close>

record os =
  os_mmap :: "u64 \<Rightarrow> u64"
  os_time :: u64

datatype event = Mlockall | Printf_usage "string option" | Srand u32 | Mmap u64
  | Printf_mapped u64 | Printf_populated | Sleep nat

datatype pc = At_main | At_argc | At_multiplier | At_pages | At_srand | At_size | At_mmap
  | At_mapped | At_fill | At_populated | At_sleep | Exited nat | Faulted | Undefined

text \<open>
  The locals of \<open>main\<close>, the memory of the mapping by the address of each \<open>int\<close>, and the calls
  made so far.  A store to an address outside \<open>mem\<close> is a segmentation fault.
\<close>

record proc =
  pc_of :: pc
  multiplier :: u32
  num_of_pages :: u32
  msize :: u64
  maddr :: u64
  idx :: u64
  mem :: "u64 \<Rightarrow> u32 option"
  trace :: "event list"

definition proc_start :: proc where
  "proc_start = \<lparr>pc_of = At_main, multiplier = 0, num_of_pages = 0, msize = 0, maddr = 0, idx = 0,
     mem = (\<lambda>a. None), trace = []\<rparr>"

definition arg_multiplier :: "string list \<Rightarrow> u32 option" where
  "arg_multiplier argv = (if length argv = 3 then atoi (argv ! 2) else Some 1)"

definition fill_step :: "proc \<Rightarrow> proc" where
  "fill_step p =
    (if idx p < msize p div 4 then
       (case mem p (maddr p + 4 * idx p) of
          None \<Rightarrow> p\<lparr>pc_of := Faulted\<rparr>
        | Some v \<Rightarrow> p\<lparr>mem := (mem p)(maddr p + 4 * idx p \<mapsto> fill_value (idx p) (multiplier p)),
            idx := idx p + 1\<rparr>)
     else p\<lparr>pc_of := At_populated\<rparr>)"

definition main_step :: "os \<Rightarrow> string list \<Rightarrow> proc \<Rightarrow> proc" where
  "main_step os argv p = (case pc_of p of
     At_main \<Rightarrow> p\<lparr>trace := trace p @ [Mlockall], pc_of := At_argc\<rparr>
   | At_argc \<Rightarrow>
       (if length argv < 2 then p\<lparr>trace := trace p @ [Printf_usage (rd argv 0)], pc_of := Exited 1\<rparr>
        else p\<lparr>pc_of := At_multiplier\<rparr>)
   | At_multiplier \<Rightarrow>
       (case arg_multiplier argv of
          None \<Rightarrow> p\<lparr>pc_of := Undefined\<rparr>
        | Some m \<Rightarrow> p\<lparr>multiplier := m, pc_of := At_pages\<rparr>)
   | At_pages \<Rightarrow>
       (case atoi (argv ! 1) of
          None \<Rightarrow> p\<lparr>pc_of := Undefined\<rparr>
        | Some n \<Rightarrow> p\<lparr>num_of_pages := n, pc_of := At_srand\<rparr>)
   | At_srand \<Rightarrow> p\<lparr>trace := trace p @ [Srand (ucast (os_time os))], pc_of := At_size\<rparr>
   | At_size \<Rightarrow> p\<lparr>msize := mapping_size (num_of_pages p), pc_of := At_mmap\<rparr>
   | At_mmap \<Rightarrow>
       (let a = os_mmap os (msize p) in
        p\<lparr>maddr := a, mem := (if a = MAP_FAILED then mem p else map_zero a (msize p) (mem p)),
          trace := trace p @ [Mmap (msize p)], pc_of := At_mapped\<rparr>)
   | At_mapped \<Rightarrow> p\<lparr>trace := trace p @ [Printf_mapped (maddr p)], idx := 0, pc_of := At_fill\<rparr>
   | At_fill \<Rightarrow> fill_step p
   | At_populated \<Rightarrow> p\<lparr>trace := trace p @ [Printf_populated], pc_of := At_sleep\<rparr>
   | At_sleep \<Rightarrow> p\<lparr>trace := trace p @ [Sleep 100]\<rparr>
   | Exited c \<Rightarrow> p
   | Faulted \<Rightarrow> p
   | Undefined \<Rightarrow> p)"

definition run_main :: "os \<Rightarrow> string list \<Rightarrow> nat \<Rightarrow> proc" where
  "run_main os argv k = (main_step os argv ^^ k) proc_start"

section \<open>The fill loop\<close>

text \<open>The memory after \<open>k\<close> iterations.\<close>

definition populated :: "u64 \<Rightarrow> u64 \<Rightarrow> u32 \<Rightarrow> nat \<Rightarrow> memory" where
  "populated base len m k = filled base len (\<lambda>i. fill_value (word_of_nat i) m) k (\<lambda>a. None)"

lemma populated_0: "populated base len m 0 = map_zero base len (\<lambda>a. None)"
  by (simp add: populated_def filled_0)

lemma populated_at:
  "k < unat len div 4 \<Longrightarrow>
   populated base len m n (base + 4 * word_of_nat k) = Some (if k < n then word_of_nat k * m else 0)"
  by (simp add: populated_def filled_at fill_value_nat)

lemma populated_Suc:
  "k < unat len div 4 \<Longrightarrow>
   (populated base len m k)(base + 4 * word_of_nat k \<mapsto> fill_value (word_of_nat k) m) = populated base len m (Suc k)"
  unfolding populated_def by (rule filled_Suc)

lemma populated_dom:
  "4 dvd unat len \<Longrightarrow>
   populated base len m k a \<noteq> None \<longleftrightarrow> (\<exists>i < unat len div 4. a = base + 4 * word_of_nat i)"
  by (simp add: populated_def filled_def flip: in_map_iff)

lemma fill_loop_steps:
  assumes "pc_of p = At_fill" "idx p = 0" "mem p = populated (maddr p) (msize p) (multiplier p) 0"
    and "k \<le> unat (msize p) div 4"
  shows "(main_step os argv ^^ k) p =
    p\<lparr>idx := word_of_nat k, mem := populated (maddr p) (msize p) (multiplier p) k\<rparr>"
  using assms(4)
proof (induction k)
  case 0
  then show ?case using assms(1-3) by simp
next
  case (Suc k)
  then have k: "k < unat (msize p) div 4" by simp
  have "(main_step os argv ^^ Suc k) p = main_step os argv ((main_step os argv ^^ k) p)" by simp
  also have "\<dots> = main_step os argv (p\<lparr>idx := word_of_nat k, mem := populated (maddr p) (msize p) (multiplier p) k\<rparr>)"
    using Suc by simp
  also have "\<dots> = p\<lparr>idx := word_of_nat (Suc k), mem := populated (maddr p) (msize p) (multiplier p) (Suc k)\<rparr>"
    using k assms(1) idx_less_iff [of k "msize p"] populated_at [OF k] populated_Suc [OF k]
    by (simp add: main_step_def fill_step_def add.commute)
  finally show ?case .
qed

section \<open>Whole runs\<close>

text \<open>The state when the fill loop is reached, for arguments that \<open>atoi\<close> reads.\<close>

definition mapped_proc :: "os \<Rightarrow> u32 \<Rightarrow> u32 \<Rightarrow> proc" where
  "mapped_proc os n m = (let len = mapping_size n; base = os_mmap os len in
     \<lparr>pc_of = At_fill, multiplier = m, num_of_pages = n, msize = len, maddr = base, idx = 0,
      mem = (if base = MAP_FAILED then (\<lambda>a. None) else map_zero base len (\<lambda>a. None)),
      trace = [Mlockall, Srand (ucast (os_time os)), Mmap len, Printf_mapped base]\<rparr>)"

lemma run_main_add: "run_main os argv (j + k) = (main_step os argv ^^ j) (run_main os argv k)"
  by (simp add: run_main_def funpow_add)

lemma run_to_fill:
  assumes "2 \<le> length argv" "arg_multiplier argv = Some m" "atoi (argv ! 1) = Some n"
  shows "run_main os argv 8 = mapped_proc os n m"
  using assms
  by (simp add: run_main_def main_step_def eval_nat_numeral proc_start_def mapped_proc_def Let_def)

lemma run_usage:
  assumes "length argv < 2"
  shows "run_main os argv (2 + k) =
    proc_start\<lparr>pc_of := Exited 1, trace := [Mlockall, Printf_usage (rd argv 0)]\<rparr>"
  by (induction k)
    (use assms in \<open>simp_all add: run_main_def main_step_def eval_nat_numeral proc_start_def\<close>)

lemma stopped_steps:
  "pc_of p = Faulted \<or> pc_of p = Undefined \<Longrightarrow> (main_step os argv ^^ k) p = p"
  by (induction k) (auto simp: main_step_def)

lemma run_undefined:
  assumes "2 \<le> length argv" "arg_multiplier argv = None \<or> atoi (argv ! 1) = None"
  shows "pc_of (run_main os argv (k + 4)) = Undefined"
proof -
  have "pc_of (run_main os argv 4) = Undefined"
    using assms by (auto simp: run_main_def main_step_def eval_nat_numeral proc_start_def split: option.splits)
  then show ?thesis by (simp add: run_main_add stopped_steps)
qed

lemma mapped_faults:
  assumes "mapping_size n \<noteq> 0" "os_mmap os (mapping_size n) = MAP_FAILED"
  shows "(main_step os argv ^^ Suc k) (mapped_proc os n m) = (mapped_proc os n m)\<lparr>pc_of := Faulted\<rparr>"
proof -
  have "unat (mapping_size n) \<noteq> 0" using assms(1) by (simp add: unat_eq_0)
  then have "4096 \<le> unat (mapping_size n)" by (intro dvd_imp_le mapping_size_dvd) simp
  then have "0 < mapping_size n div 4" by (simp add: word_less_nat_alt unat_div)
  then have "main_step os argv (mapped_proc os n m) = (mapped_proc os n m)\<lparr>pc_of := Faulted\<rparr>"
    using assms by (simp add: main_step_def fill_step_def mapped_proc_def Let_def)
  then show ?thesis by (simp add: funpow_Suc_right stopped_steps del: funpow.simps)
qed

text \<open>
  A mapping that succeeded, or an empty one, is populated completely; from then on the process
  only sleeps.  The fill loop takes one step per \<open>int\<close>.
\<close>

lemma mapped_mem:
  assumes "os_mmap os (mapping_size n) \<noteq> MAP_FAILED \<or> mapping_size n = 0"
  shows "mem (mapped_proc os n m) = populated (os_mmap os (mapping_size n)) (mapping_size n) m 0"
  using assms by (auto simp: mapped_proc_def Let_def populated_0 map_zero_def in_map_def)

lemma mapped_proc_fields [simp]:
  "pc_of (mapped_proc os n m) = At_fill" "idx (mapped_proc os n m) = 0"
  "maddr (mapped_proc os n m) = os_mmap os (mapping_size n)" "msize (mapped_proc os n m) = mapping_size n"
  "multiplier (mapped_proc os n m) = m"
  by (simp_all add: mapped_proc_def Let_def)

definition sleeping_proc :: "os \<Rightarrow> u32 \<Rightarrow> u32 \<Rightarrow> nat \<Rightarrow> proc" where
  "sleeping_proc os n m k = (let p = mapped_proc os n m in
     p\<lparr>pc_of := At_sleep, idx := word_of_nat (ints n),
       mem := populated (os_mmap os (mapping_size n)) (mapping_size n) m (ints n),
       trace := trace p @ Printf_populated # replicate k (Sleep 100)\<rparr>)"

lemma sleep_steps: "(main_step os argv ^^ k) (sleeping_proc os n m 0) = sleeping_proc os n m k"
  by (induction k)
    (simp_all add: main_step_def sleeping_proc_def Let_def replicate_append_same)

lemma mapped_sleeps:
  assumes "os_mmap os (mapping_size n) \<noteq> MAP_FAILED \<or> mapping_size n = 0"
  shows "(main_step os argv ^^ (k + (2 + ints n))) (mapped_proc os n m) = sleeping_proc os n m k"
proof -
  let ?q = "(mapped_proc os n m)\<lparr>idx := word_of_nat (ints n),
      mem := populated (os_mmap os (mapping_size n)) (mapping_size n) m (ints n)\<rparr>"
  have "(main_step os argv ^^ ints n) (mapped_proc os n m) = ?q"
    using fill_loop_steps [of "mapped_proc os n m" "ints n" os argv] mapped_mem [OF assms]
    by (simp add: ints_def)
  moreover have "\<not> (word_of_nat (ints n) :: u64) < mapping_size n div 4"
    using idx_less_iff [of "ints n" "mapping_size n"] by (simp add: ints_def)
  then have "(main_step os argv ^^ 2) ?q = sleeping_proc os n m 0"
    by (simp add: eval_nat_numeral main_step_def fill_step_def sleeping_proc_def Let_def)
  ultimately have "(main_step os argv ^^ (2 + ints n)) (mapped_proc os n m) = sleeping_proc os n m 0"
    by (simp only: funpow_add comp_def)
  then show ?thesis by (simp only: funpow_add [of k] comp_def sleep_steps)
qed

lemma run_sleeps:
  assumes "2 \<le> length argv" "arg_multiplier argv = Some m" "atoi (argv ! 1) = Some n"
    and "os_mmap os (mapping_size n) \<noteq> MAP_FAILED \<or> mapping_size n = 0"
  shows "run_main os argv (k + (ints n + 10)) = sleeping_proc os n m k"
proof -
  have "run_main os argv (k + (ints n + 10)) = run_main os argv (k + (2 + ints n) + 8)" by (simp add: ac_simps)
  also have "\<dots> = sleeping_proc os n m k"
    unfolding run_main_add run_to_fill [OF assms(1-3)] by (rule mapped_sleeps [OF assms(4)])
  finally show ?thesis .
qed

lemma run_faults:
  assumes "2 \<le> length argv" "arg_multiplier argv = Some m" "atoi (argv ! 1) = Some n"
    and "os_mmap os (mapping_size n) = MAP_FAILED" "mapping_size n \<noteq> 0"
  shows "run_main os argv (k + 9) = (mapped_proc os n m)\<lparr>pc_of := Faulted\<rparr>"
proof -
  have "k + 9 = Suc k + 8" by simp
  then show ?thesis
    by (simp only: run_main_add run_to_fill [OF assms(1-3)] mapped_faults [OF assms(5,4)])
qed

section \<open>The memory invariant\<close>

text \<open>
  At every statement the memory is either still unmapped or the image of the mapping after
  as many iterations as the index says; the process faults only when \<open>mmap\<close> failed.
\<close>

definition proc_inv :: "os \<Rightarrow> proc \<Rightarrow> bool" where
  "proc_inv os p \<longleftrightarrow> (
     let unmapped = (mem p = (\<lambda>a. None));
         mapping = (msize p = mapping_size (num_of_pages p) \<and> maddr p = os_mmap os (msize p));
         upto = (\<lambda>k. mapping \<and> (if maddr p = MAP_FAILED then unmapped
                   else mem p = populated (maddr p) (msize p) (multiplier p) k)) in
     case pc_of p of
       At_mapped \<Rightarrow> upto 0
     | At_fill \<Rightarrow> unat (idx p) \<le> unat (msize p) div 4 \<and> upto (unat (idx p))
     | At_populated \<Rightarrow> upto (unat (msize p) div 4)
     | At_sleep \<Rightarrow> upto (unat (msize p) div 4)
     | Faulted \<Rightarrow> mapping \<and> maddr p = MAP_FAILED \<and> unmapped
     | At_mmap \<Rightarrow> msize p = mapping_size (num_of_pages p) \<and> unmapped
     | _ \<Rightarrow> unmapped)"

lemma proc_inv_start: "proc_inv os proc_start"
  by (simp add: proc_inv_def proc_start_def)

lemma proc_inv_fill:
  assumes "proc_inv os p" "pc_of p = At_fill"
  shows "proc_inv os (fill_step p)"
proof -
  let ?N = "unat (msize p) div 4" and ?k = "unat (idx p)"
  have k: "?k \<le> ?N" and mp: "msize p = mapping_size (num_of_pages p)" "maddr p = os_mmap os (msize p)"
    and m: "if maddr p = MAP_FAILED then mem p = (\<lambda>a. None) else mem p = populated (maddr p) (msize p) (multiplier p) ?k"
    using assms unfolding proc_inv_def Let_def by simp_all (elim conjE, simp only:)+
  have i: "idx p = word_of_nat ?k" by simp
  have less: "idx p < msize p div 4 \<longleftrightarrow> ?k < ?N" by (simp add: word_less_nat_alt unat_div)
  show ?thesis
  proof (cases "?k < ?N")
    case False
    with k have kN: "?k = ?N" by simp
    have "fill_step p = p\<lparr>pc_of := At_populated\<rparr>" using False less by (simp add: fill_step_def)
    with mp m kN show ?thesis by (simp add: proc_inv_def Let_def)
  next
    case True
    show ?thesis
    proof (cases "maddr p = MAP_FAILED")
      case True
      with m \<open>?k < ?N\<close> less have "fill_step p = p\<lparr>pc_of := Faulted\<rparr>" by (simp add: fill_step_def)
      with True m mp show ?thesis by (simp add: proc_inv_def Let_def)
    next
      case False
      have "?k + 1 < 18446744073709551616" using \<open>?k < ?N\<close> unat_less_64 [of "msize p"] by linarith
      then have s: "unat (idx p + 1) = Suc ?k" by (simp add: unat_word_ariths)
      have "mem p (maddr p + 4 * idx p) = Some 0"
        using populated_at [OF True, of "maddr p" "multiplier p" ?k] m False by simp
      then have "fill_step p = p\<lparr>mem := (mem p)(maddr p + 4 * idx p \<mapsto> fill_value (idx p) (multiplier p)), idx := idx p + 1\<rparr>"
        using True less by (simp add: fill_step_def)
      moreover have "(mem p)(maddr p + 4 * idx p \<mapsto> fill_value (idx p) (multiplier p)) =
          populated (maddr p) (msize p) (multiplier p) (Suc ?k)"
        using populated_Suc [OF True, of "maddr p" "multiplier p"] m False by simp
      ultimately show ?thesis using False mp s assms(2) True by (simp add: proc_inv_def Let_def)
    qed
  qed
qed

lemma proc_inv_step:
  assumes "proc_inv os p" shows "proc_inv os (main_step os argv p)"
proof (cases "pc_of p")
  case At_fill
  with proc_inv_fill [OF assms At_fill] show ?thesis by (simp add: main_step_def)
qed (use assms in \<open>auto simp: main_step_def proc_inv_def Let_def populated_0 split: option.split\<close>)

lemma proc_inv_run: "proc_inv os (run_main os argv k)"
  unfolding run_main_def by (induction k) (simp_all add: proc_inv_start proc_inv_step)

section \<open>Properties of the workload\<close>

lemma sleeping_mem:
  "mem (sleeping_proc os n m k) = populated (os_mmap os (mapping_size n)) (mapping_size n) m (ints n)"
  by (simp add: sleeping_proc_def Let_def)

lemma sleeping_cell:
  "i < ints n \<Longrightarrow>
   mem (sleeping_proc os n m k) (os_mmap os (mapping_size n) + 4 * word_of_nat i) = Some (word_of_nat i * m)"
  by (simp add: sleeping_mem populated_at ints_def fill_value_nat)

text \<open>
  C2. When both arguments are read and \<open>mmap\<close> succeeds, the program reaches its sleep loop
  after the ten statements around the fill loop and one iteration per \<open>int\<close>; then exactly
  the \<open>int\<close>s of the mapping are in memory, the \<open>i\<close>-th is \<open>i * multiplier\<close> modulo \<open>2 ^ 32\<close>, and
  the calls made are \<open>mlockall\<close>, \<open>srand\<close>, \<open>mmap\<close> and the two messages, in this order.
\<close>
theorem main_populates:
  assumes "2 \<le> length argv" "arg_multiplier argv = Some m" "atoi (argv ! 1) = Some n"
    and "os_mmap os (mapping_size n) \<noteq> MAP_FAILED"
  shows "let p = run_main os argv (unat (mapping_size n) div 4 + 10); base = os_mmap os (mapping_size n) in
    pc_of p = At_sleep \<and>
    trace p = [Mlockall, Srand (ucast (os_time os)), Mmap (mapping_size n), Printf_mapped base, Printf_populated] \<and>
    (\<forall>i < unat (mapping_size n) div 4. mem p (base + 4 * word_of_nat i) = Some (word_of_nat i * m)) \<and>
    (\<forall>a. mem p a \<noteq> None \<longleftrightarrow> (\<exists>i < unat (mapping_size n) div 4. a = base + 4 * word_of_nat i))"
proof -
  have "run_main os argv (unat (mapping_size n) div 4 + 10) = sleeping_proc os n m 0"
    using run_sleeps [OF assms(1-3), of os 0] assms(4) by (simp add: ints_def)
  moreover have "4 dvd unat (mapping_size n)" by (rule mapping_size_dvd4)
  note populated_dom [OF this]
  moreover have "pc_of (sleeping_proc os n m 0) = At_sleep"
    "trace (sleeping_proc os n m 0) = [Mlockall, Srand (ucast (os_time os)), Mmap (mapping_size n),
       Printf_mapped (os_mmap os (mapping_size n)), Printf_populated]"
    by (simp_all add: sleeping_proc_def mapped_proc_def Let_def)
  moreover have "\<forall>i < unat (mapping_size n) div 4.
      mem (sleeping_proc os n m 0) (os_mmap os (mapping_size n) + 4 * word_of_nat i) = Some (word_of_nat i * m)"
    by (simp add: sleeping_cell ints_def)
  ultimately show ?thesis unfolding Let_def by (simp only: sleeping_mem simp_thms)
qed

theorem main_populates_witness:
  "let p = run_main \<lparr>os_mmap = (\<lambda>len. if len = 0 then MAP_FAILED else 8192), os_time = 7\<rparr> [''pin'', ''2'', ''3'']
       (unat (mapping_size 2) div 4 + 10) in
   pc_of p = At_sleep \<and> (\<forall>i < 2048. mem p (8192 + 4 * word_of_nat i) = Some (word_of_nat i * 3))"
  using main_populates [of "[''pin'', ''2'', ''3'']" 3 2
      "\<lparr>os_mmap = (\<lambda>len. if len = 0 then MAP_FAILED else 8192), os_time = 7\<rparr>"]
  by (simp add: arg_multiplier_def atoi_def is_space_def is_digit_def mapping_size_def MAP_FAILED_def Let_def)

text \<open>
  C5. Every run settles, whatever the arguments and the kernel do: fewer than two arguments
  print the usage and end in \<open>exit (1)\<close>, an argument outside the range of \<open>int\<close> is undefined behaviour, a failed
  non-empty mapping ends in a fault, and every other run reaches the sleep loop and from
  there makes one call of \<open>sleep (100)\<close> per step, for ever.
\<close>
theorem main_settles:
  "if length argv < 2 then pc_of (run_main os argv (k + 2)) = Exited 1 \<and>
     trace (run_main os argv (k + 2)) = [Mlockall, Printf_usage (rd argv 0)]
   else case (arg_multiplier argv, atoi (argv ! 1)) of
     (Some m, Some n) \<Rightarrow>
       if os_mmap os (mapping_size n) = MAP_FAILED \<and> mapping_size n \<noteq> 0
       then pc_of (run_main os argv (k + 9)) = Faulted
       else pc_of (run_main os argv (k + (unat (mapping_size n) div 4 + 10))) = At_sleep \<and>
         trace (run_main os argv (k + (unat (mapping_size n) div 4 + 10))) =
           trace (run_main os argv (unat (mapping_size n) div 4 + 10)) @ replicate k (Sleep 100)
   | _ \<Rightarrow> pc_of (run_main os argv (k + 4)) = Undefined"
proof (cases "length argv < 2")
  case True
  then show ?thesis using run_usage [OF True, of os k] by (simp add: add.commute)
next
  case False
  then have len: "2 \<le> length argv" by simp
  show ?thesis
  proof (cases "arg_multiplier argv = None \<or> atoi (argv ! 1) = None")
    case True
    with run_undefined [OF len this, of os k] False show ?thesis by (auto split: option.splits)
  next
    case no: False
    then obtain m n where mn: "arg_multiplier argv = Some m" "atoi (argv ! 1) = Some n" by auto
    show ?thesis
    proof (cases "os_mmap os (mapping_size n) = MAP_FAILED \<and> mapping_size n \<noteq> 0")
      case True
      with run_faults [OF len mn, of os k] mn False show ?thesis by simp
    next
      case ok: False
      with run_sleeps [OF len mn, of os k] run_sleeps [OF len mn, of os 0] mn False show ?thesis
        by (auto simp: ints_def sleeping_proc_def Let_def)
    qed
  qed
qed

text \<open>
  C10. Memory safety at every moment of a run: a cell that is mapped is an \<open>int\<close> of the mapping
  the program asked for and holds 0 or \<open>i * multiplier\<close>, no store ever falls outside a mapping
  that the kernel granted (the only fault is the store through \<open>MAP_FAILED\<close>), and a process
  that sleeps on a granted mapping has written every cell.
\<close>
theorem main_memory_safe:
  "let p = run_main os argv k in
    (\<forall>a v. mem p a = Some v \<longrightarrow>
      (\<exists>i < unat (msize p) div 4. a = os_mmap os (msize p) + 4 * word_of_nat i \<and>
        (v = 0 \<or> v = word_of_nat i * multiplier p))) \<and>
    (pc_of p = Faulted \<longrightarrow> os_mmap os (msize p) = MAP_FAILED \<and> mem p = (\<lambda>a. None)) \<and>
    (pc_of p = At_sleep \<and> maddr p \<noteq> MAP_FAILED \<longrightarrow>
      (\<forall>i < unat (msize p) div 4. mem p (maddr p + 4 * word_of_nat i) = Some (word_of_nat i * multiplier p)))"
proof -
  define p where "p = run_main os argv k"
  have inv: "proc_inv os p" unfolding p_def by (rule proc_inv_run)
  have cell: "\<exists>i < unat (mapping_size n) div 4. a = base + 4 * word_of_nat i \<and> (v = 0 \<or> v = word_of_nat i * m)"
    if "populated base (mapping_size n) m j a = Some v" for base n m j a v
  proof -
    have "4 dvd unat (mapping_size n)" by (rule mapping_size_dvd4)
    from populated_dom [OF this] that obtain i where i: "i < unat (mapping_size n) div 4" "a = base + 4 * word_of_nat i"
      by (metis option.distinct(1))
    with populated_at [OF i(1), of base m j] that show ?thesis by (auto simp: fill_value_nat split: if_splits)
  qed
  show ?thesis
    unfolding Let_def p_def [symmetric] using inv by (cases "pc_of p")
      (auto simp: proc_inv_def Let_def populated_at fill_value_nat dest!: cell split: if_splits)
qed

theorem main_memory_safe_witness:
  "let os = \<lparr>os_mmap = (\<lambda>len. if len = 4096 then 8192 else MAP_FAILED), os_time = 7\<rparr>;
       p = run_main os [''pin'', ''1'', ''3''] 1034; q = run_main os [''pin'', ''2''] 9 in
   (\<forall>i < 1024. mem p (8192 + 4 * word_of_nat i) = Some (word_of_nat i * 3)) \<and> mem q = (\<lambda>a. None)"
proof -
  let ?os = "\<lparr>os_mmap = (\<lambda>len. if len = 4096 then 8192 else MAP_FAILED), os_time = 7\<rparr>"
  have p: "run_main ?os [''pin'', ''1'', ''3''] 1034 = sleeping_proc ?os 1 3 0"
    using run_sleeps [of "[''pin'', ''1'', ''3'']" 3 1 ?os 0]
    by (simp add: arg_multiplier_def atoi_def is_space_def is_digit_def mapping_size_def MAP_FAILED_def ints_def)
  have q: "run_main ?os [''pin'', ''2''] 9 = (mapped_proc ?os 2 1)\<lparr>pc_of := Faulted\<rparr>"
    using run_faults [of "[''pin'', ''2'']" 1 2 ?os 0]
    by (simp add: arg_multiplier_def atoi_def is_space_def is_digit_def mapping_size_def MAP_FAILED_def)
  show ?thesis
    using main_memory_safe [of ?os "[''pin'', ''1'', ''3'']" 1034] main_memory_safe [of ?os "[''pin'', ''2'']" 9]
    unfolding Let_def p q
    by (simp add: sleeping_proc_def mapping_size_def MAP_FAILED_def Let_def)
qed

text \<open>
  The size of the mapping.  A page count that is not negative is scaled without overflow,
  four kilobytes a page; a negative one becomes a request within \<open>2 ^ 43\<close> bytes of \<open>2 ^ 64\<close>,
  beyond every user address space.
\<close>
theorem mapping_size_bounds:
  "if 0 \<le> sint n then unat (mapping_size n) = 4096 * nat (sint n) \<and> unat (mapping_size n) div 4 = 1024 * nat (sint n)
   else 2 ^ 64 - 2 ^ 43 \<le> unat (mapping_size n)"
proof (cases "0 \<le> sint n")
  case False
  then have "18446735277616529408 \<le> uint (mapping_size n)"
    using mapping_size_neg [of n] sint_32_bounds [of n] by simp
  from numeral_le_unat [OF this] False show ?thesis by simp
qed (simp add: mapping_size_nonneg)

text \<open>
  C18. The error path of the kernel: a kernel that refuses requests of \<open>2 ^ 47\<close> bytes and more
  makes a negative page count end in a fault at the first store, with nothing written, although
  the message that reports the mapping was printed.
\<close>
theorem negative_pages_fault:
  assumes "2 \<le> length argv" "arg_multiplier argv = Some m" "atoi (argv ! 1) = Some n" "sint n < 0"
    and "\<forall>len. 2 ^ 47 \<le> unat len \<longrightarrow> os_mmap os len = MAP_FAILED"
  shows "let p = run_main os argv (k + 9) in pc_of p = Faulted \<and> mem p = (\<lambda>a. None) \<and>
    trace p = [Mlockall, Srand (ucast (os_time os)), Mmap (mapping_size n), Printf_mapped MAP_FAILED]"
proof -
  have u: "18446735277616529408 \<le> uint (mapping_size n)"
    using mapping_size_neg [OF assms(4)] sint_32_bounds [of n] by simp
  have "2 ^ 47 \<le> unat (mapping_size n)" using numeral_le_unat [OF u] by simp
  with assms(5) have f: "os_mmap os (mapping_size n) = MAP_FAILED" by blast
  have "mapping_size n \<noteq> 0" using u by auto
  from run_faults [OF assms(1-3) f this, of k] f show ?thesis
    by (simp add: mapped_proc_def Let_def)
qed

theorem negative_pages_fault_witness:
  "pc_of (run_main \<lparr>os_mmap = (\<lambda>len. if len < 2 ^ 47 then 8192 else MAP_FAILED), os_time = 7\<rparr>
     [''pin'', ''-1''] (5 + 9)) = Faulted"
  using negative_pages_fault [of "[''pin'', ''-1'']" 1 "- 1"
      "\<lparr>os_mmap = (\<lambda>len. if len < 2 ^ 47 then 8192 else MAP_FAILED), os_time = 7\<rparr>" 5]
  by (simp add: arg_multiplier_def atoi_def is_space_def is_digit_def word_less_nat_alt Let_def)

text \<open>
  C17. The arguments are read back: decimal page count and multiplier, with leading white space
  and trailing text that does not continue the number, give the process its two parameters.
\<close>
theorem arguments_read_back:
  assumes "list_all is_space ws" "list_all is_space ws'"
    and "rest = [] \<or> \<not> is_digit (hd rest)" "rest' = [] \<or> \<not> is_digit (hd rest')"
    and "- (2 ^ 31) \<le> v" "v < 2 ^ 31" "- (2 ^ 31) \<le> u" "u < 2 ^ 31"
  shows "let p = run_main os [name, ws @ show_int v @ rest, ws' @ show_int u @ rest'] 4 in
    pc_of p = At_srand \<and> sint (num_of_pages p) = v \<and> sint (multiplier p) = u"
proof -
  have s: "sint (word_of_int x :: u32) = x" if "- (2 ^ 31) \<le> x" "x < 2 ^ 31" for x
    using that by (simp add: signed_of_int signed_take_bit_int_eq_self)
  show ?thesis
    using atoi_show [OF assms(1,3,5,6)] atoi_show [OF assms(2,4,7,8)] s assms(5-8)
    by (simp add: run_main_def main_step_def eval_nat_numeral proc_start_def arg_multiplier_def Let_def)
qed

theorem arguments_read_back_witness:
  "let p = run_main \<lparr>os_mmap = (\<lambda>len. MAP_FAILED), os_time = 7\<rparr>
       [''pin'', '' '' @ show_int 512 @ ''k'', [] @ show_int (- 3) @ []] 4 in
   sint (num_of_pages p) = 512 \<and> sint (multiplier p) = - 3"
  using arguments_read_back [of "'' ''" "[]" "''k''" "[]" 512 "- 3" "\<lparr>os_mmap = (\<lambda>len. MAP_FAILED), os_time = 7\<rparr>" "''pin''"]
  by (simp add: is_space_def is_digit_def Let_def)

section \<open>Pages as the deduplication sees them\<close>

definition page_of :: "proc \<Rightarrow> nat \<Rightarrow> u32 option list" where
  "page_of p k = page_at (mem p) (maddr p) k"

lemma page_of_sleeping:
  assumes "k < nat (sint n)"
  shows "page_of (sleeping_proc os n m j) k = map (\<lambda>j. Some (word_of_nat (1024 * k + j) * m)) [0..<1024]"
proof -
  have "1024 * Suc k \<le> unat (mapping_size n) div 4"
    using assms ints_nonneg [of n] by (simp add: ints_def)
  then show ?thesis
    by (simp add: page_of_def sleeping_proc_def Let_def populated_def ints_def page_at_filled fill_value_nat
        del: mult_Suc_right)
qed

lemma progression_eq:
  "(\<forall>j < 1024. (word_of_nat (1024 * k + j) :: u32) * m = word_of_nat (1024 * k' + j) * m') \<longleftrightarrow>
   m = m' \<and> 2 ^ 22 dvd (int k - int k') * sint m"
proof -
  have d: "(word_of_nat (1024 * k) * m :: u32) = word_of_nat (1024 * k') * m \<longleftrightarrow>
      2 ^ 22 dvd (int k - int k') * sint m"
  proof -
    have "(word_of_nat (1024 * k) * m :: u32) = word_of_nat (1024 * k') * m \<longleftrightarrow>
        (word_of_int (1024 * ((int k - int k') * sint m)) :: u32) = 0"
      by (simp add: algebra_simps)
    also have "\<dots> \<longleftrightarrow> 1024 * 2 ^ 22 dvd 1024 * ((int k - int k') * sint m)"
      by (simp only: word_of_int_eq_0_iff) simp
    also have "\<dots> \<longleftrightarrow> 2 ^ 22 dvd (int k - int k') * sint m"
      by (simp only: dvd_mult_cancel_left) simp
    finally show ?thesis .
  qed
  have e: "(word_of_nat (1024 * q + j) :: u32) * x = word_of_nat (1024 * q) * x + word_of_nat j * x" for q j x
    by (simp add: algebra_simps)
  show ?thesis (is "?l \<longleftrightarrow> ?r")
  proof
    assume l: ?l
    then have z: "word_of_nat (1024 * k) * m = word_of_nat (1024 * k') * m'" by (metis add.right_neutral zero_less_numeral)
    from l have "(word_of_nat (1024 * k + 1) :: u32) * m = word_of_nat (1024 * k' + 1) * m'"
      by (metis one_less_numeral_iff semiring_norm(76))
    then have "m = m'" unfolding e z by simp
    with z d show ?r by simp
  next
    assume ?r
    then show ?l unfolding e using d by metis
  qed
qed

text \<open>
  C9. Two pages, of one process or of two, are identical exactly when the multipliers are equal
  and the page numbers differ by a multiple of \<open>2 ^ 22\<close> after scaling with the multiplier.  So
  processes with one multiplier agree page by page, processes with different multipliers share
  no page, and with an odd multiplier the pages of one process repeat only every \<open>2 ^ 22\<close> pages.
\<close>
theorem pages_identical_iff:
  assumes "2 \<le> length argv" "arg_multiplier argv = Some m" "atoi (argv ! 1) = Some n"
    and "os_mmap os (mapping_size n) \<noteq> MAP_FAILED" and "k < nat (sint n)"
    and "2 \<le> length argv'" "arg_multiplier argv' = Some m'" "atoi (argv' ! 1) = Some n'"
    and "os_mmap os' (mapping_size n') \<noteq> MAP_FAILED" and "k' < nat (sint n')"
  shows "page_of (run_main os argv (j + (1024 * nat (sint n) + 10))) k =
      page_of (run_main os' argv' (j' + (1024 * nat (sint n') + 10))) k' \<longleftrightarrow>
    m = m' \<and> 2 ^ 22 dvd (int k - int k') * sint m"
proof -
  have i: "ints n = 1024 * nat (sint n)" "ints n' = 1024 * nat (sint n')"
    using assms(5,10) by (simp_all add: ints_nonneg)
  have "page_of (run_main os argv (j + (1024 * nat (sint n) + 10))) k =
      map (\<lambda>j. Some (word_of_nat (1024 * k + j) * m)) [0..<1024]"
    using run_sleeps [OF assms(1-3), of os j] assms(4) page_of_sleeping [OF assms(5)] by (simp add: i)
  moreover have "page_of (run_main os' argv' (j' + (1024 * nat (sint n') + 10))) k' =
      map (\<lambda>j. Some (word_of_nat (1024 * k' + j) * m')) [0..<1024]"
    using run_sleeps [OF assms(6-8), of os' j'] assms(9) page_of_sleeping [OF assms(10)] by (simp add: i)
  ultimately show ?thesis by (simp only: progression_eq [symmetric] list_eq_iff_nth_eq) simp
qed

theorem pages_identical_iff_witness:
  "let os = \<lparr>os_mmap = (\<lambda>len. 8192), os_time = 7\<rparr> in
   page_of (run_main os [''pin'', ''2'', ''3''] (0 + (1024 * 2 + 10))) 1 =
   page_of (run_main os [''pin'', ''4'', ''3''] (6 + (1024 * 4 + 10))) 1 \<and>
   page_of (run_main os [''pin'', ''2'', ''3''] (0 + (1024 * 2 + 10))) 1 \<noteq>
   page_of (run_main os [''pin'', ''4'', ''3''] (6 + (1024 * 4 + 10))) 3"
  using pages_identical_iff [of "[''pin'', ''2'', ''3'']" 3 2 "\<lparr>os_mmap = (\<lambda>len. 8192), os_time = 7\<rparr>" 1
      "[''pin'', ''4'', ''3'']" 3 4 "\<lparr>os_mmap = (\<lambda>len. 8192), os_time = 7\<rparr>" 1 0 6]
    pages_identical_iff [of "[''pin'', ''2'', ''3'']" 3 2 "\<lparr>os_mmap = (\<lambda>len. 8192), os_time = 7\<rparr>" 1
      "[''pin'', ''4'', ''3'']" 3 4 "\<lparr>os_mmap = (\<lambda>len. 8192), os_time = 7\<rparr>" 3 0 6]
  by (simp add: arg_multiplier_def atoi_def is_space_def is_digit_def MAP_FAILED_def Let_def)

end
