(* ===== verification/Fill_Programs.thy ===== *)
theory Fill_Programs
  imports Page_Memory
begin

text \<open>
  The helper programs that load memory before an experiment (\<open>helperPrograms\<close>): \<open>allocate\<close> fills
  one mapping with \<open>i * multiplier\<close>, \<open>fill\<close> and \<open>fill_another\<close> fill a new mapping with \<open>rand ()\<close>
  every 15 seconds, \<open>allocate_at_once\<close> fills ten large mappings.  Each \<open>main\<close> is followed up to
  its final \<open>while (1) sleep (200)\<close>; the result \<open>None\<close> is a segmentation fault.  The kernel's
  \<open>mmap\<close> (by the number of the call) and the sequence that \<open>rand\<close> gives in a process that never
  calls \<open>srand\<close> are parameters.
\<close>

section \<open>The programs\<close>

record env =
  env_mmap :: "nat \<Rightarrow> u64 \<Rightarrow> u64"
  env_rand :: "nat \<Rightarrow> u32"

datatype fcall = FMmap u64 | FMadvise u64 u64 | FPopulated | FSleeping nat | FFflush | FSleep nat | FComplete

record fillp =
  vmem :: memory
  vmaps :: nat
  vrand :: nat
  vtrace :: "fcall list"

definition fillp_start :: fillp where
  "fillp_start = \<lparr>vmem = (\<lambda>a. None), vmaps = 0, vrand = 0, vtrace = []\<rparr>"

definition log_calls :: "fcall list \<Rightarrow> fillp \<Rightarrow> fillp" where
  "log_calls cs s = s\<lparr>vtrace := vtrace s @ cs\<rparr>"

text \<open>
  The body that every \<open>filldata\<close> shares: map, advise, fill, report.  \<open>adv\<close> is the address given
  to \<open>madvise\<close> as a function of the new mapping, \<open>gen\<close> the value written at an index.
\<close>

definition map_fill :: "env \<Rightarrow> (u64 \<Rightarrow> u64) \<Rightarrow> (u64 \<Rightarrow> nat \<Rightarrow> u32 \<times> nat) \<Rightarrow> u64 \<Rightarrow> fillp \<Rightarrow>
    (u64 \<times> fillp) option" where
  "map_fill env adv gen len s = do {
     let a = env_mmap env (vmaps s) len;
     let m = (if a = MAP_FAILED then vmem s else map_zero a len (vmem s));
     (m, c) \<leftarrow> fill_loop gen a len 0 m (vrand s);
     Some (a, log_calls [FMmap len, FMadvise (adv a) len, FPopulated]
       (s\<lparr>vmem := m, vmaps := Suc (vmaps s), vrand := c\<rparr>)) }"

definition allocate_filldata :: "env \<Rightarrow> u64 \<Rightarrow> u32 \<Rightarrow> fillp \<Rightarrow> fillp option" where
  "allocate_filldata env len multiplier s = do {
     (a, s) \<leftarrow> map_fill env id (\<lambda>i c. (fill_value i multiplier, c)) len s;
     Some s }"

definition allocate_main :: "env \<Rightarrow> fillp option" where
  "allocate_main env = do {
     s \<leftarrow> allocate_filldata env (mapping_size 262000) 1 fillp_start;
     Some (log_calls [FComplete] s) }"

definition rand_gen :: "env \<Rightarrow> u32 \<Rightarrow> u64 \<Rightarrow> nat \<Rightarrow> u32 \<times> nat" where
  "rand_gen env multiplier i c = (env_rand env c * multiplier, Suc c)"

definition fill_filldata :: "env \<Rightarrow> u64 \<Rightarrow> u32 \<Rightarrow> fillp \<Rightarrow> fillp option" where
  "fill_filldata env len multiplier s = do {
     (a, s) \<leftarrow> map_fill env id (rand_gen env multiplier) len s;
     Some s }"

function fill_rounds :: "env \<Rightarrow> u64 \<Rightarrow> u32 \<Rightarrow> nat \<Rightarrow> nat \<Rightarrow> fillp \<Rightarrow> fillp option" where
  "fill_rounds env len multiplier rounds i s =
    (if i < rounds then do {
       s \<leftarrow> fill_filldata env len multiplier s;
       fill_rounds env len multiplier rounds (Suc i) (log_calls [FSleeping i, FFflush, FSleep 15] s) }
     else Some s)"
  by pat_completeness auto
termination
  by (relation "measure (\<lambda>(env, len, multiplier, rounds, i, s). rounds - i)") auto

declare fill_rounds.simps [simp del]

definition fill_main :: "env \<Rightarrow> fillp option" where
  "fill_main env = do {
     s \<leftarrow> fill_rounds env (mapping_size 500000) 1 42 0 fillp_start;
     Some (log_calls [FComplete] s) }"

definition fill_another_main :: "env \<Rightarrow> fillp option" where
  "fill_another_main env = do {
     s \<leftarrow> fill_rounds env (mapping_size 500000) 1 50 0 fillp_start;
     Some (log_calls [FComplete] s) }"

definition at_once_value :: "u32 \<Rightarrow> u32 \<Rightarrow> u64 \<Rightarrow> u32" where
  "at_once_value h multiplier i = ucast (scast h + i * scast multiplier)"

text \<open>
  \<open>allocate_at_once.c\<close> stores each mapping in the array \<open>addr\<close> and passes \<open>addr\<close>, the address
  of the array, to \<open>madvise\<close>; \<open>tbl\<close> is that address.
\<close>

definition at_once_filldata :: "env \<Rightarrow> u64 \<Rightarrow> u64 \<Rightarrow> u32 \<Rightarrow> nat \<Rightarrow> u64 list \<times> fillp \<Rightarrow>
    (u64 list \<times> fillp) option" where
  "at_once_filldata env tbl len multiplier h st = do {
     (a, s) \<leftarrow> map_fill env (\<lambda>a. tbl) (\<lambda>i c. (at_once_value (word_of_nat h) multiplier i, c)) len (snd st);
     addr \<leftarrow> wr (fst st) h a;
     Some (addr, s) }"

function at_once_rounds :: "env \<Rightarrow> u64 \<Rightarrow> u64 \<Rightarrow> u32 \<Rightarrow> nat \<Rightarrow> u64 list \<times> fillp \<Rightarrow>
    (u64 list \<times> fillp) option" where
  "at_once_rounds env tbl len multiplier x st =
    (if x < 10 then do {
       st \<leftarrow> at_once_filldata env tbl len multiplier (x + 1) st;
       at_once_rounds env tbl len multiplier (Suc x) st }
     else Some st)"
  by pat_completeness auto
termination
  by (relation "measure (\<lambda>(env, tbl, len, multiplier, x, st). 10 - x)") auto

declare at_once_rounds.simps [simp del]

definition at_once_main :: "env \<Rightarrow> u64 \<Rightarrow> (u64 list \<times> fillp) option" where
  "at_once_main env tbl = do {
     (addr, s) \<leftarrow> at_once_rounds env tbl (mapping_size 2620000) 1 0 (replicate 100 0, fillp_start);
     Some (addr, log_calls [FComplete] s) }"

section \<open>Rounds of filling\<close>

text \<open>
  What the programs rely on: the first \<open>r\<close> calls of \<open>mmap\<close> succeed, and a new mapping does not
  overlap an older one.
\<close>

definition grants :: "env \<Rightarrow> u64 \<Rightarrow> nat \<Rightarrow> bool" where
  "grants env len r \<longleftrightarrow> (\<forall>k < r. env_mmap env k len \<noteq> MAP_FAILED \<and>
     (\<forall>j < k. \<forall>a. in_map (env_mmap env j len) len a \<longrightarrow> \<not> in_map (env_mmap env k len) len a))"

definition layout :: "env \<Rightarrow> u64 \<Rightarrow> nat \<Rightarrow> (nat \<Rightarrow> nat \<Rightarrow> u32) \<Rightarrow> memory \<Rightarrow> bool" where
  "layout env len r f m \<longleftrightarrow> (\<forall>k < r. \<forall>i < unat len div 4.
     m (env_mmap env k len + 4 * word_of_nat i) = Some (f k i))"

lemma map_fill_layout:
  assumes g: "grants env len r" "vmaps s < r" and l: "layout env len (vmaps s) f (vmem s)"
    and v: "\<forall>i < unat len div 4. f (vmaps s) i = gen_value gen (vrand s) i"
  shows "\<exists>m. map_fill env adv gen len s = Some (env_mmap env (vmaps s) len,
      log_calls [FMmap len, FMadvise (adv (env_mmap env (vmaps s) len)) len, FPopulated]
        (s\<lparr>vmem := m, vmaps := Suc (vmaps s), vrand := gen_state gen (vrand s) (unat len div 4)\<rparr>)) \<and>
    layout env len (Suc (vmaps s)) f m"
proof -
  let ?b = "env_mmap env (vmaps s) len"
  let ?m = "filled ?b len (gen_value gen (vrand s)) (unat len div 4) (vmem s)"
  have "?b \<noteq> MAP_FAILED" using g by (simp add: grants_def)
  then have "map_fill env adv gen len s = Some (?b, log_calls [FMmap len, FMadvise (adv ?b) len, FPopulated]
      (s\<lparr>vmem := ?m, vmaps := Suc (vmaps s), vrand := gen_state gen (vrand s) (unat len div 4)\<rparr>))"
    by (simp add: map_fill_def Let_def fill_loop_filled)
  moreover have "?m (env_mmap env k len + 4 * word_of_nat i) = Some (f k i)"
    if ki: "k < Suc (vmaps s)" "i < unat len div 4" for k i
  proof (cases "k = vmaps s")
    case True
    with ki(2) v show ?thesis by (simp add: filled_at)
  next
    case False
    with ki have k: "k < vmaps s" by simp
    have "\<not> in_map ?b len (env_mmap env k len + 4 * word_of_nat i)"
      using g k in_map_cell [OF ki(2), of "env_mmap env k len"] by (auto simp: grants_def)
    with k l ki(2) show ?thesis by (simp add: filled_outside layout_def)
  qed
  ultimately show ?thesis unfolding layout_def by blast
qed

lemma layout_page:
  assumes "layout env len r f m" "k < r" "1024 * Suc p \<le> unat len div 4"
  shows "page_at m (env_mmap env k len) p = map (\<lambda>j. Some (f k (1024 * p + j))) [0..<1024]"
proof -
  have "m (env_mmap env k len + 4 * word_of_nat (1024 * p + j)) = Some (f k (1024 * p + j))" if "j < 1024" for j
  proof -
    have "1024 * p + j < unat len div 4" using assms(3) that by simp
    with assms(1,2) show ?thesis unfolding layout_def by blast
  qed
  then show ?thesis unfolding page_at_def by (intro map_cong) simp_all
qed

lemma log_calls_simps [simp]:
  "vmem (log_calls cs s) = vmem s" "vmaps (log_calls cs s) = vmaps s" "vrand (log_calls cs s) = vrand s"
  "vtrace (log_calls cs s) = vtrace s @ cs"
  by (simp_all add: log_calls_def)

section \<open>\<open>fill\<close> and \<open>fill_another\<close>\<close>

lemma rand_gen_state: "gen_state (rand_gen env m) c k = c + k"
  by (induction k) (simp_all add: rand_gen_def)

lemma rand_gen_value: "gen_value (rand_gen env m) c k = env_rand env (c + k) * m"
  by (simp add: gen_value_def rand_gen_state) (simp add: rand_gen_def)

lemma fill_rounds_layout:
  assumes "grants env len r" "vmaps s = i" "vrand s = i * (unat len div 4)" "i \<le> r"
    and "layout env len i (\<lambda>k j. env_rand env (k * (unat len div 4) + j) * m) (vmem s)"
  shows "\<exists>s'. fill_rounds env len m r i s = Some s' \<and>
    layout env len r (\<lambda>k j. env_rand env (k * (unat len div 4) + j) * m) (vmem s')"
  using assms(2-)
proof (induction "r - i" arbitrary: i s)
  case 0
  then show ?case by (subst fill_rounds.simps) simp
next
  case (Suc d)
  let ?f = "\<lambda>k j. env_rand env (k * (unat len div 4) + j) * m"
  have lt: "vmaps s < r" using Suc.hyps(2) Suc.prems(1) by simp
  have "\<forall>j < unat len div 4. ?f (vmaps s) j = gen_value (rand_gen env m) (vrand s) j"
    using Suc.prems by (simp add: rand_gen_value)
  with map_fill_layout [OF assms(1) lt, of ?f "rand_gen env m" id] Suc.prems obtain mm where
    mm: "fill_filldata env len m s = Some (log_calls [FMmap len, FMadvise (env_mmap env i len) len, FPopulated]
        (s\<lparr>vmem := mm, vmaps := Suc i, vrand := vrand s + unat len div 4\<rparr>))" (is "_ = Some ?s")
    "layout env len (Suc i) ?f mm"
    by (auto simp: fill_filldata_def rand_gen_state)
  have "\<exists>s'. fill_rounds env len m r (Suc i) (log_calls [FSleeping i, FFflush, FSleep 15] ?s) = Some s' \<and>
      layout env len r ?f (vmem s')"
    using Suc mm(2) by (intro Suc.hyps(1)) simp_all
  then show ?case using lt Suc.prems(1,2) mm(1) by (subst fill_rounds.simps) simp
qed

lemma fill_rounds_start:
  assumes "grants env len r"
  shows "\<exists>s'. fill_rounds env len 1 r 0 fillp_start = Some s' \<and>
    layout env len r (\<lambda>k j. env_rand env (k * (unat len div 4) + j)) (vmem s')"
  using fill_rounds_layout [OF assms, of fillp_start 0 1] by (simp add: fillp_start_def layout_def)

section \<open>\<open>allocate_at_once\<close>\<close>

lemma at_once_value_nat: "at_once_value h m (word_of_nat i) = h + word_of_nat i * m"
proof -
  have "(ucast (word_of_int k :: u64) :: u32) = word_of_int k" for k
    by transfer (simp add: take_bit_take_bit)
  then have "(ucast (word_of_int (sint h + int i * sint m) :: u64) :: u32) = word_of_int (sint h + int i * sint m)" .
  then show ?thesis by (simp add: at_once_value_def)
qed

lemma at_once_rounds_layout:
  assumes "grants env len 10" "vmaps s = x" "x \<le> 10" "length addr = 100"
    and "\<forall>k < x. addr ! Suc k = env_mmap env k len"
    and "layout env len x (\<lambda>k j. word_of_nat (Suc k) + word_of_nat j * m) (vmem s)"
  shows "\<exists>addr' s'. at_once_rounds env tbl len m x (addr, s) = Some (addr', s') \<and>
    (\<forall>k < 10. addr' ! Suc k = env_mmap env k len) \<and>
    layout env len 10 (\<lambda>k j. word_of_nat (Suc k) + word_of_nat j * m) (vmem s') \<and>
    vtrace s' = vtrace s @ concat (replicate (10 - x) [FMmap len, FMadvise tbl len, FPopulated])"
  using assms(2-)
proof (induction "10 - x" arbitrary: x s addr)
  case 0
  then show ?case by (subst at_once_rounds.simps) simp
next
  case (Suc d)
  let ?f = "\<lambda>k j. word_of_nat (Suc k) + word_of_nat j * m"
  let ?gen = "\<lambda>i c. (at_once_value (word_of_nat (Suc x)) m i, c)"
  have lt: "x < 10" "vmaps s < 10" using Suc.hyps(2) Suc.prems(1) by simp_all
  have "\<forall>j < unat len div 4. ?f (vmaps s) j = gen_value ?gen (vrand s) j"
    unfolding Suc.prems(1) const_gen at_once_value_nat by simp
  with map_fill_layout [OF assms(1) lt(2), of ?f ?gen "\<lambda>a. tbl"] Suc.prems(1,5) obtain mm where
    mm: "map_fill env (\<lambda>a. tbl) ?gen len s = Some (env_mmap env x len,
        log_calls [FMmap len, FMadvise tbl len, FPopulated]
        (s\<lparr>vmem := mm, vmaps := Suc x, vrand := vrand s\<rparr>))" (is "_ = Some (_, ?s)")
    "layout env len (Suc x) ?f mm"
    by (auto simp only: const_gen)
  have fd: "at_once_filldata env tbl len m (x + 1) (addr, s) = Some (addr[Suc x := env_mmap env x len], ?s)"
    using lt(1) Suc.prems(3) mm(1) by (simp add: at_once_filldata_def wr_def)
  have "\<exists>addr' s'. at_once_rounds env tbl len m (Suc x) (addr[Suc x := env_mmap env x len], ?s) = Some (addr', s') \<and>
    (\<forall>k < 10. addr' ! Suc k = env_mmap env k len) \<and> layout env len 10 ?f (vmem s') \<and>
    vtrace s' = vtrace ?s @ concat (replicate (10 - Suc x) [FMmap len, FMadvise tbl len, FPopulated])"
    using Suc.hyps(2) Suc.prems lt mm(2)
    by (intro Suc.hyps(1)) (auto simp: less_Suc_eq nth_list_update)
  moreover have "replicate (10 - x) [FMmap len, FMadvise tbl len, FPopulated] =
      [FMmap len, FMadvise tbl len, FPopulated] # replicate (10 - Suc x) [FMmap len, FMadvise tbl len, FPopulated]"
    using lt(1) by (simp add: Suc_diff_Suc flip: replicate_Suc)
  ultimately show ?case using lt(1) fd by (subst at_once_rounds.simps) auto
qed

section \<open>\<open>allocate\<close>\<close>

lemma allocate_main_page:
  assumes "env_mmap env 0 (mapping_size 262000) \<noteq> MAP_FAILED"
  shows "\<exists>s. allocate_main env = Some s \<and> (\<forall>p < 262000.
    page_at (vmem s) (env_mmap env 0 (mapping_size 262000)) p = map (\<lambda>j. Some (word_of_nat (1024 * p + j))) [0..<1024])"
proof -
  let ?len = "mapping_size 262000" and ?gen = "\<lambda>i (c :: nat). (fill_value i 1, c)"
  have n: "unat ?len div 4 = 268288000" by (simp add: mapping_size_def)
  have "grants env ?len 1" using assms by (simp add: grants_def)
  moreover have "\<forall>i < unat ?len div 4. word_of_nat i = gen_value ?gen (vrand fillp_start) i"
    unfolding const_gen fill_value_nat by simp
  ultimately obtain m where m: "map_fill env id ?gen ?len fillp_start = Some (env_mmap env 0 ?len,
      log_calls [FMmap ?len, FMadvise (env_mmap env 0 ?len) ?len, FPopulated]
        (fillp_start\<lparr>vmem := m, vmaps := 1, vrand := 0\<rparr>))" "layout env ?len 1 (\<lambda>k i. word_of_nat i) m"
    using map_fill_layout [of env ?len 1 fillp_start "\<lambda>k i. word_of_nat i" ?gen id]
    by (auto simp: fillp_start_def layout_def const_gen(1) [of "\<lambda>i. fill_value i 1"])
  have "page_at m (env_mmap env 0 ?len) p = map (\<lambda>j. Some (word_of_nat (1024 * p + j))) [0..<1024]" if "p < 262000" for p
    using layout_page [OF m(2), of 0 p] that by (simp add: n)
  with m(1) show ?thesis by (simp add: allocate_main_def allocate_filldata_def)
qed

section \<open>A kernel that grants the mappings\<close>

definition spaced :: "(nat \<Rightarrow> u32) \<Rightarrow> env" where
  "spaced rnd = \<lparr>env_mmap = (\<lambda>k len. 1099511627776 * word_of_nat (Suc k)), env_rand = rnd\<rparr>"

lemma unat_spaced:
  "k \<le> 1000 \<Longrightarrow> unat (1099511627776 * word_of_nat k :: u64) = 1099511627776 * k"
proof -
  assume "k \<le> 1000"
  then have "1099511627776 * k < 18446744073709551616" by linarith
  then have "unat (word_of_nat (1099511627776 * k) :: u64) = 1099511627776 * k"
    by (simp only: unat_of_nat take_bit_eq_mod) simp
  then show ?thesis by (simp only: of_nat_mult of_nat_numeral)
qed

lemma spaced_grants:
  assumes "unat len \<le> 1099511627776" "r \<le> 999"
  shows "grants (spaced rnd) len r"
proof -
  have "\<not> in_map (1099511627776 * word_of_nat (Suc k)) len a"
    if "j < k" "k < r" "in_map (1099511627776 * word_of_nat (Suc j)) len a" for j k and a :: u64
  proof
    let ?b = "\<lambda>k. 1099511627776 * word_of_nat (Suc k) :: u64"
    assume "in_map (?b k) len a"
    then have d: "unat (a - ?b k) < unat len" "unat (a - ?b j) < unat len"
      using that(3) by (simp_all add: in_map_def word_less_nat_alt)
    have "(word_of_nat (k - j) :: u64) = word_of_nat k - word_of_nat j" using that(1) by (simp add: of_nat_diff)
    then have e: "a - ?b j = (a - ?b k) + 1099511627776 * word_of_nat (k - j)"
      by (simp only:) (simp add: algebra_simps)
    have u: "unat (1099511627776 * word_of_nat (k - j) :: u64) = 1099511627776 * (k - j)"
      using that(2) assms(2) by (intro unat_spaced) simp
    have "1099511627776 * (k - j) \<le> 1099511627776 * 999" using that(2) assms(2) by (intro mult_left_mono) simp_all
    then have "unat (a - ?b k) + 1099511627776 * (k - j) < 18446744073709551616" using d assms(1) by linarith
    then have "unat (a - ?b j) = unat (a - ?b k) + 1099511627776 * (k - j)"
      unfolding e unat_word_ariths(1) u by simp
    moreover have "1099511627776 \<le> 1099511627776 * (k - j)" using that(1) by simp
    ultimately show False using d assms(1) by linarith
  qed
  moreover have "(1099511627776 * word_of_nat (Suc k) :: u64) \<noteq> MAP_FAILED" if "k < r" for k
  proof
    assume "(1099511627776 * word_of_nat (Suc k) :: u64) = MAP_FAILED"
    then have "1099511627776 * Suc k = unat (- 1 :: u64)"
      using unat_spaced [of "Suc k"] that assms(2) by (simp add: MAP_FAILED_def del: of_nat_Suc)
    then show False using that assms(2) by (simp add: unsigned_minus_1_eq_mask mask_eq_exp_minus_1)
  qed
  ultimately show ?thesis unfolding grants_def spaced_def by simp
qed

section \<open>Properties\<close>

lemma unat_mapping_500000: "unat (mapping_size 500000) = 2048000000"
  by (simp add: mapping_size_def)

lemma unat_mapping_2620000: "unat (mapping_size 2620000) = 10731520000"
  by (simp add: mapping_size_def)

text \<open>
  C25. \<open>fill\<close> and \<open>fill_another\<close> draw their contents from \<open>rand\<close> but never seed it.  When the
  mappings are granted both programs get through all their rounds, and page \<open>p\<close> of the \<open>k\<close>-th
  mapping is the same in both processes, for every round that both make: each of their "random"
  pages has a twin in the other process.
\<close>
theorem fill_programs_share_pages:
  assumes "grants env (mapping_size 500000) 42" "grants env' (mapping_size 500000) 50"
    and "env_rand env = env_rand env'"
  shows "\<exists>s s'. fill_main env = Some s \<and> fill_another_main env' = Some s' \<and>
    (\<forall>k < 42. \<forall>p < 500000.
       page_at (vmem s) (env_mmap env k (mapping_size 500000)) p =
         map (\<lambda>j. Some (env_rand env (k * 512000000 + (1024 * p + j)))) [0..<1024] \<and>
       page_at (vmem s') (env_mmap env' k (mapping_size 500000)) p =
         page_at (vmem s) (env_mmap env k (mapping_size 500000)) p)"
proof -
  have n: "unat (mapping_size 500000) div 4 = 512000000" by (simp add: unat_mapping_500000)
  obtain s where s: "fill_rounds env (mapping_size 500000) 1 42 0 fillp_start = Some s"
    "layout env (mapping_size 500000) 42 (\<lambda>k j. env_rand env (k * 512000000 + j)) (vmem s)"
    using fill_rounds_start [OF assms(1)] unfolding n by blast
  obtain s' where s': "fill_rounds env' (mapping_size 500000) 1 50 0 fillp_start = Some s'"
    "layout env' (mapping_size 500000) 50 (\<lambda>k j. env_rand env' (k * 512000000 + j)) (vmem s')"
    using fill_rounds_start [OF assms(2)] unfolding n by blast
  have "page_at (vmem s) (env_mmap env k (mapping_size 500000)) p =
      map (\<lambda>j. Some (env_rand env (k * 512000000 + (1024 * p + j)))) [0..<1024] \<and>
    page_at (vmem s') (env_mmap env' k (mapping_size 500000)) p =
      page_at (vmem s) (env_mmap env k (mapping_size 500000)) p" if "k < 42" "p < 500000" for k p
    using layout_page [OF s(2) that(1), of p] layout_page [OF s'(2), of k p] that assms(3) by (simp add: n)
  then show ?thesis using s(1) s'(1) by (simp add: fill_main_def fill_another_main_def)
qed

theorem fill_programs_share_pages_witness:
  "\<exists>s s'. fill_main (spaced (\<lambda>c. word_of_nat c)) = Some s \<and> fill_another_main (spaced (\<lambda>c. word_of_nat c)) = Some s' \<and>
     page_at (vmem s') (env_mmap (spaced (\<lambda>c. word_of_nat c)) 3 (mapping_size 500000)) 7 =
     page_at (vmem s) (env_mmap (spaced (\<lambda>c. word_of_nat c)) 3 (mapping_size 500000)) 7"
proof -
  have "grants (spaced (\<lambda>c. word_of_nat c)) (mapping_size 500000) r" if "r \<le> 999" for r
    using that by (intro spaced_grants) (simp_all add: unat_mapping_500000)
  then show ?thesis
    using fill_programs_share_pages [of "spaced (\<lambda>c. word_of_nat c)" "spaced (\<lambda>c. word_of_nat c)"] by fastforce
qed

text \<open>
  C26. \<open>allocate_at_once\<close> gets through its ten mappings and records them in \<open>addr [1]\<close> to
  \<open>addr [10]\<close>; no two of its 26.2 million pages are equal, and every call of \<open>madvise\<close> is given
  the address of the array \<open>addr\<close> instead of a mapping.
\<close>
theorem at_once_pages_distinct:
  assumes "grants env (mapping_size 2620000) 10"
  shows "\<exists>addr s. at_once_main env tbl = Some (addr, s) \<and>
    (\<forall>k < 10. addr ! Suc k = env_mmap env k (mapping_size 2620000)) \<and>
    vtrace s = concat (replicate 10 [FMmap (mapping_size 2620000), FMadvise tbl (mapping_size 2620000), FPopulated])
      @ [FComplete] \<and>
    (\<forall>k < 10. \<forall>k' < 10. \<forall>p < 2620000. \<forall>p' < 2620000.
       page_at (vmem s) (addr ! Suc k) p = page_at (vmem s) (addr ! Suc k') p' \<longleftrightarrow> k = k' \<and> p = p')"
proof -
  let ?len = "mapping_size 2620000"
  let ?f = "\<lambda>k j. word_of_nat (Suc k) + word_of_nat j * (1 :: u32)"
  have n: "unat ?len div 4 = 2682880000" by (simp add: unat_mapping_2620000)
  obtain addr s where s: "at_once_rounds env tbl ?len 1 0 (replicate 100 0, fillp_start) = Some (addr, s)"
    "\<forall>k < 10. addr ! Suc k = env_mmap env k ?len" "layout env ?len 10 ?f (vmem s)"
    "vtrace s = concat (replicate 10 [FMmap ?len, FMadvise tbl ?len, FPopulated])"
    using at_once_rounds_layout [OF assms, of fillp_start 0 "replicate 100 0" 1 tbl]
    by (auto simp: fillp_start_def layout_def)
  have "k = k' \<and> p = p'"
    if h: "k < 10" "k' < 10" "p < 2620000" "p' < 2620000"
      "page_at (vmem s) (env_mmap env k ?len) p = page_at (vmem s) (env_mmap env k' ?len) p'" for k k' p p'
  proof -
    have "1024 * Suc p \<le> unat ?len div 4" "1024 * Suc p' \<le> unat ?len div 4" using h(3,4) by (simp_all add: n)
    then have "map (\<lambda>j. Some (?f k (1024 * p + j))) [0..<1024] = map (\<lambda>j. Some (?f k' (1024 * p' + j))) [0..<1024]"
      using h(5) layout_page [OF s(3) h(1), of p] layout_page [OF s(3) h(2), of p'] by metis
    then have "\<forall>j < 1024. ?f k (1024 * p + j) = ?f k' (1024 * p' + j)"
      unfolding page_eq_iff [of "?f k" p "?f k'" p'] .
    then have "?f k (1024 * p + 0) = ?f k' (1024 * p' + 0)" by (metis zero_less_numeral)
    then have "(word_of_nat (Suc k + 1024 * p) :: u32) = word_of_nat (Suc k' + 1024 * p')" by simp
    moreover have "Suc k + 1024 * p < 2 ^ 32" "Suc k' + 1024 * p' < 2 ^ 32" using h(1-4) by simp_all
    ultimately have "Suc k + 1024 * p = Suc k' + 1024 * p'" by (rule u32_of_nat_inj)
    then show ?thesis using h(1,2) by (cases p p' rule: linorder_cases) simp_all
  qed
  with s show ?thesis by (auto simp: at_once_main_def)
qed

theorem at_once_pages_distinct_witness:
  "\<exists>addr s. at_once_main (spaced (\<lambda>c. 0)) 4096 = Some (addr, s) \<and>
     page_at (vmem s) (addr ! 1) 1 \<noteq> page_at (vmem s) (addr ! 2) 1"
proof -
  have "grants (spaced (\<lambda>c. 0)) (mapping_size 2620000) 10"
    by (intro spaced_grants) (simp_all add: unat_mapping_2620000)
  from at_once_pages_distinct [OF this, of 4096] obtain addr s where
    "at_once_main (spaced (\<lambda>c. 0)) 4096 = Some (addr, s)"
    and d: "\<forall>k < 10. \<forall>k' < 10. \<forall>p < 2620000. \<forall>p' < 2620000.
      page_at (vmem s) (addr ! Suc k) p = page_at (vmem s) (addr ! Suc k') p' \<longleftrightarrow> k = k' \<and> p = p'" by blast
  moreover have "page_at (vmem s) (addr ! Suc 0) 1 \<noteq> page_at (vmem s) (addr ! Suc 1) 1"
    using d [rule_format, of 0 1 1 1] by simp
  ultimately show ?thesis by (auto simp: numeral_2_eq_2)
qed

end
