(* ===== verification/Random_Reads.thy ===== *)
theory Random_Reads
  imports Input_Pages
begin

text \<open>
  The two random-read workloads (\<open>randomAccess\<close>).  A process waits for signals: \<open>SIGUSR1\<close> maps
  and fills its memory, \<open>SIGUSR2\<close> reads it at pseudo-random positions, adds up what it reads,
  unmaps the memory and exits; each handler reports back to the sender.  In this theory a handler
  runs in one go, from the signal to its return; \<open>Read_Interrupts\<close> has the handlers of the first
  program step by step, with signals that arrive while one is running, and shows that a handler in one
  go is a run of that machine.
\<close>

section \<open>State\<close>

datatype signal = SIGUSR1 nat | SIGUSR2 nat

datatype rstatus = Running | RExited nat | RFaulted | RUndefined

datatype rcall = RUsage "string option" | RPidfile | RSrand | RMmap u64 | RPopulated | RStarted | RTime
  | RSum u64 | RMunmap u64 u64 | RKill nat

record rproc =
  rstat :: rstatus
  rsize :: u64
  raddr :: u64
  rmult :: u32
  rtotal :: u64
  rpages :: u32
  rloops :: u32
  rmem :: memory
  rmaps :: nat
  rtrace :: "rcall list"

definition rproc_start :: rproc where
  "rproc_start = \<lparr>rstat = Running, rsize = 0, raddr = 0, rmult = 0, rtotal = 0, rpages = 0, rloops = 0,
     rmem = (\<lambda>a. None), rmaps = 0, rtrace = []\<rparr>"

definition rlog :: "rcall list \<Rightarrow> rproc \<Rightarrow> rproc" where
  "rlog cs p = p\<lparr>rtrace := rtrace p @ cs\<rparr>"

section \<open>Start of the programs\<close>

definition reads_main :: "string list \<Rightarrow> rproc" where
  "reads_main argv =
    (if length argv < 2 then (rlog [RUsage (rd argv 0)] rproc_start)\<lparr>rstat := RExited 1\<rparr>
     else let p = rlog [RPidfile] rproc_start in
       case (if 3 \<le> length argv then atoi (argv ! 2) else Some 1,
             if length argv = 4 then atoi (argv ! 3) else Some 1, atoi (argv ! 1)) of
         (Some l, Some m, Some n) \<Rightarrow>
           p\<lparr>rloops := l, rmult := m, rpages := n, rsize := mapping_size n, rtotal := mapping_size n div 4\<rparr>
       | _ \<Rightarrow> p\<lparr>rstat := RUndefined\<rparr>)"

definition reads2_main :: "string list \<Rightarrow> rproc" where
  "reads2_main argv =
    (if length argv < 2 then (rlog [RUsage (rd argv 0)] rproc_start)\<lparr>rstat := RExited 1\<rparr>
     else let p = rlog [RPidfile] rproc_start in
       case (if length argv = 3 then atoi (argv ! 2) else Some 1, atoi (argv ! 1)) of
         (Some m, Some n) \<Rightarrow>
           rlog [RSrand] (p\<lparr>rmult := m, rpages := n, rsize := mapping_size n, rtotal := mapping_size n div 4\<rparr>)
       | _ \<Rightarrow> p\<lparr>rstat := RUndefined\<rparr>)"

section \<open>The handler of \<open>SIGUSR1\<close>\<close>

definition reads_filldata :: "(nat \<Rightarrow> u64 \<Rightarrow> u64) \<Rightarrow> nat \<Rightarrow> rproc \<Rightarrow> rproc" where
  "reads_filldata mm pid p =
    (let a = mm (rmaps p) (rsize p);
         q = rlog [RMmap (rsize p)] (p\<lparr>raddr := a, rmaps := Suc (rmaps p),
               rmem := if a = MAP_FAILED then rmem p else map_zero a (rsize p) (rmem p)\<rparr>) in
     case fill_loop (\<lambda>i c. (fill_value i (rmult p), c)) a (rsize p) 0 (rmem q) () of
       None \<Rightarrow> q\<lparr>rstat := RFaulted\<rparr>
     | Some (m, c) \<Rightarrow> rlog [RPopulated, RKill pid] (q\<lparr>rmem := m\<rparr>))"

section \<open>The handler of \<open>SIGUSR2\<close>\<close>

text \<open>\<open>rand_num\<close> of the first program; a remainder by zero has no result.\<close>

definition rand_num :: "u64 \<Rightarrow> u64 \<Rightarrow> (u64 \<times> u64) option" where
  "rand_num mx state = (let state = state * 1103515258476245 + 12345 in
     if mx = 0 then None else Some (state div 4294967295 mod mx, state))"

function read_loop :: "memory \<Rightarrow> u64 \<Rightarrow> u64 \<Rightarrow> u64 \<Rightarrow> u64 \<Rightarrow> u64 \<Rightarrow> u64 \<Rightarrow> (u64 \<times> u64) option" where
  "read_loop m addr tot iterations i state sm =
    (if i < iterations then
       (case rand_num tot state of
          None \<Rightarrow> None
        | Some (r, state') \<Rightarrow>
            (case m (addr + 4 * r) of
               None \<Rightarrow> None
             | Some x \<Rightarrow> read_loop m addr tot iterations (i + 1) state' (sm + scast x)))
     else Some (state, sm))"
  by pat_completeness auto
termination
proof (relation "measure (\<lambda>(m, addr, tot, n, i, state, sm). unat n - unat i)")
  fix m :: memory and addr tot n i state sm st' r x y st'' :: u64 and z :: u32
  assume "i < n"
  then show "((m, addr, tot, n, i + 1, st'', sm + scast z), m, addr, tot, n, i, state, sm)
      \<in> measure (\<lambda>(m, addr, tot, n, i, state, sm). unat n - unat i)"
    using unat_less_64 [of n] by (simp add: word_less_nat_alt unat_word_ariths)
qed simp

declare read_loop.simps [simp del]

function reads_rounds :: "rproc \<Rightarrow> u32 \<Rightarrow> u64 \<Rightarrow> u64 \<Rightarrow> u64 option" where
  "reads_rounds p j state sm =
    (if j < rloops p then
       (case read_loop (rmem p) (raddr p) (rtotal p) (rtotal p div 8) 0 state sm of
          None \<Rightarrow> None
        | Some (state, sm) \<Rightarrow> reads_rounds p (j + 1) state sm)
     else Some sm)"
  by pat_completeness auto
termination
proof (relation "measure (\<lambda>(p, j, state, sm). unat (rloops p) - unat j)")
  fix p :: rproc and j :: u32 and st sm st' sm' :: u64 and v :: "u64 \<times> u64"
  assume "j < rloops p"
  moreover have "unat (rloops p) < 4294967296" using unsigned_less [of "rloops p"] by simp
  ultimately show "((p, j + 1, st', sm'), p, j, st, sm) \<in> measure (\<lambda>(p, j, state, sm). unat (rloops p) - unat j)"
    by (simp add: word_less_nat_alt unat_word_ariths)
qed simp

declare reads_rounds.simps [simp del]

definition reads_access :: "rproc \<Rightarrow> u64 option" where
  "reads_access p = reads_rounds p 0 1 0"

text \<open>The second program: its own \<open>rand_num\<close>, and reads in the upper half of the array.\<close>

definition rand_num2 :: "u32 \<Rightarrow> u32 \<Rightarrow> (u32 \<times> u32) option" where
  "rand_num2 mx state = (let state = state * (1103515245 + 12345) in
     if mx = 0 then None else Some (state div 65536 mod mx, state))"

function read2_loop :: "rproc \<Rightarrow> u64 \<Rightarrow> u64 \<Rightarrow> u32 \<Rightarrow> u64 \<Rightarrow> u64 option" where
  "read2_loop p iterations i state sm =
    (if i < iterations then
       (case rand_num2 (rpages p) state of
          None \<Rightarrow> None
        | Some (random_num, state) \<Rightarrow>
            (case rand_num2 1024 state of
               None \<Rightarrow> None
             | Some (r, state) \<Rightarrow>
                 (case rmem p (raddr p + 4 * (rtotal p div 2 + ucast random_num * 1024 + ucast r)) of
                    None \<Rightarrow> None
                  | Some x \<Rightarrow> read2_loop p iterations (i + 1) state (sm + scast x))))
     else Some sm)"
  by pat_completeness auto
termination
proof (relation "measure (\<lambda>(p, n, i, state, sm). unat n - unat i)")
  fix p :: rproc and n i sm :: u64 and state st' :: u32 and z :: u32
  assume "i < n"
  then show "((p, n, i + 1, st', sm + scast z), p, n, i, state, sm) \<in> measure (\<lambda>(p, n, i, state, sm). unat n - unat i)"
    using unat_less_64 [of n] by (simp add: word_less_nat_alt unat_word_ariths)
qed simp

declare read2_loop.simps [simp del]

definition reads2_access :: "rproc \<Rightarrow> u64 option" where
  "reads2_access p = read2_loop p (rtotal p div 8) 0 0 0"

definition unmap_all :: "rproc \<Rightarrow> rproc" where
  "unmap_all p = rlog [RMunmap (raddr p) (rsize p)]
     (p\<lparr>rmem := (\<lambda>a. if in_map (raddr p) (rsize p) a then None else rmem p a)\<rparr>)"

definition random_access :: "(rproc \<Rightarrow> u64 option) \<Rightarrow> nat \<Rightarrow> rproc \<Rightarrow> rproc" where
  "random_access access pid p =
    (let p = rlog [RStarted] p in
     case access p of
       None \<Rightarrow> p\<lparr>rstat := RFaulted\<rparr>
     | Some sm \<Rightarrow> (rlog [RKill pid] (unmap_all (rlog [RTime, RSum sm] p)))\<lparr>rstat := RExited 0\<rparr>)"

section \<open>The machine\<close>

definition on_signal :: "(nat \<Rightarrow> u64 \<Rightarrow> u64) \<Rightarrow> (rproc \<Rightarrow> u64 option) \<Rightarrow> signal \<Rightarrow> rproc \<Rightarrow> rproc" where
  "on_signal mm access sg p =
    (if rstat p = Running then
       (case sg of SIGUSR1 pid \<Rightarrow> reads_filldata mm pid p | SIGUSR2 pid \<Rightarrow> random_access access pid p)
     else p)"

section \<open>The reads of the first program\<close>

primrec lcg_state :: "u64 \<Rightarrow> nat \<Rightarrow> u64" where
  "lcg_state s 0 = s"
| "lcg_state s (Suc k) = lcg_state s k * 1103515258476245 + 12345"

definition read_index :: "u64 \<Rightarrow> u64 \<Rightarrow> nat \<Rightarrow> u64" where
  "read_index tot s k = lcg_state s (Suc k) div 4294967295 mod tot"

definition read_sum :: "(nat \<Rightarrow> u32) \<Rightarrow> u64 \<Rightarrow> u64 \<Rightarrow> nat \<Rightarrow> u64" where
  "read_sum f tot s k = (\<Sum>j<k. scast (f (unat (read_index tot s j))))"

lemma lcg_state_add: "lcg_state (lcg_state s a) b = lcg_state s (a + b)"
  by (induction b) simp_all

lemma read_sum_add: "read_sum f tot s a + read_sum f tot (lcg_state s a) b = read_sum f tot s (a + b)"
proof (induction b)
  case (Suc b)
  have "read_index tot (lcg_state s a) b = read_index tot s (a + b)"
    unfolding read_index_def lcg_state_add by simp
  with Suc show ?case by (simp add: read_sum_def add.assoc [symmetric])
qed (simp add: read_sum_def)

lemma unat_read_index: "tot \<noteq> 0 \<Longrightarrow> unat (read_index tot s k) < unat tot"
  by (simp add: read_index_def unat_mod unat_gt_0)

lemma read_loop_from:
  assumes cells: "\<forall>i < unat tot. m (addr + 4 * word_of_nat i) = Some (f i)" and "tot \<noteq> 0" and "k \<le> unat n"
  shows "read_loop m addr tot n (word_of_nat k) (lcg_state s k) (sm + read_sum f tot s k) =
    Some (lcg_state s (unat n), sm + read_sum f tot s (unat n))"
  using assms(3)
proof (induction "unat n - k" arbitrary: k)
  case 0
  then have "k = unat n" by simp
  then show ?case by (subst read_loop.simps) simp
next
  case (Suc d)
  then have k: "k < unat n" by simp
  then have uk: "unat (word_of_nat k :: u64) = k"
    using unat_less_64 [of n] by (simp add: unat_of_nat take_bit_eq_mod)
  have r: "rand_num tot (lcg_state s k) = Some (read_index tot s k, lcg_state s (Suc k))"
    using assms(2) by (simp add: rand_num_def read_index_def Let_def)
  have c: "m (addr + 4 * read_index tot s k) = Some (f (unat (read_index tot s k)))"
    using cells [rule_format, OF unat_read_index [OF assms(2), of s k]] by simp
  have "read_loop m addr tot n (word_of_nat (Suc k)) (lcg_state s (Suc k)) (sm + read_sum f tot s (Suc k)) =
      Some (lcg_state s (unat n), sm + read_sum f tot s (unat n))"
    using Suc k by (intro Suc.hyps(1)) simp_all
  then show ?case using k uk r c
    by (subst read_loop.simps) (simp add: word_less_nat_alt read_sum_def ac_simps)
qed

lemma read_loop_all:
  assumes "\<forall>i < unat tot. m (addr + 4 * word_of_nat i) = Some (f i)"
  shows "read_loop m addr tot (tot div 8) 0 s sm =
    Some (lcg_state s (unat tot div 8), sm + read_sum f tot s (unat tot div 8))"
proof (cases "tot = 0")
  case True
  then show ?thesis by (subst read_loop.simps) (simp add: read_sum_def)
next
  case False
  from read_loop_from [OF assms this, of 0 "tot div 8" s sm] show ?thesis
    by (simp add: read_sum_def unat_div)
qed

text \<open>The memory that \<open>filldata\<close> leaves.\<close>

definition ready :: "rproc \<Rightarrow> bool" where
  "ready p \<longleftrightarrow> (\<forall>i < unat (rtotal p). rmem p (raddr p + 4 * word_of_nat i) = Some (word_of_nat i * rmult p))"

definition expected_sum :: "rproc \<Rightarrow> u64" where
  "expected_sum p = read_sum (\<lambda>i. word_of_nat i * rmult p) (rtotal p) 1
     (unat (rloops p) * (unat (rtotal p) div 8))"

lemma reads_rounds_from:
  fixes p defines "K \<equiv> unat (rtotal p) div 8"
  assumes "ready p" and "j \<le> unat (rloops p)"
  shows "reads_rounds p (word_of_nat j) (lcg_state 1 (j * K)) (read_sum (\<lambda>i. word_of_nat i * rmult p) (rtotal p) 1 (j * K))
    = Some (expected_sum p)"
  using assms(3)
proof (induction "unat (rloops p) - j" arbitrary: j)
  case 0
  then have "j = unat (rloops p)" by simp
  then show ?case by (subst reads_rounds.simps) (simp add: expected_sum_def K_def)
next
  case (Suc d)
  then have j: "j < unat (rloops p)" by simp
  moreover have "unat (rloops p) < 4294967296" using unsigned_less [of "rloops p"] by simp
  ultimately have uj: "unat (word_of_nat j :: u32) = j" by (simp add: unat_of_nat take_bit_eq_mod)
  let ?f = "\<lambda>i. word_of_nat i * rmult p"
  have "read_loop (rmem p) (raddr p) (rtotal p) (rtotal p div 8) 0 (lcg_state 1 (j * K)) (read_sum ?f (rtotal p) 1 (j * K)) =
      Some (lcg_state 1 (Suc j * K), read_sum ?f (rtotal p) 1 (Suc j * K))"
    using read_loop_all [of "rtotal p" "rmem p" "raddr p" ?f "lcg_state 1 (j * K)" "read_sum ?f (rtotal p) 1 (j * K)"] assms(2)
    by (simp add: ready_def lcg_state_add read_sum_add K_def add.commute)
  moreover have "reads_rounds p (word_of_nat (Suc j)) (lcg_state 1 (Suc j * K)) (read_sum ?f (rtotal p) 1 (Suc j * K)) =
      Some (expected_sum p)"
    using Suc j by (intro Suc.hyps(1)) simp_all
  ultimately show ?case using j uj
    by (subst reads_rounds.simps) (simp add: word_less_nat_alt add.commute)
qed

lemma reads_access_ready: "ready p \<Longrightarrow> reads_access p = Some (expected_sum p)"
  using reads_rounds_from [of p 0] by (simp add: reads_access_def read_sum_def)

section \<open>The handlers in one go\<close>

lemma rlog_simps [simp]:
  "rstat (rlog cs p) = rstat p" "rsize (rlog cs p) = rsize p" "raddr (rlog cs p) = raddr p"
  "rmult (rlog cs p) = rmult p" "rtotal (rlog cs p) = rtotal p" "rpages (rlog cs p) = rpages p"
  "rloops (rlog cs p) = rloops p" "rmem (rlog cs p) = rmem p" "rmaps (rlog cs p) = rmaps p"
  "rtrace (rlog cs p) = rtrace p @ cs"
  by (simp_all add: rlog_def)

lemma ready_rlog [simp]: "ready (rlog cs p) = ready p"
  by (simp add: ready_def)

lemma expected_sum_rlog [simp]: "expected_sum (rlog cs p) = expected_sum p"
  by (simp add: expected_sum_def)

lemma reads_filldata_ok:
  assumes "mm (rmaps p) (rsize p) \<noteq> MAP_FAILED" "rtotal p = rsize p div 4"
  obtains m where "reads_filldata mm pid p = rlog [RMmap (rsize p), RPopulated, RKill pid]
      (p\<lparr>raddr := mm (rmaps p) (rsize p), rmaps := Suc (rmaps p), rmem := m\<rparr>)"
    and "ready (p\<lparr>raddr := mm (rmaps p) (rsize p), rmaps := Suc (rmaps p), rmem := m\<rparr>)"
proof
  let ?b = "mm (rmaps p) (rsize p)"
  let ?m = "filled ?b (rsize p) (\<lambda>k. fill_value (word_of_nat k) (rmult p)) (unat (rsize p) div 4) (rmem p)"
  show "reads_filldata mm pid p = rlog [RMmap (rsize p), RPopulated, RKill pid]
      (p\<lparr>raddr := ?b, rmaps := Suc (rmaps p), rmem := ?m\<rparr>)"
  proof -
    have "gen_value (\<lambda>i c. (fill_value i (rmult p), c)) () = (\<lambda>k. fill_value (word_of_nat k) (rmult p))"
      by (rule ext) (rule const_gen)
    then show ?thesis using assms(1) by (simp add: reads_filldata_def Let_def fill_loop_filled rlog_def)
  qed
  show "ready (p\<lparr>raddr := ?b, rmaps := Suc (rmaps p), rmem := ?m\<rparr>)"
    using assms(2) by (simp add: ready_def unat_div filled_at fill_value_nat)
qed

lemma reads_access_null:
  assumes "rmem p = (\<lambda>a. None)" "rtotal p = mapping_size n div 4" "rtotal p \<noteq> 0" "rloops p \<noteq> 0"
  shows "reads_access p = None"
proof -
  have "unat (rtotal p) \<noteq> 0" using assms(3) by (simp add: unat_eq_0)
  moreover have "unat (rtotal p) = unat (mapping_size n) div 4" by (simp add: assms(2) unat_div)
  moreover have "1024 dvd unat (mapping_size n) div 4" using mapping_size_dvd [of n] by (auto simp: dvd_def)
  ultimately have "1024 \<le> unat (rtotal p)" by (metis dvd_imp_le neq0_conv)
  then have "0 < rtotal p div 8" by (simp add: word_less_nat_alt unat_div)
  then have "read_loop (rmem p) (raddr p) (rtotal p) (rtotal p div 8) 0 1 0 = None"
    by (subst read_loop.simps) (simp add: assms(1) split: option.split)
  moreover have "0 < rloops p" using assms(4) by (simp add: word_gt_0)
  ultimately show ?thesis unfolding reads_access_def by (subst reads_rounds.simps) simp
qed

section \<open>The reads of the second program\<close>

lemma rand_num2_0: "mx \<noteq> 0 \<Longrightarrow> rand_num2 mx 0 = Some (0, 0)"
  by (simp add: rand_num2_def)

lemma read2_loop_from:
  assumes "rpages p \<noteq> 0" "rmem p (raddr p + 4 * (rtotal p div 2)) = Some x" "k \<le> unat n"
  shows "read2_loop p n (word_of_nat k) 0 sm = Some (sm + word_of_nat (unat n - k) * scast x)"
  using assms(3)
proof (induction "unat n - k" arbitrary: k sm)
  case 0
  then have "k = unat n" by simp
  then show ?case by (subst read2_loop.simps) simp
next
  case (Suc d)
  then have k: "k < unat n" by simp
  then have uk: "unat (word_of_nat k :: u64) = k"
    using unat_less_64 [of n] by (simp add: unat_of_nat take_bit_eq_mod)
  have "read2_loop p n (word_of_nat (Suc k)) 0 (sm + scast x) = Some (sm + scast x + word_of_nat (unat n - Suc k) * scast x)"
    using Suc k by (intro Suc.hyps(1)) simp_all
  moreover have "unat n - k = Suc (unat n - Suc k)" using k by simp
  moreover have "rand_num2 1024 0 = Some (0, 0)" by (simp add: rand_num2_def)
  ultimately show ?case using k uk assms(1,2)
    by (subst read2_loop.simps) (simp add: word_less_nat_alt rand_num2_0 algebra_simps)
qed

section \<open>Properties\<close>

lemma reads_main_running:
  assumes "rstat (reads_main argv) = Running"
  obtains n where "rpages (reads_main argv) = n" "rsize (reads_main argv) = mapping_size n"
    and "rtotal (reads_main argv) = mapping_size n div 4" "rmem (reads_main argv) = (\<lambda>a. None)"
    and "rmaps (reads_main argv) = 0" "rtrace (reads_main argv) = [RPidfile]"
  using assms
  by (auto simp: reads_main_def rproc_start_def rlog_def Let_def split: if_splits option.splits)

lemma reads2_main_running:
  assumes "rstat (reads2_main argv) = Running"
  obtains n where "rpages (reads2_main argv) = n" "rsize (reads2_main argv) = mapping_size n"
    and "rtotal (reads2_main argv) = mapping_size n div 4" "rmem (reads2_main argv) = (\<lambda>a. None)"
    and "rmaps (reads2_main argv) = 0" "rtrace (reads2_main argv) = [RPidfile, RSrand]"
  using assms
  by (auto simp: reads2_main_def rproc_start_def rlog_def Let_def split: if_splits option.splits)

text \<open>
  C13. Fill, then read: the process ends with status 0 and its calls are the report to the filler,
  then the sum over all its reads, all of them inside the mapping, and the report to the reader.
\<close>
theorem reads_fill_then_read:
  assumes "rstat (reads_main argv) = Running" and "mm 0 (rsize (reads_main argv)) \<noteq> MAP_FAILED"
  shows "let p0 = reads_main argv;
      p = on_signal mm reads_access (SIGUSR2 pid') (on_signal mm reads_access (SIGUSR1 pid) p0) in
    rstat p = RExited 0 \<and>
    rtrace p = [RPidfile, RMmap (rsize p0), RPopulated, RKill pid, RStarted, RTime,
      RSum (\<Sum>j < unat (rloops p0) * (unat (rtotal p0) div 8).
        scast (word_of_nat (unat (read_index (rtotal p0) 1 j)) * rmult p0)),
      RMunmap (mm 0 (rsize p0)) (rsize p0), RKill pid']"
proof -
  let ?p0 = "reads_main argv"
  obtain n where n: "rsize ?p0 = mapping_size n" "rtotal ?p0 = mapping_size n div 4" "rmaps ?p0 = 0"
    "rtrace ?p0 = [RPidfile]"
    by (rule reads_main_running [OF assms(1)])
  let ?q = "\<lambda>m. ?p0\<lparr>raddr := mm (rmaps ?p0) (rsize ?p0), rmaps := Suc (rmaps ?p0), rmem := m\<rparr>"
  obtain m where m: "reads_filldata mm pid ?p0 = rlog [RMmap (rsize ?p0), RPopulated, RKill pid] (?q m)" "ready (?q m)"
    using reads_filldata_ok [of mm ?p0 pid] assms(2) n by auto
  have s: "on_signal mm reads_access (SIGUSR1 pid) ?p0 = rlog [RMmap (rsize ?p0), RPopulated, RKill pid] (?q m)"
    using assms(1) m(1) by (simp add: on_signal_def)
  have "reads_access (rlog [RStarted] (rlog [RMmap (rsize ?p0), RPopulated, RKill pid] (?q m))) = Some (expected_sum (?q m))"
    using m(2) reads_access_ready [of "rlog [RStarted] (rlog [RMmap (rsize ?p0), RPopulated, RKill pid] (?q m))"] by simp
  then show ?thesis
    unfolding Let_def s using assms(1) n
    by (simp add: on_signal_def random_access_def unmap_all_def Let_def expected_sum_def read_sum_def)
qed

theorem reads_fill_then_read_witness:
  "rstat (on_signal (\<lambda>k len. 8192) reads_access (SIGUSR2 6)
     (on_signal (\<lambda>k len. 8192) reads_access (SIGUSR1 5) (reads_main [''reads'', ''1'']))) = RExited 0"
proof -
  have "atoi ''1'' = Some 1" by (simp add: atoi_def is_space_def is_digit_def)
  then have "rstat (reads_main [''reads'', ''1'']) = Running"
    by (simp add: reads_main_def rproc_start_def rlog_def Let_def)
  from reads_fill_then_read [OF this, of "\<lambda>k len. 8192" 6 5] show ?thesis by (simp add: MAP_FAILED_def Let_def)
qed

text \<open>
  C27. Told to read before it was told to fill, the first program with at least one page and one
  loop faults: \<open>addr\<close> is still a null pointer.
\<close>
theorem reads_too_early:
  assumes "rstat (reads_main argv) = Running" "rtotal (reads_main argv) \<noteq> 0" "rloops (reads_main argv) \<noteq> 0"
  shows "rstat (on_signal mm reads_access (SIGUSR2 pid) (reads_main argv)) = RFaulted"
proof -
  obtain n where n: "rtotal (reads_main argv) = mapping_size n div 4" "rmem (reads_main argv) = (\<lambda>a. None)"
    by (rule reads_main_running [OF assms(1)])
  then have "reads_access (rlog [RStarted] (reads_main argv)) = None"
    using assms(2,3) by (intro reads_access_null [of _ n]) simp_all
  then show ?thesis using assms(1) by (simp add: on_signal_def random_access_def Let_def)
qed

theorem reads_too_early_witness:
  "rstat (on_signal (\<lambda>k len. 8192) reads_access (SIGUSR2 5) (reads_main [''reads'', ''1''])) = RFaulted"
proof -
  have "atoi ''1'' = Some 1" by (simp add: atoi_def is_space_def is_digit_def)
  then show ?thesis
    by (intro reads_too_early) (simp_all add: reads_main_def rproc_start_def rlog_def Let_def mapping_size_def)
qed

text \<open>
  The second program multiplies a generator state that starts at 0, so every one of its
  "random" reads is of the same cell, the one in the middle of the array: the sum it prints is the
  number of reads times that cell.
\<close>
theorem reads2_single_cell:
  assumes "rstat (reads2_main argv) = Running" and "mm 0 (rsize (reads2_main argv)) \<noteq> MAP_FAILED"
    and "rpages (reads2_main argv) \<noteq> 0"
  shows "let p0 = reads2_main argv;
      p = on_signal mm reads2_access (SIGUSR2 pid') (on_signal mm reads2_access (SIGUSR1 pid) p0) in
    rstat p = RExited 0 \<and>
    RSum (word_of_nat (unat (rtotal p0) div 8) * scast (word_of_nat (unat (rtotal p0) div 2) * rmult p0)) \<in> set (rtrace p)"
proof -
  let ?p0 = "reads2_main argv"
  obtain n where n: "rpages ?p0 = n" "rsize ?p0 = mapping_size n" "rtotal ?p0 = mapping_size n div 4" "rmaps ?p0 = 0"
    by (rule reads2_main_running [OF assms(1)])
  let ?q = "\<lambda>m. ?p0\<lparr>raddr := mm (rmaps ?p0) (rsize ?p0), rmaps := Suc (rmaps ?p0), rmem := m\<rparr>"
  obtain m where m: "reads_filldata mm pid ?p0 = rlog [RMmap (rsize ?p0), RPopulated, RKill pid] (?q m)" "ready (?q m)"
    using reads_filldata_ok [of mm ?p0 pid] assms(2) n by auto
  let ?r = "rlog [RStarted] (rlog [RMmap (rsize ?p0), RPopulated, RKill pid] (?q m))"
  have s: "on_signal mm reads2_access (SIGUSR1 pid) ?p0 = rlog [RMmap (rsize ?p0), RPopulated, RKill pid] (?q m)"
    using assms(1) m(1) by (simp add: on_signal_def)
  have t: "0 < unat (rtotal ?p0)"
    using ints_pos [of n] assms(3) n by (simp add: ints_def unat_div)
  have "rmem ?r (raddr ?r + 4 * word_of_nat (unat (rtotal ?p0) div 2)) =
      Some (word_of_nat (unat (rtotal ?p0) div 2) * rmult ?p0)"
    using m(2) t by (simp add: ready_def)
  moreover have "word_of_nat (unat (rtotal ?p0) div 2) = rtotal ?p0 div 2"
    using unat_less_64 [of "rtotal ?p0"] by (simp add: word_unat_eq_iff unat_div unat_of_nat take_bit_eq_mod)
  ultimately have "reads2_access ?r = Some (word_of_nat (unat (rtotal ?p0) div 8) *
      scast (word_of_nat (unat (rtotal ?p0) div 2) * rmult ?p0))"
    using read2_loop_from [of ?r _ 0 "rtotal ?p0 div 8" 0] assms(3) by (simp add: reads2_access_def unat_div)
  then show ?thesis
    unfolding Let_def s using assms(1)
    by (simp add: on_signal_def random_access_def unmap_all_def Let_def)
qed

theorem reads2_single_cell_witness:
  "let p = on_signal (\<lambda>k len. 8192) reads2_access (SIGUSR2 6)
       (on_signal (\<lambda>k len. 8192) reads2_access (SIGUSR1 5) (reads2_main [''reads2'', ''2''])) in
   rstat p = RExited 0 \<and> RSum 262144 \<in> set (rtrace p)"
proof -
  let ?p0 = "reads2_main [''reads2'', ''2'']"
  have "atoi ''2'' = Some 2" by (simp add: atoi_def is_space_def is_digit_def)
  then have p: "rstat ?p0 = Running" "rtotal ?p0 = 2048" "rpages ?p0 = 2" "rmult ?p0 = 1"
    by (simp_all add: reads2_main_def rproc_start_def rlog_def Let_def mapping_size_def)
  show ?thesis
    using reads2_single_cell [of "[''reads2'', ''2'']" "\<lambda>k len. 8192" 6 5] p by (simp add: MAP_FAILED_def Let_def)
qed

end
