(* ===== verification/Read_Interrupts.thy ===== *)
theory Read_Interrupts
  imports Random_Reads
begin

text \<open>
  The first random-read workload with handlers that interrupt each other.  \<open>main\<close> installs both
  handlers without \<open>SA_NODEFER\<close> and with signal masks it never sets, so a signal is blocked while
  its own handler runs, and the other one may or may not be: \<open>SIGUSR2\<close> can arrive in the middle of
  \<open>filldata\<close> and \<open>SIGUSR1\<close> in the middle of \<open>random_access\<close>.  A handler is a frame that says where it
  is; the step relation runs the handler on top one statement at a time and lets signals arrive
  between any two of its steps.
\<close>

section \<open>Handlers\<close>

text \<open>
  \<open>filldata\<close>: at its begin, after the call of \<open>mmap\<close> and before the assignment to \<open>addr\<close>, at the test of
  the loop, before \<open>kill\<close>.
\<close>

datatype fill_frame = Fill_start nat | Fill_mapped nat u64 | Fill_loop nat u64 | Fill_kill nat

text \<open>
  \<open>random_access\<close>: at its begin, at the test of the inner loop, before \<open>unmap_all\<close>, before \<open>kill\<close> and
  \<open>exit\<close>.  In the loops, \<open>j\<close>, \<open>i\<close>, \<open>state\<close> and \<open>sum\<close> are the locals and the last component is the register
  with the value of \<open>addr\<close>, once it has been loaded.
\<close>

datatype read_frame = Read_start nat | Read_loop nat u32 u64 u64 u64 "u64 option" | Read_unmap nat | Read_exit nat

definition fill_frame_step :: "(nat \<Rightarrow> u64 \<Rightarrow> u64) \<Rightarrow> fill_frame \<Rightarrow> rproc \<Rightarrow> rproc \<times> fill_frame option" where
  "fill_frame_step mm f p = (case f of
     Fill_start pid \<Rightarrow>
       (let a = mm (rmaps p) (rsize p) in
        (rlog [RMmap (rsize p)] (p\<lparr>rmaps := Suc (rmaps p),
           rmem := if a = MAP_FAILED then rmem p else map_zero a (rsize p) (rmem p)\<rparr>), Some (Fill_mapped pid a)))
   | Fill_mapped pid a \<Rightarrow> (p\<lparr>raddr := a\<rparr>, Some (Fill_loop pid 0))
   | Fill_loop pid i \<Rightarrow>
       if i < rsize p div 4 then
         (case rmem p (raddr p + 4 * i) of
            None \<Rightarrow> (p\<lparr>rstat := RFaulted\<rparr>, Some f)
          | Some x \<Rightarrow> (p\<lparr>rmem := (rmem p)(raddr p + 4 * i \<mapsto> fill_value i (rmult p))\<rparr>, Some (Fill_loop pid (i + 1))))
       else (rlog [RPopulated] p, Some (Fill_kill pid))
   | Fill_kill pid \<Rightarrow> (rlog [RKill pid] p, None))"

text \<open>A read through a null pointer is a fault.\<close>

definition read_frame_step :: "read_frame \<Rightarrow> rproc \<Rightarrow> rproc \<times> read_frame option" where
  "read_frame_step f p = (case f of
     Read_start pid \<Rightarrow> (rlog [RStarted] p, Some (Read_loop pid 0 0 1 0 None))
   | Read_loop pid j i state sm reg \<Rightarrow>
       if \<not> j < rloops p then (rlog [RTime, RSum sm] p, Some (Read_unmap pid))
       else if \<not> i < rtotal p div 8 then (p, Some (Read_loop pid (j + 1) 0 state sm reg))
       else (case reg of
          None \<Rightarrow> (p, Some (Read_loop pid j i state sm (Some (raddr p))))
        | Some a \<Rightarrow>
            (case rand_num (rtotal p) state of
               None \<Rightarrow> (p\<lparr>rstat := RFaulted\<rparr>, Some f)
             | Some (r, state) \<Rightarrow>
                 (case (if a = 0 then None else rmem p (a + 4 * r)) of
                    None \<Rightarrow> (p\<lparr>rstat := RFaulted\<rparr>, Some f)
                  | Some x \<Rightarrow> (p, Some (Read_loop pid j (i + 1) state (sm + scast x) reg)))))
   | Read_unmap pid \<Rightarrow> (unmap_all p, Some (Read_exit pid))
   | Read_exit pid \<Rightarrow> ((rlog [RKill pid] p)\<lparr>rstat := RExited 0\<rparr>, None))"

section \<open>The machine\<close>

text \<open>
  The process with at most one activation of each handler; \<open>fill_top\<close> says which of two has
  interrupted the other.
\<close>

record hstate =
  rp :: rproc
  hfill :: "fill_frame option"
  hread :: "read_frame option"
  fill_top :: bool

definition hstart :: "rproc \<Rightarrow> hstate" where
  "hstart p = \<lparr>rp = p, hfill = None, hread = None, fill_top = False\<rparr>"

text \<open>
  \<open>addr\<close> is an ordinary global variable: the compiler may keep it in a register or load it anew
  before any read.
\<close>

inductive intr_step :: "(nat \<Rightarrow> u64 \<Rightarrow> u64) \<Rightarrow> hstate \<Rightarrow> hstate \<Rightarrow> bool" for mm where
  Usr1: "rstat (rp s) = Running \<Longrightarrow> hfill s = None \<Longrightarrow>
    intr_step mm s (s\<lparr>hfill := Some (Fill_start pid), fill_top := True\<rparr>)"
| Usr2: "rstat (rp s) = Running \<Longrightarrow> hread s = None \<Longrightarrow>
    intr_step mm s (s\<lparr>hread := Some (Read_start pid), fill_top := False\<rparr>)"
| Fill: "rstat (rp s) = Running \<Longrightarrow> hfill s = Some f \<Longrightarrow> hread s = None \<or> fill_top s \<Longrightarrow>
    fill_frame_step mm f (rp s) = (p, f') \<Longrightarrow> intr_step mm s (s\<lparr>rp := p, hfill := f'\<rparr>)"
| Read: "rstat (rp s) = Running \<Longrightarrow> hread s = Some f \<Longrightarrow> hfill s = None \<or> \<not> fill_top s \<Longrightarrow>
    read_frame_step f (rp s) = (p, f') \<Longrightarrow> intr_step mm s (s\<lparr>rp := p, hread := f'\<rparr>)"
| Reload: "rstat (rp s) = Running \<Longrightarrow> hread s = Some (Read_loop pid j i state sm reg) \<Longrightarrow>
    intr_step mm s (s\<lparr>hread := Some (Read_loop pid j i state sm None)\<rparr>)"

inductive intr_reach :: "(nat \<Rightarrow> u64 \<Rightarrow> u64) \<Rightarrow> hstate \<Rightarrow> hstate \<Rightarrow> bool" for mm s0 where
  start: "intr_reach mm s0 s0"
| step: "intr_reach mm s0 s \<Longrightarrow> intr_step mm s s' \<Longrightarrow> intr_reach mm s0 s'"

inductive_cases intr_stepE: "intr_step mm s s'"

text \<open>
  What is assumed of \<open>mmap\<close>: the first \<open>n\<close> mappings are granted, not at address 0, and do not
  overlap.
\<close>

definition separate :: "(nat \<Rightarrow> u64 \<Rightarrow> u64) \<Rightarrow> u64 \<Rightarrow> nat \<Rightarrow> bool" where
  "separate mm len n \<longleftrightarrow>
    (\<forall>k < n. mm k len \<noteq> MAP_FAILED \<and> mm k len \<noteq> 0) \<and>
    (\<forall>j < n. \<forall>k < n. j \<noteq> k \<longrightarrow> (\<forall>a. \<not> (in_map (mm j len) len a \<and> in_map (mm k len) len a)))"

lemma separate_mono: "separate mm len n \<Longrightarrow> m \<le> n \<Longrightarrow> separate mm len m"
  unfolding separate_def by (meson less_le_trans)

lemma separateD:
  "separate mm len n \<Longrightarrow> j < n \<Longrightarrow> k < n \<Longrightarrow> j \<noteq> k \<Longrightarrow> \<not> (in_map (mm j len) len a \<and> in_map (mm k len) len a)"
  unfolding separate_def by blast

section \<open>Partly filled memory\<close>

text \<open>The first \<open>c\<close> cells of an array of \<open>tot\<close> cells are filled, the rest is still zero.\<close>

definition part_value :: "u32 \<Rightarrow> nat \<Rightarrow> nat \<Rightarrow> u32" where
  "part_value ml c i = (if i < c then word_of_nat i * ml else 0)"

definition holds_part :: "u32 \<Rightarrow> u64 \<Rightarrow> memory \<Rightarrow> u64 \<Rightarrow> nat \<Rightarrow> bool" where
  "holds_part ml len m a c \<longleftrightarrow> (\<forall>i < unat len div 4. m (a + 4 * word_of_nat i) = Some (part_value ml c i))"

lemma holds_zero: "holds_part ml len (map_zero a len m) a 0"
  by (simp add: holds_part_def map_zero_def in_map_cell part_value_def)

lemma holds_zero_other:
  assumes "holds_part ml len m a c" and "\<And>x. \<not> (in_map a len x \<and> in_map b len x)"
  shows "holds_part ml len (map_zero b len m) a c"
proof -
  have "\<not> in_map b len (a + 4 * word_of_nat i)" if "i < unat len div 4" for i
    using assms(2) in_map_cell [OF that] by blast
  then show ?thesis using assms(1) by (simp add: holds_part_def map_zero_def)
qed

lemma cell_inj:
  assumes "i < unat (len :: u64) div 4" "k < unat len div 4" "a + 4 * word_of_nat i = a + 4 * (word_of_nat k :: u64)"
  shows "i = k"
proof -
  have "4 * word_of_nat i = (4 * word_of_nat k :: u64)" using assms(3) by (simp only: add_left_cancel)
  then have "4 * i = 4 * k" using unat_offset [OF assms(1)] unat_offset [OF assms(2)] by metis
  then show ?thesis by simp
qed

lemma holds_store:
  assumes "holds_part ml len m a c" and "c < unat len div 4"
  shows "holds_part ml len (m(a + 4 * word_of_nat c \<mapsto> word_of_nat c * ml)) a (Suc c)"
  unfolding holds_part_def
proof (intro allI impI)
  fix i assume i: "i < unat len div 4"
  show "(m(a + 4 * word_of_nat c \<mapsto> word_of_nat c * ml)) (a + 4 * word_of_nat i) = Some (part_value ml (Suc c) i)"
  proof (cases "i = c")
    case False
    then have "a + 4 * word_of_nat i \<noteq> a + 4 * (word_of_nat c :: u64)" using cell_inj [OF i assms(2)] by blast
    then show ?thesis using assms(1) i False by (simp add: holds_part_def part_value_def less_Suc_eq)
  qed (simp add: part_value_def)
qed

lemma holds_store_other:
  assumes "holds_part ml len m b c" and "k < unat len div 4" and "\<And>x. \<not> (in_map b len x \<and> in_map a len x)"
  shows "holds_part ml len (m(a + 4 * word_of_nat k \<mapsto> y)) b c"
proof -
  have "b + 4 * word_of_nat i \<noteq> a + 4 * (word_of_nat k :: u64)" if "i < unat len div 4" for i
    using assms(3) in_map_cell [OF that] in_map_cell [OF assms(2)] by metis
  then show ?thesis using assms(1) by (simp add: holds_part_def)
qed

section \<open>The invariant\<close>

text \<open>How far the running fill is, when it has its mapping and is not yet done.\<close>

definition fill_progress :: "fill_frame option \<Rightarrow> nat option" where
  "fill_progress F = (case F of Some (Fill_mapped pid a) \<Rightarrow> Some 0 | Some (Fill_loop pid i) \<Rightarrow> Some (unat i) | _ \<Rightarrow> None)"

text \<open>How much of the \<open>k\<close>-th mapping is filled.\<close>

definition filled_cells :: "hstate \<Rightarrow> nat \<Rightarrow> nat" where
  "filled_cells s k = (case fill_progress (hfill s) of
     Some c \<Rightarrow> if Suc k = rmaps (rp s) then c else unat (rsize (rp s)) div 4
   | None \<Rightarrow> unat (rsize (rp s)) div 4)"

text \<open>The value of \<open>addr\<close> after \<open>n\<close> assignments.\<close>

definition addr_after :: "(nat \<Rightarrow> u64 \<Rightarrow> u64) \<Rightarrow> u64 \<Rightarrow> nat \<Rightarrow> u64" where
  "addr_after mm len n = (case n of 0 \<Rightarrow> 0 | Suc k \<Rightarrow> mm k len)"

definition fill_inv :: "(nat \<Rightarrow> u64 \<Rightarrow> u64) \<Rightarrow> hstate \<Rightarrow> bool" where
  "fill_inv mm s \<longleftrightarrow> (let p = rp s; n = rmaps p in
     case hfill s of
       Some (Fill_mapped pid a) \<Rightarrow> 0 < n \<and> a = mm (n - 1) (rsize p) \<and> raddr p = addr_after mm (rsize p) (n - 1)
     | Some (Fill_loop pid i) \<Rightarrow> 0 < n \<and> unat i \<le> unat (rsize p) div 4 \<and> raddr p = addr_after mm (rsize p) n
     | _ \<Rightarrow> raddr p = addr_after mm (rsize p) n)"

text \<open>What is mapped is filled that far, until the reading handler unmaps an array; the array of an
  active fill stays.\<close>

definition memory_inv :: "(nat \<Rightarrow> u64 \<Rightarrow> u64) \<Rightarrow> hstate \<Rightarrow> bool" where
  "memory_inv mm s \<longleftrightarrow> (let p = rp s in
     \<forall>k < rmaps p. (\<forall>pid. hread s \<noteq> Some (Read_exit pid)) \<or>
         fill_top s \<and> fill_progress (hfill s) \<noteq> None \<and> Suc k = rmaps p \<longrightarrow>
       holds_part (rmult p) (rsize p) (rmem p) (mm k (rsize p)) (filled_cells s k))"

definition before_start :: "rcall list \<Rightarrow> rcall list" where
  "before_start tr = takeWhile (\<lambda>c. c \<noteq> RStarted) tr"

text \<open>Every mapping made so far was also filled.\<close>

definition all_filled :: "u64 \<Rightarrow> rcall list \<Rightarrow> bool" where
  "all_filled len tr \<longleftrightarrow> count_list tr (RMmap len) = count_list tr RPopulated"

definition trace_inv :: "hstate \<Rightarrow> bool" where
  "trace_inv s \<longleftrightarrow> (let p = rp s in
     count_list (rtrace p) (RMmap (rsize p)) = rmaps p \<and>
     count_list (rtrace p) RPopulated + (if fill_progress (hfill s) = None then 0 else 1) = rmaps p)"

text \<open>The sum over \<open>n\<close> reads of an array that is filled up to cell \<open>c\<close>.\<close>

definition part_sum :: "rproc \<Rightarrow> nat \<Rightarrow> nat \<Rightarrow> u64" where
  "part_sum p c n = read_sum (part_value (rmult p) c) (rtotal p) 1 n"

definition all_reads :: "rproc \<Rightarrow> nat" where
  "all_reads p = unat (rloops p) * (unat (rtotal p) div 8)"

definition sum_ok :: "rproc \<Rightarrow> rcall list \<Rightarrow> u64 \<Rightarrow> bool" where
  "sum_ok p tr v \<longleftrightarrow> (\<exists>c \<le> unat (rtotal p). v = part_sum p c (all_reads p) \<and>
     (all_filled (rsize p) (before_start tr) \<longrightarrow> c = unat (rtotal p)))"

definition sums_inv :: "rproc \<Rightarrow> bool" where
  "sums_inv p \<longleftrightarrow> (\<forall>v. RSum v \<in> set (rtrace p) \<longrightarrow> RStarted \<in> set (rtrace p) \<and> sum_ok p (rtrace p) v)"

text \<open>How much of its array the reading handler finds filled.\<close>

definition seen_cells :: "hstate \<Rightarrow> nat" where
  "seen_cells s = (if fill_top s then unat (rtotal (rp s))
     else case hfill s of Some (Fill_loop pid i) \<Rightarrow> unat i | _ \<Rightarrow> unat (rtotal (rp s)))"

definition register_ok :: "(nat \<Rightarrow> u64 \<Rightarrow> u64) \<Rightarrow> hstate \<Rightarrow> u64 \<Rightarrow> bool" where
  "register_ok mm s a \<longleftrightarrow> (let p = rp s in
     a = 0 \<and> RPopulated \<notin> set (before_start (rtrace p)) \<or>
     (\<exists>k < rmaps p. a = mm k (rsize p) \<and> filled_cells s k = seen_cells s))"

definition read_inv :: "(nat \<Rightarrow> u64 \<Rightarrow> u64) \<Rightarrow> hstate \<Rightarrow> bool" where
  "read_inv mm s \<longleftrightarrow> (let p = rp s; tr = rtrace p in
     case hread s of
       None \<Rightarrow> RStarted \<notin> set tr
     | Some (Read_start pid) \<Rightarrow> RStarted \<notin> set tr
     | Some (Read_loop pid j i state sm reg) \<Rightarrow> RStarted \<in> set tr \<and>
         unat j \<le> unat (rloops p) \<and> unat i \<le> unat (rtotal p) div 8 \<and>
         (j = rloops p \<longrightarrow> i = 0) \<and>
         (let r = unat j * (unat (rtotal p) div 8) + unat i in
            state = lcg_state 1 r \<and> sm = part_sum p (seen_cells s) r) \<and>
         (all_filled (rsize p) (before_start tr) \<longrightarrow> seen_cells s = unat (rtotal p)) \<and>
         (case reg of None \<Rightarrow> True | Some a \<Rightarrow> register_ok mm s a)
     | Some _ \<Rightarrow> \<exists>v. RSum v \<in> set tr)"

definition same_settings :: "u32 \<Rightarrow> rproc \<Rightarrow> rproc \<Rightarrow> bool" where
  "same_settings n p0 p \<longleftrightarrow> rsize p = mapping_size n \<and> rtotal p = mapping_size n div 4 \<and>
     rmult p = rmult p0 \<and> rloops p = rloops p0"

definition intr_inv :: "(nat \<Rightarrow> u64 \<Rightarrow> u64) \<Rightarrow> u32 \<Rightarrow> rproc \<Rightarrow> hstate \<Rightarrow> bool" where
  "intr_inv mm n p0 s \<longleftrightarrow> same_settings n p0 (rp s) \<and> sums_inv (rp s) \<and>
     (case rstat (rp s) of
        Running \<Rightarrow> fill_inv mm s \<and> memory_inv mm s \<and> trace_inv s \<and> read_inv mm s
      | RFaulted \<Rightarrow> RStarted \<in> set (rtrace (rp s)) \<and> RPopulated \<notin> set (before_start (rtrace (rp s)))
      | RExited c \<Rightarrow> c = 0 \<and> (\<exists>v. RSum v \<in> set (rtrace (rp s)))
      | RUndefined \<Rightarrow> False)"

section \<open>Steps keep the invariant\<close>

lemma before_start_append:
  "RStarted \<in> set tr \<Longrightarrow> before_start (tr @ cs) = before_start tr"
  by (simp add: before_start_def takeWhile_append1)

lemma before_start_none: "RStarted \<notin> set tr \<Longrightarrow> before_start (tr @ RStarted # cs) = tr"
  unfolding before_start_def by (subst takeWhile_append2) auto

lemma sum_ok_append: "RStarted \<in> set tr \<Longrightarrow> sum_ok p (tr @ cs) v = sum_ok p tr v"
  by (simp add: sum_ok_def before_start_append)

lemma sum_ok_cong:
  "rmult p' = rmult p \<Longrightarrow> rtotal p' = rtotal p \<Longrightarrow> rloops p' = rloops p \<Longrightarrow> rsize p' = rsize p \<Longrightarrow>
   sum_ok p' tr v = sum_ok p tr v"
  by (simp add: sum_ok_def part_sum_def all_reads_def)

text \<open>Events other than a sum keep what the printed sums must be.\<close>

lemma sums_inv_log:
  assumes "sums_inv p" and "rtrace p' = rtrace p @ cs" and "\<forall>v. RSum v \<notin> set cs"
    and "rmult p' = rmult p" "rtotal p' = rtotal p" "rloops p' = rloops p" "rsize p' = rsize p"
  shows "sums_inv p'"
  using assms(1-3) by (auto simp: sums_inv_def sum_ok_append sum_ok_cong [OF assms(4-7)])

lemma unmap_all_simps [simp]:
  "rstat (unmap_all p) = rstat p" "rsize (unmap_all p) = rsize p" "raddr (unmap_all p) = raddr p"
  "rmult (unmap_all p) = rmult p" "rtotal (unmap_all p) = rtotal p" "rloops (unmap_all p) = rloops p"
  "rmaps (unmap_all p) = rmaps p" "rtrace (unmap_all p) = rtrace p @ [RMunmap (raddr p) (rsize p)]"
  by (simp_all add: unmap_all_def)

lemma word_of_nat_unat_Suc: "(i :: u64) < n \<Longrightarrow> unat (i + 1) = Suc (unat i)"
  using unat_less_64 [of n] by (simp add: word_less_nat_alt unat_word_ariths)

lemma word_unat_Suc32: "(i :: u32) < n \<Longrightarrow> unat (i + 1) = Suc (unat i)"
proof -
  assume "i < n"
  moreover have "unat n < 4294967296" using unsigned_less [of n] by simp
  ultimately show ?thesis by (simp add: word_less_nat_alt unat_word_ariths)
qed

text \<open>What the reading handler relies on while the other one runs.\<close>

lemma read_inv_step:
  assumes inv: "read_inv mm s" and "hread s' = hread s" and seen: "seen_cells s' = seen_cells s"
    and tr: "rtrace (rp s') = rtrace (rp s) @ cs" "RStarted \<notin> set cs"
    and set: "rmult (rp s') = rmult (rp s)" "rtotal (rp s') = rtotal (rp s)" "rloops (rp s') = rloops (rp s)"
      "rsize (rp s') = rsize (rp s)"
    and reg: "\<And>k. k < rmaps (rp s) \<Longrightarrow> filled_cells s k = seen_cells s \<Longrightarrow> k < rmaps (rp s') \<and> filled_cells s' k = seen_cells s"
  shows "read_inv mm s'"
proof -
  have b: "before_start (rtrace (rp s')) = before_start (rtrace (rp s))" if "RStarted \<in> set (rtrace (rp s))"
    using that tr by (simp add: before_start_append)
  have r: "register_ok mm s a \<Longrightarrow> RStarted \<in> set (rtrace (rp s)) \<Longrightarrow> register_ok mm s' a" for a
    using reg b seen set(4) unfolding register_ok_def Let_def by metis
  have ps: "part_sum (rp s') = part_sum (rp s)" by (simp add: part_sum_def fun_eq_iff set)
  show ?thesis
  proof (cases "hread s")
    case (Some f)
    show ?thesis
    proof (cases f)
      case (Read_loop pid j i state sm reg)
      then show ?thesis using inv Some assms(2) tr b r set seen ps
        by (auto simp: read_inv_def Let_def split: option.splits)
    qed (use inv Some assms(2) tr in \<open>auto simp: read_inv_def\<close>)
  qed (use inv assms(2) tr in \<open>simp add: read_inv_def\<close>)
qed

lemma intr_inv_start:
  assumes "rstat (reads_main argv) = Running" and "rsize (reads_main argv) = mapping_size n"
  shows "intr_inv mm n (reads_main argv) (hstart (reads_main argv))"
proof -
  obtain m where "rsize (reads_main argv) = mapping_size m" "rtotal (reads_main argv) = mapping_size m div 4"
    "rmaps (reads_main argv) = 0" "rtrace (reads_main argv) = [RPidfile]"
    by (rule reads_main_running [OF assms(1)])
  moreover have "raddr (reads_main argv) = 0"
    using assms(1) by (auto simp: reads_main_def rproc_start_def rlog_def Let_def split: if_splits option.splits)
  ultimately show ?thesis using assms
    by (simp add: intr_inv_def hstart_def same_settings_def sums_inv_def fill_inv_def addr_after_def memory_inv_def
        trace_inv_def read_inv_def fill_progress_def)
qed

lemma intr_inv_signal:
  assumes inv: "intr_inv mm n p0 s" and run: "rstat (rp s) = Running"
  shows "hfill s = None \<Longrightarrow> intr_inv mm n p0 (s\<lparr>hfill := Some (Fill_start pid), fill_top := True\<rparr>)"
    and "hread s = None \<Longrightarrow> intr_inv mm n p0 (s\<lparr>hread := Some (Read_start pid), fill_top := False\<rparr>)"
proof -
  assume F: "hfill s = None"
  let ?s = "s\<lparr>hfill := Some (Fill_start pid), fill_top := True\<rparr>"
  have "filled_cells ?s k = filled_cells s k" "seen_cells ?s = seen_cells s" for k
    using F by (simp_all add: filled_cells_def seen_cells_def fill_progress_def)
  moreover from this have "read_inv mm s \<Longrightarrow> read_inv mm ?s"
    by (erule_tac cs = "[]" in read_inv_step) simp_all
  ultimately show "intr_inv mm n p0 ?s" using inv run F
    by (simp add: intr_inv_def fill_inv_def memory_inv_def trace_inv_def fill_progress_def Let_def)
next
  assume R: "hread s = None"
  let ?s = "s\<lparr>hread := Some (Read_start pid), fill_top := False\<rparr>"
  have "filled_cells ?s k = filled_cells s k" for k by (simp add: filled_cells_def split: option.split)
  then show "intr_inv mm n p0 ?s" using inv run R
    by (simp add: intr_inv_def fill_inv_def memory_inv_def trace_inv_def read_inv_def Let_def)
qed

text \<open>A step of the filling handler happens before, or on top of, the reading one.\<close>

lemma read_inv_fill:
  assumes "read_inv mm s" and "hread s = None \<or> fill_top s"
    and "s' = s\<lparr>rp := p, hfill := F\<rparr>" and "rtrace p = rtrace (rp s) @ cs" "RStarted \<notin> set cs"
    and set: "rmult p = rmult (rp s)" "rtotal p = rtotal (rp s)" "rloops p = rloops (rp s)" "rsize p = rsize (rp s)"
    and "\<And>k. k < rmaps (rp s) \<Longrightarrow> filled_cells s k = unat (rtotal (rp s)) \<Longrightarrow>
      k < rmaps p \<and> filled_cells s' k = unat (rtotal (rp s))"
  shows "read_inv mm s'"
proof (cases "hread s")
  case None
  then show ?thesis using assms(1,3-5) by (simp add: read_inv_def)
next
  case (Some r)
  then have "fill_top s" using assms(2) by simp
  then have "seen_cells s = unat (rtotal (rp s))" "seen_cells s' = seen_cells s"
    using assms(3) set by (simp_all add: seen_cells_def)
  then show ?thesis
    using assms(3-5,10) set by (intro read_inv_step [OF assms(1), of s' cs]) simp_all
qed

lemma filled_cells_upd:
  "filled_cells (s\<lparr>rp := p, hfill := F\<rparr>) k = (case fill_progress F of
     Some c \<Rightarrow> if Suc k = rmaps p then c else unat (rsize p) div 4
   | None \<Rightarrow> unat (rsize p) div 4)"
  by (simp add: filled_cells_def split: option.split)

text \<open>The parts of the invariant of a running process.\<close>

lemma runningD:
  assumes "intr_inv mm n p0 s" and "rstat (rp s) = Running"
  shows "same_settings n p0 (rp s)" and "sums_inv (rp s)" and "fill_inv mm s" and "memory_inv mm s"
    and "trace_inv s" and "read_inv mm s"
  using assms by (simp_all add: intr_inv_def)

lemma settingsD:
  assumes "same_settings n p0 p"
  shows "rsize p = mapping_size n" and "rtotal p = mapping_size n div 4" and "unat (rtotal p) = unat (mapping_size n) div 4"
  using assms by (simp_all add: same_settings_def unat_div)

lemma memoryD:
  assumes "memory_inv mm s" and "hread s = None \<or> fill_top s" and "k < rmaps (rp s)"
    and "(\<forall>pid. hread s \<noteq> Some (Read_exit pid)) \<or> Suc k = rmaps (rp s) \<and> fill_progress (hfill s) \<noteq> None"
  shows "holds_part (rmult (rp s)) (rsize (rp s)) (rmem (rp s)) (mm k (rsize (rp s))) (filled_cells s k)"
  using assms by (auto simp: memory_inv_def Let_def)

lemma memoryI:
  assumes "\<And>k. k < rmaps p \<Longrightarrow> (\<forall>pid. hread s \<noteq> Some (Read_exit pid)) \<or> Suc k = rmaps p \<Longrightarrow>
    holds_part (rmult p) (rsize p) (rmem p) (mm k (rsize p)) (filled_cells (s\<lparr>rp := p, hfill := F\<rparr>) k)"
  shows "memory_inv mm (s\<lparr>rp := p, hfill := F\<rparr>)"
  using assms by (auto simp: memory_inv_def Let_def)

lemma fill_start_keeps:
  assumes inv: "intr_inv mm n p0 s" and run: "rstat (rp s) = Running" and F: "hfill s = Some (Fill_start pid)"
    and top: "hread s = None \<or> fill_top s" and st: "fill_frame_step mm (Fill_start pid) (rp s) = (p', f')"
    and sep: "separate mm (mapping_size n) (rmaps p')"
  shows "intr_inv mm n p0 (s\<lparr>rp := p', hfill := f'\<rparr>)" (is "intr_inv _ _ _ ?s")
proof -
  note i = runningD [OF inv run]
  note set = settingsD [OF i(1)]
  let ?p = "rp s" and ?len = "mapping_size n"
  let ?T = "unat ?len div 4" and ?m = "rmaps (rp s)" and ?a = "mm (rmaps (rp s)) (mapping_size n)"
  have p': "p' = rlog [RMmap ?len] (?p\<lparr>rmaps := Suc ?m, rmem := map_zero ?a ?len (rmem ?p)\<rparr>)"
    "f' = Some (Fill_mapped pid ?a)"
    using st sep set(1) by (auto simp: fill_frame_step_def Let_def separate_def)
  have np: "fill_progress (hfill s) = None" by (simp add: F fill_progress_def)
  have fc: "filled_cells s k = ?T" for k unfolding filled_cells_def np using set(1) by simp
  have fc': "filled_cells ?s k = (if k = ?m then 0 else ?T)" for k
    using set(1) by (simp add: filled_cells_upd p' fill_progress_def)
  have "memory_inv mm ?s"
  proof (rule memoryI)
    fix k
    assume k: "k < rmaps p'" "(\<forall>pid. hread s \<noteq> Some (Read_exit pid)) \<or> Suc k = rmaps p'"
    have "holds_part (rmult ?p) ?len (map_zero ?a ?len (rmem ?p)) (mm k ?len) (filled_cells ?s k)"
    proof (cases "k = ?m")
      case False
      then have "k < ?m" "\<forall>pid. hread s \<noteq> Some (Read_exit pid)" using k p' by auto
      then have "holds_part (rmult ?p) ?len (rmem ?p) (mm k ?len) ?T" using memoryD [OF i(4) top, of k] fc set(1) by simp
      moreover have "\<not> (in_map (mm k ?len) ?len x \<and> in_map ?a ?len x)" for x
        using separateD [OF sep, of k ?m x] \<open>k < ?m\<close> p' by simp
      ultimately show ?thesis using holds_zero_other fc' False by simp
    qed (use fc' holds_zero in simp)
    then show "holds_part (rmult p') (rsize p') (rmem p') (mm k (rsize p')) (filled_cells ?s k)" using p' set(1) by simp
  qed
  moreover have "read_inv mm ?s"
    by (rule read_inv_fill [OF i(6) top refl, where cs = "[RMmap ?len]"]) (use p' fc fc' set in simp_all)
  moreover have "sums_inv p'" by (rule sums_inv_log [OF i(2), of _ "[RMmap ?len]"]) (simp_all add: p')
  ultimately show ?thesis using i(1,3,5) run np p' F set(1)
    by (simp add: intr_inv_def same_settings_def fill_inv_def trace_inv_def fill_progress_def Let_def)
qed

text \<open>The steps that change neither the memory nor how much of it is filled.\<close>

lemma fill_quiet_keeps:
  assumes inv: "intr_inv mm n p0 s" and run: "rstat (rp s) = Running"
    and top: "hread s = None \<or> fill_top s"
    and p': "rstat p' = Running" "rmem p' = rmem (rp s)" "rmaps p' = rmaps (rp s)" "rtrace p' = rtrace (rp s) @ cs"
      "rmult p' = rmult (rp s)" "rtotal p' = rtotal (rp s)" "rloops p' = rloops (rp s)" "rsize p' = rsize (rp s)"
    and cs: "RStarted \<notin> set cs" "\<forall>v. RSum v \<notin> set cs"
    and fc: "\<And>k. filled_cells (s\<lparr>rp := p', hfill := f'\<rparr>) k = filled_cells s k"
    and mono: "fill_progress (hfill s) = None \<longrightarrow> fill_progress f' = None"
    and new: "fill_inv mm (s\<lparr>rp := p', hfill := f'\<rparr>)" "trace_inv (s\<lparr>rp := p', hfill := f'\<rparr>)"
  shows "intr_inv mm n p0 (s\<lparr>rp := p', hfill := f'\<rparr>)" (is "intr_inv _ _ _ ?s")
proof -
  note i = runningD [OF inv run]
  have "read_inv mm ?s" by (rule read_inv_fill [OF i(6) top refl p'(4) cs(1)]) (use p' fc in simp_all)
  moreover have "sums_inv p'" by (rule sums_inv_log [OF i(2) p'(4) cs(2)]) (use p' in simp_all)
  moreover have "memory_inv mm ?s" using i(4) fc mono p' by (auto simp: memory_inv_def Let_def)
  ultimately show ?thesis using i(1) p' new by (simp add: intr_inv_def same_settings_def)
qed

lemma fill_store_keeps:
  assumes inv: "intr_inv mm n p0 s" and run: "rstat (rp s) = Running" and F: "hfill s = Some (Fill_loop pid i)"
    and top: "hread s = None \<or> fill_top s" and st: "fill_frame_step mm (Fill_loop pid i) (rp s) = (p', f')"
    and sep: "separate mm (mapping_size n) (rmaps (rp s))" and less: "i < rsize (rp s) div 4"
  shows "intr_inv mm n p0 (s\<lparr>rp := p', hfill := f'\<rparr>)" (is "intr_inv _ _ _ ?s")
proof -
  note i = runningD [OF inv run]
  note set = settingsD [OF i(1)]
  let ?p = "rp s" and ?len = "mapping_size n" and ?c = "unat i" and ?m = "rmaps (rp s)"
  let ?T = "unat ?len div 4" and ?mem = "(rmem ?p)(raddr ?p + 4 * word_of_nat ?c \<mapsto> word_of_nat ?c * rmult ?p)"
  have m: "0 < ?m" "raddr ?p = mm (?m - 1) ?len" and c: "?c < ?T"
    using i(3) set(1) less by (auto simp: fill_inv_def F Let_def addr_after_def word_less_nat_alt unat_div split: nat.splits)
  have pr: "fill_progress (hfill s) = Some ?c" by (simp add: F fill_progress_def)
  have fc: "filled_cells s k = (if Suc k = ?m then ?c else ?T)" for k unfolding filled_cells_def pr using set(1) by simp
  have own: "holds_part (rmult ?p) ?len (rmem ?p) (raddr ?p) ?c"
    using memoryD [OF i(4) top, of "?m - 1"] m pr fc [of "?m - 1"] set(1) by simp
  have "rmem ?p (raddr ?p + 4 * word_of_nat ?c) \<noteq> None"
    using own [unfolded holds_part_def, rule_format, OF c] by simp
  moreover have "fill_value i (rmult ?p) = word_of_nat ?c * rmult ?p" using fill_value_nat [of ?c] by simp
  ultimately have p': "p' = ?p\<lparr>rmem := ?mem\<rparr>" "f' = Some (Fill_loop pid (i + 1))"
    using st less by (auto simp: fill_frame_step_def split: option.splits)
  have up: "unat (i + 1) = Suc ?c" by (rule word_of_nat_unat_Suc [OF less])
  have fc': "filled_cells ?s k = (if Suc k = ?m then Suc ?c else ?T)" for k
    unfolding filled_cells_upd using set(1) up by (simp add: p' fill_progress_def)
  have "memory_inv mm ?s"
  proof (rule memoryI)
    fix k
    assume k: "k < rmaps p'" "(\<forall>pid. hread s \<noteq> Some (Read_exit pid)) \<or> Suc k = rmaps p'"
    have "holds_part (rmult ?p) ?len ?mem (mm k ?len) (filled_cells ?s k)"
    proof (cases "Suc k = ?m")
      case True
      then show ?thesis using m(2) holds_store [OF own c] fc' by (metis diff_Suc_1)
    next
      case False
      then have k: "k < ?m" "\<forall>pid. hread s \<noteq> Some (Read_exit pid)" using k p' by auto
      then have "holds_part (rmult ?p) ?len (rmem ?p) (mm k ?len) ?T"
        using memoryD [OF i(4) top, of k] fc False set(1) by simp
      moreover have "\<not> (in_map (mm k ?len) ?len x \<and> in_map (raddr ?p) ?len x)" for x
        using separateD [OF sep, of k "?m - 1" x] k(1) m False by simp
      ultimately show ?thesis using holds_store_other [OF _ c] fc' False by simp
    qed
    then show "holds_part (rmult p') (rsize p') (rmem p') (mm k (rsize p')) (filled_cells ?s k)" using p' set(1) by simp
  qed
  moreover have "read_inv mm ?s"
    by (rule read_inv_fill [OF i(6) top refl, where cs = "[]"]) (use p' fc fc' set c in \<open>auto split: if_splits\<close>)
  moreover have "sums_inv p'" by (rule sums_inv_log [OF i(2), of _ "[]"]) (simp_all add: p')
  ultimately show ?thesis using i(1,3,5) run p' F up c set
    by (simp add: intr_inv_def same_settings_def fill_inv_def trace_inv_def fill_progress_def Let_def)
qed

lemma fill_keeps:
  assumes inv: "intr_inv mm n p0 s" and run: "rstat (rp s) = Running" and F: "hfill s = Some f"
    and top: "hread s = None \<or> fill_top s" and st: "fill_frame_step mm f (rp s) = (p', f')"
    and sep: "separate mm (mapping_size n) (rmaps p')"
  shows "intr_inv mm n p0 (s\<lparr>rp := p', hfill := f'\<rparr>)"
proof -
  note i = runningD [OF inv run]
  note set = settingsD [OF i(1)]
  note quiet = fill_quiet_keeps [OF inv run top]
  show ?thesis
  proof (cases f)
    case (Fill_start pid)
    then show ?thesis using fill_start_keeps [OF inv run _ top _ sep] F st by simp
  next
    case (Fill_mapped pid a)
    then have p': "p' = (rp s)\<lparr>raddr := a\<rparr>" "f' = Some (Fill_loop pid 0)" using st by (simp_all add: fill_frame_step_def)
    show ?thesis
      by (rule quiet [where cs = "[]"])
        (use i(3,5) in \<open>auto simp: p' run filled_cells_def F Fill_mapped fill_progress_def fill_inv_def trace_inv_def addr_after_def Let_def split: nat.splits\<close>)
  next
    case (Fill_kill pid)
    then have p': "p' = rlog [RKill pid] (rp s)" "f' = None" using st by (simp_all add: fill_frame_step_def)
    show ?thesis
      by (rule quiet [where cs = "[RKill pid]"])
        (use i(3,5) in \<open>auto simp: p' run filled_cells_def F Fill_kill fill_progress_def fill_inv_def trace_inv_def Let_def\<close>)
  next
    case (Fill_loop pid i)
    show ?thesis
    proof (cases "i < rsize (rp s) div 4")
      case True
      then have "rmaps p' = rmaps (rp s)" using st Fill_loop by (auto simp: fill_frame_step_def split: option.splits)
      then show ?thesis using fill_store_keeps [OF inv run _ top _ _ True] F st Fill_loop sep by simp
    next
      case False
      then have p': "p' = rlog [RPopulated] (rp s)" "f' = Some (Fill_kill pid)"
        using st Fill_loop by (simp_all add: fill_frame_step_def)
      have c: "unat i = unat (rsize (rp s)) div 4"
        using False i(3) by (auto simp: fill_inv_def F Fill_loop Let_def word_less_nat_alt unat_div)
      show ?thesis
        by (rule quiet [where cs = "[RPopulated]"])
          (use i(3,5) c in \<open>auto simp: p' run filled_cells_def F Fill_loop fill_progress_def fill_inv_def trace_inv_def Let_def\<close>)
    qed
  qed
qed

text \<open>What a load of \<open>addr\<close> finds while the reading handler runs.\<close>

lemma register_load:
  assumes "fill_inv mm s" and "trace_inv s" and top: "hfill s = None \<or> \<not> fill_top s"
    and T: "unat (rtotal (rp s)) = unat (rsize (rp s)) div 4"
  shows "register_ok mm s (raddr (rp s))"
proof -
  have none: "RPopulated \<notin> set (before_start (rtrace (rp s)))" if "count_list (rtrace (rp s)) RPopulated = 0"
    using that by (auto simp: before_start_def count_list_0_iff dest: set_takeWhileD)
  have old: ?thesis
    if "raddr (rp s) = addr_after mm (rsize (rp s)) m" "m \<le> rmaps (rp s)" "count_list (rtrace (rp s)) RPopulated = m"
      "\<forall>k < m. filled_cells s k = seen_cells s" for m
  proof (cases m)
    case 0
    then show ?thesis using that none by (simp add: register_ok_def addr_after_def)
  next
    case (Suc k)
    then show ?thesis using that by (auto simp: register_ok_def addr_after_def Let_def)
  qed
  show ?thesis
  proof (cases "hfill s")
    case None
    then show ?thesis using assms
      by (intro old [of "rmaps (rp s)"]) (simp_all add: fill_inv_def trace_inv_def filled_cells_def seen_cells_def fill_progress_def Let_def)
  next
    case (Some f)
    show ?thesis
    proof (cases f)
      case (Fill_mapped pid a)
      then show ?thesis using assms Some
        by (intro old [of "rmaps (rp s) - 1"])
          (auto simp: fill_inv_def trace_inv_def filled_cells_def seen_cells_def fill_progress_def Let_def)
    next
      case (Fill_loop pid i)
      then show ?thesis using assms Some
        by (auto simp: register_ok_def fill_inv_def filled_cells_def seen_cells_def fill_progress_def addr_after_def Let_def
            split: nat.splits)
    next
      case (Fill_start pid)
      then show ?thesis using assms Some
        by (intro old [of "rmaps (rp s)"]) (simp_all add: fill_inv_def trace_inv_def filled_cells_def seen_cells_def fill_progress_def Let_def)
    next
      case (Fill_kill pid)
      then show ?thesis using assms Some
        by (intro old [of "rmaps (rp s)"]) (simp_all add: fill_inv_def trace_inv_def filled_cells_def seen_cells_def fill_progress_def Let_def)
    qed
  qed
qed

lemma seen_le: "fill_inv mm s \<Longrightarrow> unat (rtotal (rp s)) = unat (rsize (rp s)) div 4 \<Longrightarrow> seen_cells s \<le> unat (rtotal (rp s))"
  by (auto simp: seen_cells_def fill_inv_def Let_def split: option.split fill_frame.splits)

lemma part_sum_Suc:
  "part_sum p c (Suc r) = part_sum p c r + scast (part_value (rmult p) c (unat (read_index (rtotal p) 1 r)))"
  by (simp add: part_sum_def read_sum_def)

lemma part_sum_0 [simp]: "part_sum p c 0 = 0"
  by (simp add: part_sum_def read_sum_def)

lemma fill_inv_cong:
  assumes "hfill s' = hfill s" "raddr (rp s') = raddr (rp s)" "rmaps (rp s') = rmaps (rp s)" "rsize (rp s') = rsize (rp s)"
  shows "fill_inv mm s' = fill_inv mm s"
  unfolding fill_inv_def Let_def assms ..

text \<open>Steps of the reading handler that only log events and move on.\<close>

lemma read_quiet_keeps:
  assumes inv: "intr_inv mm n p0 s" and run: "rstat (rp s) = Running" and cs: "\<forall>v. RSum v \<notin> set cs"
    "count_list cs (RMmap (rsize (rp s))) = 0" "count_list cs RPopulated = 0"
    and R: "\<forall>pid. hread s \<noteq> Some (Read_exit pid)" "\<forall>pid. f' \<noteq> Some (Read_exit pid)"
    and new: "read_inv mm (s\<lparr>rp := rlog cs (rp s), hread := f'\<rparr>)"
  shows "intr_inv mm n p0 (s\<lparr>rp := rlog cs (rp s), hread := f'\<rparr>)" (is "intr_inv _ _ _ ?s")
proof -
  note i = runningD [OF inv run]
  have "filled_cells ?s k = filled_cells s k" for k by (simp add: filled_cells_def split: option.split)
  then have "memory_inv mm ?s" "trace_inv ?s" using i(4,5) cs R by (simp_all add: memory_inv_def trace_inv_def Let_def)
  moreover have "fill_inv mm ?s" using i(3) by (subst fill_inv_cong [of _ s]) simp_all
  moreover have "sums_inv (rlog cs (rp s))" by (rule sums_inv_log [OF i(2) _ cs(1)]) simp_all
  ultimately show ?thesis using i(1) run new by (simp add: intr_inv_def same_settings_def)
qed

lemma rlog_Nil [simp]: "rlog [] p = p"
  by (simp add: rlog_def)

lemma read_start_keeps:
  assumes inv: "intr_inv mm n p0 s" and run: "rstat (rp s) = Running" and R: "hread s = Some (Read_start pid)"
  shows "intr_inv mm n p0 (s\<lparr>rp := rlog [RStarted] (rp s), hread := Some (Read_loop pid 0 0 1 0 None)\<rparr>)"
    (is "intr_inv _ _ _ ?s")
proof (rule read_quiet_keeps [OF inv run])
  note i = runningD [OF inv run]
  have seen: "seen_cells ?s = seen_cells s" by (simp add: seen_cells_def split: option.split fill_frame.split)
  have "seen_cells s = unat (rtotal (rp s))" if "all_filled (rsize (rp s)) (rtrace (rp s))"
    using that i(5) by (auto simp: all_filled_def trace_inv_def seen_cells_def fill_progress_def Let_def
        split: option.splits fill_frame.splits)
  moreover have "RStarted \<notin> set (rtrace (rp s))" using i(6) R by (simp add: read_inv_def)
  ultimately show "read_inv mm ?s" using seen by (simp add: read_inv_def before_start_none Let_def)
qed (use R in simp_all)

text \<open>The position in the sequence of reads.\<close>

definition read_pos :: "rproc \<Rightarrow> u32 \<Rightarrow> u64 \<Rightarrow> nat" where
  "read_pos p j i = unat j * (unat (rtotal p) div 8) + unat i"

lemma read_loopD:
  assumes "read_inv mm s" and "hread s = Some (Read_loop pid j i state sm reg)"
  shows "RStarted \<in> set (rtrace (rp s))" and "unat j \<le> unat (rloops (rp s))" and "unat i \<le> unat (rtotal (rp s)) div 8"
    and "j = rloops (rp s) \<Longrightarrow> i = 0"
    and "state = lcg_state 1 (read_pos (rp s) j i)" and "sm = part_sum (rp s) (seen_cells s) (read_pos (rp s) j i)"
    and "all_filled (rsize (rp s)) (before_start (rtrace (rp s))) \<Longrightarrow> seen_cells s = unat (rtotal (rp s))"
    and "reg = Some a \<Longrightarrow> register_ok mm s a"
  using assms by (auto simp: read_inv_def read_pos_def Let_def)

lemma read_loopI:
  assumes "read_inv mm s" and "hread s = Some (Read_loop pid j i state sm reg)"
    and "unat j' \<le> unat (rloops (rp s))" "unat i' \<le> unat (rtotal (rp s)) div 8" "j' = rloops (rp s) \<longrightarrow> i' = 0"
    and "state' = lcg_state 1 (read_pos (rp s) j' i')" "sm' = part_sum (rp s) (seen_cells s) (read_pos (rp s) j' i')"
    and "\<And>a. reg' = Some a \<Longrightarrow> register_ok mm s a"
  shows "read_inv mm (s\<lparr>hread := Some (Read_loop pid j' i' state' sm' reg')\<rparr>)" (is "read_inv mm ?s")
proof -
  have "seen_cells ?s = seen_cells s" "filled_cells ?s k = filled_cells s k" for k
    by (simp_all add: seen_cells_def filled_cells_def split: option.split fill_frame.split)
  then show ?thesis using assms
    by (auto simp: read_inv_def register_ok_def read_pos_def Let_def split: option.split)
qed

text \<open>A read through a register that holds a mapping finds the cell as far as it is filled.\<close>

lemma read_cell:
  assumes inv: "intr_inv mm n p0 s" and run: "rstat (rp s) = Running"
    and R: "hread s = Some (Read_loop pid j i state sm (Some a))" and "a \<noteq> 0" and tot: "rtotal (rp s) \<noteq> 0"
  shows "rmem (rp s) (a + 4 * read_index (rtotal (rp s)) 1 r) =
    Some (part_value (rmult (rp s)) (seen_cells s) (unat (read_index (rtotal (rp s)) 1 r)))"
proof -
  note i = runningD [OF inv run]
  note set = settingsD [OF i(1)]
  let ?k = "unat (read_index (rtotal (rp s)) 1 r)"
  have "register_ok mm s a" using read_loopD(8) [OF i(6) R] by simp
  then obtain k where k: "k < rmaps (rp s)" "a = mm k (rsize (rp s))" "filled_cells s k = seen_cells s"
    using assms(4) by (auto simp: register_ok_def Let_def)
  have "holds_part (rmult (rp s)) (rsize (rp s)) (rmem (rp s)) (mm k (rsize (rp s))) (filled_cells s k)"
    using i(4) R k(1) by (simp add: memory_inv_def Let_def)
  then have h: "holds_part (rmult (rp s)) (rsize (rp s)) (rmem (rp s)) a (seen_cells s)" using k(2,3) by simp
  have "?k < unat (rsize (rp s)) div 4" using unat_read_index [OF tot, of 1 r] set by simp
  from h [unfolded holds_part_def, rule_format, OF this] show ?thesis by simp
qed

text \<open>A read through a null pointer happens only when nothing was filled before the handler began.\<close>

lemma read_fault_keeps:
  assumes inv: "intr_inv mm n p0 s" and run: "rstat (rp s) = Running"
    and R: "hread s = Some (Read_loop pid j i state sm (Some 0))" and sep: "separate mm (mapping_size n) (rmaps (rp s))"
  shows "intr_inv mm n p0 (s\<lparr>rp := (rp s)\<lparr>rstat := RFaulted\<rparr>, hread := f'\<rparr>)"
proof -
  note i = runningD [OF inv run]
  have "register_ok mm s 0" using read_loopD(8) [OF i(6) R] by simp
  then have "RPopulated \<notin> set (before_start (rtrace (rp s)))"
    using sep settingsD(1) [OF i(1)] by (auto simp: register_ok_def separate_def Let_def)
  moreover have "sums_inv ((rp s)\<lparr>rstat := RFaulted\<rparr>)" by (rule sums_inv_log [OF i(2), of _ "[]"]) simp_all
  ultimately show ?thesis using i(1) read_loopD(1) [OF i(6) R] by (simp add: intr_inv_def same_settings_def)
qed

lemma read_total_keeps:
  assumes inv: "intr_inv mm n p0 s" and run: "rstat (rp s) = Running"
    and R: "hread s = Some (Read_loop pid j i state sm reg)" and j: "\<not> j < rloops (rp s)"
  shows "intr_inv mm n p0 (s\<lparr>rp := rlog [RTime, RSum sm] (rp s), hread := Some (Read_unmap pid)\<rparr>)"
    (is "intr_inv _ _ _ ?s")
proof -
  note i = runningD [OF inv run]
  note set = settingsD [OF i(1)]
  note D = read_loopD [OF i(6) R]
  have jl: "j = rloops (rp s)" using j D(2) by (metis linorder_not_less word_le_nat_alt order_antisym)
  have le: "seen_cells s \<le> unat (rtotal (rp s))" using seen_le [OF i(3)] set by simp
  have "sm = part_sum (rp s) (seen_cells s) (all_reads (rp s))"
    using D(4,6) jl by (simp add: read_pos_def all_reads_def)
  then have "sum_ok (rp s) (rtrace (rp s)) sm" using le D(7) unfolding sum_ok_def by blast
  then have "sums_inv (rlog [RTime, RSum sm] (rp s))"
    using i(2) D(1) by (auto simp: sums_inv_def sum_ok_append sum_ok_cong [of "rlog cs p" p for cs p])
  moreover have "filled_cells ?s k = filled_cells s k" for k by (simp add: filled_cells_def split: option.split)
  then have "memory_inv mm ?s" "trace_inv ?s" using i(4,5) R by (simp_all add: memory_inv_def trace_inv_def Let_def)
  moreover have "fill_inv mm ?s" using i(3) by (subst fill_inv_cong [of _ s]) simp_all
  moreover have "read_inv mm ?s" by (auto simp: read_inv_def Let_def)
  ultimately show ?thesis using i(1) run by (simp add: intr_inv_def same_settings_def)
qed

text \<open>A move inside the loops.\<close>

lemma read_loop_keeps:
  assumes inv: "intr_inv mm n p0 s" and run: "rstat (rp s) = Running"
    and R: "hread s = Some (Read_loop pid j i state sm reg)"
    and new: "read_inv mm (s\<lparr>hread := Some (Read_loop pid j' i' state' sm' reg')\<rparr>)"
  shows "intr_inv mm n p0 (s\<lparr>hread := Some (Read_loop pid j' i' state' sm' reg')\<rparr>)"
  using read_quiet_keeps [OF inv run, of "[]" "Some (Read_loop pid j' i' state' sm' reg')"] R new by simp

lemma hread_upd: "(s :: hstate)\<lparr>rp := rp s, hread := f\<rparr> = s\<lparr>hread := f\<rparr>"
  by (cases s) simp

text \<open>One iteration of the inner loop.\<close>

lemma read_value_keeps:
  assumes inv: "intr_inv mm n p0 s" and run: "rstat (rp s) = Running"
    and R: "hread s = Some (Read_loop pid j i state sm (Some a))" and less: "j < rloops (rp s)" "i < rtotal (rp s) div 8"
    and st: "read_frame_step (Read_loop pid j i state sm (Some a)) (rp s) = (p', f')"
    and sep: "separate mm (mapping_size n) (rmaps (rp s))"
  shows "intr_inv mm n p0 (s\<lparr>rp := p', hread := f'\<rparr>)"
proof -
  note i = runningD [OF inv run]
  note D = read_loopD [OF i(6) R]
  let ?tot = "rtotal (rp s)" and ?r = "read_pos (rp s) j i"
  have tot: "?tot \<noteq> 0" using less(2) by auto
  have rn: "rand_num ?tot state = Some (read_index ?tot 1 ?r, lcg_state 1 (Suc ?r))"
    using tot D(5) by (simp add: rand_num_def read_index_def Let_def)
  have up: "unat (i + 1) = Suc (unat i)" by (rule word_of_nat_unat_Suc [OF less(2)])
  show ?thesis
  proof (cases "a = 0")
    case True
    then show ?thesis using read_fault_keeps [OF inv run _ sep] R st less rn by (simp add: read_frame_step_def)
  next
    case False
    let ?f = "Read_loop pid j (i + 1) (lcg_state 1 (Suc ?r))
      (sm + scast (part_value (rmult (rp s)) (seen_cells s) (unat (read_index ?tot 1 ?r)))) (Some a)"
    have "s\<lparr>rp := p', hread := f'\<rparr> = s\<lparr>hread := Some ?f\<rparr>"
      using st less rn read_cell [OF inv run R False tot, of ?r] False hread_upd [where s = s] by (auto simp: read_frame_step_def)
    moreover have "read_pos (rp s) j (i + 1) = Suc ?r" using up by (simp add: read_pos_def)
    then have "intr_inv mm n p0 (s\<lparr>hread := Some ?f\<rparr>)"
      by (intro read_loop_keeps [OF inv run R] read_loopI [OF i(6) R])
        (use D(2,6,8) less up in \<open>auto simp: part_sum_Suc word_less_nat_alt unat_div\<close>)
    ultimately show ?thesis by simp
  qed
qed

text \<open>The next round, and a load of \<open>addr\<close>.\<close>

lemma read_round_keeps:
  assumes inv: "intr_inv mm n p0 s" and run: "rstat (rp s) = Running"
    and R: "hread s = Some (Read_loop pid j i state sm reg)" and less: "j < rloops (rp s)" "\<not> i < rtotal (rp s) div 8"
  shows "intr_inv mm n p0 (s\<lparr>hread := Some (Read_loop pid (j + 1) 0 state sm reg)\<rparr>)"
proof -
  note i = runningD [OF inv run]
  note D = read_loopD [OF i(6) R]
  have "unat i = unat (rtotal (rp s)) div 8" using less(2) D(3) by (simp add: word_less_nat_alt unat_div)
  then have "read_pos (rp s) (j + 1) 0 = read_pos (rp s) j i" using word_unat_Suc32 [OF less(1)] by (simp add: read_pos_def)
  then show ?thesis
    by (intro read_loop_keeps [OF inv run R] read_loopI [OF i(6) R])
      (use D(5,6,8) word_unat_Suc32 [OF less(1)] less(1) in \<open>auto simp: word_less_nat_alt\<close>)
qed

lemma read_load_keeps:
  assumes inv: "intr_inv mm n p0 s" and run: "rstat (rp s) = Running" and top: "hfill s = None \<or> \<not> fill_top s"
    and R: "hread s = Some (Read_loop pid j i state sm reg)"
  shows "intr_inv mm n p0 (s\<lparr>hread := Some (Read_loop pid j i state sm (Some (raddr (rp s))))\<rparr>)"
proof -
  note i = runningD [OF inv run]
  show ?thesis
    by (intro read_loop_keeps [OF inv run R] read_loopI [OF i(6) R])
      (use read_loopD [OF i(6) R] register_load [OF i(3,5) top] settingsD [OF i(1)] in auto)
qed

lemma read_loop_step_keeps:
  assumes inv: "intr_inv mm n p0 s" and run: "rstat (rp s) = Running" and top: "hfill s = None \<or> \<not> fill_top s"
    and R: "hread s = Some (Read_loop pid j i state sm reg)"
    and st: "read_frame_step (Read_loop pid j i state sm reg) (rp s) = (p', f')"
    and sep: "separate mm (mapping_size n) (rmaps (rp s))"
  shows "intr_inv mm n p0 (s\<lparr>rp := p', hread := f'\<rparr>)"
proof -
  consider "\<not> j < rloops (rp s)" | "j < rloops (rp s)" "\<not> i < rtotal (rp s) div 8"
    | "j < rloops (rp s)" "i < rtotal (rp s) div 8" "reg = None"
    | a where "j < rloops (rp s)" "i < rtotal (rp s) div 8" "reg = Some a" by (cases reg) auto
  then show ?thesis
  proof cases
    case 1
    then show ?thesis using read_total_keeps [OF inv run R] st by (simp add: read_frame_step_def)
  next
    case 2
    then have "s\<lparr>rp := p', hread := f'\<rparr> = s\<lparr>hread := Some (Read_loop pid (j + 1) 0 state sm reg)\<rparr>"
      using st hread_upd [where s = s] by (auto simp: read_frame_step_def)
    then show ?thesis using read_round_keeps [OF inv run R 2] by simp
  next
    case 3
    then have "s\<lparr>rp := p', hread := f'\<rparr> = s\<lparr>hread := Some (Read_loop pid j i state sm (Some (raddr (rp s))))\<rparr>"
      using st hread_upd [where s = s] by (auto simp: read_frame_step_def)
    then show ?thesis using read_load_keeps [OF inv run top R] by simp
  next
    case (4 a)
    then show ?thesis using read_value_keeps [OF inv run R [unfolded 4(3)] 4(1,2) _ sep] st by simp
  qed
qed

lemma read_keeps:
  assumes inv: "intr_inv mm n p0 s" and run: "rstat (rp s) = Running" and R: "hread s = Some f"
    and top: "hfill s = None \<or> \<not> fill_top s" and st: "read_frame_step f (rp s) = (p', f')"
    and sep: "separate mm (mapping_size n) (rmaps (rp s))"
  shows "intr_inv mm n p0 (s\<lparr>rp := p', hread := f'\<rparr>)"
proof (cases f)
  case (Read_start pid)
  then show ?thesis using read_start_keeps [OF inv run, of pid] R st by (simp add: read_frame_step_def)
next
  case (Read_loop pid j i state sm reg)
  then show ?thesis using read_loop_step_keeps [OF inv run top _ _ sep] R st by simp
next
  case (Read_unmap pid)
  note i = runningD [OF inv run]
  have p': "p' = unmap_all (rp s)" "f' = Some (Read_exit pid)" using st Read_unmap by (simp_all add: read_frame_step_def)
  let ?s = "s\<lparr>rp := p', hread := f'\<rparr>"
  have "sums_inv p'" by (rule sums_inv_log [OF i(2), of _ "[RMunmap (raddr (rp s)) (rsize (rp s))]"]) (simp_all add: p')
  moreover have "memory_inv mm ?s" using top by (auto simp: memory_inv_def p' fill_progress_def Let_def)
  moreover have "fill_inv mm ?s" using i(3) p' by (subst fill_inv_cong [of _ s]) simp_all
  moreover have "trace_inv ?s" "read_inv mm ?s" using i(5,6) R Read_unmap p' by (auto simp: trace_inv_def read_inv_def Let_def)
  ultimately show ?thesis using i(1) run p' by (simp add: intr_inv_def same_settings_def)
next
  case (Read_exit pid)
  note i = runningD [OF inv run]
  have p': "p' = (rlog [RKill pid] (rp s))\<lparr>rstat := RExited 0\<rparr>" "f' = None" using st Read_exit by (simp_all add: read_frame_step_def)
  have "sums_inv p'" by (rule sums_inv_log [OF i(2), of _ "[RKill pid]"]) (simp_all add: p')
  then show ?thesis using i(1,6) R Read_exit p' by (auto simp: intr_inv_def same_settings_def read_inv_def Let_def)
qed

lemma fill_frame_maps: "fill_frame_step mm f p = (p', f') \<Longrightarrow> rmaps p \<le> rmaps p'"
  by (auto simp: fill_frame_step_def Let_def split: fill_frame.splits if_splits option.splits)

lemma read_frame_maps: "read_frame_step f p = (p', f') \<Longrightarrow> rmaps p' = rmaps p"
  by (auto simp: read_frame_step_def split: read_frame.splits if_splits option.splits prod.splits)

lemma intr_step_maps: "intr_step mm s s' \<Longrightarrow> rmaps (rp s) \<le> rmaps (rp s')"
  by (erule intr_stepE) (auto dest: fill_frame_maps read_frame_maps)

lemma intr_step_keeps:
  assumes step: "intr_step mm s s'" and inv: "intr_inv mm n p0 s" and sep: "separate mm (mapping_size n) (rmaps (rp s'))"
  shows "intr_inv mm n p0 s'"
  using step
proof cases
  case (Fill f p f')
  then show ?thesis using fill_keeps [OF inv Fill(2-5)] sep by simp
next
  case (Read f p f')
  then show ?thesis using read_keeps [OF inv Read(2-5)] sep read_frame_maps [OF Read(5)] by simp
next
  case (Reload pid j i state sm reg)
  note i = runningD [OF inv Reload(2)]
  note D = read_loopD [OF i(6) Reload(3)]
  show ?thesis unfolding Reload(1)
    by (rule read_loop_keeps [OF inv Reload(2,3) read_loopI [OF i(6) Reload(3)]]) (use D in auto)
qed (use intr_inv_signal [OF inv] in auto)

lemma intr_reach_inv:
  "intr_reach mm s0 s \<Longrightarrow> intr_inv mm n p0 s0 \<Longrightarrow> separate mm (mapping_size n) (rmaps (rp s)) \<Longrightarrow> intr_inv mm n p0 s"
proof (induction rule: intr_reach.induct)
  case (step s s')
  have "separate mm (mapping_size n) (rmaps (rp s))"
    by (rule separate_mono [OF step.prems(2) intr_step_maps [OF step.hyps(2)]])
  then show ?case using step intr_step_keeps by blast
qed

section \<open>Handlers that are not interrupted\<close>

text \<open>
  \<open>on_signal\<close> runs a handler in one go.  That is one of the runs of this machine: the one in which
  no signal arrives before the handler has returned.
\<close>

lemma intr_reach_trans: "intr_reach mm s' s'' \<Longrightarrow> intr_reach mm s s' \<Longrightarrow> intr_reach mm s s''"
  by (induction rule: intr_reach.induct) (auto intro: intr_reach.step)

lemma intr_reach_first: "intr_step mm s s' \<Longrightarrow> intr_reach mm s' s'' \<Longrightarrow> intr_reach mm s s''"
  using intr_reach_trans intr_reach.step [OF intr_reach.start] by blast

text \<open>The process with one handler, or none, at work.\<close>

abbreviation filling :: "rproc \<Rightarrow> fill_frame option \<Rightarrow> hstate" where
  "filling p F \<equiv> \<lparr>rp = p, hfill = F, hread = None, fill_top = True\<rparr>"

abbreviation reading :: "rproc \<Rightarrow> read_frame option \<Rightarrow> hstate" where
  "reading p R \<equiv> \<lparr>rp = p, hfill = None, hread = R, fill_top = False\<rparr>"

lemma run_fill: "rstat p = Running \<Longrightarrow> fill_frame_step mm f p = (p', F) \<Longrightarrow> intr_step mm (filling p (Some f)) (filling p' F)"
  using intr_step.Fill [of "filling p (Some f)" f mm p' F] by simp

lemma run_read: "rstat p = Running \<Longrightarrow> read_frame_step f p = (p', R) \<Longrightarrow> intr_step mm (reading p (Some f)) (reading p' R)"
  using intr_step.Read [of "reading p (Some f)" f p' R mm] by simp

lemma fill_loop_runs:
  assumes "fill_loop (\<lambda>i c. (fill_value i (rmult p), c)) (raddr p) (rsize p) i (rmem p) () = Some (m, u)"
    and "rstat p = Running"
  shows "intr_reach mm (filling p (Some (Fill_loop pid i))) (filling (rlog [RPopulated] (p\<lparr>rmem := m\<rparr>)) (Some (Fill_kill pid)))"
  using assms
proof (induction "unat (rsize p div 4) - unat i" arbitrary: i p rule: less_induct)
  case less
  note unf = less.prems(1) [unfolded fill_loop.simps [of _ "raddr p" "rsize p" i]]
  show ?case
  proof (cases "i < rsize p div 4")
    case False
    then have "m = rmem p" using unf by simp
    then have "fill_frame_step mm (Fill_loop pid i) p = (rlog [RPopulated] (p\<lparr>rmem := m\<rparr>), Some (Fill_kill pid))"
      using False by (simp add: fill_frame_step_def)
    from intr_reach.step [OF intr_reach.start run_fill [OF less.prems(2) this]] show ?thesis .
  next
    case True
    let ?p = "p\<lparr>rmem := (rmem p)(raddr p + 4 * i \<mapsto> fill_value i (rmult p))\<rparr>"
    obtain x where x: "rmem p (raddr p + 4 * i) = Some x" using unf True by (auto split: option.splits)
    have "unat (rsize ?p div 4) - unat (i + 1) < unat (rsize p div 4) - unat i"
      using word_of_nat_unat_Suc [OF True] True by (simp add: word_less_nat_alt)
    from less.hyps [OF this] have "intr_reach mm (filling ?p (Some (Fill_loop pid (i + 1))))
        (filling (rlog [RPopulated] (p\<lparr>rmem := m\<rparr>)) (Some (Fill_kill pid)))"
      using unf True x less.prems(2) by simp
    moreover have "fill_frame_step mm (Fill_loop pid i) p = (?p, Some (Fill_loop pid (i + 1)))"
      using True x by (simp add: fill_frame_step_def)
    ultimately show ?thesis using intr_reach_first [OF run_fill [OF less.prems(2)]] by blast
  qed
qed

lemma fill_uninterrupted:
  assumes run: "rstat p = Running" and ok: "rstat (reads_filldata mm pid p) = Running"
  shows "intr_reach mm (filling p (Some (Fill_start pid))) (filling (reads_filldata mm pid p) None)"
proof -
  let ?a = "mm (rmaps p) (rsize p)"
  let ?p = "rlog [RMmap (rsize p)] (p\<lparr>rmaps := Suc (rmaps p),
      rmem := if ?a = MAP_FAILED then rmem p else map_zero ?a (rsize p) (rmem p)\<rparr>)"
  obtain m u where m: "fill_loop (\<lambda>i c. (fill_value i (rmult p), c)) ?a (rsize p) 0 (rmem ?p) () = Some (m, u)"
    using ok by (auto simp: reads_filldata_def Let_def split: option.splits)
  then have r: "reads_filldata mm pid p = rlog [RKill pid] (rlog [RPopulated] (?p\<lparr>raddr := ?a, rmem := m\<rparr>))"
    by (simp add: reads_filldata_def rlog_def Let_def)
  have "fill_frame_step mm (Fill_start pid) p = (?p, Some (Fill_mapped pid ?a))"
    "fill_frame_step mm (Fill_mapped pid ?a) ?p = (?p\<lparr>raddr := ?a\<rparr>, Some (Fill_loop pid 0))"
    "fill_frame_step mm (Fill_kill pid) (rlog [RPopulated] (?p\<lparr>raddr := ?a, rmem := m\<rparr>)) = (reads_filldata mm pid p, None)"
    by (simp_all add: fill_frame_step_def r Let_def)
  note steps = this [THEN run_fill [rotated]]
  have "intr_reach mm (filling (?p\<lparr>raddr := ?a\<rparr>) (Some (Fill_loop pid 0)))
      (filling (rlog [RPopulated] (?p\<lparr>raddr := ?a, rmem := m\<rparr>)) (Some (Fill_kill pid)))"
    using fill_loop_runs [of "?p\<lparr>raddr := ?a\<rparr>" 0 m u mm pid] m run by simp
  from intr_reach_first [OF steps(1) intr_reach_first [OF steps(2) intr_reach.step [OF this steps(3)]]] run
  show ?thesis by simp
qed

text \<open>The loops of \<open>random_access\<close>; \<open>addr\<close> is loaded before the first read.\<close>

lemma read_loop_runs:
  assumes "read_loop (rmem p) (raddr p) (rtotal p) (rtotal p div 8) i state sm = Some (state', sm')"
    and "rstat p = Running" "raddr p \<noteq> 0" "j < rloops p" "reg = None \<or> reg = Some (raddr p)"
  shows "\<exists>i' reg'. intr_reach mm (reading p (Some (Read_loop pid j i state sm reg))) (reading p (Some (Read_loop pid j i' state' sm' reg')))
    \<and> \<not> i' < rtotal p div 8 \<and> (reg' = None \<or> reg' = Some (raddr p))"
  using assms(1,5)
proof (induction "unat (rtotal p div 8) - unat i" arbitrary: i state sm reg rule: less_induct)
  case less
  note unf = less.prems(1) [unfolded read_loop.simps [of _ _ _ _ i]]
  show ?case
  proof (cases "i < rtotal p div 8")
    case False
    then show ?thesis using unf less.prems(2) intr_reach.start by (auto intro!: exI [of _ i] exI [of _ reg])
  next
    case True
    then obtain r st x where r: "rand_num (rtotal p) state = Some (r, st)" "rmem p (raddr p + 4 * r) = Some x"
      "read_loop (rmem p) (raddr p) (rtotal p) (rtotal p div 8) (i + 1) st (sm + scast x) = Some (state', sm')"
      using unf by (auto split: option.splits)
    let ?f = "\<lambda>reg. reading p (Some (Read_loop pid j i state sm reg))"
    have "unat (rtotal p div 8) - unat (i + 1) < unat (rtotal p div 8) - unat i"
      using word_of_nat_unat_Suc [OF True] True by (simp add: word_less_nat_alt)
    from less.hyps [OF this r(3)] obtain i' reg' where
      IH: "intr_reach mm (reading p (Some (Read_loop pid j (i + 1) st (sm + scast x) (Some (raddr p)))))
        (reading p (Some (Read_loop pid j i' state' sm' reg')))" "\<not> i' < rtotal p div 8" "reg' = None \<or> reg' = Some (raddr p)"
      by blast
    have "intr_step mm (?f (Some (raddr p))) (reading p (Some (Read_loop pid j (i + 1) st (sm + scast x) (Some (raddr p)))))"
      by (rule run_read [OF assms(2)]) (use r True assms(3,4) in \<open>simp add: read_frame_step_def\<close>)
    then have go: "intr_reach mm (?f (Some (raddr p))) (reading p (Some (Read_loop pid j i' state' sm' reg')))"
      using IH(1) intr_reach_first by blast
    have "intr_step mm (?f None) (?f (Some (raddr p)))"
      by (rule run_read [OF assms(2)]) (use True assms(4) in \<open>simp add: read_frame_step_def\<close>)
    then show ?thesis using go IH(2,3) less.prems(2) intr_reach_first by blast
  qed
qed

lemma reads_rounds_runs:
  assumes "reads_rounds p j state sm = Some v" and "rstat p = Running" "raddr p \<noteq> 0" and "reg = None \<or> reg = Some (raddr p)"
  shows "intr_reach mm (reading p (Some (Read_loop pid j 0 state sm reg))) (reading (rlog [RTime, RSum v] p) (Some (Read_unmap pid)))"
  using assms(1,4)
proof (induction "unat (rloops p) - unat j" arbitrary: j state sm reg rule: less_induct)
  case less
  note unf = less.prems(1) [unfolded reads_rounds.simps [of p j]]
  show ?case
  proof (cases "j < rloops p")
    case False
    then have "read_frame_step (Read_loop pid j 0 state sm reg) p = (rlog [RTime, RSum v] p, Some (Read_unmap pid))"
      using unf by (simp add: read_frame_step_def)
    from intr_reach.step [OF intr_reach.start run_read [OF assms(2) this]] show ?thesis .
  next
    case True
    then obtain st sm' where l: "read_loop (rmem p) (raddr p) (rtotal p) (rtotal p div 8) 0 state sm = Some (st, sm')"
      "reads_rounds p (j + 1) st sm' = Some v" using unf by (auto split: option.splits)
    from read_loop_runs [OF l(1) assms(2,3) True less.prems(2), of mm pid] obtain i' reg' where
      i': "intr_reach mm (reading p (Some (Read_loop pid j 0 state sm reg))) (reading p (Some (Read_loop pid j i' st sm' reg')))"
        "\<not> i' < rtotal p div 8" "reg' = None \<or> reg' = Some (raddr p)" by blast
    have "unat (rloops p) - unat (j + 1) < unat (rloops p) - unat j"
      using word_unat_Suc32 [OF True] True by (simp add: word_less_nat_alt)
    from less.hyps [OF this l(2) i'(3)]
    have "intr_reach mm (reading p (Some (Read_loop pid (j + 1) 0 st sm' reg'))) (reading (rlog [RTime, RSum v] p) (Some (Read_unmap pid)))" .
    moreover have "intr_step mm (reading p (Some (Read_loop pid j i' st sm' reg'))) (reading p (Some (Read_loop pid (j + 1) 0 st sm' reg')))"
      by (rule run_read [OF assms(2)]) (use True i'(2) in \<open>simp add: read_frame_step_def\<close>)
    ultimately show ?thesis using i'(1) intr_reach_trans intr_reach_first by blast
  qed
qed

lemma read_uninterrupted:
  assumes run: "rstat p = Running" and "raddr p \<noteq> 0" and ok: "rstat (random_access reads_access pid p) = RExited 0"
  shows "intr_reach mm (reading p (Some (Read_start pid))) (reading (random_access reads_access pid p) None)"
proof -
  let ?p = "rlog [RStarted] p"
  obtain v where v: "reads_access ?p = Some v" using ok by (auto simp: random_access_def Let_def split: option.splits)
  let ?q = "rlog [RTime, RSum v] ?p"
  have "read_frame_step (Read_start pid) p = (?p, Some (Read_loop pid 0 0 1 0 None))"
    "read_frame_step (Read_unmap pid) ?q = (unmap_all ?q, Some (Read_exit pid))"
    "read_frame_step (Read_exit pid) (unmap_all ?q) = (random_access reads_access pid p, None)"
    using v by (simp_all add: read_frame_step_def random_access_def Let_def)
  note steps = this [THEN run_read [rotated]]
  have "intr_reach mm (reading ?p (Some (Read_loop pid 0 0 1 0 None))) (reading ?q (Some (Read_unmap pid)))"
    using reads_rounds_runs [of ?p 0 1 0 v None mm pid] v assms by (simp add: reads_access_def)
  from intr_reach_first [OF steps(1) intr_reach.step [OF intr_reach.step [OF this steps(2)] steps(3)]] run
  show ?thesis by simp
qed

text \<open>A signal to a process with no handler at work, until the handler has returned.\<close>

lemma on_signal_runs:
  assumes "rstat p = Running" and "rstat (on_signal mm reads_access sg p) \<in> {Running, RExited 0}"
    and "case sg of SIGUSR1 pid \<Rightarrow> True | SIGUSR2 pid \<Rightarrow> raddr p \<noteq> 0"
  shows "\<exists>t'. intr_reach mm \<lparr>rp = p, hfill = None, hread = None, fill_top = t\<rparr>
    \<lparr>rp = on_signal mm reads_access sg p, hfill = None, hread = None, fill_top = t'\<rparr>"
proof (cases sg)
  case (SIGUSR1 pid)
  then have "intr_reach mm (filling p (Some (Fill_start pid))) (filling (on_signal mm reads_access sg p) None)"
    using fill_uninterrupted [OF assms(1), of mm pid] assms(1,2)
    by (auto simp: on_signal_def reads_filldata_def Let_def split: option.splits)
  moreover have "intr_step mm \<lparr>rp = p, hfill = None, hread = None, fill_top = t\<rparr> (filling p (Some (Fill_start pid)))"
    using intr_step.Usr1 [of "\<lparr>rp = p, hfill = None, hread = None, fill_top = t\<rparr>" mm pid] assms(1) by simp
  ultimately show ?thesis using intr_reach_first by blast
next
  case (SIGUSR2 pid)
  then have "rstat (random_access reads_access pid p) = RExited 0"
    using assms(1,2) by (auto simp: on_signal_def random_access_def Let_def split: option.splits)
  then have "intr_reach mm (reading p (Some (Read_start pid))) (reading (on_signal mm reads_access sg p) None)"
    using read_uninterrupted [OF assms(1), of pid mm] SIGUSR2 assms(1,3) by (simp add: on_signal_def)
  moreover have "intr_step mm \<lparr>rp = p, hfill = None, hread = None, fill_top = t\<rparr> (reading p (Some (Read_start pid)))"
    using intr_step.Usr2 [of "\<lparr>rp = p, hfill = None, hread = None, fill_top = t\<rparr>" mm pid] assms(1) by simp
  ultimately show ?thesis using intr_reach_first by blast
qed

section \<open>Properties\<close>

text \<open>
  C11. Whatever signals arrive, in whatever order and also in the middle of a running handler: with
  a kernel that grants the mappings without overlaps, a process of the first program faults only
  when it was told to read before it had ever reported a complete fill, and it exits only with
  status 0 and after it printed a sum.  Every sum that it prints is the sum, over the positions of its
  generator, of an array that is filled up to some cell \<open>c\<close> and zero from there on; when every fill
  that had begun before the reading handler had also ended, the array is filled to its end.  So the
  sum is the intended one unless the reading handler interrupts a fill.
\<close>
theorem reads_any_order:
  assumes "rstat (reads_main argv) = Running"
    and "intr_reach mm (hstart (reads_main argv)) s"
    and "separate mm (rsize (reads_main argv)) (rmaps (rp s))"
  shows "let p0 = reads_main argv; tr = rtrace (rp s); before = takeWhile (\<lambda>c. c \<noteq> RStarted) tr in
    (case rstat (rp s) of
       Running \<Rightarrow> True
     | RExited c \<Rightarrow> c = 0 \<and> (\<exists>v. RSum v \<in> set tr)
     | RFaulted \<Rightarrow> RStarted \<in> set tr \<and> RPopulated \<notin> set before
     | RUndefined \<Rightarrow> False) \<and>
    (\<forall>v. RSum v \<in> set tr \<longrightarrow> (\<exists>c \<le> unat (rtotal p0).
       v = (\<Sum>j < unat (rloops p0) * (unat (rtotal p0) div 8).
         let k = unat (read_index (rtotal p0) 1 j) in scast (if k < c then word_of_nat k * rmult p0 else 0)) \<and>
       (count_list before (RMmap (rsize p0)) = count_list before RPopulated \<longrightarrow> c = unat (rtotal p0))))"
proof -
  let ?p0 = "reads_main argv"
  obtain n where n: "rsize ?p0 = mapping_size n" "rtotal ?p0 = mapping_size n div 4" by (rule reads_main_running [OF assms(1)])
  have inv: "intr_inv mm n ?p0 s"
    using intr_reach_inv [OF assms(2) intr_inv_start [OF assms(1) n(1)]] assms(3) n(1) by simp
  then have set: "rsize (rp s) = rsize ?p0" "rtotal (rp s) = rtotal ?p0" "rmult (rp s) = rmult ?p0" "rloops (rp s) = rloops ?p0"
    using n by (simp_all add: intr_inv_def same_settings_def)
  have sums: "sum_ok (rp s) (rtrace (rp s)) v" if "RSum v \<in> set (rtrace (rp s))" for v
    using inv that by (auto simp: intr_inv_def sums_inv_def)
  have "case rstat (rp s) of
       Running \<Rightarrow> True
     | RExited c \<Rightarrow> c = 0 \<and> (\<exists>v. RSum v \<in> set (rtrace (rp s)))
     | RFaulted \<Rightarrow> RStarted \<in> set (rtrace (rp s)) \<and> RPopulated \<notin> set (before_start (rtrace (rp s)))
     | RUndefined \<Rightarrow> False"
    using inv by (auto simp: intr_inv_def split: rstatus.splits)
  moreover note sums [unfolded sum_ok_def part_sum_def read_sum_def all_reads_def part_value_def all_filled_def set]
  ultimately show ?thesis unfolding Let_def before_start_def by blast
qed

text \<open>
  \<open>SIGUSR2\<close> strikes while \<open>mmap\<close> has returned but \<open>addr\<close> is not yet assigned: the read faults in the
  middle of the first fill.
\<close>
theorem reads_any_order_witness:
  "\<exists>s. intr_reach (\<lambda>k len. 8192) (hstart (reads_main [''reads'', ''1''])) s \<and> rstat (rp s) = RFaulted \<and>
     rmaps (rp s) = 1 \<and> RStarted \<in> set (rtrace (rp s)) \<and>
     RPopulated \<notin> set (takeWhile (\<lambda>c. c \<noteq> RStarted) (rtrace (rp s)))"
proof -
  let ?p0 = "reads_main [''reads'', ''1'']" and ?mm = "\<lambda>(k :: nat) (len :: u64). 8192 :: u64"
  let ?s1 = "(hstart ?p0)\<lparr>hfill := Some (Fill_start 5), fill_top := True\<rparr>"
  obtain p1 where p1: "fill_frame_step ?mm (Fill_start 5) ?p0 = (p1, Some (Fill_mapped 5 8192))"
    "rstat p1 = rstat ?p0" "rloops p1 = rloops ?p0" "rtotal p1 = rtotal ?p0" "raddr p1 = raddr ?p0" "rmaps p1 = Suc (rmaps ?p0)"
    by (simp add: fill_frame_step_def Let_def)
  let ?s2 = "?s1\<lparr>rp := p1, hfill := Some (Fill_mapped 5 8192)\<rparr>"
  let ?s3 = "?s2\<lparr>hread := Some (Read_start 6), fill_top := False\<rparr>"
  let ?s4 = "?s3\<lparr>rp := rlog [RStarted] p1, hread := Some (Read_loop 6 0 0 1 0 None)\<rparr>"
  let ?s5 = "?s4\<lparr>rp := rlog [RStarted] p1, hread := Some (Read_loop 6 0 0 1 0 (Some 0))\<rparr>"
  let ?s6 = "?s5\<lparr>rp := (rlog [RStarted] p1)\<lparr>rstat := RFaulted\<rparr>, hread := Some (Read_loop 6 0 0 1 0 (Some 0))\<rparr>"
  have "atoi ''1'' = Some 1" by (simp add: atoi_def is_space_def is_digit_def)
  then have p0: "rstat ?p0 = Running" "rsize ?p0 = 4096" "rtotal ?p0 = 1024" "rloops ?p0 = 1" "raddr ?p0 = 0" "rmaps ?p0 = 0"
    by (simp_all add: reads_main_def rproc_start_def rlog_def Let_def mapping_size_def)
  have s3: "read_frame_step (Read_start 6) p1 = (rlog [RStarted] p1, Some (Read_loop 6 0 0 1 0 None))"
    by (simp add: read_frame_step_def)
  have s4: "read_frame_step (Read_loop 6 0 0 1 0 None) (rlog [RStarted] p1) = (rlog [RStarted] p1, Some (Read_loop 6 0 0 1 0 (Some 0)))"
    using p1 p0 by (simp add: read_frame_step_def)
  have s5: "read_frame_step (Read_loop 6 0 0 1 0 (Some 0)) (rlog [RStarted] p1) =
      ((rlog [RStarted] p1)\<lparr>rstat := RFaulted\<rparr>, Some (Read_loop 6 0 0 1 0 (Some 0)))"
    using p1 p0 by (simp add: read_frame_step_def rand_num_def Let_def)
  have "intr_reach ?mm (hstart ?p0) ?s1" using p0 by (intro intr_reach.step [OF intr_reach.start] intr_step.Usr1) (simp_all add: hstart_def)
  moreover have "intr_step ?mm ?s1 ?s2" by (rule intr_step.Fill [where f = "Fill_start 5"]) (use p0 p1 in \<open>simp_all add: hstart_def\<close>)
  moreover have "intr_step ?mm ?s2 ?s3" using p0 p1 by (intro intr_step.Usr2) (simp_all add: hstart_def)
  moreover have "intr_step ?mm ?s3 ?s4" by (rule intr_step.Read [where f = "Read_start 6"]) (use p0 p1 s3 in simp_all)
  moreover have "intr_step ?mm ?s4 ?s5" by (rule intr_step.Read [where f = "Read_loop 6 0 0 1 0 None"]) (use p0 p1 s4 in simp_all)
  moreover have "intr_step ?mm ?s5 ?s6" by (rule intr_step.Read [where f = "Read_loop 6 0 0 1 0 (Some 0)"]) (use p0 p1 s5 in simp_all)
  ultimately have r: "intr_reach ?mm (hstart ?p0) ?s6" by (meson intr_reach.step)
  have "separate ?mm (rsize ?p0) (rmaps (rp ?s6))" using p0 p1 by (simp add: separate_def MAP_FAILED_def)
  from reads_any_order [OF p0(1) r this] r p0 p1 show ?thesis by (intro exI [of _ ?s6]) (simp add: Let_def)
qed

end
