(* ===== verification/XS_Search.thy ===== *)
theory XS_Search
  imports Bench_Prelude
begin

text \<open>
  The integer kernels of XSBench (\<open>Simulation.c\<close>): the linear congruential generator and its
  fast-forward, and the two binary searches for the grid interval of an energy.  The
  energies are elements of a linear order (the C code only compares them); \<open>long\<close> indices
  stay within the arrays and are integers here.
\<close>

section \<open>Random numbers\<close>

definition lcg_m :: u64 where "lcg_m = 9223372036854775808"

definition lcg_a :: u64 where "lcg_a = 2806196910506780709"

text \<open>The update of the seed in \<open>LCG_random_double\<close>.\<close>

definition LCG_next :: "u64 \<Rightarrow> u64" where
  "LCG_next seed = (lcg_a * seed + 1) mod lcg_m"

function ff_loop :: "u64 \<Rightarrow> u64 \<Rightarrow> u64 \<Rightarrow> u64 \<Rightarrow> u64 \<Rightarrow> u64 \<times> u64" where
  "ff_loop n a c a_new c_new =
    (if 0 < n then
       (let (a_new, c_new) = (if n AND 1 \<noteq> 0 then (a_new * a, c_new * a + c) else (a_new, c_new)) in
        ff_loop (drop_bit 1 n) (a * a) (c * (a + 1)) a_new c_new)
     else (a_new, c_new))"
  by pat_completeness auto
termination
proof (relation "measure (\<lambda>(n, a, c, a_new, c_new). unat n)")
  fix n a c a_new c_new x y x' y' :: u64 and z :: "u64 \<times> u64"
  assume "0 < n"
  then show "((drop_bit 1 n, a * a, c * (a + 1), x', y'), n, a, c, a_new, c_new) \<in> measure (\<lambda>(n, a, c, a_new, c_new). unat n)"
    by (simp add: drop_bit_eq_div unat_div word_less_nat_alt)
qed simp

declare ff_loop.simps [simp del]

definition fast_forward_LCG :: "u64 \<Rightarrow> u64 \<Rightarrow> u64" where
  "fast_forward_LCG seed n =
    (let (a_new, c_new) = ff_loop (n mod lcg_m) lcg_a 1 1 0 in (a_new * seed + c_new) mod lcg_m)"

text \<open>The loop composes affine maps by squaring.\<close>

lemma affine_twice: "((\<lambda>x. (a :: u64) * x + c) ^^ (2 * k)) x = ((\<lambda>x. (a * a) * x + c * (a + 1)) ^^ k) x"
  by (induction k arbitrary: x) (simp_all add: funpow_swap1 algebra_simps)

lemma ff_loop_affine:
  "ff_loop n a c an cn = (A, C) \<Longrightarrow> A * x + C = ((\<lambda>x. a * x + c) ^^ unat n) (an * x + cn)"
proof (induction n a c an cn arbitrary: A C rule: ff_loop.induct)
  case (1 n a c an cn)
  show ?case
  proof (cases "0 < n")
    case False
    then show ?thesis using "1.prems" by (simp add: ff_loop.simps word_gt_0)
  next
    case True
    let ?odd = "n AND 1 \<noteq> 0"
    let ?an = "if ?odd then an * a else an" and ?cn = "if ?odd then cn * a + c else cn"
    have d: "unat (drop_bit 1 n) = unat n div 2" by (simp add: drop_bit_eq_div unat_div)
    have o: "?odd \<longleftrightarrow> odd (unat n)"
    proof -
      have "n AND 1 = take_bit 1 n" by (simp add: take_bit_eq_mask mask_eq_exp_minus_1)
      then have "unat (n AND 1) = unat n mod 2" by (simp add: take_bit_eq_mod unat_mod)
      then show ?thesis by (metis odd_iff_mod_2_eq_one unat_eq_0 parity_cases one_neq_zero)
    qed
    have "ff_loop (drop_bit 1 n) (a * a) (c * (a + 1)) ?an ?cn = (A, C)"
      using "1.prems" True by (subst (asm) ff_loop.simps) (auto split: if_splits)
    then have "A * x + C = ((\<lambda>x. (a * a) * x + c * (a + 1)) ^^ (unat n div 2)) (?an * x + ?cn)"
      using "1.IH" [OF True refl, of ?an ?cn A C] d by (cases ?odd) simp_all
    also have "\<dots> = ((\<lambda>x. a * x + c) ^^ (2 * (unat n div 2))) (?an * x + ?cn)" by (simp only: affine_twice)
    also have "\<dots> = ((\<lambda>x. a * x + c) ^^ unat n) (an * x + cn)"
    proof (cases ?odd)
      case True
      then have u: "unat n = Suc (2 * (unat n div 2))" using o by presburger
      have "?an * x + ?cn = a * (an * x + cn) + c" using True by (simp add: algebra_simps)
      then show ?thesis
        using funpow_swap1 [of "\<lambda>x. a * x + c" "2 * (unat n div 2)" "an * x + cn"] by (subst (2) u) simp
    next
      case False
      then have "2 * (unat n div 2) = unat n" using o by presburger
      with False show ?thesis by simp
    qed
    finally show ?thesis .
  qed
qed

lemma affine_mod: "(lcg_a * (x mod lcg_m) + 1) mod lcg_m = (lcg_a * x + 1) mod lcg_m"
proof -
  have aff: "(A * (X mod M) + 1) mod M = (A * X + 1) mod M" for A X M :: int
    by (metis mod_add_left_eq mod_mult_right_eq)
  have "uint ((lcg_a * y + 1) mod lcg_m) = (uint lcg_a * uint y + 1) mod 9223372036854775808" for y
  proof -
    have "uint (lcg_a * y + 1) = (uint lcg_a * uint y + 1) mod 18446744073709551616"
      by (simp add: uint_word_ariths mod_simps)
    then show ?thesis by (simp add: uint_mod lcg_m_def mod_mod_cancel)
  qed
  moreover have "uint (x mod lcg_m) = uint x mod 9223372036854775808" by (simp add: uint_mod lcg_m_def)
  ultimately have "uint ((lcg_a * (x mod lcg_m) + 1) mod lcg_m) = uint ((lcg_a * x + 1) mod lcg_m)"
    by (simp only: aff)
  then show ?thesis by (rule unsigned_word_eqI)
qed

lemma LCG_next_iterate:
  "(LCG_next ^^ k) (x mod lcg_m) = ((\<lambda>x. lcg_a * x + 1) ^^ k) x mod lcg_m"
  by (induction k) (simp_all add: LCG_next_def affine_mod)

text \<open>
  C21. The fast-forward of the generator computes, in a logarithmic number of steps, the seed that
  the generator reaches in \<open>n\<close> steps, for every seed and every \<open>n\<close> below \<open>2 ^ 63\<close> (larger ones
  are first reduced modulo \<open>2 ^ 63\<close>).
\<close>
theorem fast_forward_LCG_iterates:
  "fast_forward_LCG seed n = (LCG_next ^^ (unat n mod 9223372036854775808)) (seed mod lcg_m)"
proof -
  obtain A C where AC: "ff_loop (n mod lcg_m) lcg_a 1 1 0 = (A, C)" by fastforce
  have "A * seed + C = ((\<lambda>x. lcg_a * x + 1) ^^ unat (n mod lcg_m)) seed"
    using ff_loop_affine [OF AC, of seed] by simp
  moreover have "unat (n mod lcg_m) = unat n mod 9223372036854775808" by (simp add: unat_mod lcg_m_def)
  ultimately show ?thesis by (simp add: fast_forward_LCG_def AC LCG_next_iterate)
qed

section \<open>Binary search\<close>

record 'd ngp =
  energy :: 'd
  total_xs :: 'd
  elastic_xs :: 'd
  absorbtion_xs :: 'd
  fission_xs :: 'd
  nu_fission_xs :: 'd

text \<open>The loop of both searches; \<open>at\<close> reads the energy at an index of the array.\<close>

function search_loop :: "(int \<Rightarrow> 'd option) \<Rightarrow> 'd::linorder \<Rightarrow> int \<Rightarrow> int \<Rightarrow> int option" where
  "search_loop at quarry lowerLimit upperLimit =
    (if upperLimit - lowerLimit > 1 then
       (let examinationPoint = lowerLimit + (upperLimit - lowerLimit) div 2 in
        case at examinationPoint of
          None \<Rightarrow> None
        | Some e \<Rightarrow>
            if e > quarry then search_loop at quarry lowerLimit examinationPoint
            else search_loop at quarry examinationPoint upperLimit)
     else Some lowerLimit)"
  by pat_completeness auto
termination
  by (relation "measure (\<lambda>(at, q, l, u). nat (u - l))") auto

declare search_loop.simps [simp del]

definition rd_int :: "'a list \<Rightarrow> int \<Rightarrow> 'a option" where
  "rd_int xs i = (if i < 0 then None else rd xs (nat i))"

lemma rd_int_nat: "rd_int xs (int i) = rd xs i"
  by (simp add: rd_int_def)

definition grid_search :: "int \<Rightarrow> 'd::linorder \<Rightarrow> 'd list \<Rightarrow> int option" where
  "grid_search n quarry A = search_loop (rd_int A) quarry 0 (n - 1)"

definition grid_search_nuclide :: "int \<Rightarrow> 'd::linorder \<Rightarrow> 'd ngp list \<Rightarrow> int \<Rightarrow> int \<Rightarrow> int option" where
  "grid_search_nuclide n quarry A low high = search_loop (\<lambda>i. map_option energy (rd_int A i)) quarry low high"

lemma search_loop_bracket:
  assumes "\<forall>i. low < i \<and> i < high \<longrightarrow> at i = Some (E i)" and "low < high"
  shows "\<exists>l. search_loop at q low high = Some l \<and> low \<le> l \<and> l < high \<and>
    (l = low \<or> E l \<le> q) \<and> (l + 1 = high \<or> q < E (l + 1))"
  using assms
proof (induction "nat (high - low)" arbitrary: low high rule: less_induct)
  case less
  show ?case
  proof (cases "high - low > 1")
    case False
    then show ?thesis using less.prems by (subst search_loop.simps) auto
  next
    case True
    define x where "x = low + (high - low) div 2"
    have x: "low < x" "x < high" using True by (auto simp: x_def)
    then have ax: "at x = Some (E x)" using less.prems(1) by blast
    show ?thesis
    proof (cases "E x > q")
      case True
      have "nat (x - low) < nat (high - low)" using x by simp
      from less.hyps [OF this] less.prems(1) x obtain l where
        "search_loop at q low x = Some l" "low \<le> l" "l < x" "l = low \<or> E l \<le> q" "l + 1 = x \<or> q < E (l + 1)" by auto
      with True ax x \<open>high - low > 1\<close> show ?thesis
        by (subst search_loop.simps) (auto simp: x_def [symmetric] Let_def)
    next
      case False
      have "nat (high - x) < nat (high - low)" using x by simp
      from less.hyps [OF this] less.prems(1) x obtain l where
        "search_loop at q x high = Some l" "x \<le> l" "l < high" "l = x \<or> E l \<le> q" "l + 1 = high \<or> q < E (l + 1)" by auto
      with False ax x \<open>high - low > 1\<close> show ?thesis
        by (subst search_loop.simps) (auto simp: x_def [symmetric] Let_def)
    qed
  qed
qed

text \<open>On a sorted range the search finds the last point that is not above the energy.\<close>

lemma search_loop_sorted:
  assumes "\<forall>i. low < i \<and> i < high \<longrightarrow> at i = Some (E i)" and "low < high"
    and "\<forall>i j. low < i \<and> i \<le> j \<and> j < high \<longrightarrow> E i \<le> E j"
  shows "\<exists>l. search_loop at q low high = Some l \<and> low \<le> l \<and> l < high \<and>
    (\<forall>i. low < i \<and> i < high \<longrightarrow> (E i \<le> q \<longleftrightarrow> i \<le> l))"
proof -
  obtain l where l: "search_loop at q low high = Some l" "low \<le> l" "l < high"
    "l = low \<or> E l \<le> q" "l + 1 = high \<or> q < E (l + 1)"
    using search_loop_bracket [OF assms(1,2), of q] by blast
  have "E i \<le> q \<longleftrightarrow> i \<le> l" if i: "low < i" "i < high" for i
  proof (cases "i \<le> l")
    case True
    with i l(3,4) have "E l \<le> q" by auto
    moreover have "E i \<le> E l" using assms(3) True i l(3) by blast
    ultimately show ?thesis using True by simp
  next
    case False
    with i l(5) have "q < E (l + 1)" by auto
    moreover have "E (l + 1) \<le> E i" using assms(3) False i l(2) by simp
    ultimately show ?thesis using False by simp
  qed
  with l show ?thesis by blast
qed

text \<open>
  C22. On a sorted grid of \<open>n \<ge> 2\<close> points the search reads only inside the grid, ends, and returns
  an index that is at most \<open>n - 2\<close>; a point between the two ends is at or below the energy exactly
  when its index is at most the result.
\<close>
theorem grid_search_interval:
  assumes "sorted A" "2 \<le> length A"
  shows "\<exists>l. grid_search (int (length A)) q A = Some l \<and> 0 \<le> l \<and> l \<le> int (length A) - 2 \<and>
    (\<forall>i. 0 < i \<and> i < length A - 1 \<longrightarrow> (A ! i \<le> q \<longleftrightarrow> int i \<le> l))"
proof -
  let ?E = "\<lambda>i. A ! nat i"
  have "\<exists>l. search_loop (rd_int A) q 0 (int (length A) - 1) = Some l \<and> 0 \<le> l \<and> l < int (length A) - 1 \<and>
      (\<forall>i. 0 < i \<and> i < int (length A) - 1 \<longrightarrow> (?E i \<le> q \<longleftrightarrow> i \<le> l))"
    using assms by (intro search_loop_sorted) (auto simp: rd_int_def rd_def sorted_nth_mono)
  then obtain l where l: "grid_search (int (length A)) q A = Some l" "0 \<le> l" "l < int (length A) - 1"
    "\<forall>i. 0 < i \<and> i < int (length A) - 1 \<longrightarrow> (?E i \<le> q \<longleftrightarrow> i \<le> l)"
    unfolding grid_search_def by blast
  have "A ! i \<le> q \<longleftrightarrow> int i \<le> l" if "0 < i" "i < length A - 1" for i
    using l(4) [rule_format, of "int i"] that by simp
  with l(1-3) show ?thesis by auto
qed

theorem grid_search_interval_witness:
  "\<exists>l. grid_search 4 (25 :: int) [0, 10, 20, 30] = Some l \<and> 2 \<le> l"
  using grid_search_interval [of "[0, 10, 20, 30 :: int]" 25] by force

end
