(* ===== verification/XS_Grid.thy ===== *)
theory XS_Grid
  imports XS_Search
begin

text \<open>
  The acceleration structure of XSBench: \<open>grid_init_do_not_profile\<close> merges the energies of all
  nuclides into one sorted array and stores, for every energy of it, the interval of every
  nuclide's own grid, advancing each nuclide's interval by at most one per energy.  A lookup
  then needs one binary search instead of one per nuclide.  Lengths and indices are natural
  numbers; in the source they are \<open>int\<close> and \<open>long\<close>, so the model is about grids with fewer than
  \<open>2 ^ 31\<close> energies in all.
\<close>

section \<open>Construction (\<open>GridInit.c\<close>)\<close>

definition unionized_energy_array :: "'d::linorder ngp list \<Rightarrow> 'd list" where
  "unionized_energy_array grid = sort (map energy grid)"

fun init_energy_high :: "'d ngp list \<Rightarrow> nat \<Rightarrow> nat \<Rightarrow> 'd list option" where
  "init_energy_high grid n_gridpoints 0 = Some []"
| "init_energy_high grid n_gridpoints (Suc i) = do {
     hs \<leftarrow> init_energy_high grid n_gridpoints i;
     p \<leftarrow> rd grid (i * n_gridpoints + 1);
     Some (hs @ [energy p]) }"

text \<open>The body of the inner loop; the state is \<open>idx_low\<close>, \<open>energy_high\<close> and \<open>index_grid\<close>.\<close>

definition index_step :: "'d::linorder ngp list \<Rightarrow> nat \<Rightarrow> nat \<Rightarrow> nat \<Rightarrow> 'd \<Rightarrow> nat \<Rightarrow>
    nat list \<times> 'd list \<times> nat list \<Rightarrow> (nat list \<times> 'd list \<times> nat list) option" where
  "index_step grid n_isotopes n_gridpoints e u i st = (case st of (idx_low, energy_high, index_grid) \<Rightarrow> do {
     h \<leftarrow> rd energy_high i;
     lo \<leftarrow> rd idx_low i;
     if u < h then do {
       index_grid \<leftarrow> wr index_grid (e * n_isotopes + i) lo;
       Some (idx_low, energy_high, index_grid) }
     else if int lo = int n_gridpoints - 2 then do {
       index_grid \<leftarrow> wr index_grid (e * n_isotopes + i) lo;
       Some (idx_low, energy_high, index_grid) }
     else do {
       idx_low \<leftarrow> wr idx_low i (lo + 1);
       index_grid \<leftarrow> wr index_grid (e * n_isotopes + i) (lo + 1);
       p \<leftarrow> rd grid (i * n_gridpoints + (lo + 1) + 1);
       energy_high \<leftarrow> wr energy_high i (energy p);
       Some (idx_low, energy_high, index_grid) } })"

fun index_row :: "'d::linorder ngp list \<Rightarrow> nat \<Rightarrow> nat \<Rightarrow> nat \<Rightarrow> 'd \<Rightarrow> nat \<Rightarrow>
    nat list \<times> 'd list \<times> nat list \<Rightarrow> (nat list \<times> 'd list \<times> nat list) option" where
  "index_row grid n_isotopes n_gridpoints e u 0 st = Some st"
| "index_row grid n_isotopes n_gridpoints e u (Suc i) st = do {
     st \<leftarrow> index_row grid n_isotopes n_gridpoints e u i st;
     index_step grid n_isotopes n_gridpoints e u i st }"

fun index_rows :: "'d::linorder ngp list \<Rightarrow> nat \<Rightarrow> nat \<Rightarrow> 'd list \<Rightarrow> nat \<Rightarrow>
    nat list \<times> 'd list \<times> nat list \<Rightarrow> (nat list \<times> 'd list \<times> nat list) option" where
  "index_rows grid n_isotopes n_gridpoints us 0 st = Some st"
| "index_rows grid n_isotopes n_gridpoints us (Suc e) st = do {
     st \<leftarrow> index_rows grid n_isotopes n_gridpoints us e st;
     u \<leftarrow> rd us e;
     index_row grid n_isotopes n_gridpoints e u n_isotopes st }"

definition index_grid :: "'d::linorder ngp list \<Rightarrow> nat \<Rightarrow> nat \<Rightarrow> nat list option" where
  "index_grid grid n_isotopes n_gridpoints = do {
     let us = unionized_energy_array grid;
     hs \<leftarrow> init_energy_high grid n_gridpoints n_isotopes;
     st \<leftarrow> index_rows grid n_isotopes n_gridpoints us (length us)
       (replicate n_isotopes 0, hs, replicate (length us * n_isotopes) 0);
     Some (snd (snd st)) }"

section \<open>Lookup (\<open>calculate_micro_xs\<close>)\<close>

text \<open>The index of \<open>low\<close> within the grid of nuclide \<open>nuc\<close>, for the two exact grid types.\<close>

definition clamp_low :: "nat \<Rightarrow> int \<Rightarrow> int" where
  "clamp_low n_gridpoints idx = (if idx = int n_gridpoints - 1 then idx - 1 else idx)"

definition low_nuclide :: "'d::linorder ngp list \<Rightarrow> nat \<Rightarrow> 'd \<Rightarrow> nat \<Rightarrow> int option" where
  "low_nuclide grid n_gridpoints p_energy nuc = do {
     idx \<leftarrow> grid_search_nuclide (int n_gridpoints) p_energy (drop (nuc * n_gridpoints) grid) 0 (int n_gridpoints - 1);
     Some (clamp_low n_gridpoints idx) }"

definition low_unionized :: "'d::linorder list \<Rightarrow> nat list \<Rightarrow> nat \<Rightarrow> nat \<Rightarrow> 'd \<Rightarrow> nat \<Rightarrow> int option" where
  "low_unionized egrid index_data n_isotopes n_gridpoints p_energy nuc = do {
     idx \<leftarrow> grid_search (int (n_isotopes * n_gridpoints)) p_energy egrid;
     k \<leftarrow> rd_int index_data (idx * int n_isotopes + int nuc);
     Some (clamp_low n_gridpoints (int k)) }"

text \<open>The hash grid: the table bounds the binary search from both sides.\<close>

definition low_hash :: "'d::linorder ngp list \<Rightarrow> nat list \<Rightarrow> nat \<Rightarrow> nat \<Rightarrow> nat \<Rightarrow> nat \<Rightarrow> 'd \<Rightarrow> nat \<Rightarrow> int option" where
  "low_hash grid index_data n_isotopes n_gridpoints hash_bins idx p_energy nuc = do {
     u_low \<leftarrow> rd index_data (idx * n_isotopes + nuc);
     u_high \<leftarrow> (if idx = hash_bins - 1 then Some (int n_gridpoints - 1)
       else map_option (\<lambda>k. int k + 1) (rd index_data ((idx + 1) * n_isotopes + nuc)));
     lo \<leftarrow> rd_int grid (int (nuc * n_gridpoints) + int u_low);
     hi \<leftarrow> rd_int grid (int (nuc * n_gridpoints) + u_high);
     lower \<leftarrow> (if p_energy \<le> energy lo then Some 0
       else if p_energy \<ge> energy hi then Some (int n_gridpoints - 1)
       else grid_search_nuclide (int n_gridpoints) p_energy (drop (nuc * n_gridpoints) grid) (int u_low) u_high);
     Some (clamp_low n_gridpoints lower) }"

section \<open>Intervals\<close>

definition interval :: "(nat \<Rightarrow> 'd::linorder) \<Rightarrow> nat \<Rightarrow> 'd \<Rightarrow> nat" where
  "interval E n q = card {k. 0 < k \<and> k < n - 1 \<and> E k \<le> q}"

lemma interval_set:
  assumes "\<forall>j k. j < k \<and> k < n \<longrightarrow> E j < E k"
  shows "{k. 0 < k \<and> k < n - 1 \<and> E k \<le> q} = {1..interval E n q}" (is "?S = _")
proof -
  have fin: "finite ?S" by (rule finite_subset [of _ "{..n}"]) auto
  show ?thesis
  proof (cases "?S = {}")
    case True
    show ?thesis unfolding interval_def True by simp
  next
    case False
    define m where "m = Max ?S"
    have "m \<in> ?S" unfolding m_def using fin False by (rule Max_in)
    then have m: "0 < m" "m < n - 1" "E m \<le> q" by auto
    have up: "k \<le> m" if "k \<in> ?S" for k unfolding m_def using fin that by (rule Max_ge)
    have dn: "E k \<le> q" if "k \<le> m" for k
    proof (cases "k = m")
      case False
      then have "E k < E m" using assms that m(2) by simp
      with m(3) show ?thesis by simp
    qed (simp add: m(3))
    have "?S = {1..m}"
    proof
      show "?S \<subseteq> {1..m}" using up by (auto simp: Suc_le_eq)
      show "{1..m} \<subseteq> ?S" using dn m(2) by auto
    qed
    then show ?thesis unfolding interval_def by simp
  qed
qed

lemma interval_iff:
  assumes "\<forall>j k. j < k \<and> k < n \<longrightarrow> E j < E k" "0 < k" "k < n - 1"
  shows "E k \<le> q \<longleftrightarrow> k \<le> interval E n q"
  using arg_cong [OF interval_set [OF assms(1), of q], of "\<lambda>S. k \<in> S"] assms(2,3) by auto

lemma interval_le: "interval E n q \<le> n - 2"
proof -
  have "card {k. 0 < k \<and> k < n - 1 \<and> E k \<le> q} \<le> card {1..n - 2}" by (rule card_mono) auto
  then show ?thesis by (simp add: interval_def)
qed

lemma interval_cong:
  "(\<And>k. 0 < k \<Longrightarrow> k < n - 1 \<Longrightarrow> E k \<le> q \<longleftrightarrow> E k \<le> q') \<Longrightarrow> interval E n q = interval E n q'"
  unfolding interval_def by (rule arg_cong [of _ _ card]) auto

text \<open>Advancing by at most one step reaches the interval of the next energy.\<close>

lemma interval_advance:
  assumes mono: "\<forall>j k. j < k \<and> k < n \<longrightarrow> E j < E k" and n: "2 \<le> n"
    and lo: "\<forall>k. 0 < k \<and> k < n - 1 \<longrightarrow> (k \<le> lo \<longrightarrow> E k \<le> q)" "lo \<le> n - 2"
    and near: "\<forall>k. 0 < k \<and> k < n - 1 \<and> E k < q \<longrightarrow> k \<le> lo"
  shows "interval E n q = (if q < E (lo + 1) then lo else if lo = n - 2 then lo else lo + 1)"
proof -
  have ge: "lo \<le> interval E n q"
  proof (cases "lo = 0")
    case False
    then have "E lo \<le> q" using lo n by auto
    then show ?thesis using interval_iff [OF mono, of lo q] False lo(2) n by auto
  qed simp
  have le: "interval E n q \<le> lo + 1"
  proof (rule ccontr)
    assume "\<not> interval E n q \<le> lo + 1"
    then have i: "lo + 2 \<le> interval E n q" by simp
    then have k: "lo + 2 < n - 1" using interval_le [of E n q] n by simp
    then have "E (lo + 2) \<le> q" using interval_iff [OF mono, of "lo + 2" q] i by simp
    moreover have "E (lo + 1) < E (lo + 2)" using mono k by simp
    ultimately have "E (lo + 1) < q" by simp
    then show False using near [rule_format, of "lo + 1"] k by simp
  qed
  show ?thesis
  proof (cases "lo = n - 2")
    case True
    then show ?thesis using ge interval_le [of E n q] by simp
  next
    case False
    then have k: "lo + 1 < n - 1" using lo(2) by simp
    then have "E (lo + 1) \<le> q \<longleftrightarrow> lo + 1 \<le> interval E n q" using interval_iff [OF mono, of "lo + 1" q] by simp
    then show ?thesis using ge le False by (auto simp: not_less)
  qed
qed

section \<open>The loops of the construction\<close>

definition point :: "'d ngp list \<Rightarrow> nat \<Rightarrow> nat \<Rightarrow> nat \<Rightarrow> 'd" where
  "point grid n i k = energy (grid ! (i * n + k))"

lemma init_energy_high_eq:
  assumes "length grid = N * n" "2 \<le> n" "i \<le> N"
  shows "init_energy_high grid n i = Some (map (\<lambda>i. point grid n i 1) [0..<i])"
  using assms(3)
proof (induction i)
  case (Suc i)
  then have "Suc i * n \<le> N * n" by (intro mult_right_mono) simp_all
  then have "i * n + 1 < length grid" using assms(1,2) by simp
  then show ?case using Suc by (simp add: rd_def point_def)
qed simp

text \<open>
  The state before row \<open>e\<close>: \<open>lo i\<close> is the interval of nuclide \<open>i\<close> so far, and the rows below \<open>e\<close>
  hold the intervals of their energies.
\<close>

lemma index_step_eq:
  assumes "i < N" "e < M" "length il = N" "length eh = N" "length ig = M * N" "length grid = N * n" "2 \<le> n"
    and "il ! i \<le> n - 2" "eh ! i = point grid n i (il ! i + 1)"
    and l: "l = (if u < point grid n i (il ! i + 1) then il ! i else if il ! i = n - 2 then il ! i else il ! i + 1)"
  shows "index_step grid N n e u i (il, eh, ig) =
    Some (il[i := l], eh[i := point grid n i (l + 1)], ig[e * N + i := l])"
proof -
  have "Suc e * N \<le> M * N" using assms(2) by (intro mult_right_mono) simp_all
  then have r: "e * N + i < length ig" using assms(1,5) by simp
  have "Suc i * n \<le> N * n" using assms(1) by (intro mult_right_mono) simp_all
  then have g: "il ! i + 1 \<le> n - 2 \<Longrightarrow> i * n + (il ! i + 1) + 1 < length grid" using assms(6,7) by simp
  have n2: "int (il ! i) = int n - 2 \<longleftrightarrow> il ! i = n - 2" using assms(7) by auto
  have eq: "il[i := il ! i] = il" "eh[i := point grid n i (il ! i + 1)] = eh"
    using assms(9) by (simp_all add: list_update_same_conv assms(1,3,4)) 
  show ?thesis
  proof (cases "u < point grid n i (il ! i + 1) \<or> il ! i = n - 2")
    case True
    then have "l = il ! i" using l by auto
    then show ?thesis using True r assms(1,3,4,9) n2 eq by (auto simp: index_step_def rd_def wr_def)
  next
    case False
    then have l1: "l = il ! i + 1" "il ! i + 1 \<le> n - 2" using l assms(8) by auto
    then show ?thesis using False r g assms(1,3,4,9) n2
      by (simp add: index_step_def rd_def wr_def point_def add.assoc)
  qed
qed

definition rows_ok :: "'d::linorder ngp list \<Rightarrow> nat \<Rightarrow> nat \<Rightarrow> nat \<Rightarrow> nat list \<times> 'd list \<times> nat list \<Rightarrow> bool" where
  "rows_ok grid N n M st \<longleftrightarrow> (case st of (il, eh, ig) \<Rightarrow>
     length il = N \<and> length eh = N \<and> length ig = M * N \<and>
     (\<forall>j < N. il ! j \<le> n - 2 \<and> eh ! j = point grid n j (il ! j + 1)))"

lemma index_row_eq:
  assumes "rows_ok grid N n M (il, eh, ig)" "e < M" "length grid = N * n" "2 \<le> n" "i \<le> N"
    and L: "\<forall>j < N. L j = (if u < point grid n j (il ! j + 1) then il ! j else if il ! j = n - 2 then il ! j else il ! j + 1)"
  shows "\<exists>il' eh' ig'. index_row grid N n e u i (il, eh, ig) = Some (il', eh', ig') \<and>
    rows_ok grid N n M (il', eh', ig') \<and> (\<forall>j < N. il' ! j = (if j < i then L j else il ! j)) \<and>
    (\<forall>p < M * N. ig' ! p = (if e * N \<le> p \<and> p < e * N + i then L (p - e * N) else ig ! p))"
  using assms(5)
proof (induction i)
  case 0
  then show ?case using assms(1) by auto
next
  case (Suc i)
  then obtain il' eh' ig' where st: "index_row grid N n e u i (il, eh, ig) = Some (il', eh', ig')"
    and ok: "rows_ok grid N n M (il', eh', ig')"
    and lo: "\<forall>j < N. il' ! j = (if j < i then L j else il ! j)"
    and gr: "\<forall>p < M * N. ig' ! p = (if e * N \<le> p \<and> p < e * N + i then L (p - e * N) else ig ! p)" by auto
  have i: "i < N" using Suc.prems by simp
  have len: "length il' = N" "length eh' = N" "length ig' = M * N"
    and inv: "\<forall>j < N. il' ! j \<le> n - 2 \<and> eh' ! j = point grid n j (il' ! j + 1)"
    using ok by (auto simp: rows_ok_def)
  have li: "il' ! i = il ! i" "L i = (if u < point grid n i (il' ! i + 1) then il' ! i
      else if il' ! i = n - 2 then il' ! i else il' ! i + 1)" using lo L i by auto
  have step: "index_step grid N n e u i (il', eh', ig') =
      Some (il'[i := L i], eh'[i := point grid n i (L i + 1)], ig'[e * N + i := L i])"
    using inv i by (intro index_step_eq [OF i assms(2) len assms(3,4)] li(2)) auto
  have "Suc e * N \<le> M * N" using assms(2) by (intro mult_right_mono) simp_all
  then have r: "e * N + i < M * N" using i by simp
  have "L i \<le> n - 2" using li inv i by auto
  then have "rows_ok grid N n M (il'[i := L i], eh'[i := point grid n i (L i + 1)], ig'[e * N + i := L i])"
    using len inv i by (auto simp: rows_ok_def nth_list_update)
  moreover have "\<forall>j < N. il'[i := L i] ! j = (if j < Suc i then L j else il ! j)"
    using lo len i by (auto simp: nth_list_update less_Suc_eq)
  moreover have "\<forall>p < M * N. ig'[e * N + i := L i] ! p =
      (if e * N \<le> p \<and> p < e * N + Suc i then L (p - e * N) else ig ! p)"
    using gr len r by (auto simp: nth_list_update less_Suc_eq)
  ultimately show ?case using st step by auto
qed

lemma point_in_union:
  assumes "length grid = N * n" "j < N" "k < n"
  shows "point grid n j k \<in> set (unionized_energy_array grid)"
proof -
  have "Suc j * n \<le> N * n" using assms(2) by (intro mult_right_mono) simp_all
  then have "j * n + k < length grid" using assms(1,3) by simp
  then show ?thesis by (simp add: unionized_energy_array_def point_def)
qed

text \<open>Every nuclide's grid is strictly increasing.\<close>

definition grids_sorted :: "'d::linorder ngp list \<Rightarrow> nat \<Rightarrow> nat \<Rightarrow> bool" where
  "grids_sorted grid N n \<longleftrightarrow> length grid = N * n \<and> 2 \<le> n \<and>
     (\<forall>i < N. \<forall>j k. j < k \<and> k < n \<longrightarrow> point grid n i j < point grid n i k)"

lemma interval_next:
  fixes grid :: "'d::linorder ngp list"
  defines "us \<equiv> unionized_energy_array grid"
  assumes g: "grids_sorted grid N n" and j: "j < N" and e: "e < length us"
    and lo: "lo = (if e = 0 then 0 else interval (point grid n j) n (us ! (e - 1)))" and le: "lo \<le> n - 2"
  shows "interval (point grid n j) n (us ! e) = (if us ! e < point grid n j (lo + 1) then lo
      else if lo = n - 2 then lo else lo + 1)"
proof (rule interval_advance)
  have len: "length grid = N * n" "2 \<le> n" using g by (auto simp: grids_sorted_def)
  have so: "sorted us" by (simp add: us_def unionized_energy_array_def)
  show mono: "\<forall>i k. i < k \<and> k < n \<longrightarrow> point grid n j i < point grid n j k"
    using g j by (simp add: grids_sorted_def)
  show "2 \<le> n" by (rule len)
  show "lo \<le> n - 2" by (rule le)
  have prev: "us ! (e - 1) \<le> us ! e" using so e by (simp add: sorted_nth_mono)
  show "\<forall>k. 0 < k \<and> k < n - 1 \<longrightarrow> (k \<le> lo \<longrightarrow> point grid n j k \<le> us ! e)"
  proof (intro allI impI)
    fix k assume k: "0 < k \<and> k < n - 1" "k \<le> lo"
    then have "e \<noteq> 0" "k \<le> interval (point grid n j) n (us ! (e - 1))" using lo j by (auto split: if_splits)
    then have "point grid n j k \<le> us ! (e - 1)" using interval_iff [OF mono, of k "us ! (e - 1)"] k(1) by blast
    then show "point grid n j k \<le> us ! e" using prev by simp
  qed
  show "\<forall>k. 0 < k \<and> k < n - 1 \<and> point grid n j k < us ! e \<longrightarrow> k \<le> lo"
  proof (intro allI impI)
    fix k assume k: "0 < k \<and> k < n - 1 \<and> point grid n j k < us ! e"
    then have "point grid n j k \<in> set us" unfolding us_def by (intro point_in_union [OF len(1) j]) linarith
    then obtain r where r: "r < length us" "us ! r = point grid n j k" by (auto simp: in_set_conv_nth)
    have "r < e"
    proof (rule ccontr)
      assume "\<not> r < e"
      then have "us ! e \<le> us ! r" using so r(1) by (simp add: sorted_nth_mono)
      with k r(2) show False by (simp add: leD)
    qed
    then have "us ! r \<le> us ! (e - 1)" "e \<noteq> 0" using so e by (auto intro: sorted_nth_mono)
    then show "k \<le> lo" using interval_iff [OF mono, of k "us ! (e - 1)"] k r(2) lo j by simp
  qed
qed

lemma index_rows_eq:
  fixes grid :: "'d::linorder ngp list"
  defines "us \<equiv> unionized_energy_array grid"
  assumes g: "grids_sorted grid N n" and e: "e \<le> length us"
    and init: "rows_ok grid N n (length us) (il0, eh0, ig0)" "\<forall>j < N. il0 ! j = 0"
  shows "\<exists>il eh ig. index_rows grid N n us e (il0, eh0, ig0) = Some (il, eh, ig) \<and>
    rows_ok grid N n (length us) (il, eh, ig) \<and>
    (\<forall>j < N. il ! j = (if e = 0 then 0 else interval (point grid n j) n (us ! (e - 1)))) \<and>
    (\<forall>e' < e. \<forall>j < N. ig ! (e' * N + j) = interval (point grid n j) n (us ! e'))"
  using e
proof (induction e)
  case 0
  then show ?case using init by auto
next
  case (Suc e)
  then obtain il eh ig where st: "index_rows grid N n us e (il0, eh0, ig0) = Some (il, eh, ig)"
    and ok: "rows_ok grid N n (length us) (il, eh, ig)"
    and lo: "\<forall>j < N. il ! j = (if e = 0 then 0 else interval (point grid n j) n (us ! (e - 1)))"
    and rows: "\<forall>e' < e. \<forall>j < N. ig ! (e' * N + j) = interval (point grid n j) n (us ! e')" by auto
  have e: "e < length us" using Suc.prems by simp
  have len: "length grid = N * n" "2 \<le> n" using g by (auto simp: grids_sorted_def)
  have L: "interval (point grid n j) n (us ! e) = (if us ! e < point grid n j (il ! j + 1) then il ! j
      else if il ! j = n - 2 then il ! j else il ! j + 1)" if j: "j < N" for j
    using ok lo j e unfolding us_def by (intro interval_next [OF g j]) (auto simp: rows_ok_def)
  obtain il' eh' ig' where row: "index_row grid N n e (us ! e) N (il, eh, ig) = Some (il', eh', ig')"
    and ok': "rows_ok grid N n (length us) (il', eh', ig')"
    and lo': "\<forall>j < N. il' ! j = (if j < N then interval (point grid n j) n (us ! e) else il ! j)"
    and gr': "\<forall>p < length us * N. ig' ! p = (if e * N \<le> p \<and> p < e * N + N
        then interval (point grid n (p - e * N)) n (us ! e) else ig ! p)"
    using index_row_eq [OF ok e len order.refl, of "\<lambda>j. interval (point grid n j) n (us ! e)" "us ! e"] L by blast
  have "ig' ! (e' * N + j) = interval (point grid n j) n (us ! e')" if e': "e' < Suc e" "j < N" for e' j
  proof -
    have m: "Suc e' * N \<le> Suc e * N" "Suc e * N \<le> length us * N" using e e'(1) by (intro mult_right_mono; simp)+
    then have "Suc e' * N \<le> length us * N" by (rule order_trans)
    then have p: "e' * N + j < length us * N" using e'(2) by simp
    show ?thesis
    proof (cases "e' = e")
      case True
      then show ?thesis using gr' p e'(2) by simp
    next
      case False
      then have "Suc e' * N \<le> e * N" using e'(1) by (intro mult_right_mono) simp_all
      then have "e' * N + j < e * N" using e'(2) by simp
      then show ?thesis using gr' p False e' rows by simp
    qed
  qed
  then show ?case using st row ok' lo' e by (auto simp: rd_def)
qed

section \<open>Properties\<close>

lemma index_grid_total:
  assumes "grids_sorted grid N n"
  obtains ig where "index_grid grid N n = Some ig" "length ig = length (unionized_energy_array grid) * N"
    and "\<forall>e < length (unionized_energy_array grid). \<forall>j < N.
      ig ! (e * N + j) = interval (point grid n j) n (unionized_energy_array grid ! e)"
proof -
  let ?us = "unionized_energy_array grid"
  have len: "length grid = N * n" "2 \<le> n" using assms by (auto simp: grids_sorted_def)
  let ?hs = "map (\<lambda>i. point grid n i 1) [0..<N]"
  have hs: "init_energy_high grid n N = Some ?hs" using init_energy_high_eq [OF len] by simp
  have "rows_ok grid N n (length ?us) (replicate N 0, ?hs, replicate (length ?us * N) 0)" by (simp add: rows_ok_def)
  from index_rows_eq [OF assms order.refl this] hs that show ?thesis
    by (fastforce simp: index_grid_def rows_ok_def Let_def)
qed

lemma search_nuclide_interval:
  assumes "grids_sorted grid N n" "j < N"
  shows "grid_search_nuclide (int n) q (drop (j * n) grid) 0 (int n - 1) = Some (int (interval (point grid n j) n q))"
proof -
  have len: "length grid = N * n" "2 \<le> n" and mono: "\<forall>i k. i < k \<and> k < n \<longrightarrow> point grid n j i < point grid n j k"
    using assms by (auto simp: grids_sorted_def)
  have "Suc j * n \<le> N * n" using assms(2) by (intro mult_right_mono) simp_all
  then have at: "map_option energy (rd_int (drop (j * n) grid) i) = Some (point grid n j (nat i))" if "0 < i" "i < int n - 1" for i
  proof -
    have "nat i < n" using that by linarith
    then have "j * n + nat i < length grid" using \<open>Suc j * n \<le> N * n\<close> len(1) by simp
    then show ?thesis using that by (simp add: rd_int_def rd_def point_def)
  qed
  have "point grid n j (nat i) \<le> point grid n j (nat k)" if "0 < i \<and> i \<le> k \<and> k < int n - 1" for i k
    using mono that by (cases "i = k") (auto intro!: less_imp_le)
  then obtain l where l: "search_loop (\<lambda>i. map_option energy (rd_int (drop (j * n) grid) i)) q 0 (int n - 1) = Some l"
    "0 \<le> l" "l < int n - 1" "\<forall>i. 0 < i \<and> i < int n - 1 \<longrightarrow> (point grid n j (nat i) \<le> q \<longleftrightarrow> i \<le> l)"
    using search_loop_sorted [of 0 "int n - 1" "\<lambda>i. map_option energy (rd_int (drop (j * n) grid) i)"
        "\<lambda>i. point grid n j (nat i)" q] at len(2) by auto
  have k: "k \<le> nat l \<longleftrightarrow> k \<le> interval (point grid n j) n q" if "0 < k" "k < n - 1" for k
    using l(2) l(4) [rule_format, of "int k"] that interval_iff [OF mono that, of q] by auto
  have b: "nat l \<le> n - 2" "interval (point grid n j) n q \<le> n - 2" using l(2,3) interval_le [of "point grid n j" n q] by simp_all
  have "nat l = interval (point grid n j) n q"
  proof (rule antisym)
    show "nat l \<le> interval (point grid n j) n q" using k [of "nat l"] b(1) len(2) by (cases "nat l = 0") auto
    show "interval (point grid n j) n q \<le> nat l"
      using k [of "interval (point grid n j) n q"] b(2) len(2) by (cases "interval (point grid n j) n q = 0") auto
  qed
  with l(1,2) show ?thesis by (simp add: grid_search_nuclide_def)
qed

text \<open>The energy of the merged array that a search finds lies in the same interval of every nuclide.\<close>

lemma interval_union:
  fixes grid :: "'d::linorder ngp list"
  assumes g: "grids_sorted grid N n" and nuc: "nuc < N" and e: "e < length (unionized_energy_array grid) - 1"
    and near: "\<forall>i. 0 < i \<and> i < length (unionized_energy_array grid) - 1 \<longrightarrow>
      (unionized_energy_array grid ! i \<le> q \<longleftrightarrow> i \<le> e)"
  shows "interval (point grid n nuc) n (unionized_energy_array grid ! e) = interval (point grid n nuc) n q"
proof -
  let ?us = "unionized_energy_array grid" and ?E = "point grid n nuc"
  have len: "length grid = N * n" "2 \<le> n" and mono: "\<forall>i k. i < k \<and> k < n \<longrightarrow> ?E i < ?E k"
    using g nuc by (auto simp: grids_sorted_def)
  have so: "sorted ?us" by (simp add: unionized_energy_array_def)
  have mem: "\<exists>r < length ?us. ?us ! r = ?E k" if "k < n" for k
    using point_in_union [OF len(1) nuc that] by (auto simp: in_set_conv_nth)
  show ?thesis
  proof (rule interval_cong)
    fix k assume k: "0 < k" "k < n - 1"
    obtain r where r: "r < length ?us" "?us ! r = ?E k" using mem [OF less_trans [OF k(2)]] len(2) by auto
    obtain r0 where r0: "r0 < length ?us" "?us ! r0 = ?E 0" using mem [of 0] len(2) by auto
    obtain r1 where r1: "r1 < length ?us" "?us ! r1 = ?E (n - 1)" using mem [of "n - 1"] len(2) by auto
    have "r \<noteq> 0" "r \<noteq> length ?us - 1"
    proof -
      have "?us ! r0 < ?us ! r" "?us ! r < ?us ! r1" using mono k r(2) r0(2) r1(2) by auto
      moreover have "?us ! 0 \<le> ?us ! r0" "?us ! r1 \<le> ?us ! (length ?us - 1)"
        using so r0(1) r1(1) by (auto intro: sorted_nth_mono)
      ultimately have "?us ! 0 < ?us ! r" "?us ! r < ?us ! (length ?us - 1)"
        by (blast intro: le_less_trans less_le_trans)+
      then show "r \<noteq> 0" "r \<noteq> length ?us - 1" by (metis less_irrefl)+
    qed
    then have q: "?E k \<le> q \<longleftrightarrow> r \<le> e" using near [rule_format, of r] r by auto
    show "?E k \<le> ?us ! e \<longleftrightarrow> ?E k \<le> q"
    proof
      assume "?E k \<le> ?us ! e"
      show "?E k \<le> q"
      proof (cases "e = 0")
        case True
        have "?us ! 0 \<le> ?us ! r0" using so r0(1) by (auto intro: sorted_nth_mono)
        then have "?us ! 0 < ?E k" using mono k r0(2) by (metis le_less_trans diff_le_self less_le_trans)
        with True \<open>?E k \<le> ?us ! e\<close> show ?thesis by simp
      next
        case False
        then have "?us ! e \<le> q" using near [rule_format, of e] e by auto
        with \<open>?E k \<le> ?us ! e\<close> show ?thesis by simp
      qed
    next
      assume "?E k \<le> q"
      then have "?us ! r \<le> ?us ! e" using q so e by (auto intro: sorted_nth_mono)
      then show "?E k \<le> ?us ! e" by (simp add: r(2))
    qed
  qed
qed

text \<open>
  C19. The unionized grid finds what the search in each nuclide's own grid finds: for strictly
  increasing nuclide grids the construction stays inside its arrays and ends, and for every energy
  and nuclide the one search in the merged array, followed by a table lookup, gives the same grid
  point as the binary search in the nuclide's grid.
\<close>
theorem unionized_equals_nuclide:
  fixes grid :: "'d::linorder ngp list"
  assumes "grids_sorted grid N n" "nuc < N"
  shows "\<exists>index_data. index_grid grid N n = Some index_data \<and>
    low_unionized (unionized_energy_array grid) index_data N n q nuc = low_nuclide grid n q nuc \<and>
    low_nuclide grid n q nuc \<noteq> None"
proof -
  let ?us = "unionized_energy_array grid" and ?E = "point grid n nuc"
  have len: "length grid = N * n" "2 \<le> n" and mono: "\<forall>i k. i < k \<and> k < n \<longrightarrow> ?E i < ?E k"
    using assms by (auto simp: grids_sorted_def)
  have lu: "length ?us = N * n" using len by (simp add: unionized_energy_array_def)
  have so: "sorted ?us" by (simp add: unionized_energy_array_def)
  have "1 * 2 \<le> N * n" using assms(2) len(2) by (intro mult_mono) simp_all
  then have "2 \<le> length ?us" by (simp add: lu)
  from grid_search_interval [OF so this, of q] obtain l where l: "grid_search (int (length ?us)) q ?us = Some l"
    "0 \<le> l" "l \<le> int (length ?us) - 2" "\<forall>i. 0 < i \<and> i < length ?us - 1 \<longrightarrow> (?us ! i \<le> q \<longleftrightarrow> int i \<le> l)" by blast
  define e where "e = nat l"
  have e: "e < length ?us" "l = int e" "e \<le> length ?us - 2" using l(2,3) by (auto simp: e_def)
  have same: "interval ?E n (?us ! e) = interval ?E n q"
    using l(4) e \<open>2 \<le> length ?us\<close> by (intro interval_union [OF assms]) auto
  obtain ig where ig: "index_grid grid N n = Some ig" "length ig = length ?us * N"
    "\<forall>e < length ?us. \<forall>j < N. ig ! (e * N + j) = interval (point grid n j) n (?us ! e)"
    by (rule index_grid_total [OF assms(1)])
  have "Suc e * N \<le> length ?us * N" using e(1) by (intro mult_right_mono) simp_all
  then have "e * N + nuc < length ig" using assms(2) ig(2) by simp
  moreover have "rd_int ig (l * int N + int nuc) = rd ig (e * N + nuc)"
    unfolding e(2) using rd_int_nat [of ig "e * N + nuc"] by simp
  ultimately have "rd_int ig (l * int N + int nuc) = Some (interval ?E n q)"
    using ig(3) e(1) assms(2) same by (simp add: rd_def)
  then have "low_unionized ?us ig N n q nuc = Some (clamp_low n (int (interval ?E n q)))"
    using l(1) lu by (simp add: low_unionized_def)
  moreover have "low_nuclide grid n q nuc = Some (clamp_low n (int (interval ?E n q)))"
    using search_nuclide_interval [OF assms, of q] by (simp add: low_nuclide_def)
  ultimately show ?thesis using ig(1) by simp
qed

definition demo_point :: "int \<Rightarrow> int ngp" where
  "demo_point e = \<lparr>energy = e, total_xs = 0, elastic_xs = 0, absorbtion_xs = 0, fission_xs = 0, nu_fission_xs = 0\<rparr>"

theorem unionized_equals_nuclide_witness:
  "\<exists>index_data. index_grid (map demo_point [10, 30, 50, 20, 40, 60]) 2 3 = Some index_data \<and>
    low_unionized (unionized_energy_array (map demo_point [10, 30, 50, 20, 40, 60])) index_data 2 3 45 1 =
    low_nuclide (map demo_point [10, 30, 50, 20, 40, 60]) 3 45 1"
proof -
  have "grids_sorted (map demo_point [10, 30, 50, 20, 40, 60]) 2 3"
    by (auto simp: grids_sorted_def point_def demo_point_def numeral_2_eq_2 numeral_3_eq_3 less_Suc_eq)
  from unionized_equals_nuclide [OF this, of 1 45] show ?thesis by auto
qed

lemma search_nuclide_between:
  assumes g: "grids_sorted grid N n" "j < N" and lh: "lo < hi" "hi < n"
    and q: "point grid n j lo < q" "q < point grid n j hi"
  shows "grid_search_nuclide (int n) q (drop (j * n) grid) (int lo) (int hi) = Some (int (interval (point grid n j) n q))"
proof -
  let ?E = "point grid n j"
  have len: "length grid = N * n" "2 \<le> n" and mono: "\<forall>i k. i < k \<and> k < n \<longrightarrow> ?E i < ?E k"
    using g by (auto simp: grids_sorted_def)
  have "Suc j * n \<le> N * n" using g(2) by (intro mult_right_mono) simp_all
  then have at: "map_option energy (rd_int (drop (j * n) grid) i) = Some (?E (nat i))" if "int lo < i" "i < int hi" for i
  proof -
    have "nat i < n" using that lh(2) by linarith
    then have "j * n + nat i < length grid" using \<open>Suc j * n \<le> N * n\<close> len(1) by simp
    then show ?thesis using that by (simp add: rd_int_def rd_def point_def)
  qed
  obtain l where l: "search_loop (\<lambda>i. map_option energy (rd_int (drop (j * n) grid) i)) q (int lo) (int hi) = Some l"
    "int lo \<le> l" "l < int hi" "l = int lo \<or> ?E (nat l) \<le> q" "l + 1 = int hi \<or> q < ?E (nat (l + 1))"
    using search_loop_bracket [of "int lo" "int hi" "\<lambda>i. map_option energy (rd_int (drop (j * n) grid) i)"
        "\<lambda>i. ?E (nat i)" q] at lh(1) by auto
  define k where "k = nat l"
  have k: "l = int k" "k < hi" "k + 1 \<le> hi" using l(2,3) by (auto simp: k_def)
  have below: "?E k \<le> q" using l(4) q(1) k(1) by auto
  have above: "q < ?E (k + 1)"
  proof (cases "k + 1 = hi")
    case False
    then have "l + 1 \<noteq> int hi" "nat (l + 1) = k + 1" using k(1) by auto
    with l(5) show ?thesis by simp
  qed (use q(2) in simp)
  have "interval ?E n q = k"
  proof (rule antisym)
    show "k \<le> interval ?E n q"
      using interval_iff [OF mono, of k q] below k lh(2) by (cases "k = 0") auto
    show "interval ?E n q \<le> k"
      using interval_iff [OF mono, of "k + 1" q] interval_le [of ?E n q] above k(3) lh(2)
      by (cases "k + 1 < n - 1") auto
  qed
  with l(1) k(1) show ?thesis by (simp add: grid_search_nuclide_def)
qed

text \<open>
  C23. When the two table entries of the hash grid enclose the energy strictly, the bounded search
  finds the same grid point as the search in the whole nuclide grid.
\<close>
theorem hash_equals_nuclide:
  assumes "grids_sorted grid N n" "nuc < N" and "idx < hash_bins - 1"
    and "(idx + 1) * N + nuc < length index_data"
    and "lo = index_data ! (idx * N + nuc)" "hi = index_data ! ((idx + 1) * N + nuc) + 1"
    and "lo < hi" "hi < n" and "point grid n nuc lo < q" "q < point grid n nuc hi"
  shows "low_hash grid index_data N n hash_bins idx q nuc = low_nuclide grid n q nuc \<and>
    low_nuclide grid n q nuc \<noteq> None"
proof -
  have "Suc nuc * n \<le> N * n" using assms(2) by (intro mult_right_mono) simp_all
  then have b: "nuc * n + lo < length grid" "nuc * n + hi < length grid"
    using assms(1,7,8) by (auto simp: grids_sorted_def)
  have rl: "rd_int grid (int (nuc * n) + int lo) = Some (grid ! (nuc * n + lo))"
    "rd_int grid (int (nuc * n) + int hi) = Some (grid ! (nuc * n + hi))"
    using rd_int_nat [of grid "nuc * n + lo"] rd_int_nat [of grid "nuc * n + hi"] b by (simp_all add: rd_def)
  have e: "\<not> q \<le> energy (grid ! (nuc * n + lo))" "\<not> energy (grid ! (nuc * n + hi)) \<le> q"
    using assms(9,10) by (simp_all add: point_def not_le)
  have ri: "rd index_data (idx * N + nuc) = Some lo" "map_option (\<lambda>k. int k + 1) (rd index_data ((idx + 1) * N + nuc)) = Some (int hi)"
    using assms(4,5,6) by (simp_all add: rd_def)
  have "low_hash grid index_data N n hash_bins idx q nuc = Some (clamp_low n (int (interval (point grid n nuc) n q)))"
    using assms(3) search_nuclide_between [OF assms(1,2,7,8,9,10)]
    unfolding low_hash_def by (simp add: e ri rl del: of_nat_mult mult_Suc add_mult_distrib Suc_eq_plus1 One_nat_def)
  moreover have "low_nuclide grid n q nuc = Some (clamp_low n (int (interval (point grid n nuc) n q)))"
    using search_nuclide_interval [OF assms(1,2), of q] by (simp add: low_nuclide_def)
  ultimately show ?thesis by simp
qed

theorem hash_equals_nuclide_witness:
  "low_hash (map demo_point [10, 30, 50]) [0, 1, 1] 1 3 3 0 35 0 = low_nuclide (map demo_point [10, 30, 50]) 3 35 0"
proof -
  have "grids_sorted (map demo_point [10, 30, 50]) 1 3"
    by (auto simp: grids_sorted_def point_def demo_point_def numeral_2_eq_2 numeral_3_eq_3 less_Suc_eq)
  from hash_equals_nuclide [OF this, of 0 0 3 "[0, 1, 1]" 0 2 35] show ?thesis
    by (simp add: point_def demo_point_def)
qed

end
