(* ===== verification/XS_Sort.thy ===== *)
theory XS_Sort
  imports XS_Search
begin

text \<open>
  The key-value quicksort of XSBench's optimised kernels (\<open>quickSort_parallel_internal_i_d\<close> and
  \<open>quickSort_parallel_internal_d_i\<close>, which differ only in the types of keys and values).  Above
  the cutoff the two recursive calls are OpenMP tasks on disjoint ranges; they run one after the
  other here.  A result \<open>None\<close> is an access outside an array, an \<open>int\<close> that overflows, or a run that
  does not end.
\<close>

section \<open>The code\<close>

function scan_up :: "'k::linorder list \<Rightarrow> 'k \<Rightarrow> int \<Rightarrow> int option" where
  "scan_up key pivot i = (case rd_int key i of None \<Rightarrow> None
     | Some k \<Rightarrow> if k < pivot then scan_up key pivot (i + 1) else Some i)"
  by pat_completeness auto
termination
  by (relation "measure (\<lambda>(key, pivot, i). nat (int (length key) - i))")
    (auto simp: rd_int_def rd_def split: if_splits)

function scan_down :: "'k::linorder list \<Rightarrow> 'k \<Rightarrow> int \<Rightarrow> int option" where
  "scan_down key pivot j = (case rd_int key j of None \<Rightarrow> None
     | Some k \<Rightarrow> if k > pivot then scan_down key pivot (j - 1) else Some j)"
  by pat_completeness auto
termination
  by (relation "measure (\<lambda>(key, pivot, j). nat (j + 1))") (auto simp: rd_int_def split: if_splits)

declare scan_up.simps [simp del] scan_down.simps [simp del]

definition swap_int :: "'a list \<Rightarrow> int \<Rightarrow> int \<Rightarrow> 'a list option" where
  "swap_int xs i j = do {
     x \<leftarrow> rd_int xs i;
     y \<leftarrow> rd_int xs j;
     xs \<leftarrow> wr xs (nat i) y;
     wr xs (nat j) x }"

lemma scan_up_ge: "scan_up key pivot i = Some i' \<Longrightarrow> i \<le> i'"
proof (induction key pivot i rule: scan_up.induct)
  case (1 key pivot i)
  then show ?case by (subst (asm) (2) scan_up.simps) (fastforce split: option.splits if_splits)
qed

lemma scan_down_le: "scan_down key pivot j = Some j' \<Longrightarrow> j' \<le> j"
proof (induction key pivot j rule: scan_down.induct)
  case (1 key pivot j)
  then show ?case by (subst (asm) (2) scan_down.simps) (fastforce split: option.splits if_splits)
qed

function part_loop :: "'k::linorder \<Rightarrow> int \<Rightarrow> int \<Rightarrow> 'k list \<times> 'v list \<Rightarrow> (int \<times> int \<times> 'k list \<times> 'v list) option" where
  "part_loop pivot i j st =
    (if i \<le> j then
       (case scan_up (fst st) pivot i of
          None \<Rightarrow> None
        | Some i' \<Rightarrow>
            (case scan_down (fst st) pivot j of
               None \<Rightarrow> None
             | Some j' \<Rightarrow>
                 if i' \<le> j' then
                   (case (swap_int (fst st) i' j', swap_int (snd st) i' j') of
                      (Some key, Some val) \<Rightarrow> part_loop pivot (i' + 1) (j' - 1) (key, val)
                    | _ \<Rightarrow> None)
                 else part_loop pivot i' j' st))
     else Some (i, j, st))"
  by pat_completeness auto
termination
  by (relation "measure (\<lambda>(pivot, i, j, st). nat (j - i + 1))") (auto dest!: scan_up_ge scan_down_le)

declare part_loop.simps [simp del]

text \<open>
  The sum of two \<open>int\<close>s, \<open>None\<close> when it overflows.  The other sums and differences of the indices stay
  between -1 and the length of the array, which is an \<open>int\<close>.
\<close>

definition int_sum :: "int \<Rightarrow> int \<Rightarrow> int option" where
  "int_sum x y = (if - (2 ^ 31) \<le> x + y \<and> x + y < 2 ^ 31 then Some (x + y) else None)"

text \<open>Integer division of C truncates towards zero.\<close>

definition c_half :: "int \<Rightarrow> int" where
  "c_half x = (if x < 0 then - ((- x) div 2) else x div 2)"

partial_function (option) quickSort_internal :: "int \<Rightarrow> 'k::linorder list \<times> 'v list \<Rightarrow> int \<Rightarrow> int \<Rightarrow> ('k list \<times> 'v list) option" where
  "quickSort_internal cutoff st left right = do {
     sm \<leftarrow> int_sum left right;
     pivot \<leftarrow> rd_int (fst st) (c_half sm);
     r \<leftarrow> part_loop pivot left right st;
     let i = fst r;
     let j = fst (snd r);
     let st = snd (snd r);
     if right - left < cutoff then do {
       st \<leftarrow> (if left < j then quickSort_internal cutoff st left j else Some st);
       if i < right then quickSort_internal cutoff st i right else Some st }
     else do {
       st \<leftarrow> quickSort_internal cutoff st left j;
       quickSort_internal cutoff st i right } }"

definition quickSort_parallel :: "'k::linorder list \<Rightarrow> 'v list \<Rightarrow> int \<Rightarrow> ('k list \<times> 'v list) option" where
  "quickSort_parallel key val lenArray = do {
     right \<leftarrow> int_sum lenArray (- 1);
     quickSort_internal 10000 (key, val) 0 right }"

section \<open>Rearrangements of a range\<close>

definition rng_perm :: "int \<Rightarrow> int \<Rightarrow> 'k list \<times> 'v list \<Rightarrow> 'k list \<times> 'v list \<Rightarrow> bool" where
  "rng_perm l r s t \<longleftrightarrow> length (fst t) = length (fst s) \<and> length (snd t) = length (snd s) \<and>
     mset (zip (fst t) (snd t)) = mset (zip (fst s) (snd s)) \<and>
     (\<forall>x. 0 \<le> x \<and> \<not> (l \<le> x \<and> x \<le> r) \<longrightarrow> fst t ! nat x = fst s ! nat x) \<and>
     (\<forall>P. (\<forall>x. l \<le> x \<and> x \<le> r \<longrightarrow> P (fst s ! nat x)) \<longrightarrow> (\<forall>x. l \<le> x \<and> x \<le> r \<longrightarrow> P (fst t ! nat x)))"

lemma rng_permI:
  assumes "length (fst t) = length (fst s)" "length (snd t) = length (snd s)"
    and "mset (zip (fst t) (snd t)) = mset (zip (fst s) (snd s))"
    and "\<And>x. 0 \<le> x \<Longrightarrow> \<not> (l \<le> x \<and> x \<le> r) \<Longrightarrow> fst t ! nat x = fst s ! nat x"
    and "\<And>P x. \<forall>x. l \<le> x \<and> x \<le> r \<longrightarrow> P (fst s ! nat x) \<Longrightarrow> l \<le> x \<Longrightarrow> x \<le> r \<Longrightarrow> P (fst t ! nat x)"
  shows "rng_perm l r s t"
  unfolding rng_perm_def using assms by blast

lemma rng_perm_refl: "rng_perm l r s s"
  by (simp add: rng_perm_def)

lemma rng_permD:
  assumes "rng_perm l r s t"
  shows "length (fst t) = length (fst s)" "length (snd t) = length (snd s)"
    and "0 \<le> x \<Longrightarrow> \<not> (l \<le> x \<and> x \<le> r) \<Longrightarrow> fst t ! nat x = fst s ! nat x"
    and "(\<And>x. l \<le> x \<Longrightarrow> x \<le> r \<Longrightarrow> P (fst s ! nat x)) \<Longrightarrow> l \<le> y \<Longrightarrow> y \<le> r \<Longrightarrow> P (fst t ! nat y)"
  using assms unfolding rng_perm_def by blast+

lemma rng_perm_trans:
  assumes "rng_perm l r s t" "rng_perm l r t u" shows "rng_perm l r s u"
proof -
  have "P (fst u ! nat x)" if "\<forall>x. l \<le> x \<and> x \<le> r \<longrightarrow> P (fst s ! nat x)" "l \<le> x" "x \<le> r" for P x
    using rng_permD(4) [OF assms(1), of P] rng_permD(4) [OF assms(2), of P] that by blast
  moreover have "mset (zip (fst u) (snd u)) = mset (zip (fst s) (snd s))" using assms by (simp add: rng_perm_def)
  ultimately show ?thesis
    using rng_permD(1-3) [OF assms(1)] rng_permD(1-3) [OF assms(2)] by (intro rng_permI) simp_all
qed

lemma rng_perm_mono:
  assumes "rng_perm l r s t" "l' \<le> l" "r \<le> r'" "0 \<le> l'"
  shows "rng_perm l' r' s t"
proof -
  have out: "fst t ! nat x = fst s ! nat x" if "0 \<le> x" "\<not> (l \<le> x \<and> x \<le> r)" for x
    using assms(1) that by (auto simp: rng_perm_def)
  have "P (fst t ! nat x)" if P: "\<forall>x. l' \<le> x \<and> x \<le> r' \<longrightarrow> P (fst s ! nat x)" and x: "l' \<le> x" "x \<le> r'" for P x
  proof (cases "l \<le> x \<and> x \<le> r")
    case True
    moreover have "\<forall>x. l \<le> x \<and> x \<le> r \<longrightarrow> P (fst s ! nat x)" using P assms(2,3) by auto
    ultimately show ?thesis using assms(1) unfolding rng_perm_def by blast
  next
    case False
    then show ?thesis using out [of x] P x assms(4) by auto
  qed
  moreover have "mset (zip (fst t) (snd t)) = mset (zip (fst s) (snd s))" using assms(1) by (simp add: rng_perm_def)
  ultimately show ?thesis using assms(2,3) out rng_permD(1,2) [OF assms(1)] by (intro rng_permI) auto
qed

lemma swap_int_ok:
  assumes "0 \<le> i" "i < int (length xs)" "0 \<le> j" "j < int (length xs)"
  shows "swap_int xs i j = Some (xs[nat i := xs ! nat j, nat j := xs ! nat i])"
proof -
  have "nat i < length xs" "nat j < length xs" using assms by auto
  with assms show ?thesis by (simp add: swap_int_def rd_int_def rd_def wr_def)
qed

lemma zip_swap:
  assumes "length ks = length vs" "i < length ks" "j < length ks"
  shows "zip (ks[i := ks ! j, j := ks ! i]) (vs[i := vs ! j, j := vs ! i]) =
    (zip ks vs)[i := zip ks vs ! j, j := zip ks vs ! i]"
  using assms by (simp add: zip_update [symmetric])

lemma swap_rng_perm:
  assumes "length (fst s) = length (snd s)" "0 \<le> l" "l \<le> i" "i \<le> r" "l \<le> j" "j \<le> r" "r < int (length (fst s))"
  shows "rng_perm l r s ((fst s)[nat i := fst s ! nat j, nat j := fst s ! nat i],
      (snd s)[nat i := snd s ! nat j, nat j := snd s ! nat i])"
proof -
  have b: "nat i < length (fst s)" "nat j < length (fst s)" using assms by auto
  have "mset (zip ((fst s)[nat i := fst s ! nat j, nat j := fst s ! nat i])
      ((snd s)[nat i := snd s ! nat j, nat j := snd s ! nat i])) = mset (zip (fst s) (snd s))"
    unfolding zip_swap [OF assms(1) b] by (rule mset_swap) (use b assms(1) in simp_all)
  moreover have "P ((fst s)[nat i := fst s ! nat j, nat j := fst s ! nat i] ! nat x)"
    if "\<forall>x. l \<le> x \<and> x \<le> r \<longrightarrow> P (fst s ! nat x)" "l \<le> x" "x \<le> r" for P x
    using that b assms by (auto simp: nth_list_update)
  moreover have "(fst s)[nat i := fst s ! nat j, nat j := fst s ! nat i] ! nat x = fst s ! nat x"
    if "0 \<le> x" "\<not> (l \<le> x \<and> x \<le> r)" for x
    using that assms by (auto simp: nth_list_update nat_eq_iff)
  ultimately show ?thesis by (intro rng_permI) simp_all
qed

section \<open>Partition\<close>

lemma scan_up_stops:
  assumes "0 \<le> i" "i \<le> x" "x < int (length key)" "p \<le> key ! nat x"
  shows "\<exists>i'. scan_up key p i = Some i' \<and> i \<le> i' \<and> i' \<le> x \<and> p \<le> key ! nat i' \<and>
    (\<forall>y. i \<le> y \<and> y < i' \<longrightarrow> key ! nat y < p)"
  using assms(1,2)
proof (induction "nat (x - i)" arbitrary: i rule: less_induct)
  case less
  have r: "rd_int key i = Some (key ! nat i)" using less.prems assms(3) by (simp add: rd_int_def rd_def nat_less_iff)
  show ?case
  proof (cases "key ! nat i < p")
    case True
    with assms(4) less.prems have ix: "i < x" by (cases "i = x") (auto dest: leD)
    then have "nat (x - (i + 1)) < nat (x - i)" by simp
    from less.hyps [OF this] less.prems ix obtain i' where i': "scan_up key p (i + 1) = Some i'" "i + 1 \<le> i'"
      "i' \<le> x" "p \<le> key ! nat i'" "\<forall>y. i + 1 \<le> y \<and> y < i' \<longrightarrow> key ! nat y < p" by auto
    have "key ! nat y < p" if "i \<le> y" "y < i'" for y using that True i'(5) by (cases "y = i") auto
    with True r i' show ?thesis by (subst scan_up.simps) auto
  next
    case False
    then show ?thesis using r less.prems by (subst scan_up.simps) (auto simp: not_less)
  qed
qed

lemma scan_down_stops:
  assumes "j < int (length key)" "x \<le> j" "0 \<le> x" "key ! nat x \<le> p"
  shows "\<exists>j'. scan_down key p j = Some j' \<and> j' \<le> j \<and> x \<le> j' \<and> key ! nat j' \<le> p \<and>
    (\<forall>y. j' < y \<and> y \<le> j \<longrightarrow> p < key ! nat y)"
  using assms(1,2)
proof (induction "nat (j - x)" arbitrary: j rule: less_induct)
  case less
  have r: "rd_int key j = Some (key ! nat j)" using less.prems assms(3) by (simp add: rd_int_def rd_def nat_less_iff)
  show ?case
  proof (cases "p < key ! nat j")
    case True
    with assms(4) less.prems have ix: "x < j" by (cases "j = x") (auto dest: leD)
    then have "nat (j - 1 - x) < nat (j - x)" by simp
    from less.hyps [OF this] less.prems ix obtain j' where j': "scan_down key p (j - 1) = Some j'" "j' \<le> j - 1"
      "x \<le> j'" "key ! nat j' \<le> p" "\<forall>y. j' < y \<and> y \<le> j - 1 \<longrightarrow> p < key ! nat y" by auto
    have "p < key ! nat y" if "j' < y" "y \<le> j" for y using that True j'(5) by (cases "y = j") auto
    with True r j' show ?thesis by (subst scan_down.simps) auto
  next
    case False
    then show ?thesis using r less.prems by (subst scan_down.simps) (auto simp: not_less)
  qed
qed

text \<open>
  Below \<open>i\<close> the keys are at most the pivot, above \<open>j\<close> at least the pivot; as long as the indices
  have not crossed, each scan finds a key to stop at.
\<close>

definition part_inv :: "int \<Rightarrow> int \<Rightarrow> 'k::linorder \<Rightarrow> int \<Rightarrow> int \<Rightarrow> 'k list \<Rightarrow> bool" where
  "part_inv l r p i j key \<longleftrightarrow> l \<le> i \<and> i \<le> r + 1 \<and> l - 1 \<le> j \<and> j \<le> r \<and>
     (\<forall>x. l \<le> x \<and> x < i \<longrightarrow> key ! nat x \<le> p) \<and> (\<forall>x. j < x \<and> x \<le> r \<longrightarrow> p \<le> key ! nat x)"

lemma part_inv_swap:
  assumes inv: "part_inv l r p i j key" and "0 \<le> l" "r < int (length key)"
    and "i \<le> i'" "i' \<le> j'" "j' \<le> j" "key ! nat j' \<le> p" "p \<le> key ! nat i'"
    and "\<forall>y. i \<le> y \<and> y < i' \<longrightarrow> key ! nat y < p" "\<forall>y. j' < y \<and> y \<le> j \<longrightarrow> p < key ! nat y"
  shows "part_inv l r p (i' + 1) (j' - 1) (key[nat i' := key ! nat j', nat j' := key ! nat i'])"
    (is "part_inv _ _ _ _ _ ?key")
proof -
  have b: "l \<le> i" "j \<le> r" "\<And>x. l \<le> x \<Longrightarrow> x < i \<Longrightarrow> key ! nat x \<le> p" "\<And>x. j < x \<Longrightarrow> x \<le> r \<Longrightarrow> p \<le> key ! nat x"
    using inv by (auto simp: part_inv_def)
  have k: "?key ! nat x = (if x = j' then key ! nat i' else if x = i' then key ! nat j' else key ! nat x)"
    if "0 \<le> x" "x \<le> r" for x
    using that assms(2-6) b(1,2) by (auto simp: nth_list_update nat_eq_iff eq_nat_nat_iff)
  have "?key ! nat x \<le> p" if "l \<le> x" "x < i' + 1" for x
  proof (cases "x = i'")
    case True
    then show ?thesis using k [of x] assms(2,4-8) b(1,2) by auto
  next
    case False
    then have x: "x < i'" using that by simp
    then have "key ! nat x \<le> p" using assms(9) b(3) that(1) by (cases "x < i") (auto intro: less_imp_le)
    then show ?thesis using k [of x] x False that assms(2,4-6) b(1,2) by auto
  qed
  moreover have "p \<le> ?key ! nat x" if "j' - 1 < x" "x \<le> r" for x
  proof (cases "x = j'")
    case True
    then show ?thesis using k [of x] assms(2,4-8) b(1,2) by auto
  next
    case False
    then have x: "j' < x" using that by simp
    then have "p \<le> key ! nat x" using assms(10) b(4) that(2) by (cases "j < x") (auto intro: less_imp_le)
    then show ?thesis using k [of x] x False that assms(2,4-6) b(1,2) by auto
  qed
  ultimately show ?thesis using assms(4-6) b(1,2) by (auto simp: part_inv_def)
qed

lemma part_inv_scan:
  assumes inv: "part_inv l r p i j key" and "i \<le> i'" "i' \<le> r" "j' \<le> j" "l \<le> j'"
    and up: "\<forall>y. i \<le> y \<and> y < i' \<longrightarrow> key ! nat y < p" and down: "\<forall>y. j' < y \<and> y \<le> j \<longrightarrow> p < key ! nat y"
  shows "part_inv l r p i' j' key"
proof -
  have "key ! nat z \<le> p" if "l \<le> z" "z < i'" for z
    using that up inv by (cases "z < i") (auto simp: part_inv_def intro: less_imp_le)
  moreover have "p \<le> key ! nat z" if "j' < z" "z \<le> r" for z
    using that down inv by (cases "j < z") (auto simp: part_inv_def intro: less_imp_le)
  ultimately show ?thesis using assms(2-5) inv by (auto simp: part_inv_def)
qed

text \<open>The two swapped keys stop the next scans.\<close>

lemma swap_sentinels:
  assumes "0 \<le> l" "l \<le> i" "j \<le> r" "r < int (length key)" "p \<le> key ! nat i" "key ! nat j \<le> p"
  shows "i + 1 \<le> j - 1 \<longrightarrow>
    (\<exists>x. i + 1 \<le> x \<and> x \<le> r \<and> p \<le> key[nat i := key ! nat j, nat j := key ! nat i] ! nat x) \<and>
    (\<exists>x. l \<le> x \<and> x \<le> j - 1 \<and> key[nat i := key ! nat j, nat j := key ! nat i] ! nat x \<le> p)"
proof
  assume lt: "i + 1 \<le> j - 1"
  then have "key[nat i := key ! nat j, nat j := key ! nat i] ! nat j = key ! nat i"
    "key[nat i := key ! nat j, nat j := key ! nat i] ! nat i = key ! nat j"
    using assms(1-4) by (auto simp: nth_list_update eq_nat_nat_iff)
  then show "(\<exists>x. i + 1 \<le> x \<and> x \<le> r \<and> p \<le> key[nat i := key ! nat j, nat j := key ! nat i] ! nat x) \<and>
    (\<exists>x. l \<le> x \<and> x \<le> j - 1 \<and> key[nat i := key ! nat j, nat j := key ! nat i] ! nat x \<le> p)"
    using lt assms by (intro conjI exI [of _ j] exI [of _ i]) auto
qed

lemma part_loop_ok:
  assumes "length (fst st) = length (snd st)" "0 \<le> l" "r < int (length (fst st))" "part_inv l r p i j (fst st)"
    and "i \<le> j \<longrightarrow> (\<exists>x. i \<le> x \<and> x \<le> r \<and> p \<le> fst st ! nat x) \<and> (\<exists>x. l \<le> x \<and> x \<le> j \<and> fst st ! nat x \<le> p)"
  shows "\<exists>i' j' st'. part_loop p i j st = Some (i', j', st') \<and> rng_perm l r st st' \<and> part_inv l r p i' j' (fst st') \<and>
    j' < i' \<and> i \<le> i' \<and> j' \<le> j \<and> ((\<exists>x. i \<le> x \<and> x \<le> j \<and> fst st ! nat x = p) \<longrightarrow> i < i' \<and> j' < j)"
  using assms
proof (induction "nat (j - i + 1)" arbitrary: st i j rule: less_induct)
  case less
  let ?key = "fst st"
  have b: "l \<le> i" "j \<le> r" using less.prems(4) by (auto simp: part_inv_def)
  show ?case
  proof (cases "i \<le> j")
    case False
    then have "part_loop p i j st = Some (i, j, st)" by (simp add: part_loop.simps)
    moreover have "rng_perm l r st st" by (rule rng_perm_refl)
    ultimately show ?thesis using False less.prems(4) by (intro exI [of _ i] exI [of _ j] exI [of _ st]) auto
  next
    case ij: True
    obtain x y where x: "i \<le> x" "x \<le> r" "p \<le> ?key ! nat x" and y: "l \<le> y" "y \<le> j" "?key ! nat y \<le> p"
      using less.prems(5) ij by blast
    obtain i' where i': "scan_up ?key p i = Some i'" "i \<le> i'" "i' \<le> x" "p \<le> ?key ! nat i'"
      "\<forall>y. i \<le> y \<and> y < i' \<longrightarrow> ?key ! nat y < p"
      using scan_up_stops [of i x ?key p] x b less.prems(2,3) by auto
    obtain j' where j': "scan_down ?key p j = Some j'" "j' \<le> j" "y \<le> j'" "?key ! nat j' \<le> p"
      "\<forall>y. j' < y \<and> y \<le> j \<longrightarrow> p < ?key ! nat y"
      using scan_down_stops [of j ?key y p] y b less.prems(2,3) by auto
    have mid: "i' \<le> z \<and> z \<le> j'" if "i \<le> z" "z \<le> j" "?key ! nat z = p" for z
      using i'(5) [rule_format, of z] j'(5) [rule_format, of z] that by (auto simp: not_less [symmetric])
    show ?thesis
    proof (cases "i' \<le> j'")
      case True
      let ?st = "(?key[nat i' := ?key ! nat j', nat j' := ?key ! nat i'],
        (snd st)[nat i' := snd st ! nat j', nat j' := snd st ! nat i'])"
      have bd: "l \<le> i'" "i' \<le> r" "l \<le> j'" "j' \<le> r" using b i'(2) j'(2) True by auto
      have sw: "swap_int ?key i' j' = Some (fst ?st)" "swap_int (snd st) i' j' = Some (snd ?st)"
        using bd less.prems(1-3) by (auto intro!: swap_int_ok)
      have pr: "rng_perm l r st ?st" using bd less.prems(1-3) by (intro swap_rng_perm) auto
      have inv: "part_inv l r p (i' + 1) (j' - 1) (fst ?st)"
        using part_inv_swap [OF less.prems(4,2,3) i'(2) True j'(2,4) i'(4,5) j'(5)] by simp
      have sent: "i' + 1 \<le> j' - 1 \<longrightarrow> (\<exists>x. i' + 1 \<le> x \<and> x \<le> r \<and> p \<le> fst ?st ! nat x) \<and>
          (\<exists>x. l \<le> x \<and> x \<le> j' - 1 \<and> fst ?st ! nat x \<le> p)"
        using swap_sentinels [of l i' j' r ?key p] bd less.prems(2,3) i'(4) j'(4) by simp
      have "nat (j' - 1 - (i' + 1) + 1) < nat (j - i + 1)" using i'(2) j'(2) ij by simp
      from less.hyps [OF this _ less.prems(2) _ inv sent] less.prems(1,3) obtain i2 j2 st2 where
        r: "part_loop p (i' + 1) (j' - 1) ?st = Some (i2, j2, st2)" "rng_perm l r ?st st2"
        "part_inv l r p i2 j2 (fst st2)" "j2 < i2" "i' + 1 \<le> i2" "j2 \<le> j' - 1" by auto
      have "part_loop p i j st = Some (i2, j2, st2)"
        using ij i'(1) j'(1) True sw r(1) by (subst part_loop.simps) simp
      then show ?thesis using r(3-6) rng_perm_trans [OF pr r(2)] i'(2) j'(2)
        by (intro exI [of _ i2] exI [of _ j2] exI [of _ st2]) auto
    next
      case False
      then have "part_loop p i j st = Some (i', j', st)"
        using ij i'(1) j'(1) by (subst part_loop.simps) (simp add: part_loop.simps)
      moreover have "part_inv l r p i' j' ?key"
        using i'(2,3) j'(2,3) x(2) y(1) by (intro part_inv_scan [OF less.prems(4) _ _ _ _ i'(5) j'(5)]) auto
      moreover have "\<not> (\<exists>z. i \<le> z \<and> z \<le> j \<and> ?key ! nat z = p)" using mid False by force
      ultimately show ?thesis using False i'(2) j'(2) rng_perm_refl [of l r st]
        by (intro exI [of _ i'] exI [of _ j'] exI [of _ st]) auto
    qed
  qed
qed

section \<open>The sort\<close>

definition rng_sorted :: "int \<Rightarrow> int \<Rightarrow> 'k::linorder list \<Rightarrow> bool" where
  "rng_sorted l r key \<longleftrightarrow> (\<forall>x y. l \<le> x \<and> x \<le> y \<and> y \<le> r \<longrightarrow> key ! nat x \<le> key ! nat y)"

lemma rng_sorted_short: "r \<le> l \<Longrightarrow> rng_sorted l r key"
  unfolding rng_sorted_def
proof (intro allI impI)
  fix x y assume "r \<le> l" "l \<le> x \<and> x \<le> y \<and> y \<le> r"
  then have "x = y" by linarith
  then show "key ! nat x \<le> key ! nat y" by simp
qed

text \<open>Sorting the two sides of a partition sorts the range.\<close>

lemma sides_sorted:
  assumes inv: "part_inv l r p i j (fst s1)" and ji: "j < i" and l: "0 \<le> l"
    and s2: "rng_perm l j s1 s2" "rng_sorted l j (fst s2)"
    and s3: "rng_perm i r s2 s3" "rng_sorted i r (fst s3)"
  shows "rng_perm l r s1 s3 \<and> rng_sorted l r (fst s3)"
proof
  have b: "l \<le> i" "j \<le> r" "\<And>x. l \<le> x \<Longrightarrow> x < i \<Longrightarrow> fst s1 ! nat x \<le> p" "\<And>x. j < x \<Longrightarrow> x \<le> r \<Longrightarrow> p \<le> fst s1 ! nat x"
    using inv by (auto simp: part_inv_def)
  show "rng_perm l r s1 s3"
    using rng_perm_mono [OF s2(1), of l r] rng_perm_mono [OF s3(1), of l r] b l by (auto intro: rng_perm_trans)
  have lo2: "fst s2 ! nat x \<le> p" if "l \<le> x" "x < i" for x
  proof (cases "x \<le> j")
    case True
    then show ?thesis using rng_permD(4) [OF s2(1), of "\<lambda>k. k \<le> p" x] b(3) ji that by auto
  next
    case False
    then show ?thesis using rng_permD(3) [OF s2(1), of x] b(3) that l by auto
  qed
  have keep3: "fst s3 ! nat x = fst s2 ! nat x" if "l \<le> x" "x < i" for x
    using rng_permD(3) [OF s3(1), of x] that l by auto
  have hi2: "p \<le> fst s2 ! nat x" if "j < x" "x \<le> r" "l \<le> x" for x
    using rng_permD(3) [OF s2(1), of x] b(4) that l by auto
  have hi3: "p \<le> fst s3 ! nat x" if "j < x" "x \<le> r" "l \<le> x" for x
  proof (cases "i \<le> x")
    case True
    then show ?thesis using rng_permD(4) [OF s3(1), of "\<lambda>k. p \<le> k" x] hi2 ji that b(1) by auto
  next
    case False
    then show ?thesis using keep3 [of x] hi2 [of x] that by simp
  qed
  have "fst s3 ! nat x \<le> fst s3 ! nat y" if xy: "l \<le> x" "x \<le> y" "y \<le> r" for x y
  proof -
    consider "y \<le> j" | "i \<le> x" | "x < i" "j < y" by linarith
    then show ?thesis
    proof cases
      case 1
      then show ?thesis using s2(2) keep3 [of x] keep3 [of y] xy ji by (simp add: rng_sorted_def)
    next
      case 2
      then show ?thesis using s3(2) xy by (simp add: rng_sorted_def)
    next
      case 3
      then show ?thesis using lo2 [of x] keep3 [of x] hi3 [of y] xy by auto
    qed
  qed
  then show "rng_sorted l r (fst s3)" by (simp add: rng_sorted_def)
qed

text \<open>In an array of at most \<open>2 ^ 30\<close> elements no sum of two bounds overflows.\<close>

lemma int_sum_small:
  assumes "0 \<le> l" "l \<le> r + 1" "r < int n" "n \<le> 2 ^ 30"
  shows "int_sum l r = Some (l + r)"
  using assms by (simp add: int_sum_def)

lemma quickSort_internal_empty:
  assumes "l = r + 1" "0 \<le> l" "r < int (length (fst st))" "fst st \<noteq> []" "1 \<le> cutoff" "length (fst st) \<le> 2 ^ 30"
  shows "quickSort_internal cutoff st l r = Some st"
proof -
  have "0 \<le> c_half (l + r) \<and> c_half (l + r) < int (length (fst st))"
    using assms by (cases "r = -1") (auto simp: c_half_def)
  then have "rd_int (fst st) (c_half (l + r)) = Some (fst st ! nat (c_half (l + r)))"
    by (simp add: rd_int_def rd_def nat_less_iff)
  moreover have "part_loop p l r st = Some (l, r, st)" for p using assms(1) by (simp add: part_loop.simps)
  moreover have "int_sum l r = Some (l + r)" using assms by (intro int_sum_small) auto
  ultimately show ?thesis using assms(1,5) by (subst quickSort_internal.simps) simp
qed

lemma quickSort_internal_ok:
  fixes st :: "'k::linorder list \<times> 'v list"
  assumes "length (fst st) = length (snd st)" "0 \<le> l" "l \<le> r + 1" "r < int (length (fst st))"
    and "fst st \<noteq> []" and "length (fst st) \<le> 2 ^ 30" and "1 \<le> cutoff"
  shows "\<exists>st'. quickSort_internal cutoff st l r = Some st' \<and> rng_perm l r st st' \<and> rng_sorted l r (fst st')"
  using assms(1-6)
proof (induction "nat (r - l + 1)" arbitrary: st l r rule: less_induct)
  case less
  let ?p = "fst st ! nat (c_half (l + r))"
  show ?case
  proof (cases "l \<le> r")
    case False
    with less.prems have lr: "l = r + 1" by simp
    then have "quickSort_internal cutoff st l r = Some st"
      using less.prems assms(7) by (intro quickSort_internal_empty) auto
    then show ?thesis using lr rng_perm_refl [of l r st] rng_sorted_short [of r l] by auto
  next
    case lr: True
    have m: "l \<le> c_half (l + r)" "c_half (l + r) \<le> r" using lr less.prems(2) by (auto simp: c_half_def)
    have sm: "int_sum l r = Some (l + r)"
      by (rule int_sum_small [OF less.prems(2-4,6)])
    have rp: "rd_int (fst st) (c_half (l + r)) = Some ?p"
      using m less.prems(2,4) by (simp add: rd_int_def rd_def nat_less_iff)
    have "part_inv l r ?p l r (fst st)" using lr by (simp add: part_inv_def)
    moreover have "l \<le> r \<longrightarrow> (\<exists>x. l \<le> x \<and> x \<le> r \<and> ?p \<le> fst st ! nat x) \<and> (\<exists>x. l \<le> x \<and> x \<le> r \<and> fst st ! nat x \<le> ?p)"
      using m by auto
    ultimately obtain i j s1 where pl: "part_loop ?p l r st = Some (i, j, s1)" and p1: "rng_perm l r st s1"
      and inv: "part_inv l r ?p i j (fst s1)" and ji: "j < i" and pr: "l < i" "j < r"
      using part_loop_ok [OF less.prems(1,2,4)] m by blast
    have bd: "l - 1 \<le> j" "i \<le> r + 1" using inv by (auto simp: part_inv_def)
    have sub: "\<exists>s'. (if right then (if a < b then quickSort_internal cutoff s a b else Some s)
          else quickSort_internal cutoff s a b) = Some s' \<and> rng_perm a b s s' \<and> rng_sorted a b (fst s')"
      if "length (fst s) = length (fst st)" "length (snd s) = length (snd st)"
        "0 \<le> a" "a \<le> b + 1" "b < int (length (fst st))" "b - a < r - l" for s :: "'k list \<times> 'v list" and a b right
    proof -
      have "\<exists>s'. quickSort_internal cutoff s a b = Some s' \<and> rng_perm a b s s' \<and> rng_sorted a b (fst s')"
        using that less.prems(1,5,6) lr by (intro less.hyps) auto
      moreover have "rng_perm a b s s" by (rule rng_perm_refl)
      moreover have "rng_sorted a b (fst s)" if "\<not> a < b" using that by (simp add: rng_sorted_short)
      ultimately show ?thesis by (cases "right \<and> \<not> a < b") (simp_all split: if_splits)
    qed
    have len1: "length (fst s1) = length (fst st)" "length (snd s1) = length (snd st)" using rng_permD [OF p1] by auto
    obtain s2 where s2: "(if r - l < cutoff then (if l < j then quickSort_internal cutoff s1 l j else Some s1)
        else quickSort_internal cutoff s1 l j) = Some s2" "rng_perm l j s1 s2" "rng_sorted l j (fst s2)"
      using sub [OF len1, of l j "r - l < cutoff"] less.prems(2,4) bd pr by auto
    have len2: "length (fst s2) = length (fst st)" "length (snd s2) = length (snd st)"
      using rng_permD [OF s2(2)] len1 by auto
    obtain s3 where s3: "(if r - l < cutoff then (if i < r then quickSort_internal cutoff s2 i r else Some s2)
        else quickSort_internal cutoff s2 i r) = Some s3" "rng_perm i r s2 s3" "rng_sorted i r (fst s3)"
      using sub [OF len2, of i r "r - l < cutoff"] less.prems(2,4) bd pr by auto
    have "quickSort_internal cutoff st l r = Some s3"
      using s2(1) s3(1) by (subst quickSort_internal.simps) (simp add: sm rp pl split: if_splits)
    moreover have "rng_perm l r s1 s3 \<and> rng_sorted l r (fst s3)"
      by (rule sides_sorted [OF inv ji less.prems(2) s2(2,3) s3(2,3)])
    ultimately show ?thesis using rng_perm_trans [OF p1] by auto
  qed
qed

text \<open>
  C20. The key-value quicksort of a non-empty array of at most \<open>2 ^ 30\<close> elements ends, stays inside the
  arrays, computes no \<open>int\<close> that overflows, leaves the keys in ascending order, and keeps every key
  together with its value.  For longer arrays \<open>left + right\<close> can exceed an \<open>int\<close>, as soon as a range
  whose bounds add up to \<open>2 ^ 31\<close> is sorted.
\<close>
theorem quickSort_parallel_sorts:
  assumes "length key = length val" "key \<noteq> []" "length key \<le> 2 ^ 30"
  shows "\<exists>key' val'. quickSort_parallel key val (int (length key)) = Some (key', val') \<and> sorted key' \<and>
    length val' = length key' \<and> mset (zip key' val') = mset (zip key val)"
proof -
  obtain st' where q: "quickSort_internal 10000 (key, val) 0 (int (length key) - 1) = Some st'"
    "rng_perm 0 (int (length key) - 1) (key, val) st'" "rng_sorted 0 (int (length key) - 1) (fst st')"
    using quickSort_internal_ok [of "(key, val)" 0 "int (length key) - 1" 10000] assms by auto
  have len: "length (fst st') = length key" "length (snd st') = length val" using rng_permD [OF q(2)] by auto
  have "sorted (fst st')"
    unfolding sorted_iff_nth_mono
  proof (intro allI impI)
    fix x y assume "x \<le> y" "y < length (fst st')"
    then show "fst st' ! x \<le> fst st' ! y"
      using q(3) [unfolded rng_sorted_def, rule_format, of "int x" "int y"] len by simp
  qed
  moreover have "mset (zip (fst st') (snd st')) = mset (zip key val)" using q(2) by (simp add: rng_perm_def)
  moreover have "int_sum (int (length key)) (- 1) = Some (int (length key) - 1)"
    using assms(2,3) by (cases key) (simp_all add: int_sum_def)
  ultimately show ?thesis using q(1) len assms(1) by (cases st') (simp add: quickSort_parallel_def)
qed

theorem quickSort_parallel_sorts_witness:
  "\<exists>key' val'. quickSort_parallel [3, 1, 2 :: int] [30, 10, 20 :: int] 3 = Some (key', val') \<and> sorted key' \<and>
     mset (zip key' val') = {#(3, 30), (1, 10), (2, 20)#}"
  using quickSort_parallel_sorts [of "[3, 1, 2 :: int]" "[30, 10, 20 :: int]"] by auto

end
