(* ===== verification/Rbt_Pure.thy ===== *)
theory Rbt_Pure
  imports Bench_Prelude "HOL-Library.List_Lexorder"
begin

text \<open>
  Red-black trees as values, for the view trees of the NAS data-cube benchmark (\<open>DC/rbt.c\<close>): the
  colour and black-height invariants, trees with a hole for the recorded path, and the
  rebalancing after an insertion, which walks up that path.  A tree carries the places of its nodes
  in the memory pool, so that a heap represents at most one tree.
\<close>

section \<open>Trees\<close>

datatype colour = BLACK | RED

text \<open>\<open>Root\<close> is \<open>&tree->root\<close>, \<open>Slot a\<close> is \<open>memPool + a\<close>.\<close>

datatype tptr = Root | Slot u32

text \<open>A row: its measures and its dimension attributes.\<close>

type_synonym row = "u64 list \<times> u32 list"

datatype rtree = Lf | Nd rtree tptr colour row rtree

fun colour_of :: "rtree \<Rightarrow> colour" where
  "colour_of Lf = BLACK"
| "colour_of (Nd l a c d r) = c"

fun paint :: "colour \<Rightarrow> rtree \<Rightarrow> rtree" where
  "paint c Lf = Lf"
| "paint c (Nd l a c' d r) = Nd l a c d r"

fun addrs :: "rtree \<Rightarrow> tptr list" where
  "addrs Lf = []"
| "addrs (Nd l a c d r) = addrs l @ a # addrs r"

fun rows :: "rtree \<Rightarrow> (u32 list \<times> u64 list) list" where
  "rows Lf = []"
| "rows (Nd l a c d r) = rows l @ (snd d, fst d) # rows r"

fun height_of :: "rtree \<Rightarrow> nat" where
  "height_of Lf = 0"
| "height_of (Nd l a c d r) = Suc (max (height_of l) (height_of r))"

fun bheight :: "rtree \<Rightarrow> nat" where
  "bheight Lf = 0"
| "bheight (Nd l a c d r) = (if c = BLACK then Suc (bheight l) else bheight l)"

text \<open>No red node has a red child, and all paths to a leaf have the same number of black nodes.\<close>

fun no_red_red :: "rtree \<Rightarrow> bool" where
  "no_red_red Lf = True"
| "no_red_red (Nd l a c d r) =
    (no_red_red l \<and> no_red_red r \<and> (c = RED \<longrightarrow> colour_of l = BLACK \<and> colour_of r = BLACK))"

fun same_black :: "rtree \<Rightarrow> bool" where
  "same_black Lf = True"
| "same_black (Nd l a c d r) = (same_black l \<and> same_black r \<and> bheight l = bheight r)"

definition red_black :: "rtree \<Rightarrow> bool" where
  "red_black t \<longleftrightarrow> no_red_red t \<and> same_black t \<and> colour_of t = BLACK"

definition rsize :: "rtree \<Rightarrow> nat" where
  "rsize t = length (addrs t)"

lemma rsize_simps [simp]: "rsize Lf = 0" "rsize (Nd l a c d r) = Suc (rsize l + rsize r)"
  by (simp_all add: rsize_def)

lemma length_rows [simp]: "length (rows t) = rsize t"
  by (induction t) simp_all

lemma colour_not [simp]: "c \<noteq> RED \<longleftrightarrow> c = BLACK" "c \<noteq> BLACK \<longleftrightarrow> c = RED"
  by (cases c; simp)+

lemma height_bheight:
  assumes "no_red_red t" "same_black t"
  shows "height_of t \<le> 2 * bheight t + (if colour_of t = RED then 1 else 0)"
  using assms by (induction t) (auto split: if_splits)

lemma size_bheight: "same_black t \<Longrightarrow> 2 ^ bheight t \<le> rsize t + 1"
  by (induction t) auto

text \<open>A red-black tree with \<open>n\<close> nodes is at most \<open>2 * log2 (n + 1)\<close> high.\<close>

lemma red_black_height:
  assumes "red_black t" and "rsize t + 1 < 2 ^ m"
  shows "height_of t \<le> 2 * (m - 1)"
proof -
  have t: "no_red_red t" "same_black t" "colour_of t = BLACK" using assms(1) by (simp_all add: red_black_def)
  have "(2::nat) ^ bheight t < 2 ^ m" using size_bheight [OF t(2)] assms(2) by linarith
  then have "bheight t < m" by simp
  then show ?thesis using height_bheight [OF t(1,2)] t(3) by auto
qed

section \<open>Trees with a hole\<close>

text \<open>A node of the path: whether the path goes on to the right, and the subtree on the other side.\<close>

datatype frame = Fr bool tptr colour row rtree

fun plug1 :: "frame \<Rightarrow> rtree \<Rightarrow> rtree" where
  "plug1 (Fr False a c d s) x = Nd x a c d s"
| "plug1 (Fr True a c d s) x = Nd s a c d x"

text \<open>The innermost node of the path comes first.\<close>

fun plug :: "frame list \<Rightarrow> rtree \<Rightarrow> rtree" where
  "plug [] x = x"
| "plug (f # fs) x = plug fs (plug1 f x)"

fun rows_left :: "frame list \<Rightarrow> (u32 list \<times> u64 list) list" where
  "rows_left [] = []"
| "rows_left (Fr b a c d s # fs) = rows_left fs @ (if b then rows s @ [(snd d, fst d)] else [])"

fun rows_right :: "frame list \<Rightarrow> (u32 list \<times> u64 list) list" where
  "rows_right [] = []"
| "rows_right (Fr b a c d s # fs) = (if b then [] else (snd d, fst d) # rows s) @ rows_right fs"

lemma rows_plug: "rows (plug fs x) = rows_left fs @ rows x @ rows_right fs"
proof (induction fs arbitrary: x)
  case (Cons f fs)
  then show ?case by (cases f; cases "case f of Fr b a c d s \<Rightarrow> b") auto
qed simp

fun faddrs :: "frame list \<Rightarrow> tptr list" where
  "faddrs [] = []"
| "faddrs (Fr b a c d s # fs) = a # addrs s @ faddrs fs"

lemma set_addrs_plug: "set (addrs (plug fs x)) = set (faddrs fs) \<union> set (addrs x)"
proof (induction fs arbitrary: x)
  case (Cons f fs)
  then show ?case by (cases f; cases "case f of Fr b a c d s \<Rightarrow> b") auto
qed simp

lemma rsize_plug: "rsize (plug fs x) = length (faddrs fs) + rsize x"
proof (induction fs arbitrary: x)
  case (Cons f fs)
  then show ?case by (cases f; cases "case f of Fr b a c d s \<Rightarrow> b") (auto simp: rsize_def)
qed simp

lemma distinct_plug: "distinct (addrs (plug fs x)) \<longleftrightarrow> distinct (faddrs fs @ addrs x)"
proof -
  have "distinct (addrs (plug fs x)) \<longleftrightarrow> card (set (addrs (plug fs x))) = length (addrs (plug fs x))"
    by (metis card_distinct distinct_card)
  moreover have "length (addrs (plug fs x)) = length (faddrs fs @ addrs x)"
    using rsize_plug [of fs x] by (simp add: rsize_def)
  ultimately show ?thesis
    by (metis card_distinct distinct_card set_addrs_plug set_append)
qed

lemma height_plug: "length fs + height_of x \<le> height_of (plug fs x)"
proof (induction fs arbitrary: x)
  case (Cons f fs)
  have "Suc (height_of x) \<le> height_of (plug1 f x)" by (cases f; cases "case f of Fr b a c d s \<Rightarrow> b") auto
  then show ?case using Cons [of "plug1 f x"] by simp
qed simp

text \<open>
  What the path demands of the subtree in the hole: its black height, and that its root is black
  when the innermost node is red.
\<close>

definition fcolour :: "frame list \<Rightarrow> colour" where
  "fcolour fs = (case fs of [] \<Rightarrow> BLACK | Fr b a c d s # _ \<Rightarrow> c)"

fun path_ok :: "frame list \<Rightarrow> nat \<Rightarrow> bool" where
  "path_ok [] n = True"
| "path_ok (Fr b a c d s # fs) n =
    (no_red_red s \<and> same_black s \<and> bheight s = n
     \<and> (c = RED \<longrightarrow> colour_of s = BLACK \<and> fcolour fs = BLACK \<and> fs \<noteq> [])
     \<and> path_ok fs (if c = BLACK then Suc n else n))"

lemma zip_ok:
  assumes "path_ok fs (bheight x)" "no_red_red x" "same_black x" "fcolour fs = RED \<longrightarrow> colour_of x = BLACK"
    and "fs = [] \<longrightarrow> colour_of x = BLACK"
  shows "red_black (plug fs x)"
  using assms
proof (induction fs arbitrary: x)
  case (Cons f fs)
  obtain b a c d s where f: "f = Fr b a c d s" by (cases f)
  have "red_black (plug fs (plug1 f x))"
    by (rule Cons.IH) (use Cons.prems f in \<open>cases b; auto simp: fcolour_def split: list.splits if_splits\<close>)+
  then show ?case by simp
qed (simp add: red_black_def)


section \<open>Rebalancing\<close>

text \<open>
  The two rotations, for a path that leaves the grandparent to the left or to the right.  The
  first argument says where the parent was left, the second one is the parent with the node below.
\<close>

fun rotate_left_case :: "bool \<Rightarrow> rtree \<Rightarrow> tptr \<Rightarrow> row \<Rightarrow> rtree \<Rightarrow> rtree" where
  "rotate_left_case True (Nd s p cp dp (Nd l a c d r)) g dg u = Nd (Nd s p cp dp l) a BLACK d (Nd r g RED dg u)"
| "rotate_left_case False (Nd x p cp dp s) g dg u = Nd x p BLACK dp (Nd s g RED dg u)"
| "rotate_left_case _ y g dg u = y"

fun rotate_right_case :: "bool \<Rightarrow> rtree \<Rightarrow> tptr \<Rightarrow> row \<Rightarrow> rtree \<Rightarrow> rtree" where
  "rotate_right_case False (Nd (Nd l a c d r) p cp dp s) g dg u = Nd (Nd u g RED dg l) a BLACK d (Nd r p cp dp s)"
| "rotate_right_case True (Nd s p cp dp x) g dg u = Nd (Nd u g RED dg s) p BLACK dp x"
| "rotate_right_case _ y g dg u = y"

definition rotate :: "bool \<Rightarrow> bool \<Rightarrow> rtree \<Rightarrow> tptr \<Rightarrow> row \<Rightarrow> rtree \<Rightarrow> rtree" where
  "rotate b2 b1 y g dg u = (if b2 then rotate_right_case b1 y g dg u else rotate_left_case b1 y g dg u)"

function fixup :: "frame list \<Rightarrow> rtree \<Rightarrow> rtree" where
  "fixup (Fr b1 p cp dp sp # Fr b2 g cg dg sg # fs) x =
    (if cp = BLACK then plug (Fr b1 p cp dp sp # Fr b2 g cg dg sg # fs) x
     else if colour_of sg = RED
     then fixup fs (plug1 (Fr b2 g RED dg (paint BLACK sg)) (plug1 (Fr b1 p BLACK dp sp) x))
     else plug fs (rotate b2 b1 (plug1 (Fr b1 p cp dp sp) x) g dg sg))"
| "fixup [f] x = plug [f] x"
| "fixup [] x = x"
  by pat_completeness auto
termination by (relation "measure (\<lambda>(fs, x). length fs)") auto

lemma rows_paint [simp]: "rows (paint c t) = rows t"
  by (cases t) simp_all

lemma addrs_paint [simp]: "addrs (paint c t) = addrs t"
  by (cases t) simp_all

lemma rows_rotate:
  assumes "x \<noteq> Lf"
  shows "rows (rotate b2 b1 (plug1 (Fr b1 p cp dp sp) x) g dg sg)
    = rows (plug1 (Fr b2 g cg dg sg) (plug1 (Fr b1 p cp dp sp) x))"
  using assms by (cases b1; cases b2; cases x) (simp_all add: rotate_def)

lemma addrs_rotate:
  assumes "x \<noteq> Lf"
  shows "addrs (rotate b2 b1 (plug1 (Fr b1 p cp dp sp) x) g dg sg)
    = addrs (plug1 (Fr b2 g cg dg sg) (plug1 (Fr b1 p cp dp sp) x))"
  using assms by (cases b1; cases b2; cases x) (simp_all add: rotate_def)

lemma rows_plug_cong: "rows x = rows y \<Longrightarrow> rows (plug fs x) = rows (plug fs y)"
  by (simp add: rows_plug)

lemma addrs_plug_cong: "addrs x = addrs y \<Longrightarrow> addrs (plug fs x) = addrs (plug fs y)"
proof (induction fs arbitrary: x y)
  case (Cons f fs)
  obtain b a c d s where f: "f = Fr b a c d s" by (cases f)
  have "addrs (plug1 f x) = addrs (plug1 f y)" unfolding f using Cons.prems by (cases b) simp_all
  then show ?case unfolding plug.simps by (rule Cons.IH)
qed simp

lemma plug1_not_Lf [simp]: "plug1 f x \<noteq> Lf"
  by (cases f; cases "case f of Fr b a c d s \<Rightarrow> b") auto

lemma recolour_same:
  "rows (plug1 (Fr b2 g RED dg (paint BLACK sg)) (plug1 (Fr b1 p BLACK dp sp) x))
    = rows (plug1 (Fr b2 g cg dg sg) (plug1 (Fr b1 p cp dp sp) x))"
  "addrs (plug1 (Fr b2 g RED dg (paint BLACK sg)) (plug1 (Fr b1 p BLACK dp sp) x))
    = addrs (plug1 (Fr b2 g cg dg sg) (plug1 (Fr b1 p cp dp sp) x))"
  by (cases b1; cases b2; simp)+

lemma fixup_cases:
  obtains (black) "cp = BLACK"
      "fixup (Fr b1 p cp dp sp # Fr b2 g cg dg sg # fs) x = plug (Fr b1 p cp dp sp # Fr b2 g cg dg sg # fs) x"
    | (recolour) "cp = RED" "colour_of sg = RED"
      "fixup (Fr b1 p cp dp sp # Fr b2 g cg dg sg # fs) x
         = fixup fs (plug1 (Fr b2 g RED dg (paint BLACK sg)) (plug1 (Fr b1 p BLACK dp sp) x))"
    | (rotate) "cp = RED" "colour_of sg = BLACK"
      "fixup (Fr b1 p cp dp sp # Fr b2 g cg dg sg # fs) x = plug fs (rotate b2 b1 (plug1 (Fr b1 p cp dp sp) x) g dg sg)"
  by (cases cp; cases "colour_of sg") (simp_all del: plug.simps)

lemma fixup_rows: "x \<noteq> Lf \<Longrightarrow> rows (fixup fs x) = rows (plug fs x)"
proof (induction fs x rule: fixup.induct)
  case (1 b1 p cp dp sp b2 g cg dg sg fs x)
  show ?case
  proof (cases rule: fixup_cases [of cp b1 p dp sp b2 g cg dg sg fs x])
    case recolour
    then show ?thesis
      using "1.IH" rows_plug_cong [OF recolour_same(1)] by simp
  next
    case rotate
    then show ?thesis using rows_plug_cong [OF rows_rotate [OF "1.prems"]] by simp
  qed simp
qed simp_all

lemma fixup_addrs: "x \<noteq> Lf \<Longrightarrow> addrs (fixup fs x) = addrs (plug fs x)"
proof (induction fs x rule: fixup.induct)
  case (1 b1 p cp dp sp b2 g cg dg sg fs x)
  show ?case
  proof (cases rule: fixup_cases [of cp b1 p dp sp b2 g cg dg sg fs x])
    case recolour
    then show ?thesis
      using "1.IH" addrs_plug_cong [OF recolour_same(2)] by simp
  next
    case rotate
    then show ?thesis using addrs_plug_cong [OF addrs_rotate [OF "1.prems"]] by simp
  qed simp
qed simp_all

text \<open>Rebalancing gives a red-black tree, once its root is painted black.\<close>

lemma paint_red_black:
  assumes "no_red_red t" "same_black t"
  shows "red_black (paint BLACK t)"
  using assms by (cases t) (auto simp: red_black_def)

lemma red_black_paint: "red_black t \<Longrightarrow> red_black (paint BLACK t)"
  by (rule paint_red_black) (simp_all add: red_black_def)

lemma rotate_ok:
  assumes "no_red_red x" "same_black x" "colour_of x = RED" "no_red_red sp" "same_black sp" "no_red_red sg"
    "same_black sg" "colour_of sp = BLACK" "colour_of sg = BLACK" "bheight sp = bheight x" "bheight sg = bheight x"
  shows "no_red_red (rotate b2 b1 (plug1 (Fr b1 p RED dp sp) x) g dg sg)
    \<and> same_black (rotate b2 b1 (plug1 (Fr b1 p RED dp sp) x) g dg sg)
    \<and> colour_of (rotate b2 b1 (plug1 (Fr b1 p RED dp sp) x) g dg sg) = BLACK
    \<and> bheight (rotate b2 b1 (plug1 (Fr b1 p RED dp sp) x) g dg sg) = Suc (bheight x)"
  using assms by (cases b1; cases b2; cases x) (auto simp: rotate_def)

lemma fixup_ok:
  assumes "path_ok fs (bheight x)" "no_red_red x" "same_black x" "colour_of x = RED"
  shows "red_black (paint BLACK (fixup fs x))"
  using assms
proof (induction fs x rule: fixup.induct)
  case (1 b1 p cp dp sp b2 g cg dg sg fs x)
  note ok = "1.prems"
  have cg: "cp = RED \<Longrightarrow> cg = BLACK" using ok(1) by (auto simp: fcolour_def)
  show ?case
  proof (cases rule: fixup_cases [of cp b1 p dp sp b2 g cg dg sg fs x])
    case black
    have "red_black (plug (Fr b1 p cp dp sp # Fr b2 g cg dg sg # fs) x)"
      by (rule zip_ok) (use ok black in \<open>simp_all add: fcolour_def\<close>)
    then show ?thesis using black by (simp add: red_black_paint)
  next
    case recolour
    obtain l u d r where sg: "sg = Nd l u RED d r" using recolour by (cases sg) auto
    let ?t = "plug1 (Fr b2 g RED dg (paint BLACK sg)) (plug1 (Fr b1 p BLACK dp sp) x)"
    have t: "no_red_red ?t" "same_black ?t" "colour_of ?t = RED" "bheight ?t = Suc (bheight x)"
      using ok sg recolour(1) by (cases b1; cases b2; simp)+
    have "path_ok fs (bheight ?t)" unfolding t(4) using ok(1) recolour(1) cg by simp
    with t(1-3) have "red_black (paint BLACK (fixup fs ?t))" using "1.IH" recolour(1,2) by simp
    then show ?thesis using recolour by simp
  next
    case rotate
    let ?t = "rotate b2 b1 (plug1 (Fr b1 p cp dp sp) x) g dg sg"
    have r: "no_red_red ?t \<and> same_black ?t \<and> colour_of ?t = BLACK \<and> bheight ?t = Suc (bheight x)"
      unfolding rotate(1) by (rule rotate_ok) (use ok rotate cg in simp_all)
    have "red_black (plug fs ?t)"
      by (rule zip_ok) (use r ok(1) rotate cg in simp_all)
    then show ?thesis using rotate by (simp add: red_black_paint)
  qed
next
  case (2 f x)
  obtain b a c d s where f: "f = Fr b a c d s" by (cases f)
  then have "c = BLACK" using 2 by (cases c) simp_all
  then show ?case using 2 f by (cases b) (simp_all add: paint_red_black red_black_def)
next
  case (3 x)
  then show ?case by (simp add: paint_red_black)
qed


section \<open>The search path\<close>

text \<open>From a hole down to a node with the key or to a leaf.\<close>

fun descend :: "u32 list \<Rightarrow> frame list \<Rightarrow> rtree \<Rightarrow> frame list \<times> rtree" where
  "descend k fs Lf = (fs, Lf)"
| "descend k fs (Nd l a c d r) =
    (if k < snd d then descend k (Fr False a c d r # fs) l
     else if k > snd d then descend k (Fr True a c d l # fs) r
     else (fs, Nd l a c d r))"

lemma descend_plug: "descend k fs x = (gs, y) \<Longrightarrow> plug gs y = plug fs x"
proof (induction k fs x rule: descend.induct)
  case (2 k fs l a c d r)
  then show ?case by (cases "k < snd d"; cases "k > snd d") auto
qed simp

lemma descend_ok:
  assumes "descend k fs x = (gs, y)" "path_ok fs (bheight x)" "no_red_red x" "same_black x"
    "fcolour fs = RED \<longrightarrow> colour_of x = BLACK" "fs = [] \<longrightarrow> colour_of x = BLACK"
  shows "path_ok gs (bheight y) \<and> no_red_red y \<and> same_black y
    \<and> (fcolour gs = RED \<longrightarrow> colour_of y = BLACK) \<and> (gs = [] \<longrightarrow> colour_of y = BLACK)"
  using assms
proof (induction k fs x rule: descend.induct)
  case (2 k fs l a c d r)
  note ok = "2.prems"(2-6)
  have black: "c = RED \<Longrightarrow> colour_of l = BLACK \<and> colour_of r = BLACK \<and> fcolour fs = BLACK \<and> fs \<noteq> []"
    using ok by (cases "fcolour fs") auto
  have sub: "path_ok (Fr False a c d r # fs) (bheight l)" "path_ok (Fr True a c d l # fs) (bheight r)"
    using ok black by (cases c; simp)+
  show ?case
  proof (cases rule: linorder_cases [of k "snd d"])
    case less
    then show ?thesis
      using "2.IH"(1) [OF less] "2.prems"(1) sub(1) ok(2,3) black by (simp add: fcolour_def)
  next
    case greater
    then have "\<not> k < snd d" by simp
    then show ?thesis
      using "2.IH"(2) [OF _ greater] "2.prems"(1) sub(2) ok(2,3) black greater by (simp add: fcolour_def)
  next
    case equal
    then show ?thesis using "2.prems" by simp
  qed
qed simp

text \<open>The rows before the place of a key have smaller keys, the rows after it larger ones.\<close>

definition keys_sorted :: "(u32 list \<times> u64 list) list \<Rightarrow> bool" where
  "keys_sorted xs \<longleftrightarrow> sorted_wrt (<) (map fst xs)"

lemma descend_split:
  assumes "descend k fs x = (gs, y)" "keys_sorted (rows (plug fs x))"
    "\<forall>e \<in> set (rows_left fs). fst e < k" "\<forall>e \<in> set (rows_right fs). k < fst e"
  shows "(\<forall>e \<in> set (rows_left gs). fst e < k) \<and> (\<forall>e \<in> set (rows_right gs). k < fst e)
    \<and> (case y of Lf \<Rightarrow> True | Nd l a c d r \<Rightarrow>
        snd d = k \<and> (\<forall>e \<in> set (rows l). fst e < k) \<and> (\<forall>e \<in> set (rows r). k < fst e))"
  using assms
proof (induction k fs x rule: descend.induct)
  case (2 k fs l a c d r)
  have l: "\<forall>e \<in> set (rows l). fst e < snd d" and r: "\<forall>e \<in> set (rows r). snd d < fst e"
    using "2.prems"(2) by (simp_all add: rows_plug keys_sorted_def sorted_wrt_append)
  have srt: "keys_sorted (rows (plug fs (Nd l a c d r)))" using "2.prems"(2) .
  show ?case
  proof (cases rule: linorder_cases [of k "snd d"])
    case less
    have "\<forall>e \<in> set (rows_right (Fr False a c d r # fs)). k < fst e"
      using less r "2.prems"(4) by (auto dest: less_trans)
    then show ?thesis using "2.IH"(1) [OF less] "2.prems"(1,3) srt less by simp
  next
    case greater
    then have "\<not> k < snd d" by simp
    have "\<forall>e \<in> set (rows_left (Fr True a c d l # fs)). fst e < k"
      using greater l "2.prems"(3) by (auto dest: less_trans)
    then show ?thesis using "2.IH"(2) [OF \<open>\<not> k < snd d\<close> greater] "2.prems"(1,4) srt greater \<open>\<not> k < snd d\<close> by simp
  next
    case equal
    then have y: "gs = fs" "y = Nd l a c d r" using "2.prems"(1) by simp_all
    show ?thesis unfolding y using equal l r "2.prems"(3,4) by simp
  qed
qed simp

text \<open>
  What an insertion does to the rows in ascending order: a new key gets a row of its own, the
  measures of a known key are added up.
\<close>

fun add_row :: "u32 list \<Rightarrow> u64 list \<Rightarrow> (u32 list \<times> u64 list) list \<Rightarrow> (u32 list \<times> u64 list) list" where
  "add_row k m [] = [(k, m)]"
| "add_row k m ((k', m') # xs) =
    (if k < k' then (k, m) # (k', m') # xs
     else if k = k' then (k, map2 (+) m' m) # xs
     else (k', m') # add_row k m xs)"

lemma add_row_skip: "\<forall>e \<in> set xs. fst e < k \<Longrightarrow> add_row k m (xs @ ys) = xs @ add_row k m ys"
  by (induction xs) auto

lemma add_row_new: "\<forall>e \<in> set ys. k < fst e \<Longrightarrow> add_row k m ys = (k, m) # ys"
  by (cases ys) auto

lemma keys_add_row: "set (map fst (add_row k m xs)) = insert k (set (map fst xs))"
proof (induction k m xs rule: add_row.induct)
  case (2 k m k' m' xs)
  then show ?case by (cases rule: linorder_cases [of k k']) auto
qed simp

lemma add_row_sorted:
  assumes "keys_sorted xs" shows "keys_sorted (add_row k m xs)"
  using assms
proof (induction k m xs rule: add_row.induct)
  case (2 k m k' m' xs)
  then show ?case
    by (cases rule: linorder_cases [of k k'])
      (use keys_add_row [of k m xs] in \<open>auto simp: keys_sorted_def dest: less_trans simp del: set_map\<close>)
qed (simp add: keys_sorted_def)

end
