(* ===== verification/Rbt_Model.thy ===== *)
theory Rbt_Model
  imports Rbt_Pure
begin

text \<open>
  The red-black view tree of the NAS data-cube benchmark as the code has it (\<open>DC/rbt.c\<close>,
  \<open>DC/rbt.h\<close>): nodes in a memory pool that are linked by pointers, an insertion that records the path
  in two arrays of 64 entries and rebalances along it, and the traversals that write a view.
\<close>

section \<open>The tree\<close>

definition MAX_TREE_HEIGHT :: nat where
  "MAX_TREE_HEIGHT = 64"

text \<open>
  \<open>nodeMemPool\<close> of a node holds \<open>nm\<close> measures, followed by \<open>nd\<close> dimension attributes; the record
  keeps the two parts apart.
\<close>

record tnode =
  left_p :: "tptr option"
  right_p :: "tptr option"
  clr :: colour
  meas :: "u64 list"
  attributes :: "u32 list"

text \<open>
  The nodes that have been written, at \<open>Root\<close> the one inside the struct.  An access to any other
  place has no result.
\<close>

record rbtree =
  theap :: "tptr \<Rightarrow> tnode option"
  mp :: "tptr option"
  tcount :: u32
  treeNodeSize :: u32
  nodeDataSize :: u32
  memoryLimit :: u32
  memaddr :: u32
  memoryIsFull :: u32
  freeNodeCounter :: u32
  nNodesLimit :: u32
  tnd :: u32
  tnm :: u32
  drcts :: "u32 list"
  nodes :: "tptr list"

text \<open>
  \<open>CreateEmptyTree\<close> with its allocations succeeding, and \<open>InitializeTree\<close>; \<open>sizeof(struct treeNode)\<close>
  is 32.  The colour of the root inside the struct and the arrays are never initialised: \<open>c\<close>, \<open>ds\<close>
  and \<open>ns\<close> are what happens to be there.
\<close>

definition tree_node_size :: "u32 \<Rightarrow> u32 \<Rightarrow> u32" where
  "tree_node_size nd nm = (let s = 32 + 4 * (nd - 1) + 8 * nm in if s mod 8 \<noteq> 0 then s + 4 else s)"

definition empty_root :: "colour \<Rightarrow> tnode" where
  "empty_root c = \<lparr>left_p = None, right_p = None, clr = c, meas = [], attributes = []\<rparr>"

definition CreateEmptyTree :: "u32 \<Rightarrow> u32 \<Rightarrow> u32 \<Rightarrow> colour \<Rightarrow> u32 list \<Rightarrow> tptr list \<Rightarrow> rbtree" where
  "CreateEmptyTree nd nm limit c ds ns =
    \<lparr>theap = [Root \<mapsto> empty_root c], mp = None, tcount = 0, treeNodeSize = tree_node_size nd nm,
     nodeDataSize = 4 * nd + 8 * nm, memoryLimit = limit, memaddr = 0, memoryIsFull = 0,
     freeNodeCounter = limit div tree_node_size nd nm, nNodesLimit = limit div tree_node_size nd nm,
     tnd = nd, tnm = nm, drcts = take MAX_TREE_HEIGHT (ds @ replicate MAX_TREE_HEIGHT 0),
     nodes = take MAX_TREE_HEIGHT (ns @ replicate MAX_TREE_HEIGHT Root)\<rparr>"

definition root_colour :: "rbtree \<Rightarrow> colour" where
  "root_colour t = (case theap t Root of None \<Rightarrow> BLACK | Some n \<Rightarrow> clr n)"

definition InitializeTree :: "u32 \<Rightarrow> u32 \<Rightarrow> rbtree \<Rightarrow> rbtree" where
  "InitializeTree nd nm t =
    t\<lparr>theap := [Root \<mapsto> empty_root (root_colour t)], tcount := 0, memaddr := 0,
      treeNodeSize := tree_node_size nd nm, memoryIsFull := 0, nodeDataSize := 4 * nd + 8 * nm, mp := None,
      nNodesLimit := memoryLimit t div tree_node_size nd nm,
      freeNodeCounter := memoryLimit t div tree_node_size nd nm, tnd := nd, tnm := nm\<rparr>"

section \<open>Access to the nodes\<close>

definition upd_node :: "tptr \<Rightarrow> (tnode \<Rightarrow> tnode) \<Rightarrow> rbtree \<Rightarrow> rbtree option" where
  "upd_node p f t = (case theap t p of None \<Rightarrow> None | Some n \<Rightarrow> Some (t\<lparr>theap := (theap t)(p \<mapsto> f n)\<rparr>))"

definition set_left :: "tptr \<Rightarrow> tptr option \<Rightarrow> rbtree \<Rightarrow> rbtree option" where
  "set_left p v = upd_node p (\<lambda>n. n\<lparr>left_p := v\<rparr>)"

definition set_right :: "tptr \<Rightarrow> tptr option \<Rightarrow> rbtree \<Rightarrow> rbtree option" where
  "set_right p v = upd_node p (\<lambda>n. n\<lparr>right_p := v\<rparr>)"

definition set_clr :: "tptr \<Rightarrow> colour \<Rightarrow> rbtree \<Rightarrow> rbtree option" where
  "set_clr p c = upd_node p (\<lambda>n. n\<lparr>clr := c\<rparr>)"

text \<open>The macro \<open>NEW_TREE_NODE\<close>; it does not look at \<open>memoryIsFull\<close> or at the limit.\<close>

definition NEW_TREE_NODE :: "rbtree \<Rightarrow> rbtree" where
  "NEW_TREE_NODE t =
    (let t = t\<lparr>mp := Some (Slot (memaddr t)), memaddr := memaddr t + treeNodeSize t,
               freeNodeCounter := freeNodeCounter t - 1\<rparr> in
     if freeNodeCounter t = 0 then t\<lparr>memoryIsFull := 1\<rparr> else t)"

text \<open>
  \<open>memcpy(&(xNd->nodeMemPool[0]), &attrs[0], tree->nodeDataSize)\<close> and the three assignments after it:
  the whole node is written, which must lie inside the pool, from a buffer that is long enough.
\<close>

definition in_pool :: "rbtree \<Rightarrow> tptr \<Rightarrow> bool" where
  "in_pool t p = (case p of Root \<Rightarrow> False | Slot a \<Rightarrow> unat a + unat (treeNodeSize t) \<le> unat (memoryLimit t))"

definition fill_node :: "tptr \<Rightarrow> row \<Rightarrow> colour \<Rightarrow> rbtree \<Rightarrow> rbtree option" where
  "fill_node p row c t =
    (if in_pool t p \<and> unat (tnm t) \<le> length (fst row) \<and> unat (tnd t) \<le> length (snd row)
     then Some (t\<lparr>theap := (theap t)(p \<mapsto>
       \<lparr>left_p = None, right_p = None, clr = c, meas = take (unat (tnm t)) (fst row),
        attributes = take (unat (tnd t)) (snd row)\<rparr>)\<rparr>)
     else None)"

section \<open>Insertion\<close>

text \<open>\<open>KeyComp\<close> compares \<open>n\<close> entries of two arrays.\<close>

fun KeyComp :: "u32 list \<Rightarrow> u32 list \<Rightarrow> nat \<Rightarrow> int option" where
  "KeyComp as bs 0 = Some 0"
| "KeyComp (a # as) (b # bs) (Suc n) =
    (if a < b then Some (- 1) else if a > b then Some 1 else KeyComp as bs n)"
| "KeyComp _ _ (Suc n) = None"

text \<open>\<open>for (ii = 0; ii < tree->nm; ii++) xNd->nodeMemPool[ii] += mx[ii]\<close>.\<close>

fun add_measures :: "nat \<Rightarrow> u64 list \<Rightarrow> u64 list \<Rightarrow> u64 list option" where
  "add_measures 0 ms mx = Some ms"
| "add_measures (Suc n) (m # ms) (x # mx) = do { ms \<leftarrow> add_measures n ms mx; Some ((m + x) # ms) }"
| "add_measures (Suc n) _ _ = None"

text \<open>
  The first loop: it ends at a node with the same key, whose measures it adds to, or at the new
  node with the recorded path, of which \<open>sl\<close> entries are in use.
\<close>

datatype search = Merged rbtree | Placed rbtree tptr u32

definition record_step :: "tptr \<Rightarrow> u32 \<Rightarrow> u32 \<Rightarrow> rbtree \<Rightarrow> rbtree option" where
  "record_step x d sl t = do {
     ns \<leftarrow> wr (nodes t) (unat sl) x;
     ds \<leftarrow> wr (drcts t) (unat sl) d;
     Some (t\<lparr>nodes := ns, drcts := ds\<rparr>) }"

definition hang :: "(tptr \<Rightarrow> tptr option \<Rightarrow> rbtree \<Rightarrow> rbtree option) \<Rightarrow> tptr \<Rightarrow> u32 \<Rightarrow> rbtree \<Rightarrow> search option" where
  "hang set_child x sl t =
    (let t = NEW_TREE_NODE t in do {
       y \<leftarrow> mp t;
       t \<leftarrow> set_child x (Some y) t;
       Some (Placed t y sl) })"

partial_function (option) tree_search :: "row \<Rightarrow> tptr \<Rightarrow> u32 \<Rightarrow> rbtree \<Rightarrow> search option" where
  "tree_search row x sl t = do {
     n \<leftarrow> theap t x;
     cmpres \<leftarrow> KeyComp (snd row) (attributes n) (unat (tnd t));
     if cmpres < 0 then do {
       t \<leftarrow> record_step x 0 sl t;
       case left_p n of None \<Rightarrow> hang set_left x (sl + 1) t | Some y \<Rightarrow> tree_search row y (sl + 1) t }
     else if cmpres > 0 then do {
       t \<leftarrow> record_step x 1 sl t;
       case right_p n of None \<Rightarrow> hang set_right x (sl + 1) t | Some y \<Rightarrow> tree_search row y (sl + 1) t }
     else do {
       ms \<leftarrow> add_measures (unat (tnm t)) (meas n) (fst row);
       t \<leftarrow> upd_node x (\<lambda>n. n\<lparr>meas := ms\<rparr>) t;
       Some (Merged t) } }"

text \<open>The two branches of the second loop that rotate.\<close>

definition rotate_left_branch :: "u32 \<Rightarrow> rbtree \<Rightarrow> rbtree option" where
  "rotate_left_branch sl t = do {
     d1 \<leftarrow> rd (drcts t) (unat (sl - 1));
     p \<leftarrow> rd (nodes t) (unat (sl - 1));
     g \<leftarrow> rd (nodes t) (unat (sl - 2));
     (y, t) \<leftarrow> (if d1 = 1 then do {
         pn \<leftarrow> theap t p;
         y \<leftarrow> right_p pn;
         yn \<leftarrow> theap t y;
         t \<leftarrow> set_right p (left_p yn) t;
         t \<leftarrow> set_left y (Some p) t;
         t \<leftarrow> set_left g (Some y) t;
         Some (y, t) }
       else Some (p, t));
     t \<leftarrow> set_clr g RED t;
     t \<leftarrow> set_clr y BLACK t;
     yn \<leftarrow> theap t y;
     t \<leftarrow> set_left g (right_p yn) t;
     t \<leftarrow> set_right y (Some g) t;
     d3 \<leftarrow> rd (drcts t) (unat (sl - 3));
     q \<leftarrow> rd (nodes t) (unat (sl - 3));
     if d3 \<noteq> 0 then set_right q (Some y) t else set_left q (Some y) t }"

definition rotate_right_branch :: "u32 \<Rightarrow> rbtree \<Rightarrow> rbtree option" where
  "rotate_right_branch sl t = do {
     d1 \<leftarrow> rd (drcts t) (unat (sl - 1));
     p \<leftarrow> rd (nodes t) (unat (sl - 1));
     g \<leftarrow> rd (nodes t) (unat (sl - 2));
     (y, t) \<leftarrow> (if d1 = 0 then do {
         pn \<leftarrow> theap t p;
         y \<leftarrow> left_p pn;
         yn \<leftarrow> theap t y;
         t \<leftarrow> set_left p (right_p yn) t;
         t \<leftarrow> set_right y (Some p) t;
         t \<leftarrow> set_right g (Some y) t;
         Some (y, t) }
       else Some (p, t));
     t \<leftarrow> set_clr g RED t;
     t \<leftarrow> set_clr y BLACK t;
     yn \<leftarrow> theap t y;
     t \<leftarrow> set_right g (left_p yn) t;
     t \<leftarrow> set_left y (Some g) t;
     d3 \<leftarrow> rd (drcts t) (unat (sl - 3));
     q \<leftarrow> rd (nodes t) (unat (sl - 3));
     if d3 \<noteq> 0 then set_right q (Some y) t else set_left q (Some y) t }"

text \<open>\<open>yNd != NULL && yNd->clr == RED\<close>.\<close>

definition is_red :: "rbtree \<Rightarrow> tptr option \<Rightarrow> bool option" where
  "is_red t y = (case y of None \<Rightarrow> Some False | Some a \<Rightarrow> do { n \<leftarrow> theap t a; Some (clr n = RED) })"

partial_function (option) rebalance :: "u32 \<Rightarrow> rbtree \<Rightarrow> rbtree option" where
  "rebalance sl t = do {
     p \<leftarrow> rd (nodes t) (unat (sl - 1));
     pn \<leftarrow> theap t p;
     if clr pn \<noteq> RED \<or> sl < 3 then Some t
     else do {
       d2 \<leftarrow> rd (drcts t) (unat (sl - 2));
       g \<leftarrow> rd (nodes t) (unat (sl - 2));
       gn \<leftarrow> theap t g;
       let y = (if d2 = 0 then right_p gn else left_p gn) in do {
         red \<leftarrow> is_red t y;
         if red then do {
           t \<leftarrow> set_clr p BLACK t;
           y \<leftarrow> y;
           t \<leftarrow> set_clr y BLACK t;
           t \<leftarrow> set_clr g RED t;
           rebalance (sl - 2) t }
         else if d2 = 0 then rotate_left_branch sl t
         else rotate_right_branch sl t } } }"

definition TreeInsert :: "row \<Rightarrow> rbtree \<Rightarrow> rbtree option" where
  "TreeInsert row t = do {
     rn \<leftarrow> theap t Root;
     case left_p rn of
       None \<Rightarrow>
         let t = NEW_TREE_NODE (t\<lparr>tcount := tcount t + 1\<rparr>) in do {
           x \<leftarrow> mp t;
           t \<leftarrow> set_left Root (Some x) t;
           fill_node x row BLACK t }
     | Some x \<Rightarrow> do {
         ds \<leftarrow> wr (drcts t) 0 0;
         ns \<leftarrow> wr (nodes t) 0 Root;
         r \<leftarrow> tree_search row x 1 (t\<lparr>drcts := ds, nodes := ns\<rparr>);
         case r of
           Merged t \<Rightarrow> Some t
         | Placed t x sl \<Rightarrow> do {
             t \<leftarrow> fill_node x row RED (t\<lparr>tcount := tcount t + 1\<rparr>);
             t \<leftarrow> rebalance sl t;
             rn \<leftarrow> theap t Root;
             x \<leftarrow> left_p rn;
             set_clr x BLACK t } } }"

section \<open>Traversals\<close>

text \<open>
  \<open>WriteChunkToDisk\<close> writes the rows of a subtree in order.  \<open>ok k\<close> says whether \<open>fwrite\<close> of record
  \<open>k\<close> of the file succeeds; the result is the error flag and the file.
\<close>

definition WriteToFile :: "(nat \<Rightarrow> bool) \<Rightarrow> row \<Rightarrow> row list \<Rightarrow> bool \<times> row list" where
  "WriteToFile ok r f = (if ok (length f) then (False, f @ [r]) else (True, f))"

partial_function (option) WriteChunkToDisk
    :: "(nat \<Rightarrow> bool) \<Rightarrow> rbtree \<Rightarrow> tptr option \<Rightarrow> row list \<Rightarrow> (bool \<times> row list) option" where
  "WriteChunkToDisk ok t p f =
    (case p of
       None \<Rightarrow> Some (False, f)
     | Some a \<Rightarrow> do {
         n \<leftarrow> theap t a;
         (e, f) \<leftarrow> WriteChunkToDisk ok t (left_p n) f;
         if e then Some (True, f)
         else let (e, f) = WriteToFile ok (meas n, attributes n) f in
           if e then Some (True, f)
           else WriteChunkToDisk ok t (right_p n) f })"

text \<open>
  \<open>WriteViewToDiskCS\<close> also adds the measures up and computes checksums, with a number that counts
  the measures; \<open>avp->mSums\<close>, \<open>avp->checksums\<close> and \<open>*ordern\<close> are the state of one node's loop.
\<close>

definition measbound :: u64 where
  "measbound = 31415"

record sums =
  mSums :: "u64 list"
  checksums :: "u64 list"
  ordern :: u64

fun sums_loop :: "nat \<Rightarrow> u64 list \<Rightarrow> u64 list \<Rightarrow> u64 list \<Rightarrow> u64 \<Rightarrow> sums option" where
  "sums_loop 0 ms ss cs k = Some \<lparr>mSums = ss, checksums = cs, ordern = k\<rparr>"
| "sums_loop (Suc n) (m # ms) (s # ss) (c # cs) k = do {
     r \<leftarrow> sums_loop n ms ss cs (k + 1);
     Some (r\<lparr>mSums := (s + m) # mSums r, checksums := (c + (k + 1) * m mod measbound) # checksums r\<rparr>) }"
| "sums_loop (Suc n) _ _ _ _ = None"

definition sums_node :: "nat \<Rightarrow> u64 list \<Rightarrow> sums \<Rightarrow> sums option" where
  "sums_node nm ms s = sums_loop nm ms (mSums s) (checksums s) (ordern s)"

partial_function (option) WriteViewToDiskCS
    :: "(nat \<Rightarrow> bool) \<Rightarrow> rbtree \<Rightarrow> tptr option \<Rightarrow> sums \<times> row list \<Rightarrow> (bool \<times> sums \<times> row list) option" where
  "WriteViewToDiskCS ok t p v =
    (case p of
       None \<Rightarrow> Some (False, v)
     | Some a \<Rightarrow> do {
         n \<leftarrow> theap t a;
         (e, v) \<leftarrow> WriteViewToDiskCS ok t (left_p n) v;
         if e then Some (True, v)
         else do {
           s \<leftarrow> sums_node (unat (tnm t)) (meas n) (fst v);
           let (e, f) = WriteToFile ok (meas n, attributes n) (snd v) in
             if e then Some (True, s, f)
             else WriteViewToDiskCS ok t (right_p n) (s, f) } })"

end
