(* ===== verification/Rbt_Refine.thy ===== *)
theory Rbt_Refine
  imports Rbt_Model
begin

text \<open>
  The insertion of \<open>Rbt_Model\<close> computes the rebalancing of \<open>Rbt_Pure\<close>: what it means that nodes in
  the pool represent a tree, or a tree with a hole together with the recorded path, and how the
  two loops act on it.
\<close>

section \<open>Trees in the pool\<close>

fun rep :: "(tptr \<Rightarrow> tnode option) \<Rightarrow> tptr option \<Rightarrow> rtree \<Rightarrow> bool" where
  "rep h p Lf \<longleftrightarrow> p = None"
| "rep h p (Nd l a c d r) \<longleftrightarrow> p = Some a \<and> (\<exists>n. h a = Some n \<and> clr n = c \<and> (meas n, attributes n) = d
     \<and> rep h (left_p n) l \<and> rep h (right_p n) r)"

fun zrep :: "(tptr \<Rightarrow> tnode option) \<Rightarrow> frame list \<Rightarrow> tptr option \<Rightarrow> bool" where
  "zrep h [] p \<longleftrightarrow> (\<exists>n. h Root = Some n \<and> left_p n = p)"
| "zrep h (Fr b a c d s # fs) p \<longleftrightarrow> (\<exists>n. h a = Some n \<and> clr n = c \<and> (meas n, attributes n) = d
     \<and> (if b then right_p n = p \<and> rep h (left_p n) s else left_p n = p \<and> rep h (right_p n) s)
     \<and> zrep h fs (Some a))"

definition whole :: "(tptr \<Rightarrow> tnode option) \<Rightarrow> rtree \<Rightarrow> bool" where
  "whole h t \<longleftrightarrow> (\<exists>n. h Root = Some n \<and> rep h (left_p n) t)"

lemma rep_cong: "\<forall>a \<in> set (addrs t). h' a = h a \<Longrightarrow> rep h' p t = rep h p t"
  by (induction t arbitrary: p) auto

lemma zrep_cong: "\<forall>a \<in> insert Root (set (faddrs fs)). h' a = h a \<Longrightarrow> zrep h' fs p = zrep h fs p"
proof (induction fs arbitrary: p)
  case (Cons f fs)
  obtain b a c d s where f: "f = Fr b a c d s" by (cases f)
  have "h' a = h a" "zrep h' fs (Some a) = zrep h fs (Some a)"
    "\<And>q. rep h' q s = rep h q s"
    using Cons f rep_cong [of s h' h] by auto
  then show ?case using f by simp
qed simp

lemma rep_upd [simp]: "a \<notin> set (addrs t) \<Longrightarrow> rep (h(a := v)) p t = rep h p t"
  by (rule rep_cong) auto

lemma zrep_upd [simp]: "a \<noteq> Root \<Longrightarrow> a \<notin> set (faddrs fs) \<Longrightarrow> zrep (h(a := v)) fs p = zrep h fs p"
  by (rule zrep_cong) auto

lemma whole_plug: "whole h (plug fs x) \<longleftrightarrow> (\<exists>p. zrep h fs p \<and> rep h p x)"
proof (induction fs arbitrary: x)
  case (Cons f fs)
  obtain b a c d s where f: "f = Fr b a c d s" by (cases f)
  show ?case
    using Cons.IH [of "plug1 f x"] f by (cases b) auto
qed (auto simp: whole_def)

text \<open>The place whose child is the hole, and the side.\<close>

fun upper :: "frame list \<Rightarrow> tptr \<times> bool" where
  "upper [] = (Root, False)"
| "upper (Fr b a c d s # fs) = (a, b)"

definition with_child :: "bool \<Rightarrow> tptr option \<Rightarrow> tnode \<Rightarrow> tnode" where
  "with_child b v n = (if b then n\<lparr>right_p := v\<rparr> else n\<lparr>left_p := v\<rparr>)"

lemma with_child_sel [simp]:
  "left_p (with_child b v n) = (if b then left_p n else v)" "right_p (with_child b v n) = (if b then v else right_p n)"
  "clr (with_child b v n) = clr n" "meas (with_child b v n) = meas n"
  "attributes (with_child b v n) = attributes n"
  by (simp_all add: with_child_def)

lemma zrep_upper: "zrep h fs p \<Longrightarrow> \<exists>n. h (fst (upper fs)) = Some n"
  by (cases fs rule: upper.cases) auto

lemma upper_in: "fst (upper fs) \<in> insert Root (set (faddrs fs))"
  by (cases fs rule: upper.cases) auto

text \<open>Changing the pointer at the hole.\<close>

lemma zrep_set_child:
  assumes "zrep h fs p" "distinct (Root # faddrs fs)" "h (fst (upper fs)) = Some n"
  shows "zrep (h(fst (upper fs) \<mapsto> with_child (snd (upper fs)) v n)) fs v"
proof (cases fs)
  case Nil
  then show ?thesis using assms by simp
next
  case (Cons f gs)
  obtain b a c d s where f: "f = Fr b a c d s" by (cases f)
  then show ?thesis using assms Cons by auto
qed

section \<open>The recorded path\<close>

definition fdir :: "frame \<Rightarrow> u32" where
  "fdir f = (case f of Fr b a c d s \<Rightarrow> if b then 1 else 0)"

definition faddr :: "frame \<Rightarrow> tptr" where
  "faddr f = (case f of Fr b a c d s \<Rightarrow> a)"

definition recorded :: "tptr list \<Rightarrow> u32 list \<Rightarrow> frame list \<Rightarrow> bool" where
  "recorded ns ds fs \<longleftrightarrow> length ns = MAX_TREE_HEIGHT \<and> length ds = MAX_TREE_HEIGHT \<and> length fs < MAX_TREE_HEIGHT
     \<and> take (Suc (length fs)) ns = Root # map faddr (rev fs) \<and> take (Suc (length fs)) ds = 0 # map fdir (rev fs)"

lemma recorded_top:
  assumes "recorded ns ds fs"
  shows "rd ns (length fs) = Some (fst (upper fs))" and "rd ds (length fs) = Some (if snd (upper fs) then 1 else 0)"
proof -
  have l: "length fs < length ns" "length fs < length ds" using assms by (simp_all add: recorded_def)
  have n: "ns ! length fs = (Root # map faddr (rev fs)) ! length fs"
    and d: "ds ! length fs = (0 # map fdir (rev fs)) ! length fs"
    using assms by (metis recorded_def lessI nth_take)+
  show "rd ns (length fs) = Some (fst (upper fs))"
    using n l by (cases fs rule: upper.cases) (simp_all add: rd_def faddr_def nth_append)
  show "rd ds (length fs) = Some (if snd (upper fs) then 1 else 0)"
    using d l by (cases fs rule: upper.cases) (simp_all add: rd_def fdir_def nth_append)
qed

lemma recorded_tl: "recorded ns ds (f # fs) \<Longrightarrow> recorded ns ds fs"
  unfolding recorded_def
  by (auto simp: take_Suc_conv_app_nth [of "Suc (length fs)"] append_eq_append_conv
      simp flip: append_Cons)

lemma recorded_Cons:
  assumes "recorded ns ds fs" "Suc (length fs) < MAX_TREE_HEIGHT"
  shows "recorded (ns[Suc (length fs) := faddr f]) (ds[Suc (length fs) := fdir f]) (f # fs)"
  using assms by (simp add: recorded_def take_list_update_Suc)

lemma sl_sub: "k \<le> m \<Longrightarrow> (of_nat m :: u32) - of_nat k = of_nat (m - k)"
  by simp

lemma sl_unat: "m \<le> 64 \<Longrightarrow> unat (of_nat m :: u32) = m"
  by (simp add: unat_of_nat)


section \<open>The first loop\<close>

lemma KeyComp_lex:
  assumes "n \<le> length as" "length bs = n"
  shows "KeyComp as bs n = Some (if take n as < bs then - 1 else if take n as > bs then 1 else 0)"
  using assms
proof (induction as bs n rule: KeyComp.induct)
  case (2 a as b bs n)
  then show ?case by (cases rule: linorder_cases [of a b]) auto
qed auto

lemma add_measures_sum:
  "length ms = n \<Longrightarrow> n \<le> length mx \<Longrightarrow> add_measures n ms mx = Some (map2 (+) ms (take n mx))"
  by (induction n ms mx rule: add_measures.induct) auto

text \<open>The measures and attributes of every node have the lengths that the tree says.\<close>

definition widths :: "nat \<Rightarrow> nat \<Rightarrow> rtree \<Rightarrow> bool" where
  "widths nm nd x \<longleftrightarrow> (\<forall>(k, m) \<in> set (rows x). length k = nd \<and> length m = nm)"

lemma widths_simps [simp]:
  "widths nm nd Lf"
  "widths nm nd (Nd l a c d r) \<longleftrightarrow> widths nm nd l \<and> widths nm nd r \<and> length (fst d) = nm \<and> length (snd d) = nd"
  by (auto simp: widths_def)

lemma record_step_ok:
  assumes "recorded (nodes t) (drcts t) fs" "Suc (length fs) < MAX_TREE_HEIGHT"
  shows "record_step x (if b then 1 else 0) (of_nat (Suc (length fs))) t =
     Some (t\<lparr>nodes := (nodes t)[Suc (length fs) := x], drcts := (drcts t)[Suc (length fs) := if b then 1 else 0]\<rparr>)"
    and "recorded ((nodes t)[Suc (length fs) := x]) ((drcts t)[Suc (length fs) := if b then 1 else 0]) (Fr b x c d s # fs)"
proof -
  have "unat (of_nat (Suc (length fs)) :: u32) = Suc (length fs)"
    using assms(2) by (intro sl_unat) (simp add: MAX_TREE_HEIGHT_def)
  then show "record_step x (if b then 1 else 0) (of_nat (Suc (length fs))) t =
     Some (t\<lparr>nodes := (nodes t)[Suc (length fs) := x], drcts := (drcts t)[Suc (length fs) := if b then 1 else 0]\<rparr>)"
    using assms unfolding record_step_def by (simp add: recorded_def array_simps del: of_nat_Suc)
  show "recorded ((nodes t)[Suc (length fs) := x]) ((drcts t)[Suc (length fs) := if b then 1 else 0]) (Fr b x c d s # fs)"
    using recorded_Cons [OF assms, of "Fr b x c d s"] by (simp add: faddr_def fdir_def)
qed

text \<open>
  The loop finds the node with the key and adds the measures to it, or it hangs a new node into
  the leaf that \<open>descend\<close> reaches and has recorded the path to it.
\<close>

definition merged_heap :: "row \<Rightarrow> nat \<Rightarrow> tptr \<Rightarrow> (tptr \<Rightarrow> tnode option) \<Rightarrow> tptr \<Rightarrow> tnode option" where
  "merged_heap row nm a h = (case h a of None \<Rightarrow> h
     | Some n \<Rightarrow> h(a \<mapsto> n\<lparr>meas := map2 (+) (meas n) (take nm (fst row))\<rparr>))"

definition hung_heap :: "frame list \<Rightarrow> tptr \<Rightarrow> (tptr \<Rightarrow> tnode option) \<Rightarrow> tptr \<Rightarrow> tnode option" where
  "hung_heap gs y h = (case h (fst (upper gs)) of None \<Rightarrow> h
     | Some n \<Rightarrow> h(fst (upper gs) \<mapsto> with_child (snd (upper gs)) (Some y) n))"

definition search_result :: "row \<Rightarrow> rbtree \<Rightarrow> frame list \<Rightarrow> rtree \<Rightarrow> search \<Rightarrow> bool" where
  "search_result row t gs y r \<longleftrightarrow>
    (case y of
       Nd l a c d r' \<Rightarrow> (\<exists>ns ds. r = Merged (t\<lparr>theap := merged_heap row (unat (tnm t)) a (theap t), nodes := ns, drcts := ds\<rparr>)
         \<and> recorded ns ds gs)
     | Lf \<Rightarrow> (\<exists>ns ds. r = Placed ((NEW_TREE_NODE t)\<lparr>theap := hung_heap gs (Slot (memaddr t)) (theap t), nodes := ns, drcts := ds\<rparr>)
           (Slot (memaddr t)) (of_nat (Suc (length gs)))
         \<and> recorded ns ds gs \<and> gs \<noteq> []))"

lemma NEW_TREE_NODE_simps [simp]:
  "theap (NEW_TREE_NODE t) = theap t" "nodes (NEW_TREE_NODE t) = nodes t" "drcts (NEW_TREE_NODE t) = drcts t"
  "mp (NEW_TREE_NODE t) = Some (Slot (memaddr t))" "treeNodeSize (NEW_TREE_NODE t) = treeNodeSize t"
  "memoryLimit (NEW_TREE_NODE t) = memoryLimit t" "tnd (NEW_TREE_NODE t) = tnd t" "tnm (NEW_TREE_NODE t) = tnm t"
  "memaddr (NEW_TREE_NODE t) = memaddr t + treeNodeSize t" "tcount (NEW_TREE_NODE t) = tcount t"
  "freeNodeCounter (NEW_TREE_NODE t) = freeNodeCounter t - 1" "nNodesLimit (NEW_TREE_NODE t) = nNodesLimit t"
  "nodeDataSize (NEW_TREE_NODE t) = nodeDataSize t"
  "memoryIsFull (NEW_TREE_NODE t) = (if freeNodeCounter t - 1 = 0 then 1 else memoryIsFull t)"
  by (simp_all add: NEW_TREE_NODE_def Let_def)

lemma NEW_TREE_NODE_path [simp]:
  "NEW_TREE_NODE (t\<lparr>theap := h, nodes := ns, drcts := ds\<rparr>) = (NEW_TREE_NODE t)\<lparr>theap := h, nodes := ns, drcts := ds\<rparr>"
  "NEW_TREE_NODE (t\<lparr>nodes := ns, drcts := ds\<rparr>) = (NEW_TREE_NODE t)\<lparr>nodes := ns, drcts := ds\<rparr>"
  by (simp_all add: NEW_TREE_NODE_def Let_def)

lemma search_result_path [simp]:
  "search_result row (t\<lparr>nodes := ns, drcts := ds\<rparr>) gs y r = search_result row t gs y r"
  by (cases y) (simp_all add: search_result_def)

lemma set_child_eq:
  "set_left = (\<lambda>p v. upd_node p (with_child False v))" "set_right = (\<lambda>p v. upd_node p (with_child True v))"
  by (simp_all add: fun_eq_iff set_left_def set_right_def with_child_def upd_node_def split: option.split)

lemma hang_ok:
  assumes "theap t a = Some n" "set_child = (\<lambda>p v. upd_node p (with_child b v))"
  shows "hang set_child a sl t = Some (Placed ((NEW_TREE_NODE t)
    \<lparr>theap := hung_heap (Fr b a c d s # fs) (Slot (memaddr t)) (theap t)\<rparr>) (Slot (memaddr t)) sl)"
  using assms by (simp add: hang_def Let_def upd_node_def hung_heap_def)

lemma tree_search_ok:
  assumes "rep (theap t) (Some a) x" "recorded (nodes t) (drcts t) fs"
    "widths (unat (tnm t)) (unat (tnd t)) x" "unat (tnm t) \<le> length (fst row)" "unat (tnd t) \<le> length (snd row)"
    "length fs + height_of x < MAX_TREE_HEIGHT" "descend (take (unat (tnd t)) (snd row)) fs x = (gs, y)"
  shows "\<exists>r. tree_search row a (of_nat (Suc (length fs))) t = Some r \<and> search_result row t gs y r"
  using assms
proof (induction "take (unat (tnd t)) (snd row)" fs x arbitrary: a t rule: descend.induct)
  case (2 fs l a' c d r)
  obtain n where n: "a' = a" "theap t a = Some n" "clr n = c" "(meas n, attributes n) = d"
    "rep (theap t) (left_p n) l" "rep (theap t) (right_p n) r" using "2.prems"(1) by auto
  let ?k = "take (unat (tnd t)) (snd row)"
  have w: "length (attributes n) = unat (tnd t)" "length (meas n) = unat (tnm t)"
    using "2.prems"(3) n(4) by auto
  have cmp: "KeyComp (snd row) (attributes n) (unat (tnd t)) = Some (if ?k < snd d then - 1 else if ?k > snd d then 1 else 0)"
    using KeyComp_lex [OF "2.prems"(5) w(1)] n(4) by auto
  have fit: "Suc (length fs) < MAX_TREE_HEIGHT" using "2.prems"(6) by simp
  show ?case
  proof (cases "?k = snd d")
    case True
    then have y: "gs = fs" "y = Nd l a' c d r" using "2.prems"(7) by simp_all
    have "add_measures (unat (tnm t)) (meas n) (fst row) = Some (map2 (+) (meas n) (take (unat (tnm t)) (fst row)))"
      using add_measures_sum [OF w(2) "2.prems"(4)] .
    then have "tree_search row a (of_nat (Suc (length fs))) t =
        Some (Merged (t\<lparr>theap := merged_heap row (unat (tnm t)) a (theap t)\<rparr>))"
      using True n(2) cmp by (subst tree_search.simps) (simp add: merged_heap_def upd_node_def)
    then show ?thesis
      using "2.prems"(2) y n(1) unfolding search_result_def
      by (cases t) (auto intro!: exI [of _ "nodes t"] exI [of _ "drcts t"])
  next
    case False
    define b where "b = (?k > snd d)"
    define child where "child = (if b then r else l)"
    define sib where "sib = (if b then l else r)"
    define q where "q = (if b then right_p n else left_p n)"
    define t1 where "t1 = t\<lparr>nodes := (nodes t)[Suc (length fs) := a],
      drcts := (drcts t)[Suc (length fs) := if b then 1 else 0]\<rparr>"
    have desc: "descend ?k (Fr b a c d sib # fs) child = (gs, y)"
      using "2.prems"(7) False n(1) by (auto simp: b_def child_def sib_def split: if_splits)
    have rec1: "recorded (nodes t1) (drcts t1) (Fr b a c d sib # fs)"
      using record_step_ok(2) [OF "2.prems"(2) fit] by (simp add: t1_def)
    have step: "record_step a (if b then 1 else 0) (of_nat (Suc (length fs))) t = Some t1"
      using record_step_ok(1) [OF "2.prems"(2) fit] by (simp add: t1_def)
    have search: "tree_search row a (of_nat (Suc (length fs))) t =
      (case q of None \<Rightarrow> hang (if b then set_right else set_left) a (of_nat (Suc (Suc (length fs)))) t1
       | Some y \<Rightarrow> tree_search row y (of_nat (Suc (Suc (length fs)))) t1)"
      using step n(2) cmp False
      by (subst tree_search.simps) (auto simp: b_def q_def add.commute split: option.split)
    have child: "rep (theap t) q child" using n(5,6) by (simp add: q_def child_def)
    show ?thesis
    proof (cases child)
      case Lf
      then have "gs = Fr b a c d sib # fs" "y = Lf" "q = None" using desc child by simp_all
      then show ?thesis
        using search rec1 n(2) hang_ok [of t1 a n "if b then set_right else set_left" b]
        by (auto simp: search_result_def set_child_eq t1_def hung_heap_def
            intro!: exI [of _ "nodes t1"] exI [of _ "drcts t1"])
    next
      case (Nd l' a'' c' d' r')
      then obtain z where z: "q = Some z" using child by auto
      have "\<exists>r. tree_search row z (of_nat (Suc (length (Fr b a c d sib # fs)))) t1 = Some r \<and> search_result row t1 gs y r"
      proof (cases b)
        case True
        then have lt: "\<not> ?k < snd d" "?k > snd d" by (auto simp: b_def)
        show ?thesis
          using "2.hyps"(2) [OF lt, of t1 z] "2.prems"(3-6) child z rec1 desc True n(1)
          by (simp add: t1_def child_def sib_def)
      next
        case False
        then have lt: "?k < snd d" using \<open>?k \<noteq> snd d\<close> by (auto simp: b_def)
        show ?thesis
          using "2.hyps"(1) [OF lt, of t1 z] "2.prems"(3-6) child z rec1 desc False n(1)
          by (simp add: t1_def child_def sib_def)
      qed
      then show ?thesis using search z by (auto simp: t1_def)
    qed
  qed
qed simp


section \<open>The second loop\<close>

lemma recorded_short: "recorded ns ds fs \<Longrightarrow> length fs < 64"
  by (simp add: recorded_def MAX_TREE_HEIGHT_def)

lemma path_index:
  assumes "k \<le> m" "m \<le> 64" shows "unat ((of_nat m :: u32) - of_nat k) = m - k"
  using sl_sub [OF assms(1)] sl_unat [of "m - k"] assms(2) by simp

lemma recorded_three:
  assumes "recorded ns ds (f1 # f2 # fs)" and sl: "sl = (of_nat (Suc (length (f1 # f2 # fs))) :: u32)"
  shows "rd ns (unat (sl - 1)) = Some (fst (upper (f1 # f2 # fs)))"
    "rd ds (unat (sl - 1)) = Some (if snd (upper (f1 # f2 # fs)) then 1 else 0)"
    "rd ns (unat (sl - 2)) = Some (fst (upper (f2 # fs)))"
    "rd ds (unat (sl - 2)) = Some (if snd (upper (f2 # fs)) then 1 else 0)"
    "rd ns (unat (sl - 3)) = Some (fst (upper fs))"
    "rd ds (unat (sl - 3)) = Some (if snd (upper fs) then 1 else 0)"
    "\<not> sl < 3" "sl - 2 = of_nat (Suc (length fs))"
proof -
  let ?m = "Suc (length (f1 # f2 # fs))"
  have m: "?m \<le> 64" using recorded_short [OF assms(1)] by simp
  have i: "unat (sl - 1) = Suc (Suc (length fs))" "unat (sl - 2) = Suc (length fs)" "unat (sl - 3) = length fs"
    unfolding sl using path_index [OF _ m, of 1] path_index [OF _ m, of 2] path_index [OF _ m, of 3] by simp_all
  note r = recorded_top [OF assms(1)] recorded_top [OF recorded_tl [OF assms(1)]]
    recorded_top [OF recorded_tl [OF recorded_tl [OF assms(1)]]]
  show "rd ns (unat (sl - 1)) = Some (fst (upper (f1 # f2 # fs)))"
    "rd ds (unat (sl - 1)) = Some (if snd (upper (f1 # f2 # fs)) then 1 else 0)"
    "rd ns (unat (sl - 2)) = Some (fst (upper (f2 # fs)))"
    "rd ds (unat (sl - 2)) = Some (if snd (upper (f2 # fs)) then 1 else 0)"
    "rd ns (unat (sl - 3)) = Some (fst (upper fs))"
    "rd ds (unat (sl - 3)) = Some (if snd (upper fs) then 1 else 0)"
    unfolding i using r by simp_all
  have "unat sl = ?m" unfolding sl using sl_unat [OF m] .
  then show "\<not> sl < 3" by (simp add: word_less_nat_alt)
  show "sl - 2 = of_nat (Suc (length fs))" unfolding sl using sl_sub [of 2 ?m] by simp
qed

text \<open>The last assignment of a rotation puts the rotated subtree into the hole.\<close>

lemma rotation_done:
  assumes "zrep h fs p" "rep h (Some y) z" "distinct (Root # faddrs fs @ addrs z)" "h (fst (upper fs)) = Some n"
  shows "whole (h(fst (upper fs) \<mapsto> with_child (snd (upper fs)) (Some y) n)) (plug fs z)"
proof -
  have "fst (upper fs) \<notin> set (addrs z)" using upper_in [of fs] assms(3) by auto
  then have "rep (h(fst (upper fs) \<mapsto> with_child (snd (upper fs)) (Some y) n)) (Some y) z" using assms(2) by simp
  then show ?thesis
    using zrep_set_child [OF assms(1) _ assms(4)] assms(3) unfolding whole_plug by auto
qed

lemma set_top:
  assumes "d3 = (if b then 1 else 0 :: u32)"
  shows "(if d3 \<noteq> 0 then set_right q v t else set_left q v t) = upd_node q (with_child b v) t"
  using assms by (simp add: set_child_eq)

lemma rotate_left_branch_ok:
  assumes z: "zrep (theap t) (Fr b1 p cp dp sp # Fr False g cg dg sg # fs) (Some a)" "rep (theap t) (Some a) x"
    and d: "distinct (Root # faddrs (Fr b1 p cp dp sp # Fr False g cg dg sg # fs) @ addrs x)"
    and r: "recorded (nodes t) (drcts t) (Fr b1 p cp dp sp # Fr False g cg dg sg # fs)"
    and sl: "sl = of_nat (Suc (length (Fr b1 p cp dp sp # Fr False g cg dg sg # fs)))"
  shows "\<exists>h. rotate_left_branch sl t = Some (t\<lparr>theap := h\<rparr>)
    \<and> whole h (plug fs (rotate False b1 (plug1 (Fr b1 p cp dp sp) x) g dg sg))"
proof -
  note rd = recorded_three [OF r sl]
  obtain np ng where n: "theap t p = Some np" "theap t g = Some ng" using z by auto
  obtain nq where nq: "theap t (fst (upper fs)) = Some nq" using z zrep_upper by fastforce
  have q: "fst (upper fs) \<noteq> p" "fst (upper fs) \<noteq> g" "p \<noteq> g" using d upper_in [of fs] by auto
  show ?thesis
  proof (cases b1)
    case False
    let ?h0 = "(theap t)(p \<mapsto> np\<lparr>clr := BLACK, right_p := Some g\<rparr>, g \<mapsto> ng\<lparr>clr := RED, left_p := right_p np\<rparr>)"
    have "rotate_left_branch sl t = Some (t\<lparr>theap := ?h0(fst (upper fs) \<mapsto> with_child (snd (upper fs)) (Some p) nq)\<rparr>)"
      using rd n nq q False
      by (simp add: rotate_left_branch_def set_clr_def set_top set_child_eq upd_node_def with_child_def
          fun_upd_twist cong: if_cong)
    moreover have "whole (?h0(fst (upper fs) \<mapsto> with_child (snd (upper fs)) (Some p) nq))
        (plug fs (Nd x p BLACK dp (Nd sp g RED dg sg)))"
      by (rule rotation_done [where p = "Some g"]) (use z d n nq q False in \<open>auto\<close>)
    ultimately show ?thesis using False by (auto simp: rotate_def)
  next
    case True
    obtain l c e r where x: "x = Nd l a c e r" using z by (cases x) auto
    obtain na where na: "theap t a = Some na" using z x by auto
    have ne: "a \<noteq> p" "a \<noteq> g" "fst (upper fs) \<noteq> a" using d x upper_in [of fs] by auto
    have right: "right_p np = Some a" using z n True by auto
    let ?h0 = "(theap t)(p \<mapsto> np\<lparr>right_p := left_p na\<rparr>, a \<mapsto> na\<lparr>left_p := Some p, clr := BLACK, right_p := Some g\<rparr>,
      g \<mapsto> ng\<lparr>clr := RED, left_p := right_p na\<rparr>)"
    have "rotate_left_branch sl t = Some (t\<lparr>theap := ?h0(fst (upper fs) \<mapsto> with_child (snd (upper fs)) (Some a) nq)\<rparr>)"
      using rd n nq q True na ne right
      by (simp add: rotate_left_branch_def set_clr_def set_top set_child_eq upd_node_def with_child_def
          fun_upd_twist cong: if_cong)
    moreover have "whole (?h0(fst (upper fs) \<mapsto> with_child (snd (upper fs)) (Some a) nq))
        (plug fs (Nd (Nd sp p cp dp l) a BLACK e (Nd r g RED dg sg)))"
      by (rule rotation_done [where p = "Some g"]) (use z d n nq q True na ne x in \<open>auto\<close>)
    ultimately show ?thesis using True x by (auto simp: rotate_def)
  qed
qed

lemma rotate_right_branch_ok:
  assumes z: "zrep (theap t) (Fr b1 p cp dp sp # Fr True g cg dg sg # fs) (Some a)" "rep (theap t) (Some a) x"
    and d: "distinct (Root # faddrs (Fr b1 p cp dp sp # Fr True g cg dg sg # fs) @ addrs x)"
    and r: "recorded (nodes t) (drcts t) (Fr b1 p cp dp sp # Fr True g cg dg sg # fs)"
    and sl: "sl = of_nat (Suc (length (Fr b1 p cp dp sp # Fr True g cg dg sg # fs)))"
  shows "\<exists>h. rotate_right_branch sl t = Some (t\<lparr>theap := h\<rparr>)
    \<and> whole h (plug fs (rotate True b1 (plug1 (Fr b1 p cp dp sp) x) g dg sg))"
proof -
  note rd = recorded_three [OF r sl]
  obtain np ng where n: "theap t p = Some np" "theap t g = Some ng" using z by auto
  obtain nq where nq: "theap t (fst (upper fs)) = Some nq" using z zrep_upper by fastforce
  have q: "fst (upper fs) \<noteq> p" "fst (upper fs) \<noteq> g" "p \<noteq> g" using d upper_in [of fs] by auto
  show ?thesis
  proof (cases b1)
    case True
    let ?h0 = "(theap t)(p \<mapsto> np\<lparr>clr := BLACK, left_p := Some g\<rparr>, g \<mapsto> ng\<lparr>clr := RED, right_p := left_p np\<rparr>)"
    have "rotate_right_branch sl t = Some (t\<lparr>theap := ?h0(fst (upper fs) \<mapsto> with_child (snd (upper fs)) (Some p) nq)\<rparr>)"
      using rd n nq q True
      by (simp add: rotate_right_branch_def set_clr_def set_top set_child_eq upd_node_def with_child_def
          fun_upd_twist cong: if_cong)
    moreover have "whole (?h0(fst (upper fs) \<mapsto> with_child (snd (upper fs)) (Some p) nq))
        (plug fs (Nd (Nd sg g RED dg sp) p BLACK dp x))"
      by (rule rotation_done [where p = "Some g"]) (use z d n nq q True in \<open>auto\<close>)
    ultimately show ?thesis using True by (auto simp: rotate_def)
  next
    case False
    obtain l c e r where x: "x = Nd l a c e r" using z by (cases x) auto
    obtain na where na: "theap t a = Some na" using z x by auto
    have ne: "a \<noteq> p" "a \<noteq> g" "fst (upper fs) \<noteq> a" using d x upper_in [of fs] by auto
    have left: "left_p np = Some a" using z n False by auto
    let ?h0 = "(theap t)(p \<mapsto> np\<lparr>left_p := right_p na\<rparr>, a \<mapsto> na\<lparr>right_p := Some p, clr := BLACK, left_p := Some g\<rparr>,
      g \<mapsto> ng\<lparr>clr := RED, right_p := left_p na\<rparr>)"
    have "rotate_right_branch sl t = Some (t\<lparr>theap := ?h0(fst (upper fs) \<mapsto> with_child (snd (upper fs)) (Some a) nq)\<rparr>)"
      using rd n nq q False na ne left
      by (simp add: rotate_right_branch_def set_clr_def set_top set_child_eq upd_node_def with_child_def
          fun_upd_twist cong: if_cong)
    moreover have "whole (?h0(fst (upper fs) \<mapsto> with_child (snd (upper fs)) (Some a) nq))
        (plug fs (Nd (Nd sg g RED dg l) a BLACK e (Nd r p cp dp sp)))"
      by (rule rotation_done [where p = "Some g"]) (use z d n nq q False na ne x in \<open>auto\<close>)
    ultimately show ?thesis using False x by (auto simp: rotate_def)
  qed
qed


text \<open>Recolouring: the parent and the uncle become black, the grandparent red.\<close>

lemma recolour_ok:
  assumes z: "zrep h (Fr b1 p cp dp sp # Fr b2 g cg dg sg # fs) (Some a)" "rep h (Some a) x"
    and d: "distinct (Root # faddrs (Fr b1 p cp dp sp # Fr b2 g cg dg sg # fs) @ addrs x)"
    and sg: "sg = Nd ul u RED du ur" and n: "h p = Some np" "h g = Some ng" "h u = Some nu"
    and h': "h' = h(p \<mapsto> np\<lparr>clr := BLACK\<rparr>, u \<mapsto> nu\<lparr>clr := BLACK\<rparr>, g \<mapsto> ng\<lparr>clr := RED\<rparr>)"
  shows "zrep h' fs (Some g)
    \<and> rep h' (Some g) (plug1 (Fr b2 g RED dg (paint BLACK sg)) (plug1 (Fr b1 p BLACK dp sp) x))"
  using z d n unfolding h' sg by (cases b1; cases b2) auto

lemma uncle_red:
  assumes "rep (theap t) q sg"
  shows "is_red t q = Some (colour_of sg = RED)"
  using assms by (cases sg) (auto simp: is_red_def)

lemma rebalance_stops:
  assumes "rebalance sl t = Some t" "zrep (theap t) fs (Some a)" "rep (theap t) (Some a) x"
  shows "\<exists>h. rebalance sl t = Some (t\<lparr>theap := h\<rparr>) \<and> whole h (plug fs x)"
proof -
  have "whole (theap t) (plug fs x)" unfolding whole_plug using assms(2,3) by blast
  then show ?thesis using assms(1) by (cases t) (auto intro!: exI [of _ "theap t"])
qed

lemma rebalance_ok:
  assumes "zrep (theap t) fs (Some a)" "rep (theap t) (Some a) x" "distinct (Root # faddrs fs @ addrs x)"
    "recorded (nodes t) (drcts t) fs"
  shows "\<exists>h. rebalance (of_nat (Suc (length fs))) t = Some (t\<lparr>theap := h\<rparr>) \<and> whole h (fixup fs x)"
  using assms
proof (induction fs x arbitrary: a t rule: fixup.induct)
  case (1 b1 p cp dp sp b2 g cg dg sg fs x)
  let ?fs = "Fr b1 p cp dp sp # Fr b2 g cg dg sg # fs"
  let ?sl = "of_nat (Suc (length ?fs)) :: u32"
  note rd = recorded_three [OF "1.prems"(4) refl]
  obtain np ng where n: "theap t p = Some np" "clr np = cp" "theap t g = Some ng"
    "rep (theap t) (if b2 then left_p ng else right_p ng) sg"
    using "1.prems"(1) by (cases b2) auto
  have red: "is_red t (if b2 then left_p ng else right_p ng) = Some (colour_of sg = RED)"
    using uncle_red [OF n(4)] .
  show ?case
  proof (cases rule: fixup_cases [of cp b1 p dp sp b2 g cg dg sg fs x])
    case black
    then have "rebalance ?sl t = Some t" using rd n by (subst rebalance.simps) simp
    then show ?thesis
      using rebalance_stops [OF _ "1.prems"(1,2)] black(2) by (simp del: zrep.simps plug.simps)
  next
    case recolour
    then obtain ul u du ur where sg: "sg = Nd ul u RED du ur" by (cases sg) auto
    then obtain nu where nu: "theap t u = Some nu" "(if b2 then left_p ng else right_p ng) = Some u" using n(4) by auto
    have ne: "p \<noteq> u" "u \<noteq> g" "p \<noteq> g" using "1.prems"(3) sg by auto
    define h where h: "h = (theap t)(p \<mapsto> np\<lparr>clr := BLACK\<rparr>, u \<mapsto> nu\<lparr>clr := BLACK\<rparr>, g \<mapsto> ng\<lparr>clr := RED\<rparr>)"
    have step: "rebalance ?sl t = rebalance (of_nat (Suc (length fs))) (t\<lparr>theap := h\<rparr>)"
      using rd n nu ne red recolour
      by (subst rebalance.simps) (simp add: h set_clr_def upd_node_def split: if_splits)
    have "zrep h fs (Some g)
        \<and> rep h (Some g) (plug1 (Fr b2 g RED dg (paint BLACK sg)) (plug1 (Fr b1 p BLACK dp sp) x))"
      by (rule recolour_ok [OF "1.prems"(1-3) sg n(1,3) nu(1) h])
    moreover have "distinct (Root # faddrs fs @ addrs (plug1 (Fr b2 g RED dg (paint BLACK sg)) (plug1 (Fr b1 p BLACK dp sp) x)))"
      using "1.prems"(3) by (cases b1; cases b2) auto
    moreover have "recorded (nodes t) (drcts t) fs" using "1.prems"(4) by (blast dest: recorded_tl)
    ultimately show ?thesis
      using "1.IH" [of "t\<lparr>theap := h\<rparr>" g] step recolour by simp
  next
    case rotate
    have step: "rebalance ?sl t = (if b2 then rotate_right_branch ?sl t else rotate_left_branch ?sl t)"
      using rd n red rotate by (subst rebalance.simps) (simp split: if_splits)
    show ?thesis
    proof (cases b2)
      case True
      then show ?thesis
        using rotate_right_branch_ok [of t b1 p cp dp sp g cg dg sg fs a x ?sl] "1.prems" step rotate by simp
    next
      case False
      then show ?thesis
        using rotate_left_branch_ok [of t b1 p cp dp sp g cg dg sg fs a x ?sl] "1.prems" step rotate by simp
    qed
  qed
next
  case (2 f x)
  obtain n where n: "theap t (fst (upper [f])) = Some n" using 2(1) zrep_upper by blast
  then have "rebalance (of_nat (Suc (length [f]))) t = Some t"
    using recorded_top(1) [OF 2(4)] by (subst rebalance.simps) simp
  then show ?case using rebalance_stops [OF _ 2(1,2)] by simp
next
  case (3 x)
  obtain n where n: "theap t Root = Some n" using 3(1) by auto
  then have "rebalance (of_nat (Suc (length ([] :: frame list)))) t = Some t"
    using recorded_top(1) [OF 3(4)] by (subst rebalance.simps) simp
  then show ?case using rebalance_stops [OF _ 3(1,2)] by simp
qed

end
