(* ===== verification/Rbt_Insert.thy ===== *)
theory Rbt_Insert
  imports Rbt_Refine
begin

text \<open>
  The invariant of a view tree and its insertion: a red-black search tree in the memory pool,
  whose bookkeeping fits, to which \<open>TreeInsert\<close> adds a row or whose measures it adds to.
\<close>

section \<open>The invariant\<close>

text \<open>The bookkeeping of the pool with \<open>n\<close> nodes in use.\<close>

definition pool_ok :: "rbtree \<Rightarrow> nat \<Rightarrow> bool" where
  "pool_ok t n \<longleftrightarrow> 32 \<le> unat (treeNodeSize t)
     \<and> 4 * unat (tnd t) + 8 * unat (tnm t) \<le> unat (treeNodeSize t) \<and> unat (memaddr t) = n * unat (treeNodeSize t)
     \<and> nNodesLimit t = memoryLimit t div treeNodeSize t \<and> 0 < unat (nNodesLimit t) \<and> n \<le> unat (nNodesLimit t)
     \<and> unat (freeNodeCounter t) = unat (nNodesLimit t) - n
     \<and> memoryIsFull t = (if n = unat (nNodesLimit t) then 1 else 0) \<and> unat (tcount t) = n
     \<and> length (nodes t) = MAX_TREE_HEIGHT \<and> length (drcts t) = MAX_TREE_HEIGHT"

definition rb_inv :: "rbtree \<Rightarrow> rtree \<Rightarrow> bool" where
  "rb_inv t x \<longleftrightarrow> whole (theap t) x \<and> red_black x \<and> keys_sorted (rows x) \<and> widths (unat (tnm t)) (unat (tnd t)) x
     \<and> distinct (Root # addrs x) \<and> (\<forall>a. Slot a \<in> set (addrs x) \<longrightarrow> unat a < unat (memaddr t))
     \<and> pool_ok t (rsize x)"

lemma unat_less_32: "unat (w :: u32) < 4294967296"
  using unsigned_less [of w] by simp

lemma pool_limit:
  assumes "pool_ok t n" "m \<le> unat (nNodesLimit t)"
  shows "m * unat (treeNodeSize t) \<le> unat (memoryLimit t)"
proof -
  have "unat (nNodesLimit t) * unat (treeNodeSize t) \<le> unat (memoryLimit t)"
    using assms(1) by (simp add: pool_ok_def unat_div)
  then show ?thesis using assms(2) by (meson mult_le_mono1 order.trans)
qed

lemma pool_ok_arrays: "pool_ok t n \<Longrightarrow> length (nodes t) = MAX_TREE_HEIGHT" "pool_ok t n \<Longrightarrow> length (drcts t) = MAX_TREE_HEIGHT"
  by (simp_all add: pool_ok_def)

lemma pool_ok_heap [simp]: "pool_ok (t\<lparr>theap := h\<rparr>) n = pool_ok t n"
  by (simp add: pool_ok_def)

lemma pool_room:
  assumes "pool_ok t n" "n < unat (nNodesLimit t)"
  shows "in_pool t (Slot (memaddr t))" and "unat (memaddr t + treeNodeSize t) = Suc n * unat (treeNodeSize t)"
proof -
  have m: "Suc n * unat (treeNodeSize t) \<le> unat (memoryLimit t)"
    using pool_limit [OF assms(1), of "Suc n"] assms(2) by simp
  have a: "unat (memaddr t) = n * unat (treeNodeSize t)" using assms(1) by (simp add: pool_ok_def)
  show "in_pool t (Slot (memaddr t))" using m a by (simp add: in_pool_def)
  have "unat (memaddr t) + unat (treeNodeSize t) < 2 ^ 32"
    using m a unat_less_32 [of "memoryLimit t"] by simp
  then show "unat (memaddr t + treeNodeSize t) = Suc n * unat (treeNodeSize t)"
    using a by (simp add: unat_word_ariths)
qed

lemma pool_ok_new:
  assumes "pool_ok t n" "n < unat (nNodesLimit t)" "length ns = MAX_TREE_HEIGHT" "length ds = MAX_TREE_HEIGHT"
  shows "pool_ok ((NEW_TREE_NODE t)\<lparr>theap := h, nodes := ns, drcts := ds, tcount := tcount t + 1\<rparr>) (Suc n)"
proof -
  have f: "unat (freeNodeCounter t) = unat (nNodesLimit t) - n" "unat (tcount t) = n"
    using assms(1) by (simp_all add: pool_ok_def)
  then have nz: "freeNodeCounter t \<noteq> 0" using assms(2) by auto
  then have f1: "unat (freeNodeCounter t - 1) = unat (nNodesLimit t) - Suc n" using f(1) by (simp add: unat_minus_one)
  have "freeNodeCounter t - 1 = 0 \<longleftrightarrow> unat (freeNodeCounter t - 1) = 0" by (rule unsigned_eq_0_iff [symmetric])
  then have full: "freeNodeCounter t - 1 = 0 \<longleftrightarrow> Suc n = unat (nNodesLimit t)"
    unfolding f1 using assms(2) by linarith
  have "n + 1 < 2 ^ 32" using assms(2) unat_less_32 [of "nNodesLimit t"] by simp
  then have "unat (tcount t + 1) = Suc n" using f(2) by (simp add: unat_word_ariths)
  then show ?thesis
    using assms pool_room(2) [OF assms(1,2)] f1 full by (auto simp: pool_ok_def)
qed

text \<open>The height of the tree leaves room in the two arrays.\<close>

lemma rb_inv_height:
  assumes "rb_inv t x"
  shows "height_of x < 60"
proof -
  have p: "pool_ok t (rsize x)" and r: "red_black x" using assms by (simp_all add: rb_inv_def)
  have "32 \<le> unat (treeNodeSize t)" using p by (simp add: pool_ok_def)
  then have "rsize x * 32 \<le> rsize x * unat (treeNodeSize t)" by simp
  also have "\<dots> \<le> unat (memoryLimit t)" by (rule pool_limit [OF p]) (use p in \<open>unfold pool_ok_def, blast\<close>)
  also have "\<dots> < 2 ^ 32" using unat_less_32 [of "memoryLimit t"] by simp
  finally have "rsize x + 1 < 2 ^ 28" by simp
  then show ?thesis using red_black_height [OF r, of 28] by simp
qed


section \<open>Insertion\<close>

lemma rows_widths:
  assumes "widths nm nd x" "rows y = add_row k m (rows x)" "length k = nd" "length m = nm"
  shows "widths nm nd y"
proof -
  have "\<forall>(k', m') \<in> set (add_row k m xs). length k' = nd \<and> length m' = nm"
    if "\<forall>(k', m') \<in> set xs. length k' = nd \<and> length m' = nm" for xs
    using that assms(3,4) by (induction k m xs rule: add_row.induct) (auto split: if_splits)
  then show ?thesis using assms(1,2) by (simp add: widths_def)
qed

text \<open>The place at which the search ends splits the rows as \<open>add_row\<close> does.\<close>

lemma add_row_found:
  assumes "descend k [] x = (gs, Nd l a c d r)" "keys_sorted (rows x)"
  shows "rows (plug gs (Nd l a c (map2 (+) (fst d) m, snd d) r)) = add_row k m (rows x)"
proof -
  have s: "\<forall>e \<in> set (rows_left gs @ rows l). fst e < k" "snd d = k"
    using descend_split [OF assms(1)] assms(2) by auto
  have "rows x = (rows_left gs @ rows l) @ (snd d, fst d) # rows r @ rows_right gs"
    using descend_plug [OF assms(1)] rows_plug [of gs "Nd l a c d r"] by simp
  then show ?thesis
    using add_row_skip [OF s(1)] s(2) by (simp add: rows_plug)
qed

lemma add_row_leaf:
  assumes "descend k [] x = (gs, Lf)" "keys_sorted (rows x)"
  shows "rows (plug gs (Nd Lf a c (m, k) Lf)) = add_row k m (rows x)"
proof -
  have s: "\<forall>e \<in> set (rows_left gs). fst e < k" "\<forall>e \<in> set (rows_right gs). k < fst e"
    using descend_split [OF assms(1)] assms(2) by auto
  have "rows x = rows_left gs @ rows_right gs" using descend_plug [OF assms(1)] rows_plug [of gs Lf] by simp
  then show ?thesis using add_row_skip [OF s(1)] add_row_new [OF s(2)] by (simp add: rows_plug)
qed

lemma whole_paint:
  assumes "whole h x" "x \<noteq> Lf" "distinct (Root # addrs x)"
  shows "\<exists>n a na. h Root = Some n \<and> left_p n = Some a \<and> h a = Some na \<and> a \<noteq> Root
    \<and> whole (h(a \<mapsto> na\<lparr>clr := BLACK\<rparr>)) (paint BLACK x)"
proof -
  obtain l a c d r where x: "x = Nd l a c d r" using assms(2) by (cases x) auto
  then obtain n na where "h Root = Some n" "left_p n = Some a" "h a = Some na" "a \<noteq> Root"
    "rep h (left_p na) l" "rep h (right_p na) r" "(meas na, attributes na) = d"
    using assms(1,3) by (auto simp: whole_def)
  then show ?thesis using x assms(3) by (auto simp: whole_def)
qed

text \<open>The first row.\<close>

lemma insert_first:
  assumes inv: "rb_inv t Lf" and len: "unat (tnm t) \<le> length (fst row)" "unat (tnd t) \<le> length (snd row)"
  defines "y \<equiv> Nd Lf (Slot (memaddr t)) BLACK (take (unat (tnm t)) (fst row), take (unat (tnd t)) (snd row)) Lf"
  shows "\<exists>t'. TreeInsert row t = Some t' \<and> rb_inv t' y \<and> tnd t' = tnd t \<and> tnm t' = tnm t \<and> memoryLimit t' = memoryLimit t"
proof -
  have p: "pool_ok t 0" and w: "whole (theap t) Lf" using inv by (simp_all add: rb_inv_def)
  obtain n where n: "theap t Root = Some n" "left_p n = None" using w by (auto simp: whole_def)
  have lim: "0 < unat (nNodesLimit t)" using p unfolding pool_ok_def by blast
  define h where "h = (theap t)(Root \<mapsto> n\<lparr>left_p := Some (Slot (memaddr t))\<rparr>, Slot (memaddr t) \<mapsto>
    \<lparr>left_p = None, right_p = None, clr = BLACK, meas = take (unat (tnm t)) (fst row), attributes = take (unat (tnd t)) (snd row)\<rparr>)"
  define t' where "t' = (NEW_TREE_NODE t)\<lparr>theap := h, nodes := nodes t, drcts := drcts t, tcount := tcount t + 1\<rparr>"
  have "TreeInsert row t = Some t'"
    using n pool_room(1) [OF p lim] len
    unfolding TreeInsert_def t'_def h_def NEW_TREE_NODE_def Let_def set_left_def upd_node_def fill_node_def
    by (cases t) (simp add: in_pool_def)
  moreover have "pool_ok t' (Suc 0)" unfolding t'_def by (rule pool_ok_new [OF p lim pool_ok_arrays [OF p]])
  moreover have "unat (memaddr t) < unat (memaddr t + treeNodeSize t)"
    using pool_room(2) [OF p lim] p by (simp add: pool_ok_def)
  ultimately show ?thesis
    using len by (auto simp: rb_inv_def y_def t'_def h_def whole_def red_black_def keys_sorted_def)
qed

text \<open>The start of the search in a tree that has rows.\<close>

lemma recorded_start:
  assumes "length ns = MAX_TREE_HEIGHT" "length ds = MAX_TREE_HEIGHT"
  shows "recorded (ns[0 := Root]) (ds[0 := 0]) []"
  using assms by (simp add: recorded_def MAX_TREE_HEIGHT_def take_Suc_conv_app_nth)

lemma search_from_root:
  assumes inv: "rb_inv t x" and "x \<noteq> Lf"
    and len: "unat (tnm t) \<le> length (fst row)" "unat (tnd t) \<le> length (snd row)"
    and desc: "descend (take (unat (tnd t)) (snd row)) [] x = (gs, y)"
  shows "\<exists>rn a ds ns r. theap t Root = Some rn \<and> left_p rn = Some a \<and> wr (drcts t) 0 0 = Some ds
    \<and> wr (nodes t) 0 Root = Some ns \<and> tree_search row a 1 (t\<lparr>drcts := ds, nodes := ns\<rparr>) = Some r
    \<and> search_result row t gs y r"
proof -
  let ?t = "t\<lparr>nodes := (nodes t)[0 := Root], drcts := (drcts t)[0 := 0]\<rparr>"
  have l: "length (nodes t) = MAX_TREE_HEIGHT" "length (drcts t) = MAX_TREE_HEIGHT"
    and w: "whole (theap t) x" "widths (unat (tnm t)) (unat (tnd t)) x"
    using inv by (simp_all add: rb_inv_def pool_ok_def)
  obtain rn where rn: "theap t Root = Some rn" "rep (theap t) (left_p rn) x" using w(1) by (auto simp: whole_def)
  then obtain a where a: "left_p rn = Some a" using assms(2) by (cases x) auto
  have "height_of x < MAX_TREE_HEIGHT" using rb_inv_height [OF inv] by (simp add: MAX_TREE_HEIGHT_def)
  then obtain r where r: "tree_search row a 1 ?t = Some r" "search_result row t gs y r"
    using tree_search_ok [of ?t a x "[]" row gs y] rn(2) a w(2) len desc recorded_start [OF l] by auto
  have "t\<lparr>drcts := (drcts t)[0 := 0], nodes := (nodes t)[0 := Root]\<rparr> = ?t" by simp
  then have "tree_search row a 1 (t\<lparr>drcts := (drcts t)[0 := 0], nodes := (nodes t)[0 := Root]\<rparr>) = Some r"
    using r(1) by metis
  then show ?thesis using rn(1) a l r(2) by (simp add: wr_def MAX_TREE_HEIGHT_def)
qed

text \<open>A row with a known key.\<close>

lemma insert_known:
  assumes inv: "rb_inv t x" and len: "unat (tnm t) \<le> length (fst row)" "unat (tnd t) \<le> length (snd row)"
    and desc: "descend (take (unat (tnd t)) (snd row)) [] x = (gs, Nd l a c d r)"
  defines "y \<equiv> plug gs (Nd l a c (map2 (+) (fst d) (take (unat (tnm t)) (fst row)), snd d) r)"
  shows "\<exists>t'. TreeInsert row t = Some t' \<and> rb_inv t' y \<and> tnd t' = tnd t \<and> tnm t' = tnm t \<and> memoryLimit t' = memoryLimit t"
proof -
  let ?m = "take (unat (tnm t)) (fst row)"
  have x: "x = plug gs (Nd l a c d r)" using descend_plug [OF desc] by simp
  then have "x \<noteq> Lf" using rsize_plug [of gs "Nd l a c d r"] by auto
  from search_from_root [OF inv this len desc] obtain ns ds where
    t': "TreeInsert row t = Some (t\<lparr>theap := merged_heap row (unat (tnm t)) a (theap t), nodes := ns, drcts := ds\<rparr>)"
    and rec: "recorded ns ds gs"
    by (auto simp: TreeInsert_def search_result_def)
  have i: "whole (theap t) x" "red_black x" "keys_sorted (rows x)" "widths (unat (tnm t)) (unat (tnd t)) x"
    "distinct (Root # addrs x)" "pool_ok t (rsize x)" using inv by (simp_all add: rb_inv_def)
  obtain q where z: "zrep (theap t) gs q" "rep (theap t) q (Nd l a c d r)" using i(1) x whole_plug by blast
  obtain n where n: "theap t a = Some n" "(meas n, attributes n) = d" using z(2) by auto
  have dist: "distinct (Root # faddrs gs @ addrs (Nd l a c d r))"
    using i(5) x distinct_plug [of gs "Nd l a c d r"] set_addrs_plug [of gs "Nd l a c d r"] by auto
  have same: "addrs y = addrs x" unfolding y_def x by (rule addrs_plug_cong) simp
  have "whole (merged_heap row (unat (tnm t)) a (theap t)) y"
    unfolding y_def whole_plug using z n dist
    by (intro exI [of _ q]) (auto simp: merged_heap_def)
  moreover have "red_black y"
    unfolding y_def using descend_ok [OF desc] i(2) by (intro zip_ok) (auto simp: red_black_def)
  moreover have rows: "rows y = add_row (take (unat (tnd t)) (snd row)) ?m (rows x)"
    unfolding y_def by (rule add_row_found [OF desc i(3)])
  moreover have "keys_sorted (rows y)" unfolding rows by (rule add_row_sorted [OF i(3)])
  moreover have "widths (unat (tnm t)) (unat (tnd t)) y" by (rule rows_widths [OF i(4) rows]) (use len in simp_all)
  moreover have "rsize y = rsize x" using same by (simp add: rsize_def)
  moreover have "length ns = MAX_TREE_HEIGHT" "length ds = MAX_TREE_HEIGHT" using rec by (simp_all add: recorded_def)
  ultimately show ?thesis
    using t' i(5,6) same inv by (simp add: rb_inv_def pool_ok_def)
qed

text \<open>The new node, hung into its place and filled, with the recorded path.\<close>

lemma hung_ok:
  assumes "zrep h gs None" "distinct (Root # faddrs gs)" "b \<noteq> Root" "b \<notin> set (faddrs gs)"
    and "n = \<lparr>left_p = None, right_p = None, clr = RED, meas = m, attributes = k\<rparr>"
  shows "zrep ((hung_heap gs b h)(b \<mapsto> n)) gs (Some b)"
    and "rep ((hung_heap gs b h)(b \<mapsto> n)) (Some b) (Nd Lf b RED (m, k) Lf)"
proof -
  obtain q where "h (fst (upper gs)) = Some q" using zrep_upper [OF assms(1)] by blast
  then have "zrep (hung_heap gs b h) gs (Some b)"
    using zrep_set_child [OF assms(1,2), of q "Some b"] by (simp add: hung_heap_def)
  then show "zrep ((hung_heap gs b h)(b \<mapsto> n)) gs (Some b)" using assms(3,4) by simp
qed (simp add: assms(5))

text \<open>A row with a new key, when there is room in the pool.\<close>

lemma insert_new:
  assumes inv: "rb_inv t x" and len: "unat (tnm t) \<le> length (fst row)" "unat (tnd t) \<le> length (snd row)"
    and desc: "descend (take (unat (tnd t)) (snd row)) [] x = (gs, Lf)" and "x \<noteq> Lf"
    and room: "rsize x < unat (nNodesLimit t)"
  defines "z \<equiv> Nd Lf (Slot (memaddr t)) RED (take (unat (tnm t)) (fst row), take (unat (tnd t)) (snd row)) Lf"
  shows "\<exists>t'. TreeInsert row t = Some t' \<and> rb_inv t' (paint BLACK (fixup gs z))
    \<and> tnd t' = tnd t \<and> tnm t' = tnm t \<and> memoryLimit t' = memoryLimit t"
proof -
  let ?b = "Slot (memaddr t)" and ?m = "take (unat (tnm t)) (fst row)" and ?k = "take (unat (tnd t)) (snd row)"
  let ?y = "paint BLACK (fixup gs z)"
  have x: "x = plug gs Lf" using descend_plug [OF desc] by simp
  have i: "whole (theap t) x" "red_black x" "keys_sorted (rows x)" "widths (unat (tnm t)) (unat (tnd t)) x"
    "distinct (Root # addrs x)" "pool_ok t (rsize x)" "\<forall>a. Slot a \<in> set (addrs x) \<longrightarrow> unat a < unat (memaddr t)"
    using inv by (simp_all add: rb_inv_def)
  have dist: "distinct (Root # faddrs gs)" "set (addrs x) = set (faddrs gs)"
    using i(5) x distinct_plug [of gs Lf] set_addrs_plug [of gs Lf] by auto
  have b: "?b \<notin> set (faddrs gs)" using i(7) dist(2) by auto
  have za: "addrs z = [?b]" "z \<noteq> Lf" by (simp_all add: z_def)
  from search_from_root [OF inv assms(5) len desc] obtain rn a ds0 ns0 ns ds where
    s: "theap t Root = Some rn" "left_p rn = Some a" "wr (drcts t) 0 0 = Some ds0" "wr (nodes t) 0 Root = Some ns0"
    "tree_search row a 1 (t\<lparr>drcts := ds0, nodes := ns0\<rparr>) =
      Some (Placed ((NEW_TREE_NODE t)\<lparr>theap := hung_heap gs ?b (theap t), nodes := ns, drcts := ds\<rparr>) ?b (of_nat (Suc (length gs))))"
    and rec: "recorded ns ds gs"
    by (auto simp: search_result_def)
  define n where "n = \<lparr>left_p = None, right_p = None, clr = RED, meas = ?m, attributes = ?k\<rparr>"
  define t1 where "t1 = (NEW_TREE_NODE t)\<lparr>theap := (hung_heap gs ?b (theap t))(?b \<mapsto> n), nodes := ns, drcts := ds,
    tcount := tcount t + 1\<rparr>"
  have fill: "fill_node ?b row RED ((NEW_TREE_NODE t)\<lparr>theap := hung_heap gs ?b (theap t), nodes := ns, drcts := ds,
      tcount := tcount t + 1\<rparr>) = Some t1"
    using pool_room(1) [OF i(6) room] len by (simp add: fill_node_def in_pool_def t1_def n_def)
  have "zrep (theap t) gs None" using i(1) x whole_plug [of "theap t" gs Lf] by simp
  note hung = hung_ok [OF this dist(1) _ b n_def]
  have dz: "distinct (Root # faddrs gs @ addrs z)" using dist(1) b za by auto
  obtain h where h: "rebalance (of_nat (Suc (length gs))) t1 = Some (t1\<lparr>theap := h\<rparr>)" "whole h (fixup gs z)"
    using rebalance_ok [of t1 gs ?b z] hung dz rec by (auto simp: t1_def z_def)
  have ad: "addrs ?y = addrs (plug gs z)" using fixup_addrs [OF za(2)] by simp
  have dy: "distinct (Root # addrs (fixup gs z))"
    using fixup_addrs [OF za(2)] dz distinct_plug [of gs z] set_addrs_plug [of gs z] by auto
  have "fixup gs z \<noteq> Lf" using fixup_addrs [OF za(2), of gs] set_addrs_plug [of gs z] za(1) by auto
  from whole_paint [OF h(2) this dy] obtain n' a' na where
    p: "h Root = Some n'" "left_p n' = Some a'" "h a' = Some na" "whole (h(a' \<mapsto> na\<lparr>clr := BLACK\<rparr>)) ?y" by blast
  have ins: "TreeInsert row t = Some (t1\<lparr>theap := h(a' \<mapsto> na\<lparr>clr := BLACK\<rparr>)\<rparr>)"
    unfolding TreeInsert_def using s fill h(1) p by (simp add: set_clr_def upd_node_def t1_def)
  have rows: "rows ?y = add_row ?k ?m (rows x)"
    using fixup_rows [OF za(2), of gs] add_row_leaf [OF desc i(3)] unfolding z_def by simp
  have "path_ok gs (bheight Lf)" using descend_ok [OF desc] i(2) by (simp add: red_black_def)
  then have rb: "red_black ?y" using fixup_ok [of gs z] by (simp add: z_def)
  have mem: "unat (memaddr t) < unat (memaddr t + treeNodeSize t)"
    using pool_room(2) [OF i(6) room] i(6) by (simp add: pool_ok_def)
  have sz: "rsize ?y = Suc (rsize x)" using ad za(1) rsize_plug [of gs z] rsize_plug [of gs Lf] x by (simp add: rsize_def)
  have "\<forall>a. Slot a \<in> set (addrs ?y) \<longrightarrow> unat a < unat (memaddr t + treeNodeSize t)"
    using ad za(1) set_addrs_plug [of gs z] dist(2) i(7) mem by auto
  moreover have "pool_ok t1 (rsize ?y)"
    unfolding sz t1_def by (rule pool_ok_new [OF i(6) room]) (use rec in \<open>simp_all add: recorded_def\<close>)
  then have "pool_ok (t1\<lparr>theap := h(a' \<mapsto> na\<lparr>clr := BLACK\<rparr>)\<rparr>) (rsize ?y)" by (simp only: pool_ok_heap)
  moreover have "widths (unat (tnm t)) (unat (tnd t)) ?y" by (rule rows_widths [OF i(4) rows]) (use len in simp_all)
  moreover have "keys_sorted (rows ?y)" unfolding rows by (rule add_row_sorted [OF i(3)])
  ultimately have "rb_inv (t1\<lparr>theap := h(a' \<mapsto> na\<lparr>clr := BLACK\<rparr>)\<rparr>) ?y"
    using p(4) rb dy by (simp add: rb_inv_def t1_def)
  then show ?thesis using ins by (auto simp: t1_def)
qed

lemma insert_any:
  assumes inv: "rb_inv t x" and room: "memoryIsFull t = 0"
    and len: "unat (tnm t) \<le> length (fst row)" "unat (tnd t) \<le> length (snd row)"
  shows "\<exists>t' y. TreeInsert row t = Some t' \<and> rb_inv t' y
    \<and> rows y = add_row (take (unat (tnd t)) (snd row)) (take (unat (tnm t)) (fst row)) (rows x)
    \<and> tnd t' = tnd t \<and> tnm t' = tnm t \<and> memoryLimit t' = memoryLimit t"
proof -
  have p: "pool_ok t (rsize x)" and s: "keys_sorted (rows x)" using inv by (simp_all add: rb_inv_def)
  have lim: "rsize x < unat (nNodesLimit t)" using p room by (auto simp: pool_ok_def split: if_splits)
  obtain gs y where d: "descend (take (unat (tnd t)) (snd row)) [] x = (gs, y)" by fastforce
  consider "x = Lf" | "x \<noteq> Lf" "y = Lf" | l a c e r where "y = Nd l a c e r" by (cases y) auto
  then show ?thesis
  proof cases
    case 1
    then show ?thesis using insert_first [of t row] inv len by fastforce
  next
    case 2
    show ?thesis
      using insert_new [OF inv len d [unfolded 2(2)] 2(1) lim] add_row_leaf [OF d [unfolded 2(2)] s] fixup_rows
      by (metis rows_paint rtree.distinct(1))
  next
    case 3
    show ?thesis
      using insert_known [OF inv len d [unfolded 3]] add_row_found [OF d [unfolded 3] s] by metis
  qed
qed

section \<open>A new tree\<close>

lemma tree_node_size_bounds:
  assumes "1 \<le> nd" "nd \<le> 20" "nm \<le> 4"
  shows "32 \<le> unat (tree_node_size nd nm)" "unat (tree_node_size nd nm) \<le> 144"
    "4 * unat nd + 8 * unat nm \<le> unat (tree_node_size nd nm)"
proof -
  have ab: "1 \<le> unat nd" "unat nd \<le> 20" "unat nm \<le> 4"
    using assms by (simp_all add: word_le_nat_alt)
  have s: "unat (32 + 4 * (nd - 1) + 8 * nm) = 28 + 4 * unat nd + 8 * unat nm"
    using ab by (simp add: unat_word_ariths)
  then have "unat (32 + 4 * (nd - 1) + 8 * nm + 4) = 32 + 4 * unat nd + 8 * unat nm"
    using ab by (simp add: unat_word_ariths)
  with s show "32 \<le> unat (tree_node_size nd nm)" "unat (tree_node_size nd nm) \<le> 144"
    "4 * unat nd + 8 * unat nm \<le> unat (tree_node_size nd nm)"
    unfolding tree_node_size_def Let_def using ab by (auto split: if_split)
qed

lemma initialize_inv:
  assumes "1 \<le> nd" "nd \<le> 20" "nm \<le> 4" "tree_node_size nd nm \<le> memoryLimit t"
    "length (nodes t) = MAX_TREE_HEIGHT" "length (drcts t) = MAX_TREE_HEIGHT"
  shows "rb_inv (InitializeTree nd nm t) Lf"
proof -
  note sz = tree_node_size_bounds [OF assms(1-3)]
  have "0 < unat (memoryLimit t div tree_node_size nd nm)"
    using sz(1) assms(4) by (simp add: unat_div word_le_nat_alt div_greater_zero_iff)
  then show ?thesis
    using sz(1,3) assms(5,6)
    by (simp add: rb_inv_def pool_ok_def InitializeTree_def whole_def empty_root_def red_black_def keys_sorted_def)
qed

section \<open>Property\<close>

text \<open>
  C29. \<open>TreeInsert\<close> on a view tree that is not full always returns, without leaving the memory pool or
  the path arrays, and gives a tree with the same invariant: a search tree in red-black balance
  whose nodes lie in the pool and whose counters fit.  Its rows in ascending order are those of the
  old tree with the row added under its key, or with its measures added to the row of that key.
\<close>
theorem TreeInsert_correct:
  assumes "rb_inv t x" and "memoryIsFull t = 0"
    and "unat (tnm t) \<le> length (fst row)" and "unat (tnd t) \<le> length (snd row)"
  shows "\<exists>t' y. TreeInsert row t = Some t' \<and> rb_inv t' y
    \<and> rows y = add_row (take (unat (tnd t)) (snd row)) (take (unat (tnm t)) (fst row)) (rows x)"
  using insert_any [OF assms] by blast

theorem TreeInsert_correct_witness:
  "\<exists>t' y. TreeInsert ([5], [2]) (InitializeTree 1 1 (CreateEmptyTree 1 1 4096 RED [] [])) = Some t'
    \<and> rb_inv t' y \<and> rows y = [([2], [5])]"
proof -
  let ?t = "InitializeTree 1 1 (CreateEmptyTree 1 1 4096 RED [] [])"
  have "rb_inv ?t Lf"
    by (rule initialize_inv) (simp_all add: CreateEmptyTree_def tree_node_size_def MAX_TREE_HEIGHT_def Let_def)
  moreover have "memoryIsFull ?t = 0" "tnm ?t = 1" "tnd ?t = 1" by (simp_all add: InitializeTree_def)
  ultimately show ?thesis using TreeInsert_correct [of ?t Lf "([5], [2])"] by simp
qed

end
