(* ===== verification/Rbt_View.thy ===== *)
theory Rbt_View
  imports Rbt_Insert
begin

text \<open>
  How the data-cube benchmark aggregates the rows of a view (\<open>RunFormation\<close> of \<open>DC/extbuild.c\<close>): rows
  are inserted into the view tree, and whenever the pool is full the tree is written to a file as
  one chunk and started anew.
\<close>

section \<open>The view\<close>

definition ADC_OK :: int where "ADC_OK = 0"

definition ADC_WRITE_FAILED :: int where "ADC_WRITE_FAILED = 1"

definition ADC_INTERNAL_ERROR :: int where "ADC_INTERNAL_ERROR = 2"

definition MAX_NUM_OF_CHUNKS :: nat where "MAX_NUM_OF_CHUNKS = 1024"

text \<open>
  The parameters of a chunk: the rows that are still in the file and their offset, and the window of
  rows that the merge has read.
\<close>

record chunk =
  curChunkNum :: u32
  chunkOffset :: u64
  posSubChunk :: u32
  curSubChunk :: u32

text \<open>The fields of \<open>ADC_VIEW_CNTL\<close> that the functions use; a file is a list of records.\<close>

record view_cntl =
  vtree :: rbtree
  selection :: "u32 list"
  vnd :: u32
  vnm :: u32
  vnv :: u32
  outRecSize :: u32
  nRowsToRead :: u32
  numberOfChunks :: u32
  chunksParams :: "chunk list"
  fileOfChunks :: "row list"
  vmemoryLimit :: u32
  viewFile :: "row list"
  nViewRows :: u32
  totalOfViewRows :: u32
  vmSums :: "u64 list"
  vchecksums :: "u64 list"

text \<open>\<open>SelectToView\<close>: the selected dimensions of a row, and its measures.\<close>

fun select_loop :: "u32 list \<Rightarrow> u32 list \<Rightarrow> nat \<Rightarrow> nat \<Rightarrow> u32 list option" where
  "select_loop ks ix i 0 = Some []"
| "select_loop ks ix i (Suc n) = do {
     x \<leftarrow> rd ix i;
     k \<leftarrow> rd ks (unat (x - 1));
     vs \<leftarrow> select_loop ks ix (Suc i) n;
     Some (k # vs) }"

definition SelectToView :: "row \<Rightarrow> u32 list \<Rightarrow> u32 \<Rightarrow> u32 \<Rightarrow> row option" where
  "SelectToView ib ix nm nv = do {
     vs \<leftarrow> select_loop (snd ib) ix 0 (unat nv);
     if unat nm \<le> length (fst ib) then Some (take (unat nm) (fst ib), vs) else None }"

text \<open>
  The end of a chunk: its parameters are recorded, the rows of the tree are written.  The flag
  says whether the number of chunks is compared with the limit, as it is inside the loop.
\<close>

definition end_chunk :: "(nat \<Rightarrow> bool) \<Rightarrow> bool \<Rightarrow> u64 \<Rightarrow> u32 \<Rightarrow> view_cntl \<Rightarrow> (int \<times> u64 \<times> view_cntl) option" where
  "end_chunk ok check off recsize v = do {
     c \<leftarrow> rd (chunksParams v) (unat (numberOfChunks v));
     cp \<leftarrow> wr (chunksParams v) (unat (numberOfChunks v)) (c\<lparr>curChunkNum := tcount (vtree v), chunkOffset := off\<rparr>);
     let v = v\<lparr>chunksParams := cp, numberOfChunks := numberOfChunks v + 1\<rparr> in
     if check \<and> MAX_NUM_OF_CHUNKS \<le> unat (numberOfChunks v) then Some (ADC_INTERNAL_ERROR, off, v)
     else let off = off + ucast (tcount (vtree v) * recsize) in do {
       rn \<leftarrow> theap (vtree v) Root;
       (e, f) \<leftarrow> WriteChunkToDisk ok (vtree v) (left_p rn) (fileOfChunks v);
       let v = v\<lparr>fileOfChunks := f\<rparr> in
       if e then Some (ADC_WRITE_FAILED, off, v) else Some (ADC_OK, off, v) } }"

text \<open>
  The loop over the rows.  The result of \<open>fread\<close> is not used, so at the end of the input the buffer
  keeps the last row; a buffer that was never read into has no value.
\<close>

fun run_loop :: "(nat \<Rightarrow> bool) \<Rightarrow> nat \<Rightarrow> row option \<Rightarrow> row list \<Rightarrow> u64 \<Rightarrow> view_cntl \<Rightarrow> (int \<times> u64 \<times> view_cntl) option" where
  "run_loop ok 0 attrs inp off v = Some (ADC_OK, off, v)"
| "run_loop ok (Suc n) attrs inp off v =
    (let attrs = (case inp of [] \<Rightarrow> attrs | r # _ \<Rightarrow> Some r) in do {
       ib \<leftarrow> attrs;
       vb \<leftarrow> SelectToView ib (selection v) (vnm v) (vnv v);
       t \<leftarrow> TreeInsert vb (vtree v);
       let v = v\<lparr>vtree := t\<rparr> in
       if memoryIsFull t \<noteq> 0 then do {
         (rc, off, v) \<leftarrow> end_chunk ok True off (outRecSize v) v;
         if rc \<noteq> ADC_OK then Some (rc, off, v)
         else run_loop ok n attrs (tl inp) off (v\<lparr>vtree := InitializeTree (vnv v) (vnm v) (vtree v)\<rparr>) }
       else run_loop ok n attrs (tl inp) off v })"

definition RunFormation :: "(nat \<Rightarrow> bool) \<Rightarrow> row list \<Rightarrow> view_cntl \<Rightarrow> (int \<times> view_cntl) option" where
  "RunFormation ok inp v = do {
     (rc, off, v) \<leftarrow> run_loop ok (unat (nRowsToRead v)) None inp 0
       (v\<lparr>vtree := InitializeTree (vnv v) (vnm v) (vtree v)\<rparr>);
     if rc \<noteq> ADC_OK then Some (rc, v)
     else if numberOfChunks v \<noteq> 0 \<and> tcount (vtree v) \<noteq> 0 then do {
       (rc, off, v) \<leftarrow> end_chunk ok False off (4 * vnv v + 8 * vnm v) v;
       Some (rc, v) }
     else Some (ADC_OK, v) }"

section \<open>Writing a chunk\<close>

fun write_rows :: "(nat \<Rightarrow> bool) \<Rightarrow> row list \<Rightarrow> row list \<Rightarrow> bool \<times> row list" where
  "write_rows ok [] f = (False, f)"
| "write_rows ok (r # rs) f = (if ok (length f) then write_rows ok rs (f @ [r]) else (True, f))"

lemma write_rows_append:
  "write_rows ok (rs @ rs') f = (case write_rows ok rs f of (e, f) \<Rightarrow> if e then (True, f) else write_rows ok rs' f)"
  by (induction rs arbitrary: f) simp_all

lemma write_rows_done: "write_rows ok rs f = (False, f') \<Longrightarrow> f' = f @ rs"
  by (induction rs arbitrary: f) (fastforce split: if_splits)+

lemma write_rows_failed: "write_rows ok rs f = (True, f') \<Longrightarrow> \<exists>k. \<not> ok k"
  by (induction rs arbitrary: f) (auto split: if_splits)

lemma WriteChunkToDisk_rows:
  "rep (theap t) p x \<Longrightarrow> WriteChunkToDisk ok t p f = Some (write_rows ok (map prod.swap (rows x)) f)"
proof (induction x arbitrary: p f)
  case Lf
  then show ?case by (simp add: WriteChunkToDisk.simps)
next
  case (Nd l a c d r)
  obtain n where n: "p = Some a" "theap t a = Some n" "(meas n, attributes n) = d"
    "rep (theap t) (left_p n) l" "rep (theap t) (right_p n) r" using Nd.prems by auto
  have d: "d = (meas n, attributes n)" using n(3) by simp
  show ?case
    using n(1,2) Nd.IH(1) [OF n(4)] Nd.IH(2) [OF n(5)]
    by (subst WriteChunkToDisk.simps)
      (simp add: d write_rows_append WriteToFile_def split: prod.split)
qed


text \<open>\<open>WriteViewToDiskCS\<close> visits the rows in the same order.\<close>

fun view_rows :: "(nat \<Rightarrow> bool) \<Rightarrow> nat \<Rightarrow> row list \<Rightarrow> sums \<times> row list \<Rightarrow> (bool \<times> sums \<times> row list) option" where
  "view_rows ok nm [] v = Some (False, v)"
| "view_rows ok nm (r # rs) v = do {
     s \<leftarrow> sums_node nm (fst r) (fst v);
     let (e, f) = WriteToFile ok r (snd v) in if e then Some (True, s, f) else view_rows ok nm rs (s, f) }"

lemma view_rows_append:
  "view_rows ok nm (rs @ rs') v = do { (e, v) \<leftarrow> view_rows ok nm rs v; if e then Some (True, v) else view_rows ok nm rs' v }"
  by (induction rs arbitrary: v) (auto simp: Let_def split: Option.bind_splits prod.splits)

lemma WriteViewToDiskCS_rows:
  "rep (theap t) p x \<Longrightarrow> WriteViewToDiskCS ok t p v = view_rows ok (unat (tnm t)) (map prod.swap (rows x)) v"
proof (induction x arbitrary: p v)
  case Lf
  then show ?case by (simp add: WriteViewToDiskCS.simps)
next
  case (Nd l a c d r)
  obtain n where n: "p = Some a" "theap t a = Some n" "(meas n, attributes n) = d"
    "rep (theap t) (left_p n) l" "rep (theap t) (right_p n) r" using Nd.prems by auto
  have d: "d = (meas n, attributes n)" using n(3) by simp
  show ?case
    using n(1,2) Nd.IH(1) [OF n(4)] Nd.IH(2) [OF n(5)]
    by (subst WriteViewToDiskCS.simps) (simp add: d view_rows_append Let_def case_prod_unfold cong: if_cong)
qed

section \<open>Totals\<close>

text \<open>The sum of a measure over the rows with a key.\<close>

definition total_of :: "nat \<Rightarrow> u32 list \<Rightarrow> (u32 list \<times> u64 list) list \<Rightarrow> u64" where
  "total_of i k rs = (\<Sum>(k', m) \<leftarrow> rs. if k' = k then m ! i else 0)"

lemma total_of_simps [simp]:
  "total_of i k [] = 0" "total_of i k (xs @ ys) = total_of i k xs + total_of i k ys"
  "total_of i k ((k', m) # xs) = (if k' = k then m ! i else 0) + total_of i k xs"
  by (simp_all add: total_of_def)

lemma total_of_add_row:
  assumes "i < nm" "length m = nm" "\<forall>(k', m') \<in> set xs. length m' = nm"
  shows "total_of i k (add_row k' m xs) = total_of i k xs + total_of i k [(k', m)]"
  using assms
proof (induction k' m xs rule: add_row.induct)
  case (2 k1 m k2 m' xs)
  then show ?case by (cases rule: linorder_cases [of k1 k2]) auto
qed simp

section \<open>The view of a row\<close>

definition view_row :: "view_cntl \<Rightarrow> row \<Rightarrow> u32 list \<times> u64 list" where
  "view_row v r = (map (\<lambda>x. snd r ! unat (x - 1)) (take (unat (vnv v)) (selection v)), take (unat (vnm v)) (fst r))"

lemma view_row_fields [simp]:
  "view_row (v\<lparr>vtree := t\<rparr>) = view_row v" "view_row (v\<lparr>fileOfChunks := f\<rparr>) = view_row v"
  "view_row (v\<lparr>chunksParams := cp, numberOfChunks := n\<rparr>) = view_row v"
  by (simp_all add: fun_eq_iff view_row_def)

text \<open>
  The settings of a view: the pool holds at least one node, dimensions are selected by number, from
  1; a record has four bytes for a dimension and eight for a measure.
\<close>

definition view_conf :: "view_cntl \<Rightarrow> bool" where
  "view_conf v \<longleftrightarrow> 1 \<le> vnv v \<and> vnv v \<le> 20 \<and> vnm v \<le> 4 \<and> tree_node_size (vnv v) (vnm v) \<le> memoryLimit (vtree v)
     \<and> length (chunksParams v) = MAX_NUM_OF_CHUNKS \<and> unat (vnv v) \<le> length (selection v)
     \<and> (\<forall>x \<in> set (take (unat (vnv v)) (selection v)). unat (x - 1) < unat (vnd v))
     \<and> outRecSize v = 4 * vnv v + 8 * vnm v"

definition rec_bytes :: "view_cntl \<Rightarrow> nat" where
  "rec_bytes v = 4 * unat (vnv v) + 8 * unat (vnm v)"

lemma rec_bytes_word: "view_conf v \<Longrightarrow> unat (4 * vnv v + 8 * vnm v) = rec_bytes v"
proof -
  assume "view_conf v"
  then have "unat (vnv v) \<le> 20" "unat (vnm v) \<le> 4" by (simp_all add: view_conf_def word_le_nat_alt)
  then show ?thesis by (simp add: rec_bytes_def unat_word_ariths)
qed

text \<open>The table of chunks in a file: the number of rows of each and the offset of the first.\<close>

definition chunk_table :: "nat \<Rightarrow> chunk list \<Rightarrow> (u32 list \<times> u64 list) list list \<Rightarrow> bool" where
  "chunk_table b cp cs \<longleftrightarrow> length cs \<le> length cp \<and> (\<forall>j < length cs.
     curChunkNum (cp ! j) = of_nat (length (cs ! j)) \<and> chunkOffset (cp ! j) = of_nat (b * length (concat (take j cs))))"

lemma chunk_table_snoc:
  assumes "chunk_table b cp cs" "length cs < length cp" "curChunkNum c = of_nat (length x)"
    "chunkOffset c = of_nat (b * length (concat cs))"
  shows "chunk_table b (cp[length cs := c]) (cs @ [x])"
  using assms by (auto simp: chunk_table_def less_Suc_eq nth_append)

definition row_widths :: "view_cntl \<Rightarrow> u32 list \<times> u64 list \<Rightarrow> bool" where
  "row_widths v e \<longleftrightarrow> length (fst e) = unat (vnv v) \<and> length (snd e) = unat (vnm v)"

definition chunk_ok :: "view_cntl \<Rightarrow> (u32 list \<times> u64 list) list \<Rightarrow> bool" where
  "chunk_ok v c \<longleftrightarrow> c \<noteq> [] \<and> keys_sorted c \<and> (\<forall>e \<in> set c. row_widths v e) \<and> rec_bytes v * length c < 2 ^ 32"

definition row_conf :: "view_cntl \<Rightarrow> row \<Rightarrow> bool" where
  "row_conf v r \<longleftrightarrow> unat (vnm v) \<le> length (fst r) \<and> unat (vnd v) \<le> length (snd r)"

lemma select_loop_map:
  assumes "i + n \<le> length ix" "\<forall>x \<in> set (take n (drop i ix)). unat (x - 1) < length ks"
  shows "select_loop ks ix i n = Some (map (\<lambda>x. ks ! unat (x - 1)) (take n (drop i ix)))"
  using assms
proof (induction n arbitrary: i)
  case (Suc n)
  then have "drop i ix = ix ! i # drop (Suc i) ix" by (intro drop_eq_nth_tl) simp
  then show ?case using Suc by (simp add: rd_def)
qed simp

lemma SelectToView_row:
  assumes "view_conf v" "row_conf v r"
  shows "SelectToView r (selection v) (vnm v) (vnv v) = Some (snd (view_row v r), fst (view_row v r))"
proof -
  have "\<forall>x \<in> set (take (unat (vnv v)) (selection v)). unat (x - 1) < length (snd r)"
    using assms unfolding view_conf_def row_conf_def by (meson less_le_trans)
  then show ?thesis
    using assms select_loop_map [of 0 "unat (vnv v)" "selection v" "snd r"]
    by (simp add: SelectToView_def view_row_def view_conf_def row_conf_def)
qed

section \<open>The loop\<close>

text \<open>
  After the rows \<open>done\<close>: the chunks \<open>cs\<close> are in the file, each in ascending order, with their sizes
  and offsets in the table; together with the tree they hold the keys and the totals of all rows.
\<close>

definition view_inv :: "view_cntl \<Rightarrow> rtree \<Rightarrow> (u32 list \<times> u64 list) list list \<Rightarrow> row list \<Rightarrow> bool" where
  "view_inv v x cs done \<longleftrightarrow> view_conf v \<and> rb_inv (vtree v) x \<and> tnd (vtree v) = vnv v \<and> tnm (vtree v) = vnm v
     \<and> fileOfChunks v = map prod.swap (concat cs) \<and> length cs = unat (numberOfChunks v)
     \<and> chunk_table (rec_bytes v) (chunksParams v) cs \<and> (\<forall>c \<in> set cs. chunk_ok v c)
     \<and> (\<forall>i < unat (vnm v). \<forall>k. total_of i k (concat cs @ rows x) = total_of i k (map (view_row v) done))
     \<and> fst ` set (concat cs @ rows x) = fst ` view_row v ` set done"

definition chunk_end :: "view_cntl \<Rightarrow> (u32 list \<times> u64 list) list list \<Rightarrow> u64" where
  "chunk_end v cs = of_nat (rec_bytes v * length (concat cs))"

lemma view_conf_fields [simp]:
  "rec_bytes (v\<lparr>vtree := t\<rparr>) = rec_bytes v" "chunk_ok (v\<lparr>vtree := t\<rparr>) = chunk_ok v"
  by (simp_all add: rec_bytes_def fun_eq_iff chunk_ok_def row_widths_def)

definition same_conf :: "view_cntl \<Rightarrow> view_cntl \<Rightarrow> bool" where
  "same_conf v v' \<longleftrightarrow> selection v' = selection v \<and> vnd v' = vnd v \<and> vnm v' = vnm v \<and> vnv v' = vnv v
     \<and> outRecSize v' = outRecSize v \<and> vmemoryLimit v' = vmemoryLimit v \<and> viewFile v' = viewFile v
     \<and> nViewRows v' = nViewRows v \<and> totalOfViewRows v' = totalOfViewRows v \<and> vmSums v' = vmSums v
     \<and> vchecksums v' = vchecksums v \<and> memoryLimit (vtree v') = memoryLimit (vtree v)"

lemma same_conf_eqs:
  assumes "same_conf v v'"
  shows "view_row v' = view_row v" "rec_bytes v' = rec_bytes v" "chunk_ok v' = chunk_ok v" "vnm v' = vnm v" "vnv v' = vnv v"
    "chunk_end v' = chunk_end v"
  using assms by (simp_all add: fun_eq_iff same_conf_def view_row_def rec_bytes_def chunk_ok_def row_widths_def chunk_end_def)

lemma insert_step:
  assumes inv: "view_inv v x cs done" and room: "memoryIsFull (vtree v) = 0" and r: "row_conf v r"
  shows "\<exists>t y. TreeInsert (snd (view_row v r), fst (view_row v r)) (vtree v) = Some t
    \<and> view_inv (v\<lparr>vtree := t\<rparr>) y cs (done @ [r]) \<and> memoryLimit t = memoryLimit (vtree v) \<and> rows y \<noteq> []"
proof -
  let ?k = "fst (view_row v r)" and ?m = "snd (view_row v r)"
  have i: "view_conf v" "rb_inv (vtree v) x" "tnd (vtree v) = vnv v" "tnm (vtree v) = vnm v"
    using inv by (simp_all add: view_inv_def)
  have len: "length ?k = unat (vnv v)" "length ?m = unat (vnm v)"
    using i(1) r by (simp_all add: view_row_def view_conf_def row_conf_def)
  obtain t y where t: "TreeInsert (?m, ?k) (vtree v) = Some t" "rb_inv t y" "rows y = add_row ?k ?m (rows x)"
    "tnd t = vnv v" "tnm t = vnm v" "memoryLimit t = memoryLimit (vtree v)"
    using insert_any [OF i(2) room, of "(?m, ?k)"] i(3,4) len by auto
  have w: "\<forall>(k', m') \<in> set (rows x). length m' = unat (vnm v)"
    using i(2,4) by (auto simp: rb_inv_def widths_def)
  have "total_of j k (concat cs @ rows y) = total_of j k (map (view_row v) (done @ [r]))" if "j < unat (vnm v)" for j k
  proof -
    have "total_of j k (rows y) = total_of j k (rows x) + total_of j k [(?k, ?m)]"
      unfolding t(3) by (rule total_of_add_row [OF that len(2) w])
    moreover have "total_of j k (concat cs @ rows x) = total_of j k (map (view_row v) done)"
      using inv that by (simp add: view_inv_def)
    ultimately show ?thesis by (simp add: algebra_simps)
  qed
  moreover have keys: "fst ` set (rows y) = insert ?k (fst ` set (rows x))"
    unfolding t(3) using keys_add_row [of ?k ?m "rows x"] by simp
  ultimately have "view_inv (v\<lparr>vtree := t\<rparr>) y cs (done @ [r])"
    using inv t by (auto simp: view_inv_def view_conf_def image_Un)
  then show ?thesis using t(1,6) keys by auto
qed

text \<open>The ways in which the function fails: a failed write, or too many chunks.\<close>

definition failed :: "(nat \<Rightarrow> bool) \<Rightarrow> int \<Rightarrow> view_cntl \<Rightarrow> bool" where
  "failed ok rc v \<longleftrightarrow> rc = ADC_WRITE_FAILED \<and> (\<exists>k. \<not> ok k)
     \<or> rc = ADC_INTERNAL_ERROR \<and> unat (numberOfChunks v) = MAX_NUM_OF_CHUNKS"

text \<open>Writing a chunk keeps the totals; the tree is still that of the chunk.\<close>

lemma chunk_fits:
  assumes inv: "view_inv v x cs done"
  shows "rec_bytes v * length (rows x) \<le> unat (memoryLimit (vtree v))" "tcount (vtree v) = of_nat (length (rows x))"
proof -
  have p: "pool_ok (vtree v) (length (rows x))" and w: "tnd (vtree v) = vnv v" "tnm (vtree v) = vnm v"
    using inv by (simp_all add: view_inv_def rb_inv_def)
  have "length (rows x) * rec_bytes v \<le> length (rows x) * unat (treeNodeSize (vtree v))"
    using p w by (simp add: pool_ok_def rec_bytes_def)
  also have "\<dots> \<le> unat (memoryLimit (vtree v))"
    by (rule pool_limit [OF p]) (use p in \<open>unfold pool_ok_def, blast\<close>)
  finally show "rec_bytes v * length (rows x) \<le> unat (memoryLimit (vtree v))" by (simp add: mult.commute)
  have "unat (tcount (vtree v)) = length (rows x)" using p by (simp add: pool_ok_def)
  moreover have "of_nat (unat (tcount (vtree v))) = tcount (vtree v)" by simp
  ultimately show "tcount (vtree v) = of_nat (length (rows x))" by metis
qed

lemma chunk_bytes:
  assumes inv: "view_inv v x cs done"
  shows "ucast (tcount (vtree v) * (4 * vnv v + 8 * vnm v)) = (of_nat (rec_bytes v * length (rows x)) :: u64)"
proof -
  have c: "view_conf v" using inv by (simp add: view_inv_def)
  have "of_nat (unat (4 * vnv v + 8 * vnm v)) = 4 * vnv v + 8 * vnm v" by simp
  then have "4 * vnv v + 8 * vnm v = of_nat (rec_bytes v)" unfolding rec_bytes_word [OF c] by simp
  then have "tcount (vtree v) * (4 * vnv v + 8 * vnm v) = of_nat (rec_bytes v * length (rows x))"
    unfolding chunk_fits(2) [OF inv] by (simp only: of_nat_mult mult.commute)
  moreover have "rec_bytes v * length (rows x) < 2 ^ 32"
    using chunk_fits(1) [OF inv] unat_less_32 [of "memoryLimit (vtree v)"] by simp
  ultimately show ?thesis 
    by (simp add: word_unat_eq_iff unsigned_ucast_eq unsigned_of_nat take_bit_nat_eq_self del: of_nat_mult)
qed

lemma end_chunk_step:
  assumes inv: "view_inv v x cs done" and n: "unat (numberOfChunks v) < MAX_NUM_OF_CHUNKS" and ne: "rows x \<noteq> []"
    and off: "off = chunk_end v cs" and rs: "recsize = 4 * vnv v + 8 * vnm v"
  shows "\<exists>rc off' v'. end_chunk ok check off recsize v = Some (rc, off', v') \<and> same_conf v v'
    \<and> vtree v' = vtree v \<and> unat (numberOfChunks v') = Suc (unat (numberOfChunks v))
    \<and> (rc = ADC_OK \<longrightarrow> view_conf v' \<and> fileOfChunks v' = map prod.swap (concat (cs @ [rows x]))
         \<and> (check \<longrightarrow> unat (numberOfChunks v') < MAX_NUM_OF_CHUNKS) \<and> off' = chunk_end v (cs @ [rows x])
         \<and> chunk_table (rec_bytes v) (chunksParams v') (cs @ [rows x]) \<and> chunk_ok v (rows x))
    \<and> (rc = ADC_OK \<or> failed ok rc v')"
proof -
  have i: "view_conf v" "rb_inv (vtree v) x" "fileOfChunks v = map prod.swap (concat cs)"
    "chunk_table (rec_bytes v) (chunksParams v) cs" "length cs = unat (numberOfChunks v)"
    "tnd (vtree v) = vnv v" "tnm (vtree v) = vnm v"
    using inv by (simp_all add: view_inv_def)
  have cp: "unat (numberOfChunks v) < length (chunksParams v)" using i(1) n by (simp add: view_conf_def)
  obtain rn where rn: "theap (vtree v) Root = Some rn" "rep (theap (vtree v)) (left_p rn) x"
    using i(2) by (auto simp: rb_inv_def whole_def)
  obtain e f where f: "write_rows ok (map prod.swap (rows x)) (fileOfChunks v) = (e, f)" by fastforce
  have num: "unat (numberOfChunks v + 1) = Suc (unat (numberOfChunks v))"
    using n by (simp add: unat_word_ariths MAX_NUM_OF_CHUNKS_def)
  define c where "c = (chunksParams v ! unat (numberOfChunks v))\<lparr>curChunkNum := tcount (vtree v), chunkOffset := off\<rparr>"
  let ?cp = "(chunksParams v)[unat (numberOfChunks v) := c]"
  have table: "chunk_table (rec_bytes v) ?cp (cs @ [rows x])"
    unfolding i(5) [symmetric]
    by (rule chunk_table_snoc [OF i(4)]) (use cp i(5) chunk_fits(2) [OF inv] off in \<open>simp_all add: c_def chunk_end_def\<close>)
  have size: "rec_bytes v * length (rows x) < 2 ^ 32"
    using chunk_fits(1) [OF inv] unat_less_32 [of "memoryLimit (vtree v)"] by simp
  have ok: "chunk_ok v (rows x)"
    using ne size i(2,6,7) by (auto simp: chunk_ok_def rb_inv_def widths_def row_widths_def)
  define v1 where "v1 = v\<lparr>chunksParams := ?cp, numberOfChunks := numberOfChunks v + 1\<rparr>"
  have bytes: "off + ucast (tcount (vtree v) * recsize) = chunk_end v (cs @ [rows x])"
    unfolding rs chunk_bytes [OF inv] by (simp add: off chunk_end_def algebra_simps)
  have chunk: "end_chunk ok check off recsize v =
      (if check \<and> MAX_NUM_OF_CHUNKS \<le> Suc (unat (numberOfChunks v)) then Some (ADC_INTERNAL_ERROR, off, v1)
       else Some (if e then ADC_WRITE_FAILED else ADC_OK, chunk_end v (cs @ [rows x]), v1\<lparr>fileOfChunks := f\<rparr>))"
    using rn(1) cp num f WriteChunkToDisk_rows [OF rn(2), of ok "fileOfChunks v"] bytes
    by (simp add: end_chunk_def Let_def wr_def rd_def v1_def c_def)
  have v1: "same_conf v v1" "vtree v1 = vtree v" "unat (numberOfChunks v1) = Suc (unat (numberOfChunks v))"
    "view_conf v1" "chunksParams v1 = ?cp"
    using i(1) num by (simp_all add: v1_def same_conf_def view_conf_def)
  show ?thesis
  proof (cases "check \<and> MAX_NUM_OF_CHUNKS \<le> Suc (unat (numberOfChunks v))")
    case True
    then show ?thesis using chunk v1(1-3) n by (simp add: failed_def ADC_OK_def ADC_INTERNAL_ERROR_def)
  next
    case False
    have "same_conf v (v1\<lparr>fileOfChunks := f\<rparr>)" "view_conf (v1\<lparr>fileOfChunks := f\<rparr>)"
      using v1(1,4) by (simp_all add: same_conf_def view_conf_def)
    moreover have "f = map prod.swap (concat (cs @ [rows x]))" if "\<not> e"
      using write_rows_done [of ok "map prod.swap (rows x)" "fileOfChunks v" f] f that i(3) by simp
    moreover have "\<exists>k. \<not> ok k" if e using write_rows_failed f that by auto
    ultimately show ?thesis
      using False chunk v1(2,3,5) table ok by (auto simp: failed_def ADC_OK_def ADC_WRITE_FAILED_def)
  qed
qed


text \<open>A new tree after a chunk.\<close>

lemma restart_inv:
  assumes inv: "view_inv v x cs done" and v': "same_conf v v'" "view_conf v'" "vtree v' = vtree v"
    "unat (numberOfChunks v') = Suc (unat (numberOfChunks v))" "fileOfChunks v' = map prod.swap (concat (cs @ [rows x]))"
    "chunk_table (rec_bytes v) (chunksParams v') (cs @ [rows x])" "chunk_ok v (rows x)"
  shows "view_inv (v'\<lparr>vtree := InitializeTree (vnv v') (vnm v') (vtree v')\<rparr>) Lf (cs @ [rows x]) done"
proof -
  have rb: "rb_inv (vtree v') x" using inv v'(3) by (simp add: view_inv_def)
  have "rb_inv (InitializeTree (vnv v') (vnm v') (vtree v')) Lf"
    using v'(2) rb by (intro initialize_inv) (auto simp: view_conf_def rb_inv_def pool_ok_def)
  moreover have "memoryLimit (InitializeTree (vnv v') (vnm v') (vtree v')) = memoryLimit (vtree v')"
    "tnd (InitializeTree (vnv v') (vnm v') (vtree v')) = vnv v'" "tnm (InitializeTree (vnv v') (vnm v') (vtree v')) = vnm v'"
    by (simp_all add: InitializeTree_def)
  ultimately show ?thesis
    using inv v'(2,4-7) same_conf_eqs [OF v'(1)] by (simp add: view_inv_def view_conf_def)
qed

lemma same_conf_trans: "same_conf u v \<Longrightarrow> same_conf v w \<Longrightarrow> same_conf u w"
  by (simp add: same_conf_def)

lemma same_conf_tree:
  "memoryLimit t = memoryLimit (vtree v) \<Longrightarrow> same_conf (v\<lparr>vtree := t\<rparr>) v' = same_conf v v'"
  "memoryLimit t = memoryLimit (vtree v') \<Longrightarrow> same_conf v (v'\<lparr>vtree := t\<rparr>) = same_conf v v'"
  by (simp_all add: same_conf_def)

lemma initialize_limit [simp]: "memoryLimit (InitializeTree nd nm t) = memoryLimit t"
  by (simp add: InitializeTree_def)

lemma same_conf_row: "same_conf v v' \<Longrightarrow> row_conf v' r = row_conf v r"
  by (simp add: same_conf_def row_conf_def)

lemma run_loop_ok:
  assumes "view_inv v x cs done" "memoryIsFull (vtree v) = 0" "unat (numberOfChunks v) < MAX_NUM_OF_CHUNKS"
    "\<forall>r \<in> set inp. row_conf v r" "off = chunk_end v cs"
  shows "\<exists>rc off' v'. run_loop ok (length inp) attrs inp off v = Some (rc, off', v') \<and> same_conf v v'
    \<and> (rc = ADC_OK \<and> unat (numberOfChunks v') < MAX_NUM_OF_CHUNKS
         \<and> (\<exists>x cs. view_inv v' x cs (done @ inp) \<and> off' = chunk_end v' cs)
       \<or> failed ok rc v')"
  using assms
proof (induction inp arbitrary: v x cs "done" attrs off)
  case Nil
  then show ?case by (auto simp: same_conf_def)
next
  case (Cons r inp)
  have r: "row_conf v r" using Cons.prems(4) by simp
  have conf: "view_conf v" using Cons.prems(1) by (simp add: view_inv_def)
  obtain t y where t: "TreeInsert (snd (view_row v r), fst (view_row v r)) (vtree v) = Some t"
    "view_inv (v\<lparr>vtree := t\<rparr>) y cs (done @ [r])" "memoryLimit t = memoryLimit (vtree v)" "rows y \<noteq> []"
    using insert_step [OF Cons.prems(1,2) r] by blast
  let ?v = "v\<lparr>vtree := t\<rparr>"
  have off: "off = chunk_end ?v cs" using Cons.prems(5) by (simp add: chunk_end_def)
  show ?case
  proof (cases "memoryIsFull t = 0")
    case True
    have "run_loop ok (length (r # inp)) attrs (r # inp) off v = run_loop ok (length inp) (Some r) inp off ?v"
      using SelectToView_row [OF conf r] t(1) True by simp
    moreover have "\<forall>r \<in> set inp. row_conf ?v r" using Cons.prems(4) by (simp add: row_conf_def)
    ultimately show ?thesis
      using Cons.IH [OF t(2) _ _ _ off, of "Some r"] True Cons.prems(3) by (simp add: same_conf_tree(1) t(3))
  next
    case False
    have n: "unat (numberOfChunks ?v) < MAX_NUM_OF_CHUNKS" using Cons.prems(3) by simp
    have rs: "outRecSize ?v = 4 * vnv ?v + 8 * vnm ?v" using conf by (simp add: view_conf_def)
    obtain rc off' v' where e: "end_chunk ok True off (outRecSize ?v) ?v = Some (rc, off', v')" "same_conf ?v v'"
      "vtree v' = vtree ?v" "unat (numberOfChunks v') = Suc (unat (numberOfChunks ?v))"
      "rc = ADC_OK \<longrightarrow> view_conf v' \<and> fileOfChunks v' = map prod.swap (concat (cs @ [rows y]))
         \<and> unat (numberOfChunks v') < MAX_NUM_OF_CHUNKS \<and> off' = chunk_end ?v (cs @ [rows y])
         \<and> chunk_table (rec_bytes ?v) (chunksParams v') (cs @ [rows y]) \<and> chunk_ok ?v (rows y)"
      "rc = ADC_OK \<or> failed ok rc v'"
      using end_chunk_step [OF t(2) n t(4) off rs, of ok True] by blast
    let ?w = "v'\<lparr>vtree := InitializeTree (vnv v') (vnm v') (vtree v')\<rparr>"
    have same: "same_conf v v'" using e(2) by (simp add: same_conf_tree(1) t(3))
    have step: "run_loop ok (length (r # inp)) attrs (r # inp) off v =
        (if rc \<noteq> ADC_OK then Some (rc, off', v') else run_loop ok (length inp) (Some r) inp off' ?w)"
      using SelectToView_row [OF conf r] t(1) False e(1) by simp
    show ?thesis
    proof (cases "rc = ADC_OK")
      case True
      have w: "view_inv ?w Lf (cs @ [rows y]) (done @ [r])"
        by (rule restart_inv [OF t(2)]) (use e True in auto)
      have m: "memoryIsFull (vtree ?w) = 0" by (simp add: InitializeTree_def)
      have k: "unat (numberOfChunks ?w) < MAX_NUM_OF_CHUNKS" using e(5) True by simp
      have c: "\<forall>r \<in> set inp. row_conf ?w r" using Cons.prems(4) same by (simp add: row_conf_def same_conf_def)
      have o: "off' = chunk_end ?w (cs @ [rows y])"
        using e(5) True same_conf_eqs(2) [OF e(2)] by (simp add: chunk_end_def)
      obtain rc' off'' w' where "run_loop ok (length inp) (Some r) inp off' ?w = Some (rc', off'', w')"
        "same_conf ?w w'" "rc' = ADC_OK \<and> unat (numberOfChunks w') < MAX_NUM_OF_CHUNKS
           \<and> (\<exists>x cs. view_inv w' x cs ((done @ [r]) @ inp) \<and> off'' = chunk_end w' cs) \<or> failed ok rc' w'"
        using Cons.IH [OF w m k c o, of "Some r"] by blast
      then show ?thesis using step True same same_conf_trans [of v v' w'] by (simp add: same_conf_tree)
    next
      case False
      then show ?thesis using step same e(6) by simp
    qed
  qed
qed


text \<open>What a successful run leaves behind.\<close>

definition aggregated :: "view_cntl \<Rightarrow> view_cntl \<Rightarrow> row list \<Rightarrow> (u32 list \<times> u64 list) list list \<Rightarrow> rtree \<Rightarrow> bool" where
  "aggregated v v' inp cs x \<longleftrightarrow> rb_inv (vtree v') x \<and> fileOfChunks v' = map prod.swap (concat cs)
     \<and> length cs = unat (numberOfChunks v') \<and> chunk_table (rec_bytes v) (chunksParams v') cs
     \<and> (\<forall>c \<in> set cs. chunk_ok v c) \<and> sorted_wrt (<) (map fst (rows x)) \<and> (\<forall>e \<in> set (rows x). row_widths v e)
     \<and> fst ` set (if cs = [] then rows x else concat cs) = fst ` view_row v ` set inp
     \<and> (\<forall>i < unat (vnm v). \<forall>k.
          total_of i k (if cs = [] then rows x else concat cs) = total_of i k (map (view_row v) inp))"

lemma view_inv_widths: "view_inv v x cs done \<Longrightarrow> \<forall>e \<in> set (rows x). row_widths v e"
  by (auto simp: view_inv_def rb_inv_def widths_def row_widths_def)

lemma same_conf_widths: "same_conf v v' \<Longrightarrow> row_widths v' = row_widths v"
  by (simp add: same_conf_def row_widths_def fun_eq_iff)

lemma aggregated_end:
  assumes inv: "view_inv v' x cs inp" and same: "same_conf v v'" and "numberOfChunks v' = 0 \<or> tcount (vtree v') = 0"
  shows "aggregated v v' inp cs x"
proof -
  have rb: "rb_inv (vtree v') x" and l: "length cs = unat (numberOfChunks v')"
    using inv by (simp_all add: view_inv_def)
  have "rows x = []" if "cs \<noteq> []"
    using assms(3) l that rb by (cases x) (auto simp: rb_inv_def pool_ok_def)
  then show ?thesis
    using inv rb l same_conf_eqs [OF same] view_inv_widths [OF inv] same_conf_widths [OF same]
    by (cases "cs = []") (simp_all add: aggregated_def view_inv_def rb_inv_def keys_sorted_def)
qed

lemma aggregated_last_chunk:
  assumes inv: "view_inv v1 x cs inp" and same: "same_conf v v1" and v': "vtree v' = vtree v1"
    "unat (numberOfChunks v') = Suc (unat (numberOfChunks v1))" "fileOfChunks v' = map prod.swap (concat (cs @ [rows x]))"
    "chunk_table (rec_bytes v1) (chunksParams v') (cs @ [rows x])" "chunk_ok v1 (rows x)"
  shows "aggregated v v' inp (cs @ [rows x]) x"
proof -
  have rb: "rb_inv (vtree v1) x" and l: "length (cs @ [rows x]) = unat (numberOfChunks v')"
    using inv v'(2) by (simp_all add: view_inv_def)
  show ?thesis
    unfolding aggregated_def l
    using inv rb v'(1,3-5) same_conf_eqs [OF same] view_inv_widths [OF inv] same_conf_widths [OF same]
    by (simp add: view_inv_def rb_inv_def keys_sorted_def)
qed

lemma RunFormation_result:
  assumes conf: "view_conf v" and arr: "length (nodes (vtree v)) = MAX_TREE_HEIGHT" "length (drcts (vtree v)) = MAX_TREE_HEIGHT"
    and start: "numberOfChunks v = 0" "fileOfChunks v = []" and n: "unat (nRowsToRead v) = length inp"
    and r: "\<forall>r \<in> set inp. row_conf v r"
  shows "\<exists>rc v'. RunFormation ok inp v = Some (rc, v') \<and> same_conf v v'
    \<and> (rc = ADC_OK \<and> (\<exists>cs x. aggregated v v' inp cs x \<and> tnm (vtree v') = vnm v \<and> length (chunksParams v') = MAX_NUM_OF_CHUNKS)
       \<or> failed ok rc v')"
proof -
  let ?v = "v\<lparr>vtree := InitializeTree (vnv v) (vnm v) (vtree v)\<rparr>"
  have "rb_inv (InitializeTree (vnv v) (vnm v) (vtree v)) Lf"
    using conf arr by (intro initialize_inv) (simp_all add: view_conf_def)
  then have inv: "view_inv ?v Lf [] []"
    using conf start by (simp add: view_inv_def view_conf_def InitializeTree_def chunk_table_def)
  have "memoryIsFull (vtree ?v) = 0" "unat (numberOfChunks ?v) < MAX_NUM_OF_CHUNKS" "\<forall>r \<in> set inp. row_conf ?v r"
    "0 = chunk_end ?v []"
    using start r by (simp_all add: InitializeTree_def MAX_NUM_OF_CHUNKS_def row_conf_def chunk_end_def)
  from run_loop_ok [OF inv this, of ok None] obtain rc off v1 where
    l: "run_loop ok (length inp) None inp 0 ?v = Some (rc, off, v1)" "same_conf v v1"
    "rc = ADC_OK \<and> unat (numberOfChunks v1) < MAX_NUM_OF_CHUNKS \<and> (\<exists>x cs. view_inv v1 x cs inp \<and> off = chunk_end v1 cs)
     \<or> failed ok rc v1"
    unfolding append_Nil same_conf_tree(1) [OF initialize_limit] by blast
  show ?thesis
  proof (cases "rc = ADC_OK")
    case False
    then show ?thesis using l n by (simp add: RunFormation_def)
  next
    case True
    then have "\<not> failed ok rc v1" by (simp add: failed_def ADC_OK_def ADC_WRITE_FAILED_def ADC_INTERNAL_ERROR_def)
    then obtain x cs where x: "view_inv v1 x cs inp" "unat (numberOfChunks v1) < MAX_NUM_OF_CHUNKS"
      and off: "off = chunk_end v1 cs" using l(3) by blast
    have nm: "tnm (vtree v1) = vnm v" "length (chunksParams v1) = MAX_NUM_OF_CHUNKS"
      using x(1) same_conf_eqs(4) [OF l(2)] by (simp_all add: view_inv_def view_conf_def)
    show ?thesis
    proof (cases "numberOfChunks v1 = 0 \<or> tcount (vtree v1) = 0")
      case stop: True
      then show ?thesis
        using l(1,2) n True aggregated_end [OF x(1) l(2) stop] nm by (auto simp: RunFormation_def)
    next
      case False
      have ne: "rows x \<noteq> []"
      proof
        assume "rows x = []"
        then show False using chunk_fits(2) [OF x(1)] False by (simp del: length_rows)
      qed
      from end_chunk_step [OF x ne off refl, of ok False] obtain rc' off' v2 where
        e: "end_chunk ok False off (4 * vnv v1 + 8 * vnm v1) v1 = Some (rc', off', v2)" "vtree v2 = vtree v1"
        "unat (numberOfChunks v2) = Suc (unat (numberOfChunks v1))" "same_conf v1 v2"
        "rc' = ADC_OK \<longrightarrow> view_conf v2 \<and> fileOfChunks v2 = map prod.swap (concat (cs @ [rows x]))
           \<and> chunk_table (rec_bytes v1) (chunksParams v2) (cs @ [rows x]) \<and> chunk_ok v1 (rows x)"
        "rc' = ADC_OK \<or> failed ok rc' v2"
        by blast
      have "RunFormation ok inp v = Some (rc', v2)" using l(1) n True False e(1) by (simp add: RunFormation_def)
      then show ?thesis
        using e aggregated_last_chunk [OF x(1) l(2) e(2,3)] same_conf_trans [OF l(2) e(4)] nm by (auto simp: view_conf_def)
    qed
  qed
qed

section \<open>Property\<close>

text \<open>
  C30. \<open>RunFormation\<close> aggregates a view.  Whatever the pool can hold, the function returns: with an
  error only when a write failed or the table of chunks is full, and otherwise so that the view's
  rows are in the chunks of the file, or in the tree when there is no chunk, in ascending order of
  the selected dimensions, with the chunk sizes and offsets in the table; their keys are those of
  the input rows in the view, and for every key and measure the sum over them is the sum over the
  input rows that have this key in the view (modulo \<open>2 ^ 64\<close>).
\<close>
theorem RunFormation_aggregates:
  assumes "view_conf v" and "length (nodes (vtree v)) = MAX_TREE_HEIGHT" and "length (drcts (vtree v)) = MAX_TREE_HEIGHT"
    and "numberOfChunks v = 0" and "fileOfChunks v = []" and "unat (nRowsToRead v) = length inp"
    and "\<forall>r \<in> set inp. row_conf v r"
  shows "\<exists>rc v'. RunFormation ok inp v = Some (rc, v')
    \<and> (rc = ADC_OK \<and> (\<exists>cs x. rb_inv (vtree v') x \<and> fileOfChunks v' = map prod.swap (concat cs)
          \<and> length cs = unat (numberOfChunks v') \<and> chunk_table (rec_bytes v) (chunksParams v') cs
          \<and> (\<forall>c \<in> set cs. chunk_ok v c) \<and> sorted_wrt (<) (map fst (rows x)) \<and> (\<forall>e \<in> set (rows x). row_widths v e)
          \<and> fst ` set (if cs = [] then rows x else concat cs) = fst ` view_row v ` set inp
          \<and> (\<forall>i < unat (vnm v). \<forall>k.
               total_of i k (if cs = [] then rows x else concat cs) = total_of i k (map (view_row v) inp)))
       \<or> rc = ADC_WRITE_FAILED \<and> (\<exists>k. \<not> ok k)
       \<or> rc = ADC_INTERNAL_ERROR \<and> unat (numberOfChunks v') = MAX_NUM_OF_CHUNKS)"
proof -
  obtain rc v' where r: "RunFormation ok inp v = Some (rc, v')"
    "rc = ADC_OK \<and> (\<exists>cs x. aggregated v v' inp cs x) \<or> failed ok rc v'"
    using RunFormation_result [OF assms, of ok] by blast
  show ?thesis by (rule exI [of _ rc], rule exI [of _ v']) (use r in \<open>unfold aggregated_def failed_def, simp\<close>)
qed

text \<open>A pool for two nodes, and two rows with the same key.\<close>

definition two_row_view :: view_cntl where
  "two_row_view = \<lparr>vtree = CreateEmptyTree 1 1 80 RED [] [], selection = [1], vnd = 1, vnm = 1, vnv = 1,
     outRecSize = 12, nRowsToRead = 2, numberOfChunks = 0, chunksParams = replicate MAX_NUM_OF_CHUNKS \<lparr>curChunkNum = 0, chunkOffset = 0, posSubChunk = 0, curSubChunk = 0\<rparr>,
     fileOfChunks = [], vmemoryLimit = 80, viewFile = [], nViewRows = 0, totalOfViewRows = 0, vmSums = [0], vchecksums = [0]\<rparr>"

theorem RunFormation_aggregates_witness:
  "\<exists>rc v'. RunFormation (\<lambda>k. True) [([1], [7]), ([2], [7])] two_row_view = Some (rc, v')
    \<and> (rc = ADC_OK \<and> (\<exists>cs x. total_of 0 [7] (if cs = [] then rows x else concat cs) = 3)
       \<or> rc = ADC_INTERNAL_ERROR)"
proof -
  let ?inp = "[([1], [7]), ([2], [7])]"
  have c: "view_conf two_row_view"
    by (simp add: view_conf_def two_row_view_def CreateEmptyTree_def tree_node_size_def Let_def)
  have d: "length (nodes (vtree two_row_view)) = MAX_TREE_HEIGHT" "length (drcts (vtree two_row_view)) = MAX_TREE_HEIGHT"
    "numberOfChunks two_row_view = 0" "fileOfChunks two_row_view = []" "unat (nRowsToRead two_row_view) = length ?inp"
    "\<forall>r \<in> set ?inp. row_conf two_row_view r"
    by (simp_all add: two_row_view_def CreateEmptyTree_def row_conf_def MAX_TREE_HEIGHT_def)
  have t: "total_of 0 [7] (map (view_row two_row_view) ?inp) = 3" "0 < unat (vnm two_row_view)"
    by (simp_all add: view_row_def two_row_view_def)
  show ?thesis
    using RunFormation_aggregates [OF c d, of "\<lambda>k. True"]
  proof (elim exE conjE disjE)
    fix rc v' cs x
    assume "RunFormation (\<lambda>k. True) ?inp two_row_view = Some (rc, v')" "rc = ADC_OK"
      "\<forall>i < unat (vnm two_row_view). \<forall>k.
        total_of i k (if cs = [] then rows x else concat cs) = total_of i k (map (view_row two_row_view) ?inp)"
    then show ?thesis using t by metis
  qed auto
qed

end
