(* ===== verification/Rbt_Merge.thy ===== *)
theory Rbt_Merge
  imports Rbt_View "HOL-Library.Signed_Division"
begin

text \<open>
  The second half of the external aggregation of the data-cube benchmark (\<open>DC/extbuild.c\<close>): the chunks
  that \<open>RunFormation\<close> wrote are merged into the view, through windows of rows in the memory pool, and
  rows with equal keys are added up.  Together with the first half this computes a view.
\<close>

section \<open>Windows\<close>

text \<open>
  The pool as a buffer of records; \<open>None\<close> is a place without a record.  \<open>fseek\<close> and \<open>fread\<close> of \<open>n\<close>
  records of \<open>rec\<close> bytes must find whole records; positions in the buffer count records, the code
  counts integers of which a record has \<open>mwBufRecSizeInInt\<close>.
\<close>

definition read_records :: "row list \<Rightarrow> nat \<Rightarrow> u64 \<Rightarrow> u32 \<Rightarrow> row list option" where
  "read_records file rec off n =
    (if unat off mod rec = 0 \<and> unat off div rec + unat n \<le> length file
     then Some (take (unat n) (drop (unat off div rec) file)) else None)"

definition SeekAndReadNextSubChunk :: "row option list \<Rightarrow> u32 \<Rightarrow> row list \<Rightarrow> u32 \<Rightarrow> u64 \<Rightarrow> u32 \<Rightarrow> row option list option" where
  "SeekAndReadNextSubChunk buf k file rec off n = do {
     rs \<leftarrow> read_records file (unat rec) off n;
     if unat k + length rs \<le> length buf
     then Some (take (unat k) buf @ map Some rs @ drop (unat k + length rs) buf) else None }"

definition ReadSubChunk :: "u32 \<Rightarrow> row option list \<Rightarrow> u32 \<Rightarrow> u32 \<Rightarrow> chunk list \<Rightarrow> row list \<Rightarrow> (row option list \<times> chunk list) option" where
  "ReadSubChunk rec buf i reg chunks file = do {
     c \<leftarrow> rd chunks (unat i);
     if curChunkNum c > 0 then
       if curChunkNum c < reg then do {
         buf \<leftarrow> SeekAndReadNextSubChunk buf (i * reg + (reg - curChunkNum c)) file rec (chunkOffset c) (curChunkNum c);
         chunks \<leftarrow> wr chunks (unat i) (c\<lparr>posSubChunk := reg - curChunkNum c, curSubChunk := curChunkNum c,
           curChunkNum := 0, chunkOffset := - 1\<rparr>);
         Some (buf, chunks) }
       else do {
         buf \<leftarrow> SeekAndReadNextSubChunk buf (i * reg) file rec (chunkOffset c) reg;
         chunks \<leftarrow> wr chunks (unat i) (c\<lparr>posSubChunk := 0, curSubChunk := reg,
           curChunkNum := curChunkNum c - reg, chunkOffset := chunkOffset c + ucast (reg * rec)\<rparr>);
         Some (buf, chunks) }
     else Some (buf, chunks) }"

text \<open>The loop that fills the windows of all chunks.\<close>

fun read_chunks :: "u32 \<Rightarrow> u32 \<Rightarrow> row list \<Rightarrow> nat list \<Rightarrow> row option list \<times> chunk list \<Rightarrow> (row option list \<times> chunk list) option" where
  "read_chunks rec reg file [] s = Some s"
| "read_chunks rec reg file (i # is) (buf, chunks) = do {
     s \<leftarrow> ReadSubChunk rec buf (of_nat i) reg chunks file;
     read_chunks rec reg file is s }"

section \<open>The merge\<close>

text \<open>The first row in the window of a chunk, when there is one.\<close>

definition chunk_row :: "row option list \<Rightarrow> u32 \<Rightarrow> chunk list \<Rightarrow> nat \<Rightarrow> row option option" where
  "chunk_row buf reg chunks i = do {
     c \<leftarrow> rd chunks i;
     if curSubChunk c > 0 then do {
       r \<leftarrow> rd buf (unat (of_nat i * reg + posSubChunk c));
       r \<leftarrow> r;
       Some (Some r) }
     else Some None }"

text \<open>The two loops that look for the smallest row: the first chunk with a row, and then a smaller one.\<close>

fun first_live :: "row option list \<Rightarrow> u32 \<Rightarrow> chunk list \<Rightarrow> nat list \<Rightarrow> (nat \<times> row) option option" where
  "first_live buf reg chunks [] = Some None"
| "first_live buf reg chunks (i # is) = do {
     r \<leftarrow> chunk_row buf reg chunks i;
     case r of Some r \<Rightarrow> Some (Some (i, r)) | None \<Rightarrow> first_live buf reg chunks is }"

fun min_live :: "nat \<Rightarrow> row option list \<Rightarrow> u32 \<Rightarrow> chunk list \<Rightarrow> nat list \<Rightarrow> nat \<times> row \<Rightarrow> (nat \<times> row) option" where
  "min_live nv buf reg chunks [] m = Some m"
| "min_live nv buf reg chunks (i # is) m = do {
     r \<leftarrow> chunk_row buf reg chunks i;
     case r of
       None \<Rightarrow> min_live nv buf reg chunks is m
     | Some r \<Rightarrow> do {
         compRes \<leftarrow> KeyComp (snd r) (snd (snd m)) nv;
         min_live nv buf reg chunks is (if compRes < 0 then (i, r) else m) } }"

text \<open>When no chunk has a row the variables keep the values of the round before, \<open>prev\<close>.\<close>

definition find_min :: "nat \<Rightarrow> nat \<Rightarrow> row option list \<Rightarrow> u32 \<Rightarrow> chunk list \<Rightarrow> (nat \<times> row) option \<Rightarrow> (nat \<times> row) option" where
  "find_min nv n buf reg chunks prev = do {
     f \<leftarrow> first_live buf reg chunks [0..<n];
     m \<leftarrow> (case f of None \<Rightarrow> prev | Some m \<Rightarrow> Some m);
     min_live nv buf reg chunks [fst m..<n] m }"

text \<open>
  A finished row is written and counted, and added to the sums of the view.  The product and the
  remainder in the checksum are signed; an overflow of the product is taken to wrap around.
\<close>

definition c_rem :: "u64 \<Rightarrow> u64 \<Rightarrow> u64" where
  "c_rem a b = word_of_int (sint a smod sint b)"

fun merge_sums :: "nat \<Rightarrow> u32 \<Rightarrow> u64 list \<Rightarrow> u64 list \<Rightarrow> u64 list \<Rightarrow> (u64 list \<times> u64 list) option" where
  "merge_sums 0 n ms ss cs = Some (ss, cs)"
| "merge_sums (Suc k) n (m # ms) (s # ss) (c # cs) = do {
     (ss, cs) \<leftarrow> merge_sums k n ms ss cs;
     Some ((s + m) # ss, (c + c_rem (ucast n * m) measbound) # cs) }"
| "merge_sums (Suc k) n _ _ _ = None"

definition emit_row :: "(nat \<Rightarrow> bool) \<Rightarrow> row \<Rightarrow> view_cntl \<Rightarrow> (bool \<times> view_cntl) option" where
  "emit_row ok r v =
    (let (e, f) = WriteToFile ok r (viewFile v) in
     if e then Some (True, v\<lparr>viewFile := f\<rparr>)
     else do {
       (ss, cs) \<leftarrow> merge_sums (unat (vnm v)) (nViewRows v + 1) (fst r) (vmSums v) (vchecksums v);
       Some (False, v\<lparr>viewFile := f, nViewRows := nViewRows v + 1, vmSums := ss, vchecksums := cs\<rparr>) })"

text \<open>The output buffer is empty at first; an equal key is added to it, another one replaces it.\<close>

definition merge_row :: "(nat \<Rightarrow> bool) \<Rightarrow> row \<Rightarrow> row option \<Rightarrow> view_cntl \<Rightarrow> (bool \<times> row \<times> view_cntl) option" where
  "merge_row ok r out v =
    (case out of
       None \<Rightarrow> Some (False, r, v)
     | Some b \<Rightarrow> do {
         compRes \<leftarrow> KeyComp (snd b) (snd r) (unat (vnv v));
         if compRes = 0 then do {
           ms \<leftarrow> add_measures (unat (vnm v)) (fst b) (fst r);
           Some (False, (ms, snd b), v) }
         else do {
           (e, v) \<leftarrow> emit_row ok b v;
           Some (e, r, v) } })"

definition step_forward :: "nat \<Rightarrow> chunk list \<Rightarrow> chunk list option" where
  "step_forward j chunks = do {
     c \<leftarrow> rd chunks j;
     if curSubChunk c \<noteq> 0
     then wr chunks j (c\<lparr>curSubChunk := curSubChunk c - 1, posSubChunk := posSubChunk c + 1\<rparr>)
     else Some chunks }"

definition all_empty :: "nat \<Rightarrow> chunk list \<Rightarrow> bool" where
  "all_empty n chunks \<longleftrightarrow> list_all (\<lambda>c. curSubChunk c = 0) (take n chunks) \<and> list_all (\<lambda>c. curChunkNum c = 0) (take n chunks)"

partial_function (option) merge_loop :: "(nat \<Rightarrow> bool) \<Rightarrow> u32 \<Rightarrow> u32 \<Rightarrow> row option list \<Rightarrow> (nat \<times> row) option \<Rightarrow> row option
    \<Rightarrow> view_cntl \<Rightarrow> (bool \<times> row \<times> view_cntl) option" where
  "merge_loop ok rec reg buf prev out v = do {
     m \<leftarrow> find_min (unat (vnv v)) (unat (numberOfChunks v)) buf reg (chunksParams v) prev;
     chunks \<leftarrow> step_forward (fst m) (chunksParams v);
     (e, b, v) \<leftarrow> merge_row ok (snd m) out (v\<lparr>chunksParams := chunks\<rparr>);
     if e then Some (True, b, v)
     else if all_empty (unat (numberOfChunks v)) chunks then Some (False, b, v)
     else do {
       c \<leftarrow> rd chunks (fst m);
       (buf, chunks) \<leftarrow> (if curSubChunk c = 0 then ReadSubChunk rec buf (of_nat (fst m)) reg chunks (fileOfChunks v)
         else Some (buf, chunks));
       merge_loop ok rec reg buf (Some m) (Some b) (v\<lparr>chunksParams := chunks\<rparr>) } }"

text \<open>
  \<open>MultiWayMerge\<close>.  Without chunks it divides by zero.  The windows are in the memory pool, so the
  nodes of the tree are lost.
\<close>

definition lost_nodes :: "rbtree \<Rightarrow> rbtree" where
  "lost_nodes t = t\<lparr>theap := (theap t) |` {Root}\<rparr>"

definition MultiWayMerge :: "(nat \<Rightarrow> bool) \<Rightarrow> view_cntl \<Rightarrow> (int \<times> view_cntl) option" where
  "MultiWayMerge ok v =
    (let v = v\<lparr>nViewRows := 0\<rparr>; rec = outRecSize v in
     if numberOfChunks v = 0 \<or> rec = 0 then None
     else let reg = (vmemoryLimit v div numberOfChunks v) div rec in
       if reg = 0 then Some (ADC_INTERNAL_ERROR, v)
       else do {
         (buf, chunks) \<leftarrow> read_chunks rec reg (fileOfChunks v) [0..<unat (numberOfChunks v)]
           (replicate (unat (vmemoryLimit v) div unat rec) None, chunksParams v);
         (e, b, v) \<leftarrow> merge_loop ok rec reg buf None None (v\<lparr>chunksParams := chunks, vtree := lost_nodes (vtree v)\<rparr>);
         if e then Some (ADC_WRITE_FAILED, v)
         else do {
           (e, v) \<leftarrow> emit_row ok b v;
           if e then Some (ADC_WRITE_FAILED, v)
           else Some (ADC_OK, v\<lparr>totalOfViewRows := totalOfViewRows v + nViewRows v\<rparr>) } })"

end
