(* ===== verification/Rbt_Window.thy ===== *)
theory Rbt_Window
  imports Rbt_Merge
begin

text \<open>
  What the windows of the merge stand for: every chunk has rows in the pool and further rows in the
  file, and reading a window moves rows from the file to the pool.
\<close>

section \<open>Reading a window\<close>

lemma seek_ok:
  assumes "unat off = unat rec * k" "0 < unat rec" "k + unat n \<le> length file" "unat p + unat n \<le> length buf"
  shows "\<exists>buf'. SeekAndReadNextSubChunk buf p file rec off n = Some buf' \<and> length buf' = length buf
    \<and> (\<forall>t < unat n. buf' ! (unat p + t) = Some (file ! (k + t)))
    \<and> (\<forall>q. q < unat p \<or> unat p + unat n \<le> q \<longrightarrow> buf' ! q = buf ! q)"
proof -
  let ?rs = "take (unat n) (drop k file)"
  let ?b = "take (unat p) buf @ map Some ?rs @ drop (unat p + length ?rs) buf"
  have l: "length ?rs = unat n" using assms(3) by simp
  have "SeekAndReadNextSubChunk buf p file rec off n = Some ?b"
    using assms by (simp add: SeekAndReadNextSubChunk_def read_records_def)
  moreover have "length ?b = length buf" using assms(4) l by simp
  moreover have "?b ! (unat p + t) = Some (file ! (k + t))" if "t < unat n" for t
    using that assms(3,4) by (simp add: nth_append)
  moreover have "?b ! q = buf ! q" if "q < unat p \<or> unat p + unat n \<le> q" for q
    using that assms(3,4) l by (auto simp: nth_append)
  ultimately show ?thesis by blast
qed

lemma unat_ucast_64: "unat (ucast w :: u64) = unat (w :: u32)"
proof -
  have "unat w < 2 ^ 64" using unat_less_32 [of w] by simp
  then show ?thesis by (simp add: unsigned_ucast_eq take_bit_nat_eq_self)
qed

definition window_at :: "nat \<Rightarrow> row option list \<Rightarrow> nat \<Rightarrow> chunk \<Rightarrow> (u32 list \<times> u64 list) list \<Rightarrow> bool" where
  "window_at r buf j c win \<longleftrightarrow> length win = unat (curSubChunk c) \<and> unat (posSubChunk c) + length win \<le> r
     \<and> (\<forall>t < length win. buf ! (j * r + (unat (posSubChunk c) + t)) = Some (prod.swap (win ! t)))"

definition rest_at :: "nat \<Rightarrow> row list \<Rightarrow> chunk \<Rightarrow> (u32 list \<times> u64 list) list \<Rightarrow> bool" where
  "rest_at b file c rest \<longleftrightarrow> length rest = unat (curChunkNum c) \<and> (rest \<noteq> [] \<longrightarrow>
     (\<exists>k. unat (chunkOffset c) = b * k \<and> k + length rest \<le> length file
        \<and> (\<forall>t < length rest. file ! (k + t) = prod.swap (rest ! t))))"

definition chunk_rel :: "nat \<Rightarrow> nat \<Rightarrow> row list \<Rightarrow> row option list \<Rightarrow> nat \<Rightarrow> chunk \<Rightarrow> (u32 list \<times> u64 list) list \<Rightarrow> bool" where
  "chunk_rel b r file buf j c xs \<longleftrightarrow> (\<exists>win rest. xs = win @ rest \<and> window_at r buf j c win \<and> rest_at b file c rest
     \<and> (rest \<noteq> [] \<longrightarrow> win \<noteq> []))"

lemma chunk_rel_cong:
  assumes "chunk_rel b r file buf j c xs" "\<forall>q. j * r \<le> q \<and> q < j * r + r \<longrightarrow> buf' ! q = buf ! q"
  shows "chunk_rel b r file buf' j c xs"
proof -
  obtain win rest where w: "xs = win @ rest" "window_at r buf j c win" "rest_at b file c rest" "rest \<noteq> [] \<longrightarrow> win \<noteq> []"
    using assms(1) unfolding chunk_rel_def by blast
  then have "window_at r buf' j c win" using assms(2) by (simp add: window_at_def)
  with w show ?thesis unfolding chunk_rel_def by blast
qed

lemma chunk_rel_empty: "chunk_rel b r file buf j c xs \<Longrightarrow> xs = [] \<longleftrightarrow> curSubChunk c = 0 \<and> curChunkNum c = 0"
  unfolding chunk_rel_def window_at_def rest_at_def by (auto simp: unsigned_eq_0_iff)

text \<open>The sizes: records of \<open>b\<close> bytes, windows of \<open>r\<close> records, everything within the words used.\<close>

definition sizes :: "nat \<Rightarrow> nat \<Rightarrow> u32 \<Rightarrow> u32 \<Rightarrow> row list \<Rightarrow> row option list \<Rightarrow> bool" where
  "sizes b r rec reg file buf \<longleftrightarrow> unat rec = b \<and> unat reg = r \<and> 0 < b \<and> 0 < r \<and> r * b < 2 ^ 32
     \<and> b * length file < 2 ^ 64 \<and> length buf < 2 ^ 32"

lemma window_index:
  assumes "sizes b r rec reg file buf" "unat i * r + d \<le> length buf" "unat w = d"
  shows "unat (i * reg + w) = unat i * r + d"
proof -
  have "unat i * r + d < 2 ^ 32" using assms by (simp add: sizes_def)
  then show ?thesis using assms by (simp add: sizes_def unat_word_ariths)
qed

lemma ReadSubChunk_ok:
  assumes sz: "sizes b r rec reg file buf" and i: "unat i < length chunks" "unat i * r + r \<le> length buf"
    and c: "chunks ! unat i = c" "rest_at b file c rest" "rest \<noteq> []"
  shows "\<exists>buf' c'. ReadSubChunk rec buf i reg chunks file = Some (buf', chunks[unat i := c']) \<and> length buf' = length buf
    \<and> chunk_rel b r file buf' (unat i) c' rest
    \<and> (\<forall>q. q < unat i * r \<or> unat i * r + r \<le> q \<longrightarrow> buf' ! q = buf ! q)"
proof -
  obtain k where k: "unat (chunkOffset c) = b * k" "k + length rest \<le> length file"
    "\<forall>t < length rest. file ! (k + t) = prod.swap (rest ! t)" and n: "length rest = unat (curChunkNum c)"
    using c(2,3) unfolding rest_at_def by blast
  have s: "unat rec = b" "unat reg = r" "0 < b" "0 < r" using sz by (simp_all add: sizes_def)
  have pos: "0 < curChunkNum c" using n c(3) by (metis length_0_conv unsigned_0 word_gt_0)
  show ?thesis
  proof (cases "curChunkNum c < reg")
    case True
    then have l: "length rest < r" using n s by (simp add: word_less_nat_alt)
    have d: "unat (reg - curChunkNum c) = r - length rest" using True n s by (simp add: unat_sub order_less_imp_le)
    have p: "unat (i * reg + (reg - curChunkNum c)) = unat i * r + (r - length rest)"
      by (rule window_index [OF sz _ d]) (use i(2) in simp)
    obtain buf' where buf': "SeekAndReadNextSubChunk buf (i * reg + (reg - curChunkNum c)) file rec (chunkOffset c) (curChunkNum c) = Some buf'"
      "length buf' = length buf" "\<forall>t < length rest. buf' ! (unat i * r + (r - length rest) + t) = Some (file ! (k + t))"
      "\<forall>q. q < unat i * r + (r - length rest) \<or> unat i * r + (r - length rest) + length rest \<le> q \<longrightarrow> buf' ! q = buf ! q"
      using seek_ok [of "chunkOffset c" rec k "curChunkNum c" "file" "i * reg + (reg - curChunkNum c)" buf] k n s l p i(2) by auto
    let ?c = "c\<lparr>posSubChunk := reg - curChunkNum c, curSubChunk := curChunkNum c, curChunkNum := 0, chunkOffset := - 1\<rparr>"
    have "chunk_rel b r file buf' (unat i) ?c rest"
      unfolding chunk_rel_def
      by (rule exI [of _ rest], rule exI [of _ "[]"])
        (use buf'(3) k(3) d l n in \<open>simp add: window_at_def rest_at_def add.assoc\<close>)
    moreover have "ReadSubChunk rec buf i reg chunks file = Some (buf', chunks[unat i := ?c])"
      using True pos buf'(1) i(1) c(1) by (simp add: ReadSubChunk_def rd_def wr_def)
    moreover have "buf' ! q = buf ! q" if "q < unat i * r \<or> unat i * r + r \<le> q" for q
      using buf'(4) that l by auto
    ultimately show ?thesis using buf'(2) by blast
  next
    case False
    then have l: "r \<le> length rest" using n s by (simp add: word_less_nat_alt)
    have p: "unat (i * reg) = unat i * r"
      using window_index [OF sz, of i 0 0] i(2) by simp
    obtain buf' where buf': "SeekAndReadNextSubChunk buf (i * reg) file rec (chunkOffset c) reg = Some buf'"
      "length buf' = length buf" "\<forall>t < r. buf' ! (unat i * r + t) = Some (file ! (k + t))"
      "\<forall>q. q < unat i * r \<or> unat i * r + r \<le> q \<longrightarrow> buf' ! q = buf ! q"
      using seek_ok [of "chunkOffset c" rec k reg "file" "i * reg" buf] k n s l p i(2) by auto
    let ?c = "c\<lparr>posSubChunk := 0, curSubChunk := reg, curChunkNum := curChunkNum c - reg, chunkOffset := chunkOffset c + ucast (reg * rec)\<rparr>"
    have num: "unat (curChunkNum c - reg) = length rest - r" using False n s by (simp add: unat_sub linorder_not_less)
    have "unat (reg * rec) = r * b" using sz s by (simp add: sizes_def unat_word_ariths)
    then have u: "unat (ucast (reg * rec) :: u64) = r * b"
      using unat_ucast_64 [of "reg * rec"] by simp
    have "b * (k + r) \<le> b * length file" by (rule mult_le_mono2) (use k(2) l in simp)
    then have "b * (k + r) < 2 ^ 64" using sz unfolding sizes_def by linarith
    then have off: "unat (chunkOffset c + ucast (reg * rec)) = b * (k + r)"
      unfolding unat_word_ariths k(1) u by (simp add: distrib_left mult.commute)
    have "rest_at b file ?c (drop r rest)"
      unfolding rest_at_def
      by (intro conjI impI exI [of _ "k + r"]) (use num off k(2,3) l in \<open>simp_all add: add.assoc\<close>)
    moreover have "window_at r buf' (unat i) ?c (take r rest)"
      using buf'(3) k(3) l s by (simp add: window_at_def)
    ultimately have "chunk_rel b r file buf' (unat i) ?c rest"
      unfolding chunk_rel_def
      by (intro exI [of _ "take r rest"] exI [of _ "drop r rest"]) (use s(4) c(3) in auto)
    moreover have "ReadSubChunk rec buf i reg chunks file = Some (buf', chunks[unat i := ?c])"
      using False pos buf'(1) i(1) c(1) by (simp add: ReadSubChunk_def rd_def wr_def)
    ultimately show ?thesis using buf'(2,4) by blast
  qed
qed

section \<open>All chunks\<close>

definition merge_rel :: "nat \<Rightarrow> nat \<Rightarrow> row list \<Rightarrow> row option list \<Rightarrow> chunk list \<Rightarrow> (u32 list \<times> u64 list) list list \<Rightarrow> bool" where
  "merge_rel b r file buf cp rems \<longleftrightarrow> length rems \<le> length cp \<and> length rems * r \<le> length buf
     \<and> (\<forall>j < length rems. chunk_rel b r file buf j (cp ! j) (rems ! j))"

lemma index_unat: "sizes b r rec reg file buf \<Longrightarrow> n * r \<le> length buf \<Longrightarrow> i < n \<Longrightarrow> unat (of_nat i :: u32) = i"
proof -
  assume s: "sizes b r rec reg file buf" "n * r \<le> length buf" "i < n"
  have "n * 1 \<le> n * r" by (rule mult_le_mono2) (use s in \<open>simp add: sizes_def\<close>)
  then have "i < length buf" using s(2,3) by linarith
  then have "i < 2 ^ 32" using s(1) unfolding sizes_def by linarith
  then show ?thesis by (simp add: unsigned_of_nat take_bit_nat_eq_self)
qed

lemma window_room: "i < n \<Longrightarrow> i * r + r \<le> n * (r :: nat)"
  by (metis Suc_leI add.commute mult_Suc mult_le_mono1)

lemma windows_apart: "i \<noteq> j \<Longrightarrow> j * r \<le> q \<Longrightarrow> q < j * r + r \<Longrightarrow> q < i * r \<or> i * r + r \<le> (q :: nat)"
  using window_room [of i j r] window_room [of j i r] by linarith

lemma read_chunks_ok:
  assumes "sizes b r rec reg file buf" "length cs \<le> length cp" "length cs * r \<le> length buf" "m \<le> length cs"
    "\<forall>j < m. chunk_rel b r file buf j (cp ! j) (cs ! j)"
    "\<forall>j < length cs. m \<le> j \<longrightarrow> rest_at b file (cp ! j) (cs ! j) \<and> cs ! j \<noteq> []"
  shows "\<exists>buf' cp'. read_chunks rec reg file [m..<length cs] (buf, cp) = Some (buf', cp')
    \<and> merge_rel b r file buf' cp' cs \<and> length buf' = length buf \<and> length cp' = length cp"
  using assms
proof (induction "length cs - m" arbitrary: m buf cp)
  case 0
  then show ?case by (simp add: merge_rel_def)
next
  case (Suc d)
  then have m: "m < length cs" by simp
  have u: "unat (of_nat m :: u32) = m" by (rule index_unat [OF Suc.prems(1,3) m])
  have room: "m * r + r \<le> length buf" using window_room [OF m, of r] Suc.prems(3) by simp
  obtain buf' c' where b': "ReadSubChunk rec buf (of_nat m) reg cp file = Some (buf', cp[m := c'])"
    "length buf' = length buf" "chunk_rel b r file buf' m c' (cs ! m)"
    "\<forall>q. q < m * r \<or> m * r + r \<le> q \<longrightarrow> buf' ! q = buf ! q"
    using ReadSubChunk_ok [OF Suc.prems(1), of "of_nat m" cp "cp ! m" "cs ! m"] u m room Suc.prems(2,6) by auto
  have rel: "chunk_rel b r file buf' j (cp[m := c'] ! j) (cs ! j)" if "j < Suc m" for j
  proof (cases "j = m")
    case True
    then show ?thesis using b'(3) m Suc.prems(2) by simp
  next
    case False
    then have "chunk_rel b r file buf j (cp ! j) (cs ! j)" using that Suc.prems(5) by simp
    then show ?thesis
      using chunk_rel_cong [of b r "file" buf j "cp ! j" "cs ! j" buf'] windows_apart [of m j r] b'(4) False by auto
  qed
  have sz: "sizes b r rec reg file buf'" using Suc.prems(1) b'(2) by (simp add: sizes_def)
  have "\<exists>buf'' cp''. read_chunks rec reg file [Suc m..<length cs] (buf', cp[m := c']) = Some (buf'', cp'')
    \<and> merge_rel b r file buf'' cp'' cs \<and> length buf'' = length buf' \<and> length cp'' = length (cp[m := c'])"
    by (rule Suc.hyps(1)) (use Suc.hyps(2) Suc.prems b'(2) m rel sz in auto)
  then show ?case using b'(1,2) m by (simp add: upt_conv_Cons)
qed

section \<open>The smallest row\<close>

lemma chunk_row_ok:
  assumes sz: "sizes b r rec reg file buf" and rel: "merge_rel b r file buf cp rems" and j: "j < length rems"
  shows "chunk_row buf reg cp j = Some (case rems ! j of [] \<Rightarrow> None | e # _ \<Rightarrow> Some (prod.swap e))"
proof -
  have jc: "j < length cp" and room: "length rems * r \<le> length buf" using rel j by (simp_all add: merge_rel_def)
  obtain win rest where w: "rems ! j = win @ rest" "window_at r buf j (cp ! j) win" "rest \<noteq> [] \<longrightarrow> win \<noteq> []"
    using rel j unfolding merge_rel_def chunk_rel_def by blast
  have u: "unat (of_nat j :: u32) = j" by (rule index_unat [OF sz room j])
  show ?thesis
  proof (cases win)
    case Nil
    then show ?thesis using w jc by (auto simp: chunk_row_def rd_def window_at_def unsigned_eq_0_iff)
  next
    case (Cons e win')
    have p: "unat (posSubChunk (cp ! j)) < r" "0 < curSubChunk (cp ! j)"
      using w(2) Cons by (simp_all add: window_at_def word_gt_0) (metis nat.distinct(1) unsigned_0)
    have lt: "j * r + unat (posSubChunk (cp ! j)) < length buf"
      using window_room [OF j, of r] room p(1) by linarith
    have "unat (of_nat j * reg + posSubChunk (cp ! j)) = j * r + unat (posSubChunk (cp ! j))"
      using window_index [OF sz, of "of_nat j" "unat (posSubChunk (cp ! j))"] u lt by simp
    moreover have "buf ! (j * r + unat (posSubChunk (cp ! j))) = Some (prod.swap e)"
      using w(2) Cons unfolding window_at_def by (metis add.right_neutral length_greater_0_conv list.distinct(1) nth_Cons_0)
    ultimately show ?thesis using w(1) Cons jc lt p(2) by (simp add: chunk_row_def rd_def)
  qed
qed

lemma first_live_ok:
  assumes sz: "sizes b r rec reg file buf" and rel: "merge_rel b r file buf cp rems" and "set is \<subseteq> {..<length rems}"
  shows "first_live buf reg cp is = Some (case dropWhile (\<lambda>i. rems ! i = []) is of [] \<Rightarrow> None
    | i # _ \<Rightarrow> Some (i, prod.swap (hd (rems ! i))))"
  using assms(3)
proof (induction "is")
  case (Cons i "is")
  then show ?case using chunk_row_ok [OF sz rel, of i] by (cases "rems ! i") simp_all
qed simp

text \<open>Entry \<open>m\<close> is the first remaining row of its chunk.\<close>

definition head_row :: "(u32 list \<times> u64 list) list list \<Rightarrow> nat \<times> row \<Rightarrow> bool" where
  "head_row rems m \<longleftrightarrow> fst m < length rems \<and> rems ! fst m \<noteq> [] \<and> snd m = prod.swap (hd (rems ! fst m))"

definition key_width :: "nat \<Rightarrow> (u32 list \<times> u64 list) list list \<Rightarrow> bool" where
  "key_width nv rems \<longleftrightarrow> (\<forall>xs \<in> set rems. \<forall>e \<in> set xs. length (fst e) = nv)"

lemma key_width_hd: "key_width nv rems \<Longrightarrow> head_row rems m \<Longrightarrow> length (snd (snd m)) = nv"
  unfolding key_width_def head_row_def by (metis hd_in_set nth_mem snd_swap)

lemma min_live_ok:
  assumes sz: "sizes b r rec reg file buf" and rel: "merge_rel b r file buf cp rems" and w: "key_width nv rems"
    and "set is \<subseteq> {..<length rems}" "head_row rems m"
  shows "\<exists>m'. min_live nv buf reg cp is m = Some m' \<and> head_row rems m' \<and> snd (snd m') \<le> snd (snd m)
    \<and> (\<forall>i \<in> set is. rems ! i \<noteq> [] \<longrightarrow> snd (snd m') \<le> fst (hd (rems ! i)))"
  using assms(4,5)
proof (induction "is" arbitrary: m)
  case (Cons i "is")
  have i: "i < length rems" using Cons.prems(1) by simp
  show ?case
  proof (cases "rems ! i")
    case Nil
    then show ?thesis using Cons chunk_row_ok [OF sz rel i] by simp
  next
    case (Cons e es)
    have h: "head_row rems (i, prod.swap e)" using Cons i by (simp add: head_row_def)
    have "KeyComp (fst e) (snd (snd m)) nv =
        Some (if fst e < snd (snd m) then - 1 else if snd (snd m) < fst e then 1 else 0)"
      using KeyComp_lex [of nv "fst e" "snd (snd m)"] key_width_hd [OF w h] key_width_hd [OF w Cons.prems(2)] by simp
    then obtain c where c: "KeyComp (fst e) (snd (snd m)) nv = Some c" "c < 0 \<longleftrightarrow> fst e < snd (snd m)"
      by (simp split: if_splits)
    define m0 where "m0 = (if fst e < snd (snd m) then (i, prod.swap e) else m)"
    have m0: "head_row rems m0" "snd (snd m0) \<le> snd (snd m)" "snd (snd m0) \<le> fst e"
      using h Cons.prems(2) by (auto simp: m0_def)
    obtain m' where m': "min_live nv buf reg cp is m0 = Some m'" "head_row rems m'" "snd (snd m') \<le> snd (snd m0)"
      "\<forall>i \<in> set is. rems ! i \<noteq> [] \<longrightarrow> snd (snd m') \<le> fst (hd (rems ! i))"
      using Cons.IH [OF _ m0(1)] Cons.prems(1) by auto
    have "min_live nv buf reg cp (i # is) m = Some m'"
      using chunk_row_ok [OF sz rel i] Cons c m'(1) by (simp add: m0_def)
    then show ?thesis using m' m0 Cons by force
  qed
qed simp

lemma find_min_ok:
  assumes sz: "sizes b r rec reg file buf" and rel: "merge_rel b r file buf cp rems" and w: "key_width nv rems"
    and ne: "concat rems \<noteq> []"
  shows "\<exists>m. find_min nv (length rems) buf reg cp prev = Some m \<and> head_row rems m
    \<and> (\<forall>xs \<in> set rems. xs \<noteq> [] \<longrightarrow> snd (snd m) \<le> fst (hd xs))"
proof -
  let ?d = "dropWhile (\<lambda>i. rems ! i = []) [0..<length rems]"
  obtain i "is" where d: "?d = i # is"
    using ne by (cases ?d) (auto simp: dropWhile_eq_Nil_conv in_set_conv_nth)
  have i: "rems ! i \<noteq> []" using hd_dropWhile [of "\<lambda>i. rems ! i = []" "[0..<length rems]"] d by simp
  have "set ?d \<subseteq> {0..<length rems}" using set_dropWhileD by fastforce
  then have il: "i < length rems" using d by simp
  have before: "rems ! j = []" if "j < i" for j
  proof -
    have "[0..<length rems] = takeWhile (\<lambda>i. rems ! i = []) [0..<length rems] @ i # is" using d by (metis takeWhile_dropWhile_id)
    moreover have "sorted_wrt (<) (xs @ i # is) \<Longrightarrow> \<forall>k \<in> set (i # is). i \<le> k" for xs :: "nat list"
      by (auto simp: sorted_wrt_append)
    moreover have "sorted_wrt (<) [0..<length rems]" by simp
    ultimately have "\<forall>k \<in> set (i # is). i \<le> k" by metis
    moreover have "j \<in> set [0..<length rems]" using that il by simp
    ultimately have "j \<in> set (takeWhile (\<lambda>i. rems ! i = []) [0..<length rems])"
      using that \<open>[0..<length rems] = _\<close> by (metis Un_iff leD set_append)
    then show ?thesis by (rule set_takeWhileD [THEN conjunct2])
  qed
  have h: "head_row rems (i, prod.swap (hd (rems ! i)))" using i il by (simp add: head_row_def)
  have sub0: "set [0..<length rems] \<subseteq> {..<length rems}" by auto
  have sub: "set [i..<length rems] \<subseteq> {..<length rems}" by auto
  obtain m where m: "min_live nv buf reg cp [i..<length rems] (i, prod.swap (hd (rems ! i))) = Some m" "head_row rems m"
    "\<forall>k \<in> set [i..<length rems]. rems ! k \<noteq> [] \<longrightarrow> snd (snd m) \<le> fst (hd (rems ! k))"
    using min_live_ok [OF sz rel w sub h] by blast
  have "find_min nv (length rems) buf reg cp prev = Some m"
    using first_live_ok [OF sz rel sub0] d m(1) by (simp add: find_min_def)
  moreover have "snd (snd m) \<le> fst (hd xs)" if xs: "xs \<in> set rems" "xs \<noteq> []" for xs
  proof -
    obtain k where k: "k < length rems" "rems ! k = xs" using xs(1) by (auto simp: in_set_conv_nth)
    then have "i \<le> k" using before [of k] xs(2) by (meson not_le)
    then show ?thesis using m(3) k xs(2) by auto
  qed
  ultimately show ?thesis using m(2) by blast
qed

section \<open>The step to the next row\<close>

definition refill :: "u32 \<Rightarrow> u32 \<Rightarrow> row list \<Rightarrow> row option list \<Rightarrow> nat \<Rightarrow> chunk list \<Rightarrow> (row option list \<times> chunk list) option" where
  "refill rec reg file buf j chunks = do {
     c \<leftarrow> rd chunks j;
     if curSubChunk c = 0 then ReadSubChunk rec buf (of_nat j) reg chunks file else Some (buf, chunks) }"

lemma merge_rel_update:
  assumes rel: "merge_rel b r file buf cp rems" and j: "j < length rems" and c: "chunk_rel b r file buf' j c xs"
    and buf': "length buf' = length buf" "\<forall>q. q < j * r \<or> j * r + r \<le> q \<longrightarrow> buf' ! q = buf ! q"
  shows "merge_rel b r file buf' (cp[j := c]) (rems[j := xs])"
  unfolding merge_rel_def
proof (intro conjI allI impI)
  fix i assume i: "i < length (rems[j := xs])"
  show "chunk_rel b r file buf' i (cp[j := c] ! i) (rems[j := xs] ! i)"
  proof (cases "i = j")
    case True
    then show ?thesis using c j rel by (simp add: merge_rel_def)
  next
    case False
    then have "chunk_rel b r file buf i (cp ! i) (rems ! i)" using rel i by (simp add: merge_rel_def)
    then show ?thesis
      using chunk_rel_cong [of b r "file" buf i "cp ! i" "rems ! i" buf'] windows_apart [of j i r] buf'(2) False by auto
  qed
qed (use rel buf'(1) in \<open>simp_all add: merge_rel_def\<close>)

lemma all_empty_nth: "n \<le> length cp \<Longrightarrow> all_empty n cp \<longleftrightarrow> (\<forall>i < n. curSubChunk (cp ! i) = 0 \<and> curChunkNum (cp ! i) = 0)"
  by (auto simp: all_empty_def list_all_length)

lemma step_forward_ok:
  assumes sz: "sizes b r rec reg file buf" and rel: "merge_rel b r file buf cp rems" and h: "head_row rems m"
  shows "\<exists>cp' buf'' cp''. step_forward (fst m) cp = Some cp'
    \<and> (all_empty (length rems) cp' \<longleftrightarrow> concat (rems[fst m := tl (rems ! fst m)]) = [])
    \<and> refill rec reg file buf (fst m) cp' = Some (buf'', cp'')
    \<and> merge_rel b r file buf'' cp'' (rems[fst m := tl (rems ! fst m)]) \<and> length buf'' = length buf \<and> length cp'' = length cp"
proof -
  define j where "j = fst m"
  have j: "j < length rems" "rems ! j \<noteq> []" using h by (simp_all add: j_def head_row_def)
  have jc: "j < length cp" and room: "length rems * r \<le> length buf" "length rems \<le> length cp"
    using rel j by (simp_all add: merge_rel_def)
  define c where "c = cp ! j"
  obtain win rest where w: "rems ! j = win @ rest" "window_at r buf j c win" "rest_at b file c rest" "rest \<noteq> [] \<longrightarrow> win \<noteq> []"
    using rel j(1) unfolding merge_rel_def chunk_rel_def c_def by blast
  obtain e win' where win: "win = e # win'" using w(1,4) j(2) by (cases win) auto
  have t: "tl (rems ! j) = win' @ rest" using w(1) win by simp
  have cur: "unat (curSubChunk c) = Suc (length win')" "unat (posSubChunk c) + Suc (length win') \<le> r"
    using w(2) win by (simp_all add: window_at_def)
  then have nz: "curSubChunk c \<noteq> 0" by (metis nat.distinct(1) unsigned_0)
  define c' where "c' = c\<lparr>curSubChunk := curSubChunk c - 1, posSubChunk := posSubChunk c + 1\<rparr>"
  have u: "unat (curSubChunk c - 1) = length win'" using cur(1) nz by (simp add: unat_minus_one)
  have "j * r + r \<le> length buf" using window_room [OF j(1), of r] room(1) by linarith
  then have "unat (posSubChunk c) + 1 < 2 ^ 32" using cur(2) sz unfolding sizes_def by linarith
  then have p: "unat (posSubChunk c + 1) = Suc (unat (posSubChunk c))" by (simp add: unat_word_ariths)
  have win'_at: "window_at r buf j c' win'"
    using w(2) win u p by (auto simp: window_at_def c'_def)
  have "rest_at b file c' = rest_at b file c" by (simp add: fun_eq_iff rest_at_def c'_def)
  then have rest_at: "rest_at b file c' rest" using w(3) by simp
  define cp' where "cp' = cp[j := c']"
  have step: "step_forward j cp = Some cp'"
    using jc nz by (simp add: step_forward_def rd_def wr_def cp'_def c'_def c_def)
  have j': "cp' ! j = c'" using jc by (simp add: cp'_def)
  have empty_j: "curSubChunk c' = 0 \<and> curChunkNum c' = 0 \<longleftrightarrow> win' @ rest = []"
    using win'_at rest_at by (auto simp: window_at_def rest_at_def unsigned_eq_0_iff)
  have "curSubChunk (cp' ! i) = 0 \<and> curChunkNum (cp' ! i) = 0 \<longleftrightarrow> rems[j := win' @ rest] ! i = []" if "i < length rems" for i
  proof (cases "i = j")
    case True
    then show ?thesis using empty_j j' j(1) by simp
  next
    case False
    then show ?thesis using rel that chunk_rel_empty [of b r "file" buf i "cp ! i" "rems ! i"] by (auto simp: merge_rel_def cp'_def)
  qed
  then have "(\<forall>i < length rems. curSubChunk (cp' ! i) = 0 \<and> curChunkNum (cp' ! i) = 0)
      \<longleftrightarrow> (\<forall>i < length (rems[j := win' @ rest]). rems[j := win' @ rest] ! i = [])" by simp
  then have empty: "all_empty (length rems) cp' \<longleftrightarrow> concat (rems[j := win' @ rest]) = []"
    using all_empty_nth [of "length rems" cp'] room(2)
    by (simp add: cp'_def concat_eq_Nil_conv all_set_conv_all_nth del: length_list_update) simp
  have "\<exists>buf'' c''. refill rec reg file buf j cp' = Some (buf'', cp[j := c'']) \<and> length buf'' = length buf
    \<and> chunk_rel b r file buf'' j c'' (win' @ rest) \<and> (\<forall>q. q < j * r \<or> j * r + r \<le> q \<longrightarrow> buf'' ! q = buf ! q)"
  proof (cases "win' = [] \<and> rest \<noteq> []")
    case True
    have uj: "unat (of_nat j :: u32) = j" by (rule index_unat [OF sz room(1) j(1)])
    have "curSubChunk c' = 0" using win'_at True by (simp add: window_at_def unsigned_eq_0_iff)
    then show ?thesis
      using ReadSubChunk_ok [OF sz, of "of_nat j" cp' c' rest] uj jc \<open>j * r + r \<le> length buf\<close> j' rest_at True
      by (auto simp: refill_def rd_def cp'_def)
  next
    case False
    then have "chunk_rel b r file buf j c' (win' @ rest)" using win'_at rest_at unfolding chunk_rel_def by blast
    moreover have "refill rec reg file buf j cp' = Some (buf, cp[j := c'])"
    proof (cases "win' = []")
      case True
      then have "curChunkNum c' = 0" using False rest_at by (auto simp: rest_at_def unsigned_eq_0_iff)
      moreover have "unat (of_nat j :: u32) = j" by (rule index_unat [OF sz room(1) j(1)])
      ultimately show ?thesis using jc j' by (simp add: refill_def rd_def ReadSubChunk_def cp'_def)
    next
      case False
      then have "curSubChunk c' \<noteq> 0" using win'_at by (auto simp: window_at_def)
      then show ?thesis using jc j' by (simp add: refill_def rd_def cp'_def)
    qed
    ultimately show ?thesis by blast
  qed
  then show ?thesis
    using step empty merge_rel_update [OF rel j(1), of _ _ "win' @ rest"] t unfolding j_def [symmetric] by fastforce
qed

end
