(* ===== verification/Rbt_Group.thy ===== *)
theory Rbt_Group
  imports Rbt_Window
begin

text \<open>
  The merge and the whole computation of a view: the rows that the data-cube benchmark writes for a
  view are exactly the rows of a reference definition that groups the input by the selected
  dimensions.
\<close>

section \<open>Grouping\<close>

definition group_rows :: "nat \<Rightarrow> (u32 list \<times> u64 list) list \<Rightarrow> (u32 list \<times> u64 list) list" where
  "group_rows nm rs = map (\<lambda>k. (k, map (\<lambda>i. total_of i k rs) [0..<nm])) (sorted_list_of_set (fst ` set rs))"

lemma total_of_single: "sorted_wrt (<) (map fst ys) \<Longrightarrow> e \<in> set ys \<Longrightarrow> total_of i (fst e) ys = snd e ! i"
proof (induction ys)
  case (Cons y ys)
  have none: "total_of i k zs = 0" if "k \<notin> fst ` set zs" for k and zs :: "(u32 list \<times> u64 list) list"
    using that by (induction zs) auto
  show ?case
  proof (cases "e = y")
    case True
    have "fst y \<notin> fst ` set ys" using Cons.prems(1) by auto
    then show ?thesis using True none [of "fst y" ys] by (cases y) simp
  next
    case False
    then have "e \<in> set ys" "fst y \<noteq> fst e" using Cons.prems by auto
    then show ?thesis using Cons.IH Cons.prems(1) by (cases y) auto
  qed
qed simp

lemma group_unique:
  assumes s: "sorted_wrt (<) (map fst ys)" and k: "fst ` set ys = fst ` set rs" and l: "\<forall>e \<in> set ys. length (snd e) = nm"
    and t: "\<forall>i < nm. \<forall>k. total_of i k ys = total_of i k rs"
  shows "ys = group_rows nm rs"
proof -
  have keys: "map fst ys = sorted_list_of_set (fst ` set rs)"
    using s k by (metis list.set_map sorted_list_of_set.idem_if_sorted_distinct strict_sorted_iff)
  have e: "e = (fst e, map (\<lambda>i. total_of i (fst e) rs) [0..<nm])" if "e \<in> set ys" for e
  proof (rule prod_eqI)
    have "total_of i (fst e) rs = snd e ! i" if "i < nm" for i
      using t total_of_single [OF s \<open>e \<in> set ys\<close>, of i] that by metis
    then show "snd e = snd (fst e, map (\<lambda>i. total_of i (fst e) rs) [0..<nm])"
      using l that by (auto intro!: nth_equalityI)
  qed simp
  have "ys = map (\<lambda>e. (fst e, map (\<lambda>i. total_of i (fst e) rs) [0..<nm])) ys"
    by (rule map_idI [symmetric]) (use e in simp)
  also have "\<dots> = group_rows nm rs"
    unfolding group_rows_def keys [symmetric] by simp
  finally show ?thesis .
qed

section \<open>Writing a row\<close>

lemma merge_sums_ok:
  assumes "length ms = k" "k \<le> length ss" "k \<le> length cs"
  shows "\<exists>ss' cs'. merge_sums k n ms ss cs = Some (ss', cs') \<and> length ss' = length ss \<and> length cs' = length cs
    \<and> (\<forall>i < k. ss' ! i = ss ! i + ms ! i \<and> cs' ! i = cs ! i + c_rem (ucast n * ms ! i) measbound)"
  using assms
proof (induction k n ms ss cs rule: merge_sums.induct)
  case (2 k n m ms s ss c cs)
  obtain ss' cs' where i: "merge_sums k n ms ss cs = Some (ss', cs')" "length ss' = length ss" "length cs' = length cs"
    "\<forall>i < k. ss' ! i = ss ! i + ms ! i \<and> cs' ! i = cs ! i + c_rem (ucast n * ms ! i) measbound"
    using 2 by auto
  then show ?case by (auto simp: less_Suc_eq_0_disj)
qed auto

text \<open>The checksum of a measure over rows in the order in which they are written.\<close>

definition check_sum :: "nat \<Rightarrow> (u32 list \<times> u64 list) list \<Rightarrow> u64" where
  "check_sum i ys = (\<Sum>j < length ys. c_rem (ucast (of_nat (Suc j) :: u32) * snd (ys ! j) ! i) measbound)"

lemma check_sum_snoc:
  "check_sum i (ys @ [e]) = check_sum i ys + c_rem (ucast (of_nat (Suc (length ys)) :: u32) * snd e ! i) measbound"
proof -
  have "(\<Sum>j < length ys. c_rem (ucast (of_nat (Suc j) :: u32) * snd ((ys @ [e]) ! j) ! i) measbound) = check_sum i ys"
    unfolding check_sum_def by (rule sum.cong) (simp_all add: nth_append)
  then show ?thesis unfolding check_sum_def by simp
qed

text \<open>
  After the rows \<open>ys\<close> have been written, with \<open>pend\<close> in the output buffer and \<open>rest\<close> still to come,
  of a merge that began in \<open>v0\<close> and is to group the rows \<open>rs\<close>.
\<close>

definition written :: "view_cntl \<Rightarrow> view_cntl \<Rightarrow> (u32 list \<times> u64 list) list \<Rightarrow> bool" where
  "written v0 v ys \<longleftrightarrow> viewFile v = viewFile v0 @ map prod.swap ys \<and> nViewRows v = of_nat (length ys)
     \<and> vnv v = vnv v0 \<and> vnm v = vnm v0 \<and> numberOfChunks v = numberOfChunks v0 \<and> fileOfChunks v = fileOfChunks v0
     \<and> totalOfViewRows v = totalOfViewRows v0 \<and> vtree v = vtree v0
     \<and> length (vmSums v) = length (vmSums v0) \<and> length (vchecksums v) = length (vchecksums v0)
     \<and> (\<forall>i < unat (vnm v0). vmSums v ! i = vmSums v0 ! i + (\<Sum>e \<leftarrow> ys. snd e ! i)
          \<and> vchecksums v ! i = vchecksums v0 ! i + check_sum i ys)"

definition grouping :: "view_cntl \<Rightarrow> (u32 list \<times> u64 list) list \<Rightarrow> (u32 list \<times> u64 list) list \<Rightarrow> (u32 list \<times> u64 list) list
    \<Rightarrow> (u32 list \<times> u64 list) list \<Rightarrow> bool" where
  "grouping v0 rs ys pend rest \<longleftrightarrow> sorted_wrt (<) (map fst (ys @ pend)) \<and> (pend = [] \<longrightarrow> ys = [])
     \<and> (\<forall>p \<in> set pend. \<forall>e \<in> set rest. fst p \<le> fst e) \<and> (\<forall>e \<in> set (ys @ pend @ rest). row_widths v0 e)
     \<and> fst ` set (ys @ pend @ rest) = fst ` set rs
     \<and> (\<forall>i < unat (vnm v0). \<forall>k. total_of i k (ys @ pend @ rest) = total_of i k rs)"

lemma emit_row_ok:
  assumes w: "written v0 v ys" and e: "row_widths v0 e"
    and l: "unat (vnm v0) \<le> length (vmSums v0)" "unat (vnm v0) \<le> length (vchecksums v0)"
  shows "\<exists>err v'. emit_row ok (prod.swap e) v = Some (err, v') \<and> (if err then \<exists>k. \<not> ok k else written v0 v' (ys @ [e])
    \<and> chunksParams v' = chunksParams v)"
proof (cases "ok (length (viewFile v))")
  case False
  then show ?thesis by (auto simp: emit_row_def WriteToFile_def Let_def)
next
  case True
  have "length (snd e) = unat (vnm v)" "unat (vnm v) \<le> length (vmSums v)" "unat (vnm v) \<le> length (vchecksums v)"
    using w e l by (simp_all add: written_def row_widths_def)
  from merge_sums_ok [OF this, of "nViewRows v + 1"] obtain ss cs where
    "merge_sums (unat (vnm v)) (nViewRows v + 1) (snd e) (vmSums v) (vchecksums v) = Some (ss, cs)"
    "length ss = length (vmSums v)" "length cs = length (vchecksums v)"
    "\<forall>i < unat (vnm v). ss ! i = vmSums v ! i + snd e ! i
       \<and> cs ! i = vchecksums v ! i + c_rem (ucast (nViewRows v + 1) * snd e ! i) measbound" by blast
  moreover have "nViewRows v + 1 = of_nat (Suc (length ys))" using w by (simp add: written_def)
  ultimately show ?thesis
    using w True
    by (intro exI [of _ False] exI [of _ "v\<lparr>viewFile := viewFile v @ [prod.swap e], nViewRows := nViewRows v + 1,
        vmSums := ss, vchecksums := cs\<rparr>"])
      (simp add: emit_row_def WriteToFile_def Let_def written_def check_sum_snoc del: of_nat_Suc)
qed

section \<open>One round\<close>

lemma grouping_first: "grouping v0 rs [] [] (e # rest) \<Longrightarrow> \<forall>x \<in> set rest. fst e \<le> fst x \<Longrightarrow> grouping v0 rs [] [e] rest"
  by (simp add: grouping_def)

lemma total_of_Cons: "total_of i k (e # xs) = total_of i k [e] + total_of i k xs"
  by (cases e) simp

lemma grouping_equal:
  assumes g: "grouping v0 rs ys [p] (e # rest)" and eq: "fst p = fst e"
  shows "grouping v0 rs ys [(fst p, map2 (+) (snd p) (snd e))] rest"
proof -
  have l: "length (snd p) = unat (vnm v0)" "length (snd e) = unat (vnm v0)"
    using g by (simp_all add: grouping_def row_widths_def)
  have "total_of i k [(fst p, map2 (+) (snd p) (snd e))] = total_of i k [p] + total_of i k [e]" if "i < unat (vnm v0)" for i k
    using that l eq by (cases p; cases e) simp
  then have "total_of i k (ys @ [(fst p, map2 (+) (snd p) (snd e))] @ rest) = total_of i k (ys @ [p] @ e # rest)"
    if "i < unat (vnm v0)" for i k
    using that by (simp add: total_of_Cons [of i k e rest] total_of_Cons [of i k p "e # rest"]
        total_of_Cons [of i k "(fst p, map2 (+) (snd p) (snd e))" rest] add.assoc del: total_of_simps(3))
  then show ?thesis using g l eq by (auto simp: grouping_def row_widths_def)
qed

lemma grouping_next:
  assumes g: "grouping v0 rs ys [p] (e # rest)" and less: "fst p < fst e" and le: "\<forall>x \<in> set rest. fst e \<le> fst x"
  shows "grouping v0 rs (ys @ [p]) [e] rest"
proof -
  have "\<forall>x \<in> set ys. fst x < fst p" using g by (simp add: grouping_def sorted_wrt_append)
  then have "\<forall>x \<in> set ys. fst x < fst e" using less less_trans by blast
  then have "sorted_wrt (<) (map fst ((ys @ [p]) @ [e]))"
    using g less by (simp add: grouping_def sorted_wrt_append)
  moreover have "(ys @ [p]) @ [e] @ rest = ys @ [p] @ e # rest" by simp
  ultimately show ?thesis using g le unfolding grouping_def by (metis empty_iff empty_set list.distinct(1) set_ConsD)
qed

definition output_of :: "(u32 list \<times> u64 list) list \<Rightarrow> row option" where
  "output_of pend = (case pend of [] \<Rightarrow> None | p # _ \<Rightarrow> Some (prod.swap p))"

lemma merge_row_ok:
  assumes w: "written v0 v ys" and g: "grouping v0 rs ys pend (e # rest)" and p: "length pend \<le> 1"
    and le: "\<forall>x \<in> set rest. fst e \<le> fst x"
    and l: "unat (vnm v0) \<le> length (vmSums v0)" "unat (vnm v0) \<le> length (vchecksums v0)"
  shows "\<exists>err b v'. merge_row ok (prod.swap e) (output_of pend) v = Some (err, b, v')
    \<and> (if err then \<exists>k. \<not> ok k else \<exists>ys' p'. b = prod.swap p' \<and> written v0 v' ys' \<and> grouping v0 rs ys' [p'] rest
         \<and> chunksParams v' = chunksParams v)"
proof (cases pend)
  case Nil
  then have "ys = []" using g by (simp add: grouping_def)
  then have "grouping v0 rs ys [e] rest" using grouping_first [OF _ le, of v0 rs] g Nil by simp
  moreover have "merge_row ok (prod.swap e) (output_of pend) v = Some (False, prod.swap e, v)"
    using Nil by (simp add: merge_row_def output_of_def)
  ultimately show ?thesis using w by (metis (full_types))
next
  case (Cons q qs)
  then have pend: "pend = [q]" using p by simp
  have wid: "row_widths v0 q" "row_widths v0 e" and qe: "fst q \<le> fst e" and nv: "vnv v = vnv v0" "vnm v = vnm v0"
    using g w pend by (simp_all add: grouping_def written_def)
  have c: "KeyComp (fst q) (fst e) (unat (vnv v)) =
      Some (if fst q < fst e then - 1 else if fst e < fst q then 1 else 0)"
    using KeyComp_lex [of "unat (vnv v)" "fst q" "fst e"] wid nv by (simp add: row_widths_def)
  show ?thesis
  proof (cases "fst q = fst e")
    case True
    have "add_measures (unat (vnm v)) (snd q) (snd e) = Some (map2 (+) (snd q) (snd e))"
      using add_measures_sum [of "snd q" "unat (vnm v)" "snd e"] wid nv by (simp add: row_widths_def)
    then have "merge_row ok (prod.swap e) (output_of pend) v = Some (False, prod.swap (fst q, map2 (+) (snd q) (snd e)), v)"
      using c True pend by (simp add: merge_row_def output_of_def)
    then show ?thesis using w grouping_equal [OF _ True, of v0 rs ys rest] g pend by auto
  next
    case False
    then have less: "fst q < fst e" using qe by simp
    obtain err v' where em: "emit_row ok (prod.swap q) v = Some (err, v')"
      "if err then \<exists>k. \<not> ok k else written v0 v' (ys @ [q]) \<and> chunksParams v' = chunksParams v"
      using emit_row_ok [OF w wid(1) l] by blast
    have m: "merge_row ok (prod.swap e) (output_of pend) v = Some (err, prod.swap e, v')"
      using c less pend em(1) by (simp add: merge_row_def output_of_def)
    have n: "grouping v0 rs (ys @ [q]) [e] rest" by (rule grouping_next [OF _ less le]) (use g pend in simp)
    show ?thesis
    proof (cases err)
      case True
      then show ?thesis using em(2) m by metis
    next
      case False
      then show ?thesis using em(2) m n by (metis (full_types))
    qed
  qed
qed

section \<open>The loop\<close>

lemma total_of_mset: "mset xs = mset ys \<Longrightarrow> total_of i k xs = total_of i k ys"
  by (simp add: total_of_def flip: sum_mset_sum_list)

lemma grouping_mset:
  assumes g: "grouping v0 rs ys pend rest" and m: "mset rest' = mset rest"
  shows "grouping v0 rs ys pend rest'"
proof -
  have s: "set rest' = set rest" using m by (metis set_mset_mset)
  then have "set (ys @ pend @ rest') = set (ys @ pend @ rest)" by simp
  moreover have "total_of i k (ys @ pend @ rest') = total_of i k (ys @ pend @ rest)" for i k
    using total_of_mset [OF m] by simp
  ultimately show ?thesis using g unfolding grouping_def by (simp only: s) blast
qed

lemma concat_pick:
  assumes "head_row rems m"
  shows "mset (hd (rems ! fst m) # concat (rems[fst m := tl (rems ! fst m)])) = mset (concat rems)"
    "set (concat (rems[fst m := tl (rems ! fst m)])) \<subseteq> set (concat rems)"
proof -
  define j where "j = fst m"
  have j: "j < length rems" "rems ! j \<noteq> []" using assms by (simp_all add: head_row_def j_def)
  have r: "rems = take j rems @ rems ! j # drop (Suc j) rems" using id_take_nth_drop [OF j(1)] .
  have u: "rems[j := tl (rems ! j)] = take j rems @ tl (rems ! j) # drop (Suc j) rems"
    using upd_conv_take_nth_drop [OF j(1)] .
  have "mset (concat (rems[j := tl (rems ! j)])) = mset (concat (take j rems)) + (mset (tl (rems ! j)) + mset (concat (drop (Suc j) rems)))"
    unfolding u by simp
  moreover have "mset (concat rems) = mset (concat (take j rems)) + (mset (hd (rems ! j) # tl (rems ! j)) + mset (concat (drop (Suc j) rems)))"
    using j(2) by (subst r) simp
  ultimately have mm: "mset (hd (rems ! j) # concat (rems[j := tl (rems ! j)])) = mset (concat rems)" by simp
  then show "mset (hd (rems ! fst m) # concat (rems[fst m := tl (rems ! fst m)])) = mset (concat rems)"
    unfolding j_def .
  show "set (concat (rems[fst m := tl (rems ! fst m)])) \<subseteq> set (concat rems)"
    unfolding j_def [symmetric] using mm by (metis set_mset_mset set_subset_Cons)
qed

lemma sorted_heads:
  assumes "\<forall>xs \<in> set rems. keys_sorted xs" "\<forall>xs \<in> set rems. xs \<noteq> [] \<longrightarrow> k \<le> fst (hd xs)" "x \<in> set (concat rems)"
  shows "k \<le> fst x"
proof -
  obtain xs where xs: "xs \<in> set rems" "x \<in> set xs" using assms(3) by auto
  then have "xs \<noteq> []" by auto
  then obtain y ys where y: "xs = y # ys" by (meson neq_Nil_conv)
  have "k \<le> fst y" using assms(2) xs(1) y by auto
  moreover have "keys_sorted (y # ys)" using assms(1) xs(1) y by simp
  then have "fst y \<le> fst x" using xs(2) y by (auto simp: keys_sorted_def order_less_imp_le)
  ultimately show ?thesis by simp
qed

lemma grouping_key_width: "grouping v0 rs ys pend (concat rems) \<Longrightarrow> key_width (unat (vnv v0)) rems"
  by (auto simp: grouping_def key_width_def row_widths_def)

lemma merge_loop_ok:
  assumes "sizes b r rec reg (fileOfChunks v0) buf" "merge_rel b r (fileOfChunks v0) buf (chunksParams v) rems"
    "length rems = unat (numberOfChunks v0)" "concat rems \<noteq> []" "\<forall>xs \<in> set rems. keys_sorted xs"
    "written v0 v ys" "grouping v0 rs ys pend (concat rems)" "length pend \<le> 1"
    "unat (vnm v0) \<le> length (vmSums v0)" "unat (vnm v0) \<le> length (vchecksums v0)"
  shows "\<exists>err out v'. merge_loop ok rec reg buf prev (output_of pend) v = Some (err, out, v')
    \<and> (if err then \<exists>k. \<not> ok k else \<exists>ys' p'. out = prod.swap p' \<and> written v0 v' ys' \<and> grouping v0 rs ys' [p'] [])"
  using assms
proof (induction "length (concat rems)" arbitrary: rems buf v ys pend prev rule: less_induct)
  case less
  note sz = less.prems(1) and rel = less.prems(2) and n = less.prems(3) and ne = less.prems(4) and srt = less.prems(5)
  have v: "vnv v = vnv v0" "numberOfChunks v = numberOfChunks v0" "fileOfChunks v = fileOfChunks v0"
    using less.prems(6) by (simp_all add: written_def)
  obtain m where m: "find_min (unat (vnv v0)) (length rems) buf reg (chunksParams v) prev = Some m" "head_row rems m"
    "\<forall>xs \<in> set rems. xs \<noteq> [] \<longrightarrow> snd (snd m) \<le> fst (hd xs)"
    using find_min_ok [OF sz rel grouping_key_width [OF less.prems(7)] ne] by blast
  define e where "e = hd (rems ! fst m)"
  define rems' where "rems' = rems[fst m := tl (rems ! fst m)]"
  have em: "snd m = prod.swap e" using m(2) by (simp add: head_row_def e_def)
  note pick = concat_pick [OF m(2), folded e_def rems'_def]
  obtain cp' buf'' cp'' where s: "step_forward (fst m) (chunksParams v) = Some cp'"
    "all_empty (length rems) cp' \<longleftrightarrow> concat rems' = []"
    "refill rec reg (fileOfChunks v0) buf (fst m) cp' = Some (buf'', cp'')"
    "merge_rel b r (fileOfChunks v0) buf'' cp'' rems'" "length buf'' = length buf"
    using step_forward_ok [OF sz rel m(2)] unfolding rems'_def by blast
  have le: "\<forall>x \<in> set (concat rems'). fst e \<le> fst x"
  proof
    fix x assume "x \<in> set (concat rems')"
    then have "x \<in> set (concat rems)" using pick(2) by (rule rev_subsetD)
    then show "fst e \<le> fst x" using sorted_heads [OF srt m(3), of x] em by simp
  qed
  have w: "written v0 (v\<lparr>chunksParams := cp'\<rparr>) ys" using less.prems(6) by (simp add: written_def)
  have g: "grouping v0 rs ys pend (e # concat rems')" by (rule grouping_mset [OF less.prems(7) pick(1)])
  obtain err out v' where mr: "merge_row ok (prod.swap e) (output_of pend) (v\<lparr>chunksParams := cp'\<rparr>) = Some (err, out, v')"
    "if err then \<exists>k. \<not> ok k else \<exists>ys' p'. out = prod.swap p' \<and> written v0 v' ys' \<and> grouping v0 rs ys' [p'] (concat rems')
       \<and> chunksParams v' = chunksParams (v\<lparr>chunksParams := cp'\<rparr>)"
    using merge_row_ok [OF w g less.prems(8) le less.prems(9,10), of ok] by blast
  have loop: "merge_loop ok rec reg buf prev (output_of pend) v =
      (if err then Some (True, out, v')
       else if all_empty (unat (numberOfChunks v')) cp' then Some (False, out, v')
       else do {
         c \<leftarrow> rd cp' (fst m);
         (buf, chunks) \<leftarrow> (if curSubChunk c = 0 then ReadSubChunk rec buf (of_nat (fst m)) reg cp' (fileOfChunks v')
           else Some (buf, cp'));
         merge_loop ok rec reg buf (Some m) (Some out) (v'\<lparr>chunksParams := chunks\<rparr>) })"
    using m(1) s(1) mr(1) n v em by (subst merge_loop.simps) simp
  show ?case
  proof (cases err)
    case True
    then have "merge_loop ok rec reg buf prev (output_of pend) v = Some (True, out, v')" "\<exists>k. \<not> ok k"
      using loop mr(2) by simp_all
    then show ?thesis by (metis (full_types))
  next
    case False
    then obtain ys' p' where p': "out = prod.swap p'" "written v0 v' ys'" "grouping v0 rs ys' [p'] (concat rems')"
      using mr(2) by auto
    have v': "numberOfChunks v' = numberOfChunks v0" "fileOfChunks v' = fileOfChunks v0" using p'(2) by (simp_all add: written_def)
    show ?thesis
    proof (cases "concat rems' = []")
      case True
      then have "merge_loop ok rec reg buf prev (output_of pend) v = Some (False, out, v')"
        using loop False s(2) n v' by simp
      then show ?thesis using p'(1,2) p'(3) [unfolded True] by (metis (full_types))
    next
      case more: False
      obtain c where c: "rd cp' (fst m) = Some c"
        "(if curSubChunk c = 0 then ReadSubChunk rec buf (of_nat (fst m)) reg cp' (fileOfChunks v0) else Some (buf, cp')) = Some (buf'', cp'')"
        using s(3) unfolding refill_def by (auto simp: bind_eq_Some_conv)
      have ae: "\<not> all_empty (unat (numberOfChunks v')) cp'" using s(2) more n v' by metis
      have "merge_loop ok rec reg buf prev (output_of pend) v =
          merge_loop ok rec reg buf'' (Some m) (output_of [p']) (v'\<lparr>chunksParams := cp''\<rparr>)"
        unfolding loop using False ae by (simp add: c(1) c(2) [folded v'(2)] p'(1) output_of_def split del: if_split)
      moreover have "length (concat rems') < length (concat rems)"
        using arg_cong [OF pick(1), of size] by simp
      moreover have "sizes b r rec reg (fileOfChunks v0) buf''" using sz s(5) by (simp add: sizes_def)
      moreover have "\<forall>xs \<in> set rems'. keys_sorted xs"
      proof -
        have "keys_sorted (tl (rems ! fst m))"
          using srt m(2) by (cases "rems ! fst m") (auto simp: head_row_def keys_sorted_def dest!: nth_mem)
        then show ?thesis using srt by (auto simp: rems'_def dest!: set_update_subset_insert [THEN subsetD])
      qed
      moreover have "written v0 (v'\<lparr>chunksParams := cp''\<rparr>) ys'" using p'(2) by (simp add: written_def)
      moreover have "length rems' = unat (numberOfChunks v0)" using n by (simp add: rems'_def)
      ultimately show ?thesis
        using less.hyps [of rems' buf'' "v'\<lparr>chunksParams := cp''\<rparr>" ys' "[p']" "Some m"] s(4) more p'(3) less.prems(9,10)
        by simp
    qed
  qed
qed

section \<open>The merge\<close>

lemma sum_group:
  assumes "i < nm"
  shows "(\<Sum>e \<leftarrow> group_rows nm rs. snd e ! i) = (\<Sum>e \<leftarrow> rs. snd e ! i)"
proof -
  have "(\<Sum>k \<in> K. total_of i k xs) = (\<Sum>e \<leftarrow> xs. snd e ! i)" if "finite K" "fst ` set xs \<subseteq> K" for K xs
    using that
  proof (induction xs)
    case (Cons x xs)
    then show ?case by (cases x) (simp add: sum.distrib)
  qed simp
  then have "(\<Sum>k \<in> fst ` set rs. total_of i k rs) = (\<Sum>e \<leftarrow> rs. snd e ! i)" by simp
  moreover have "(\<Sum>e \<leftarrow> group_rows nm rs. snd e ! i) = (\<Sum>k \<leftarrow> sorted_list_of_set (fst ` set rs). total_of i k rs)"
    using assms by (simp add: group_rows_def comp_def)
  ultimately show ?thesis by (simp add: sum_list_distinct_conv_sum_set)
qed

lemma chunk_rest_at:
  assumes t: "chunk_table b cp cs" and j: "j < length cs" and s: "length (cs ! j) < 2 ^ 32" "b * length (concat cs) < 2 ^ 64"
  shows "rest_at b (map prod.swap (concat cs)) (cp ! j) (cs ! j)"
proof -
  let ?k = "length (concat (take j cs))"
  have c: "concat cs = concat (take j cs) @ cs ! j @ concat (drop (Suc j) cs)"
    by (metis concat.simps(2) concat_append id_take_nth_drop [OF j])
  have kl: "?k + length (cs ! j) \<le> length (concat cs)" using arg_cong [OF c, of length] by simp
  have "b * ?k \<le> b * length (concat cs)" by (rule mult_le_mono2) (use kl in simp)
  then have "b * ?k < 2 ^ 64" using s(2) by (rule le_less_trans)
  then have "unat (chunkOffset (cp ! j)) = b * ?k"
    using t j by (simp add: chunk_table_def unsigned_of_nat take_bit_nat_eq_self del: of_nat_mult)
  moreover have "unat (curChunkNum (cp ! j)) = length (cs ! j)"
    using t j s(1) by (simp add: chunk_table_def unsigned_of_nat take_bit_nat_eq_self)
  moreover have "map prod.swap (concat cs) ! (?k + t) = prod.swap (cs ! j ! t)" if "t < length (cs ! j)" for t
  proof -
    have "concat cs ! (?k + t) = cs ! j ! t" using that by (subst c) (simp add: nth_append)
    then show ?thesis using that kl by simp
  qed
  ultimately show ?thesis using kl unfolding rest_at_def by (metis length_map)
qed

lemma concat_bytes:
  assumes "\<forall>c \<in> set cs. b * length c < 2 ^ 32" "length cs \<le> 1024"
  shows "b * length (concat cs) < 2 ^ 64"
proof -
  have "b * length (concat cs) \<le> length cs * 2 ^ 32"
    using assms(1) by (induction cs) (auto simp: algebra_simps)
  also have "\<dots> \<le> 1024 * 2 ^ 32" using assms(2) by simp
  finally show ?thesis by simp
qed

text \<open>The windows of all chunks fit into the pool.\<close>

lemma merge_sizes:
  assumes c: "view_conf v" and n: "numberOfChunks v \<noteq> 0" and reg: "reg = (vmemoryLimit v div numberOfChunks v) div outRecSize v"
    and f: "rec_bytes v * length file < 2 ^ 64"
  shows "unat reg = unat (vmemoryLimit v) div unat (numberOfChunks v) div rec_bytes v"
    and "reg \<noteq> 0 \<Longrightarrow> sizes (rec_bytes v) (unat reg) (outRecSize v) reg file (replicate (unat (vmemoryLimit v) div unat (outRecSize v)) None)"
    and "unat (numberOfChunks v) * unat reg \<le> unat (vmemoryLimit v) div unat (outRecSize v)"
proof -
  have rec: "unat (outRecSize v) = rec_bytes v" using rec_bytes_word [OF c] c by (simp add: view_conf_def)
  have pos: "0 < rec_bytes v" using c by (simp add: view_conf_def rec_bytes_def word_le_nat_alt)
  show r: "unat reg = unat (vmemoryLimit v) div unat (numberOfChunks v) div rec_bytes v"
    unfolding reg by (simp add: unat_div rec)
  then have r': "unat reg = unat (vmemoryLimit v) div rec_bytes v div unat (numberOfChunks v)"
    by (simp add: div_mult2_eq [symmetric] mult.commute)
  show "unat (numberOfChunks v) * unat reg \<le> unat (vmemoryLimit v) div unat (outRecSize v)"
    unfolding r' rec by (simp add: times_div_less_eq_dividend)
  have "unat reg * rec_bytes v \<le> unat (vmemoryLimit v) div unat (numberOfChunks v)" unfolding r by simp
  also have "\<dots> \<le> unat (vmemoryLimit v)" by simp
  finally have rb: "unat reg * rec_bytes v < 2 ^ 32" using unat_less_32 [of "vmemoryLimit v"] by simp
  have "unat (vmemoryLimit v) div rec_bytes v < 2 ^ 32"
    by (rule le_less_trans [OF div_le_dividend]) (use unat_less_32 [of "vmemoryLimit v"] in simp)
  note small = this
  assume "reg \<noteq> 0"
  then have "0 < unat reg" by (simp add: unat_gt_0)
  then show "sizes (rec_bytes v) (unat reg) (outRecSize v) reg file (replicate (unat (vmemoryLimit v) div unat (outRecSize v)) None)"
    using rec pos rb f small by (simp add: sizes_def)
qed

text \<open>What the merge makes of the chunks \<open>cs\<close>.\<close>

definition merged :: "view_cntl \<Rightarrow> view_cntl \<Rightarrow> (u32 list \<times> u64 list) list \<Rightarrow> bool" where
  "merged v v' rs \<longleftrightarrow> (let out = group_rows (unat (vnm v)) rs in
     viewFile v' = viewFile v @ map prod.swap out \<and> nViewRows v' = of_nat (length out)
     \<and> totalOfViewRows v' = totalOfViewRows v + of_nat (length out)
     \<and> (\<forall>i < unat (vnm v). vmSums v' ! i = vmSums v ! i + (\<Sum>e \<leftarrow> rs. snd e ! i)))"

lemma MultiWayMerge_ok:
  assumes conf: "view_conf v" and cs: "chunk_table (rec_bytes v) (chunksParams v) cs" "\<forall>c \<in> set cs. chunk_ok v c" "cs \<noteq> []"
    "fileOfChunks v = map prod.swap (concat cs)" "length cs = unat (numberOfChunks v)"
    and l: "unat (vnm v) \<le> length (vmSums v)" "unat (vnm v) \<le> length (vchecksums v)"
  shows "\<exists>rc v'. MultiWayMerge ok v = Some (rc, v') \<and> (rc = ADC_OK \<and> merged v v' (concat cs)
      \<and> (\<forall>i < unat (vnm v). vchecksums v' ! i = vchecksums v ! i + check_sum i (group_rows (unat (vnm v)) (concat cs)))
    \<or> rc = ADC_WRITE_FAILED \<and> (\<exists>k. \<not> ok k)
    \<or> rc = ADC_INTERNAL_ERROR \<and> numberOfChunks v' = numberOfChunks v \<and> unat (vmemoryLimit v) < unat (numberOfChunks v) * rec_bytes v)"
proof -
  define reg where "reg = (vmemoryLimit v div numberOfChunks v) div outRecSize v"
  define v0 where "v0 = v\<lparr>nViewRows := 0, vtree := lost_nodes (vtree v)\<rparr>"
  let ?buf = "replicate (unat (vmemoryLimit v) div unat (outRecSize v)) (None :: row option)"
  have n: "numberOfChunks v \<noteq> 0" using cs(3,5) by (auto simp: unsigned_eq_0_iff)
  have small: "length cs \<le> 1024" using conf cs(1) by (simp add: view_conf_def chunk_table_def MAX_NUM_OF_CHUNKS_def)
  have bytes: "rec_bytes v * length (concat cs) < 2 ^ 64"
    by (rule concat_bytes [OF _ small]) (use cs(2) in \<open>simp add: chunk_ok_def\<close>)
  have pos: "0 < rec_bytes v" using conf by (simp add: view_conf_def rec_bytes_def word_le_nat_alt)
  have rec: "unat (outRecSize v) = rec_bytes v" using rec_bytes_word [OF conf] conf by (simp add: view_conf_def)
  then have rec0: "outRecSize v \<noteq> 0" using pos by auto
  have bytes': "rec_bytes v * length (fileOfChunks v) < 2 ^ 64" using bytes cs(4) by simp
  note sz = merge_sizes [OF conf n reg_def bytes']
  show ?thesis
  proof (cases "reg = 0")
    case True
    then have "unat (vmemoryLimit v) div unat (numberOfChunks v) div rec_bytes v = 0" using sz(1) by simp
    then have "unat (vmemoryLimit v) < unat (numberOfChunks v) * rec_bytes v"
      using pos n by (simp add: div_mult2_eq [symmetric] div_eq_0_iff unsigned_eq_0_iff)
    then show ?thesis using True n rec0 by (simp add: MultiWayMerge_def Let_def reg_def)
  next
    case False
    note sizes = sz(2) [OF False]
    have len: "length cs * unat reg \<le> length ?buf" using sz(3) cs(5) by simp
    have small_chunk: "length c < 2 ^ 32" if "c \<in> set cs" for c
    proof -
      have "length c \<le> rec_bytes v * length c" using pos by simp
      moreover have "rec_bytes v * length c < 2 ^ 32" using cs(2) that by (simp add: chunk_ok_def)
      ultimately show ?thesis by (rule le_less_trans)
    qed
    have rest: "\<forall>j < length cs. 0 \<le> j \<longrightarrow> rest_at (rec_bytes v) (fileOfChunks v) (chunksParams v ! j) (cs ! j) \<and> cs ! j \<noteq> []"
      using chunk_rest_at [OF cs(1) _ _ bytes] small_chunk cs(2,4) by (auto simp: chunk_ok_def)
    obtain buf cp where rc: "read_chunks (outRecSize v) reg (fileOfChunks v) [0..<length cs] (?buf, chunksParams v) = Some (buf, cp)"
      "merge_rel (rec_bytes v) (unat reg) (fileOfChunks v) buf cp cs" "length buf = length ?buf"
      using read_chunks_ok [OF sizes _ len _ _ rest] cs(1) by (auto simp: chunk_table_def)
    have sizes': "sizes (rec_bytes v) (unat reg) (outRecSize v) reg (fileOfChunks v0) buf"
      using sizes rc(3) rec by (simp add: sizes_def v0_def)
    have rel: "merge_rel (rec_bytes v) (unat reg) (fileOfChunks v0) buf (chunksParams (v0\<lparr>chunksParams := cp\<rparr>)) cs"
      using rc(2) by (simp add: v0_def)
    have w: "written v0 (v0\<lparr>chunksParams := cp\<rparr>) []" by (simp add: written_def v0_def check_sum_def)
    have "row_widths v0 = row_widths v" by (simp add: fun_eq_iff row_widths_def v0_def)
    then have g: "grouping v0 (concat cs) [] [] (concat cs)"
      using cs(2) by (auto simp: grouping_def chunk_ok_def)
    have srt: "\<forall>xs \<in> set cs. keys_sorted xs" using cs(2) by (simp add: chunk_ok_def)
    have ne: "concat cs \<noteq> []" using cs(2,3) by (cases cs) (auto simp: chunk_ok_def)
    have n0: "length cs = unat (numberOfChunks v0)" using cs(5) by (simp add: v0_def)
    have l0: "unat (vnm v0) \<le> length (vmSums v0)" "unat (vnm v0) \<le> length (vchecksums v0)" using l by (simp_all add: v0_def)
    obtain err out v1 where m: "merge_loop ok (outRecSize v) reg buf None (output_of []) (v0\<lparr>chunksParams := cp\<rparr>) = Some (err, out, v1)"
      "if err then \<exists>k. \<not> ok k else \<exists>ys p. out = prod.swap p \<and> written v0 v1 ys \<and> grouping v0 (concat cs) ys [p] []"
      using merge_loop_ok [OF sizes' rel n0 ne srt w g _ l0, of ok None] by auto
    have "v0\<lparr>chunksParams := cp\<rparr> = v\<lparr>nViewRows := 0, chunksParams := cp, vtree := lost_nodes (vtree v)\<rparr>"
      by (simp add: v0_def)
    with m(1) have ml: "merge_loop ok (outRecSize v) reg buf None None
        (v\<lparr>nViewRows := 0, chunksParams := cp, vtree := lost_nodes (vtree v)\<rparr>) = Some (err, out, v1)"
      by (simp add: output_of_def)
    have start: "MultiWayMerge ok v = (if err then Some (ADC_WRITE_FAILED, v1)
        else do { (e, v) \<leftarrow> emit_row ok out v1;
          if e then Some (ADC_WRITE_FAILED, v) else Some (ADC_OK, v\<lparr>totalOfViewRows := totalOfViewRows v + nViewRows v\<rparr>) })"
      using n rec0 False rc(1) ml cs(5) by (simp add: MultiWayMerge_def Let_def reg_def [symmetric])
    show ?thesis
    proof (cases err)
      case True
      then show ?thesis using start m(2) by simp
    next
      case False
      then obtain ys p where p: "out = prod.swap p" "written v0 v1 ys" "grouping v0 (concat cs) ys [p] []" using m(2) by auto
      have wp: "row_widths v0 p" using p(3) by (simp add: grouping_def)
      obtain e v2 where em: "emit_row ok out v1 = Some (e, v2)" "if e then \<exists>k. \<not> ok k else written v0 v2 (ys @ [p])"
        using emit_row_ok [OF p(2) wp l0, of ok] p(1) by auto
      have "ys @ [p] = group_rows (unat (vnm v0)) (concat cs)"
        by (rule group_unique) (use p(3) in \<open>simp_all add: grouping_def row_widths_def\<close>)
      then have out: "ys @ [p] = group_rows (unat (vnm v)) (concat cs)" by (simp add: v0_def)
      show ?thesis
      proof (cases e)
        case True
        then show ?thesis using start False em by simp
      next
        case nofail: False
        then have wr: "written v0 v2 (group_rows (unat (vnm v)) (concat cs))" using em(2) out by simp
        have "MultiWayMerge ok v = Some (ADC_OK, v2\<lparr>totalOfViewRows := totalOfViewRows v2 + nViewRows v2\<rparr>)"
          using start False nofail em(1) by simp
        moreover have "merged v (v2\<lparr>totalOfViewRows := totalOfViewRows v2 + nViewRows v2\<rparr>) (concat cs)"
          using wr sum_group [of _ "unat (vnm v)" "concat cs"] by (simp add: merged_def written_def Let_def v0_def)
        ultimately show ?thesis using wr by (simp add: written_def v0_def)
      qed
    qed
  qed
qed

end
