(* ===== verification/Rbt_Compute.thy ===== *)
theory Rbt_Compute
  imports Rbt_Group
begin

text \<open>
  The whole computation of a view in the data-cube benchmark, when it is not derived by one of the
  two shortcuts: the runs are formed, and then either the tree is written or the chunks are merged.
  Both ways end with the same file, that of the reference definition \<open>group_rows\<close>.
\<close>

section \<open>The model\<close>

text \<open>
  The body of \<open>ComputeGivenGroupbys\<close> for one view; the rows of the parent, the input file or an
  earlier view, are the list \<open>inp\<close>, and the two predicates say which \<open>fwrite\<close> succeeds in the file of
  chunks and in the file of views.
\<close>

definition compute_view :: "(nat \<Rightarrow> bool) \<Rightarrow> (nat \<Rightarrow> bool) \<Rightarrow> row list \<Rightarrow> view_cntl \<Rightarrow> (int \<times> view_cntl) option" where
  "compute_view okc okv inp v = do {
     (rc, v) \<leftarrow> RunFormation okc inp v;
     if rc \<noteq> ADC_OK then Some (rc, v)
     else if numberOfChunks v = 0 then
       let v = v\<lparr>nViewRows := tcount (vtree v)\<rparr>; v = v\<lparr>totalOfViewRows := totalOfViewRows v + nViewRows v\<rparr> in do {
         rn \<leftarrow> theap (vtree v) Root;
         (e, s, f) \<leftarrow> WriteViewToDiskCS okv (vtree v) (left_p rn)
           (\<lparr>mSums = vmSums v, checksums = vchecksums v, ordern = 0\<rparr>, viewFile v);
         let v = v\<lparr>vmSums := mSums s, vchecksums := checksums s, viewFile := f\<rparr> in
         Some (if e then ADC_WRITE_FAILED else ADC_OK, v) }
     else MultiWayMerge okv v }"

section \<open>Writing the tree\<close>

lemma sums_loop_ok:
  assumes "length ms = n" "n \<le> length ss" "n \<le> length cs"
  shows "\<exists>r. sums_loop n ms ss cs k = Some r \<and> length (mSums r) = length ss \<and> length (checksums r) = length cs
    \<and> (\<forall>i < n. mSums r ! i = ss ! i + ms ! i)"
  using assms
proof (induction n arbitrary: ms ss cs k)
  case (Suc n)
  then obtain m ms' s ss' c cs' where e: "ms = m # ms'" "ss = s # ss'" "cs = c # cs'"
    by (metis Suc_le_length_iff length_Suc_conv)
  have l: "length ms' = n" "n \<le> length ss'" "n \<le> length cs'" using Suc.prems e by simp_all
  obtain r where "sums_loop n ms' ss' cs' (k + 1) = Some r" "length (mSums r) = length ss'"
    "length (checksums r) = length cs'" "\<forall>i < n. mSums r ! i = ss' ! i + ms' ! i"
    using Suc.IH [OF l, of "k + 1"] by blast
  then show ?case using e by (auto simp: nth_Cons split: nat.splits)
qed simp

lemma view_rows_ok:
  assumes "\<forall>e \<in> set rs. length (snd e) = n" "n \<le> length (mSums s)" "n \<le> length (checksums s)"
  shows "\<exists>e s' f'. view_rows ok n (map prod.swap rs) (s, f) = Some (e, s', f')
    \<and> length (mSums s') = length (mSums s) \<and> length (checksums s') = length (checksums s)
    \<and> (if e then \<exists>k. \<not> ok k else f' = f @ map prod.swap rs
        \<and> (\<forall>i < n. mSums s' ! i = mSums s ! i + (\<Sum>e \<leftarrow> rs. snd e ! i)))"
  using assms
proof (induction rs arbitrary: s f)
  case (Cons r rs)
  have r: "length (snd r) = n" using Cons.prems by simp
  obtain t where t: "sums_node n (snd r) s = Some t" "length (mSums t) = length (mSums s)"
    "length (checksums t) = length (checksums s)" "\<forall>i < n. mSums t ! i = mSums s ! i + snd r ! i"
    using sums_loop_ok [OF r Cons.prems(2,3), of "ordern s"] by (auto simp: sums_node_def)
  show ?case
  proof (cases "ok (length f)")
    case False
    then show ?thesis
      using t by (intro exI [of _ True] exI [of _ t] exI [of _ f]) (auto simp: WriteToFile_def Let_def)
  next
    case True
    have l: "\<forall>e \<in> set rs. length (snd e) = n" "n \<le> length (mSums t)" "n \<le> length (checksums t)"
      using Cons.prems t by simp_all
    obtain e s' f' where "view_rows ok n (map prod.swap rs) (t, f @ [prod.swap r]) = Some (e, s', f')"
      "length (mSums s') = length (mSums t)" "length (checksums s') = length (checksums t)"
      "if e then \<exists>k. \<not> ok k else f' = (f @ [prod.swap r]) @ map prod.swap rs
        \<and> (\<forall>i < n. mSums s' ! i = mSums t ! i + (\<Sum>e \<leftarrow> rs. snd e ! i))"
      using Cons.IH [OF l, of "f @ [prod.swap r]"] by blast
    then show ?thesis
      using True t by (intro exI [of _ e] exI [of _ s'] exI [of _ f']) (simp add: WriteToFile_def Let_def split: if_splits)
  qed
qed (auto intro: exI [of _ False])

section \<open>What a computation keeps\<close>

text \<open>The settings and the sizes of the arrays.\<close>

definition frame :: "view_cntl \<Rightarrow> u32 list \<times> u32 \<times> u32 \<times> u32 \<times> u32 \<times> u32 \<times> u32 \<times> nat list" where
  "frame v = (selection v, vnd v, vnm v, vnv v, outRecSize v, vmemoryLimit v, memoryLimit (vtree v),
     [length (nodes (vtree v)), length (drcts (vtree v)), length (chunksParams v), length (vmSums v), length (vchecksums v)])"

lemma ReadSubChunk_length: "ReadSubChunk rec buf i reg cp file = Some (buf', cp') \<Longrightarrow> length cp' = length cp"
  by (auto simp: ReadSubChunk_def wr_def split: if_splits Option.bind_splits)

lemma read_chunks_length: "read_chunks rec reg file is (buf, cp) = Some (buf', cp') \<Longrightarrow> length cp' = length cp"
  by (induction "is" arbitrary: buf cp) (auto dest!: ReadSubChunk_length split: Option.bind_splits)

lemma step_forward_length: "step_forward j cp = Some cp' \<Longrightarrow> length cp' = length cp"
  by (auto simp: step_forward_def wr_def split: if_splits Option.bind_splits)

lemma merge_sums_length: "merge_sums k n ms ss cs = Some (ss', cs') \<Longrightarrow> length ss' = length ss \<and> length cs' = length cs"
  by (induction k n ms ss cs arbitrary: ss' cs' rule: merge_sums.induct) (auto split: Option.bind_splits)

lemma emit_row_frame: "emit_row ok r v = Some (e, v') \<Longrightarrow> frame v' = frame v"
  by (auto simp: emit_row_def Let_def frame_def dest!: merge_sums_length split: if_splits prod.splits Option.bind_splits)

lemma merge_row_frame: "merge_row ok r out v = Some (e, b, v') \<Longrightarrow> frame v' = frame v"
  by (auto simp: merge_row_def dest!: emit_row_frame split: if_splits option.splits Option.bind_splits)

lemma frame_chunks: "frame w = frame v \<Longrightarrow> length cp = length (chunksParams v) \<Longrightarrow> frame (w\<lparr>chunksParams := cp\<rparr>) = frame v"
  by (simp add: frame_def)

lemma merge_loop_frame:
  assumes "merge_loop ok rec reg buf prev out v = Some y"
  shows "frame (snd (snd y)) = frame v"
proof (rule merge_loop.raw_induct [where P="\<lambda>ok rec reg buf prev out v y. frame (snd (snd y)) = frame v", OF _ assms])
  fix ml ok rec reg buf prev out v y
  assume ih: "\<And>rec reg buf prev out v b y. ml rec reg buf prev out v b = Some y \<Longrightarrow> frame (snd (snd y)) = frame b"
    and step: "do {
     m \<leftarrow> find_min (unat (vnv v)) (unat (numberOfChunks v)) buf reg (chunksParams v) prev;
     chunks \<leftarrow> step_forward (fst m) (chunksParams v);
     (e, b, v) \<leftarrow> merge_row ok (snd m) out (v\<lparr>chunksParams := chunks\<rparr>);
     if e then Some (True, b, v)
     else if all_empty (unat (numberOfChunks v)) chunks then Some (False, b, v)
     else do {
       c \<leftarrow> rd chunks (fst m);
       (buf, chunks) \<leftarrow> (if curSubChunk c = 0 then ReadSubChunk rec buf (of_nat (fst m)) reg chunks (fileOfChunks v)
         else Some (buf, chunks));
       ml ok rec reg buf (Some m) (Some b) (v\<lparr>chunksParams := chunks\<rparr>) } } = Some y"
  show "frame (snd (snd y)) = frame v"
    using step by (auto dest!: ih step_forward_length merge_row_frame ReadSubChunk_length simp: frame_chunks
      split: if_splits Option.bind_splits)
qed

lemma MultiWayMerge_frame: "MultiWayMerge ok v = Some (rc, v') \<Longrightarrow> frame v' = frame v"
  by (auto simp: MultiWayMerge_def Let_def dest!: read_chunks_length merge_loop_frame emit_row_frame
      split: if_splits Option.bind_splits) (simp_all add: frame_def lost_nodes_def)

section \<open>The result\<close>

lemma group_cong:
  assumes "fst ` set xs = fst ` set ys" "\<forall>i < n. \<forall>k. total_of i k xs = total_of i k ys"
  shows "group_rows n xs = group_rows n ys"
  using assms by (simp add: group_rows_def)

lemma merged_cong:
  assumes "fst ` set xs = fst ` set ys" "\<forall>i < unat (vnm v). \<forall>k. total_of i k xs = total_of i k ys"
  shows "merged v v' xs = merged v v' ys"
proof -
  have g: "group_rows (unat (vnm v)) xs = group_rows (unat (vnm v)) ys" by (rule group_cong [OF assms])
  have "(\<Sum>e \<leftarrow> xs. snd e ! i) = (\<Sum>e \<leftarrow> ys. snd e ! i)" if "i < unat (vnm v)" for i
    using sum_group [OF that, of xs] sum_group [OF that, of ys] g by simp
  then show ?thesis unfolding merged_def g by simp
qed

lemma write_tree_ok:
  assumes a: "aggregated v v' inp [] x" "same_conf v v'" "tnm (vtree v') = vnm v" "numberOfChunks v' = 0"
    and l: "unat (vnm v) \<le> length (vmSums v)" "unat (vnm v) \<le> length (vchecksums v)"
    and run: "RunFormation okc inp v = Some (ADC_OK, v')" and fr: "frame v' = frame v"
  shows "\<exists>rc w. compute_view okc okv inp v = Some (rc, w)
    \<and> (rc = ADC_OK \<and> merged v w (map (view_row v) inp) \<and> frame w = frame v \<or> rc = ADC_WRITE_FAILED \<and> (\<exists>k. \<not> okv k))"
proof -
  let ?m = "map (view_row v) inp"
  have rb: "rb_inv (vtree v') x" and srt: "sorted_wrt (<) (map fst (rows x))" and wd: "\<forall>e \<in> set (rows x). length (snd e) = unat (vnm v)"
    and keys: "fst ` set (rows x) = fst ` set ?m" and tot: "\<forall>i < unat (vnm v). \<forall>k. total_of i k (rows x) = total_of i k ?m"
    using a(1) by (simp_all add: aggregated_def row_widths_def)
  have g: "rows x = group_rows (unat (vnm v)) ?m" by (rule group_unique [OF srt keys wd tot])
  have same: "viewFile v' = viewFile v" "totalOfViewRows v' = totalOfViewRows v" "vmSums v' = vmSums v" "vchecksums v' = vchecksums v"
    "vnm v' = vnm v" using a(2) by (simp_all add: same_conf_def)
  obtain rn where rn: "theap (vtree v') Root = Some rn" "rep (theap (vtree v')) (left_p rn) x"
    using rb by (auto simp: rb_inv_def whole_def)
  have "unat (tcount (vtree v')) = length (rows x)" using rb by (simp add: rb_inv_def pool_ok_def)
  moreover have "of_nat (unat (tcount (vtree v'))) = tcount (vtree v')" by simp
  ultimately have cnt: "tcount (vtree v') = of_nat (length (rows x))" by simp
  define w where "w = v'\<lparr>nViewRows := tcount (vtree v'), totalOfViewRows := totalOfViewRows v' + tcount (vtree v')\<rparr>"
  let ?s = "\<lparr>mSums = vmSums v, checksums = vchecksums v, ordern = 0\<rparr>"
  obtain e s' f' where r: "view_rows okv (unat (vnm v)) (map prod.swap (rows x)) (?s, viewFile v) = Some (e, s', f')"
    "length (mSums s') = length (vmSums v)" "length (checksums s') = length (vchecksums v)"
    "if e then \<exists>k. \<not> okv k else f' = viewFile v @ map prod.swap (rows x)
        \<and> (\<forall>i < unat (vnm v). mSums s' ! i = mSums ?s ! i + (\<Sum>e \<leftarrow> rows x. snd e ! i))"
    using view_rows_ok [OF wd, of ?s okv "viewFile v"] l by auto
  have "WriteViewToDiskCS okv (vtree v') (left_p rn) (?s, viewFile v) = Some (e, s', f')"
    using WriteViewToDiskCS_rows [OF rn(2), of okv] r(1) a(3) by simp
  then have cv: "compute_view okc okv inp v = Some (if e then ADC_WRITE_FAILED else ADC_OK,
      w\<lparr>vmSums := mSums s', vchecksums := checksums s', viewFile := f'\<rparr>)"
    using run a(4) rn(1) same by (simp add: compute_view_def Let_def w_def)
  show ?thesis
  proof (cases e)
    case True
    then show ?thesis using cv r(4) by simp
  next
    case False
    then have f: "f' = viewFile v @ map prod.swap (rows x)"
      "\<forall>i < unat (vnm v). mSums s' ! i = vmSums v ! i + (\<Sum>e \<leftarrow> rows x. snd e ! i)" using r(4) by simp_all
    have "merged v (w\<lparr>vmSums := mSums s', vchecksums := checksums s', viewFile := f'\<rparr>) ?m"
      unfolding merged_def Let_def g [symmetric] w_def
      using f cnt same sum_group [of _ "unat (vnm v)" ?m] by (simp add: g)
    moreover have "frame (w\<lparr>vmSums := mSums s', vchecksums := checksums s', viewFile := f'\<rparr>) = frame v"
      using fr r(2,3) by (simp add: frame_def w_def)
    ultimately show ?thesis using cv False by simp
  qed
qed

lemma merge_view_ok:
  assumes a: "aggregated v v' inp cs x" "same_conf v v'" "cs \<noteq> []" and conf: "view_conf v" "length (chunksParams v') = MAX_NUM_OF_CHUNKS"
    and l: "unat (vnm v) \<le> length (vmSums v)" "unat (vnm v) \<le> length (vchecksums v)"
    and run: "RunFormation okc inp v = Some (ADC_OK, v')" and fr: "frame v' = frame v"
  shows "\<exists>rc w. compute_view okc okv inp v = Some (rc, w)
    \<and> (rc = ADC_OK \<and> merged v w (map (view_row v) inp) \<and> frame w = frame v \<or> rc = ADC_WRITE_FAILED \<and> (\<exists>k. \<not> okv k)
       \<or> rc = ADC_INTERNAL_ERROR \<and> unat (vmemoryLimit v) < unat (numberOfChunks w) * rec_bytes v)"
proof -
  let ?m = "map (view_row v) inp"
  note eqs = same_conf_eqs [OF a(2)]
  have conf': "view_conf v'" using conf a(2) by (simp add: view_conf_def same_conf_def)
  have n: "numberOfChunks v' \<noteq> 0" using a(1,3) by (auto simp: aggregated_def)
  have cs: "chunk_table (rec_bytes v') (chunksParams v') cs" "\<forall>c \<in> set cs. chunk_ok v' c" "cs \<noteq> []"
    "fileOfChunks v' = map prod.swap (concat cs)" "length cs = unat (numberOfChunks v')"
    using a(1,3) eqs by (simp_all add: aggregated_def)
  have same: "viewFile v' = viewFile v" "totalOfViewRows v' = totalOfViewRows v" "vmSums v' = vmSums v" "vchecksums v' = vchecksums v"
    "vnm v' = vnm v" "vmemoryLimit v' = vmemoryLimit v" "rec_bytes v' = rec_bytes v" using a(2) eqs by (simp_all add: same_conf_def)
  have l': "unat (vnm v') \<le> length (vmSums v')" "unat (vnm v') \<le> length (vchecksums v')" using l same by simp_all
  have cv: "compute_view okc okv inp v = MultiWayMerge okv v'" using run n by (simp add: compute_view_def)
  have "fst ` set (concat cs) = fst ` set ?m" "\<forall>i < unat (vnm v). \<forall>k. total_of i k (concat cs) = total_of i k ?m"
    using a(1,3) by (simp_all add: aggregated_def)
  then have "merged v w (concat cs) = merged v w ?m" for w by (rule merged_cong)
  moreover have "merged v' w = merged v w" for w by (rule ext) (simp add: merged_def same)
  ultimately show ?thesis
    using MultiWayMerge_ok [OF conf' cs l', of okv] MultiWayMerge_frame [of okv v'] fr unfolding cv same(6,7) by metis
qed

lemma merged_inputs:
  assumes "merged v w (map (view_row v) inp)"
  shows "let out = group_rows (unat (vnm v)) (map (view_row v) inp) in
    viewFile w = viewFile v @ map prod.swap out \<and> nViewRows w = of_nat (length out)
    \<and> totalOfViewRows w = totalOfViewRows v + of_nat (length out)
    \<and> (\<forall>i < unat (vnm v). vmSums w ! i = vmSums v ! i + (\<Sum>r \<leftarrow> inp. fst r ! i))"
proof -
  have "(\<Sum>e \<leftarrow> map (view_row v) inp. snd e ! i) = (\<Sum>r \<leftarrow> inp. fst r ! i)" if "i < unat (vnm v)" for i
    using that by (simp add: comp_def view_row_def)
  then have "\<forall>i < unat (vnm v). vmSums w ! i = vmSums v ! i + (\<Sum>r \<leftarrow> inp. fst r ! i)"
    using assms by (simp add: merged_def Let_def)
  then show ?thesis using assms unfolding merged_def Let_def by blast
qed

lemma RunFormation_frame:
  assumes "same_conf v v'" "aggregated v v' inp cs x" "length (chunksParams v') = length (chunksParams v)"
    and "length (nodes (vtree v)) = MAX_TREE_HEIGHT" "length (drcts (vtree v)) = MAX_TREE_HEIGHT"
  shows "frame v' = frame v"
  using assms by (simp add: frame_def same_conf_def aggregated_def rb_inv_def pool_ok_def)

lemma compute_view_result:
  assumes "view_conf v" and "length (nodes (vtree v)) = MAX_TREE_HEIGHT" and "length (drcts (vtree v)) = MAX_TREE_HEIGHT"
    and "numberOfChunks v = 0" and "fileOfChunks v = []" and "unat (nRowsToRead v) = length inp"
    and "\<forall>r \<in> set inp. row_conf v r"
    and "unat (vnm v) \<le> length (vmSums v)" and "unat (vnm v) \<le> length (vchecksums v)"
  shows "\<exists>rc w. compute_view okc okv inp v = Some (rc, w)
    \<and> (rc = ADC_OK \<and> merged v w (map (view_row v) inp) \<and> frame w = frame v
       \<or> rc = ADC_WRITE_FAILED \<and> ((\<exists>k. \<not> okc k) \<or> (\<exists>k. \<not> okv k))
       \<or> rc = ADC_INTERNAL_ERROR \<and> (unat (numberOfChunks w) = MAX_NUM_OF_CHUNKS
            \<or> unat (vmemoryLimit v) < unat (numberOfChunks w) * rec_bytes v))"
proof -
  obtain rc v1 where r: "RunFormation okc inp v = Some (rc, v1)" "same_conf v v1"
    "rc = ADC_OK \<and> (\<exists>cs x. aggregated v v1 inp cs x \<and> tnm (vtree v1) = vnm v \<and> length (chunksParams v1) = MAX_NUM_OF_CHUNKS)
      \<or> failed okc rc v1"
    using RunFormation_result [OF assms(1-7), of okc] by blast
  show ?thesis
  proof (cases "failed okc rc v1")
    case True
    then have "rc \<noteq> ADC_OK" by (auto simp: failed_def ADC_OK_def ADC_WRITE_FAILED_def ADC_INTERNAL_ERROR_def)
    then have "compute_view okc okv inp v = Some (rc, v1)" using r(1) by (simp add: compute_view_def)
    then show ?thesis using True unfolding failed_def by (intro exI [of _ rc] exI [of _ v1]) blast
  next
    case False
    then obtain cs x where a: "rc = ADC_OK" "aggregated v v1 inp cs x" "tnm (vtree v1) = vnm v"
      "length (chunksParams v1) = MAX_NUM_OF_CHUNKS" using r(3) by blast
    have run: "RunFormation okc inp v = Some (ADC_OK, v1)" using r(1) a(1) by simp
    have fr: "frame v1 = frame v"
      by (rule RunFormation_frame [OF r(2) a(2)]) (use a(4) assms(1-3) in \<open>simp_all add: view_conf_def\<close>)
    show ?thesis
    proof (cases "cs = []")
      case True
      then have "aggregated v v1 inp [] x" "numberOfChunks v1 = 0"
        using a(2) by (simp_all add: aggregated_def unsigned_eq_0_iff)
      then show ?thesis using write_tree_ok [OF _ r(2) a(3) _ assms(8,9) run fr, of x okv] by blast
    next
      case False
      show ?thesis using merge_view_ok [OF a(2) r(2) False assms(1) a(4) assms(8,9) run fr, of okv] by blast
    qed
  qed
qed

section \<open>Property\<close>

text \<open>
  C4. A computed view is the grouping of its input.  For every size of the pool and every number
  of chunks the computation of a view returns.  Unless a write fails, the table of chunks is full or
  the memory is too small for a window of one record a chunk, it appends to the view file exactly
  one row for each key that occurs among the selected dimensions of the input rows, in ascending
  order, with the sums of the measures of the rows with that key (modulo \<open>2 ^ 64\<close>), whether the
  view was written from the tree or merged from chunks; it counts these rows, and the measure sums
  of the view grow by the sums over all input rows.
\<close>
theorem compute_view_groups:
  assumes "view_conf v" and "length (nodes (vtree v)) = MAX_TREE_HEIGHT" and "length (drcts (vtree v)) = MAX_TREE_HEIGHT"
    and "numberOfChunks v = 0" and "fileOfChunks v = []" and "unat (nRowsToRead v) = length inp"
    and "\<forall>r \<in> set inp. row_conf v r"
    and "unat (vnm v) \<le> length (vmSums v)" and "unat (vnm v) \<le> length (vchecksums v)"
  shows "\<exists>rc v'. compute_view okc okv inp v = Some (rc, v')
    \<and> (rc = ADC_OK \<and> (let out = group_rows (unat (vnm v)) (map (view_row v) inp) in
          viewFile v' = viewFile v @ map prod.swap out \<and> nViewRows v' = of_nat (length out)
          \<and> totalOfViewRows v' = totalOfViewRows v + of_nat (length out)
          \<and> (\<forall>i < unat (vnm v). vmSums v' ! i = vmSums v ! i + (\<Sum>r \<leftarrow> inp. fst r ! i)))
       \<or> rc = ADC_WRITE_FAILED \<and> ((\<exists>k. \<not> okc k) \<or> (\<exists>k. \<not> okv k))
       \<or> rc = ADC_INTERNAL_ERROR \<and> (unat (numberOfChunks v') = MAX_NUM_OF_CHUNKS
            \<or> unat (vmemoryLimit v) < unat (numberOfChunks v') * rec_bytes v))"
  using compute_view_result [OF assms, of okc okv] merged_inputs by blast

theorem compute_view_groups_witness:
  "\<exists>rc v'. compute_view (\<lambda>k. True) (\<lambda>k. True) [([1], [7]), ([2], [7])] two_row_view = Some (rc, v')
    \<and> (rc = ADC_OK \<and> viewFile v' = [([3], [7])] \<and> vmSums v' ! 0 = 3 \<or> rc = ADC_INTERNAL_ERROR)"
proof -
  let ?inp = "[([1], [7]), ([2], [7])] :: row list"
  have c: "view_conf two_row_view"
    by (simp add: view_conf_def two_row_view_def CreateEmptyTree_def tree_node_size_def Let_def)
  have d: "length (nodes (vtree two_row_view)) = MAX_TREE_HEIGHT" "length (drcts (vtree two_row_view)) = MAX_TREE_HEIGHT"
    "numberOfChunks two_row_view = 0" "fileOfChunks two_row_view = []" "unat (nRowsToRead two_row_view) = length ?inp"
    "\<forall>r \<in> set ?inp. row_conf two_row_view r" "unat (vnm two_row_view) \<le> length (vmSums two_row_view)"
    "unat (vnm two_row_view) \<le> length (vchecksums two_row_view)"
    by (simp_all add: two_row_view_def CreateEmptyTree_def row_conf_def MAX_TREE_HEIGHT_def)
  have g: "map prod.swap (group_rows (unat (vnm two_row_view)) (map (view_row two_row_view) ?inp)) = [([3], [7])]"
    "vmSums two_row_view = [0]" "viewFile two_row_view = []" "0 < unat (vnm two_row_view)"
    by (simp_all add: group_rows_def view_row_def two_row_view_def)
  show ?thesis
    using compute_view_groups [OF c d, of "\<lambda>k. True" "\<lambda>k. True"] g unfolding Let_def by fastforce
qed

end
