(* ===== verification/Cube_Tuples.thy ===== *)
theory Cube_Tuples
  imports Bench_Prelude
begin

text \<open>
  The tuples of the data-cube benchmark (\<open>DC/jobcntl.c\<close>): a view is named by a word whose most
  significant bits say which dimensions it keeps.  The functions that test and build such words,
  the list of the selected dimensions, and the selection of a view among the dimensions of a view it
  is derived from.
\<close>

section \<open>The model\<close>

definition MLB :: u64 where "MLB = 0x8000000000000000"

definition MLB32 :: u32 where "MLB32 = 0x80000000"

text \<open>A shift by the width of the word or more is undefined.\<close>

definition SetOneBit :: "u64 \<Rightarrow> u32 \<Rightarrow> u64 option" where
  "SetOneBit s pos = (if pos < 64 then Some (s OR drop_bit (unat pos) MLB) else None)"

definition SetOneBit32 :: "u32 \<Rightarrow> u32 \<Rightarrow> u32 option" where
  "SetOneBit32 s pos = (if pos < 32 then Some (s OR drop_bit (unat pos) MLB32) else None)"

fun mlo_loop :: "nat \<Rightarrow> u32 \<Rightarrow> u32 \<Rightarrow> u32 \<Rightarrow> u32" where
  "mlo_loop 0 x om k = k"
| "mlo_loop (Suc n) x om k = (if om AND x \<noteq> 0 then k else mlo_loop n x (drop_bit 1 om) (k + 1))"

definition Mlo32 :: "u32 \<Rightarrow> u32" where
  "Mlo32 x = mlo_loop 32 x MLB32 0"

fun mro_loop :: "nat \<Rightarrow> u32 \<Rightarrow> u32 \<Rightarrow> u32 \<Rightarrow> u32" where
  "mro_loop 0 x om k = k"
| "mro_loop (Suc n) x om k = (if om AND x \<noteq> 0 then k else mro_loop n x (push_bit 1 om) (k - 1))"

definition mro32 :: "u32 \<Rightarrow> u32" where
  "mro32 x = mro_loop 32 x 1 32"

text \<open>The mask of this loop is signed: its shift to the right keeps the sign bit.\<close>

fun leading_loop :: "nat \<Rightarrow> u32 \<Rightarrow> u32 \<Rightarrow> u32" where
  "leading_loop 0 x om = x"
| "leading_loop (Suc n) x om = leading_loop n (x OR om) (signed_drop_bit 1 om)"

definition setLeadingOnes32 :: "u32 \<Rightarrow> u32" where
  "setLeadingOnes32 n = leading_loop (unat n) 0 MLB32"

fun ones_loop :: "nat \<Rightarrow> u64 \<Rightarrow> u64 \<Rightarrow> u32 \<Rightarrow> u32" where
  "ones_loop 0 s ob n = n"
| "ones_loop (Suc k) s ob n = ones_loop k s (drop_bit 1 ob) (if s AND ob \<noteq> 0 then n + 1 else n)"

definition NumberOfOnes :: "u64 \<Rightarrow> u32" where
  "NumberOfOnes s = ones_loop 64 s MLB 0"

text \<open>
  The dimensions of a tuple, numbered from 1; the loop counts the units of the tuple with the index
  into the result.
\<close>

fun reg_loop :: "'a::len word \<Rightarrow> nat \<Rightarrow> 'a word \<Rightarrow> u32 \<Rightarrow> u32 \<Rightarrow> u32 list \<Rightarrow> (u32 list \<times> u32) option" where
  "reg_loop b 0 oc i j sel = Some (sel, j)"
| "reg_loop b (Suc n) oc i j sel =
    (if b AND oc \<noteq> 0 then do {
       sel \<leftarrow> wr sel (unat j) (i + 1);
       reg_loop b n (drop_bit 1 oc) (i + 1) (j + 1) sel }
     else reg_loop b n (drop_bit 1 oc) (i + 1) j sel)"

definition GetRegTupleFromBin64 :: "u64 \<Rightarrow> u32 list \<Rightarrow> u32 \<Rightarrow> (u32 list \<times> u32) option" where
  "GetRegTupleFromBin64 b sel numDims = reg_loop b (unat numDims) MLB 0 0 sel"

definition getRegTupleFromBin32 :: "u32 \<Rightarrow> u32 list \<Rightarrow> u32 \<Rightarrow> (u32 list \<times> u32) option" where
  "getRegTupleFromBin32 b sel numDims = reg_loop b (unat numDims) MLB32 0 0 sel"

text \<open>The same among the dimensions of a parent, which \<open>k\<close> counts.\<close>

fun parent_loop :: "u32 \<Rightarrow> u32 \<Rightarrow> nat \<Rightarrow> u32 \<Rightarrow> u32 \<Rightarrow> u32 \<Rightarrow> u32 list \<Rightarrow> u32 list option" where
  "parent_loop p u 0 oc k j sel = Some sel"
| "parent_loop p u (Suc n) oc k j sel =
    (let k = (if p AND oc \<noteq> 0 then k + 1 else k) in
     if p AND oc \<noteq> 0 \<and> u AND oc \<noteq> 0 then do {
       sel \<leftarrow> wr sel (unat j) k;
       parent_loop p u n (drop_bit 1 oc) k (j + 1) sel }
     else parent_loop p u n (drop_bit 1 oc) k j sel)"

text \<open>The conversion of a tuple from 64 to 32 bits, at the top of both.\<close>

definition groupby32 :: "u64 \<Rightarrow> u32 \<Rightarrow> u32 option" where
  "groupby32 b nd = (if 1 \<le> nd \<and> nd \<le> 32
     then Some (push_bit (unat (32 - nd)) (ucast (drop_bit (unat (64 - nd)) b))) else None)"

definition GetRegTupleFromParent :: "u64 \<Rightarrow> u32 \<Rightarrow> u32 list \<Rightarrow> u32 \<Rightarrow> u32 list option" where
  "GetRegTupleFromParent b p sel nd = do {
     u \<leftarrow> groupby32 b nd;
     parent_loop p u (unat nd) MLB32 0 0 sel }"

fun create_loop :: "nat \<Rightarrow> nat \<Rightarrow> u32 list \<Rightarrow> u64 \<Rightarrow> u64 option" where
  "create_loop 0 i sel s = Some s"
| "create_loop (Suc n) i sel s = do {
     x \<leftarrow> rd sel i;
     s \<leftarrow> SetOneBit s (x - 1);
     create_loop n (Suc i) sel s }"

definition CreateBinTuple :: "u32 list \<Rightarrow> u32 \<Rightarrow> u64 option" where
  "CreateBinTuple sel numDims = create_loop (unat numDims) 0 sel 0"

section \<open>Selected dimensions\<close>

text \<open>The positions, from the most significant bit on, at which a word has a one.\<close>

definition dims :: "nat \<Rightarrow> 'a::len word \<Rightarrow> nat list" where
  "dims nd b = filter (\<lambda>i. bit b (LENGTH('a) - 1 - i)) [0..<nd]"

abbreviation top_bit :: "nat \<Rightarrow> 'a::len word" where
  "top_bit i \<equiv> push_bit (LENGTH('a) - 1 - i) 1"

lemma MLB_top: "MLB = top_bit 0"
  by (simp add: MLB_def push_bit_eq_mult)

lemma MLB32_top: "MLB32 = top_bit 0"
  by (simp add: MLB32_def push_bit_eq_mult)

lemma top_bit_test: "(b :: 'a::len word) AND top_bit i \<noteq> 0 \<longleftrightarrow> bit b (LENGTH('a) - 1 - i)"
  by (simp add: bit_iff_and_push_bit_not_eq_0)

lemma top_bit_shift: "Suc i < LENGTH('a::len) \<Longrightarrow> drop_bit (Suc 0) (top_bit i :: 'a word) = top_bit (Suc i)"
proof (rule bit_word_eqI)
  fix n assume "Suc i < LENGTH('a)" "n < LENGTH('a)"
  then show "bit (drop_bit (Suc 0) (top_bit i :: 'a word)) n = bit (top_bit (Suc i) :: 'a word) n"
    by (simp only: bit_drop_bit_eq comp_def bit_push_bit_iff bit_1_iff) auto
qed

lemma reg_loop_dims:
  fixes b :: "'a::len word"
  assumes "i + n \<le> LENGTH('a)" "LENGTH('a) \<le> 64"
    and "j + length (filter (\<lambda>i. bit b (LENGTH('a) - 1 - i)) [i..<i + n]) \<le> length sel" "j + n \<le> 128"
  shows "reg_loop b n (top_bit i) (of_nat i) (of_nat j) sel =
    (let ds = filter (\<lambda>i. bit b (LENGTH('a) - 1 - i)) [i..<i + n] in
     Some (take j sel @ map (\<lambda>i. of_nat (Suc i)) ds @ drop (j + length ds) sel, of_nat (j + length ds)))"
  using assms
proof (induction n arbitrary: i j sel)
  case (Suc n)
  have next_bit: "reg_loop b n (drop_bit 1 (top_bit i)) i' j' sel' = reg_loop b n (top_bit (Suc i)) i' j' sel'" for i' j' sel'
    using top_bit_shift [where 'a='a, of i] Suc.prems(1) by (cases n) simp_all
  have up: "[i..<i + Suc n] = i # [Suc i..<Suc i + n]" by (simp add: upt_rec)
  have i: "of_nat i + 1 = (of_nat (Suc i) :: u32)" "of_nat j + 1 = (of_nat (Suc j) :: u32)" by simp_all
  show ?case
  proof (cases "bit b (LENGTH('a) - 1 - i)")
    case True
    have j: "unat (of_nat j :: u32) = j" "j < length sel"
      using Suc.prems(3,4) True unfolding up by (simp_all add: unsigned_of_nat take_bit_nat_eq_self)
    define sel' where "sel' = sel[j := of_nat (Suc i)]"
    have "reg_loop b (Suc n) (top_bit i) (of_nat i) (of_nat j) sel = reg_loop b n (top_bit (Suc i)) (of_nat (Suc i)) (of_nat (Suc j)) sel'"
      using True j next_bit by (simp only: reg_loop.simps top_bit_test i wr_Some if_True bind.bind_lunit sel'_def)
    then show ?thesis
      using Suc.IH [of "Suc i" "Suc j" sel'] Suc.prems True j(2) unfolding up
      by (simp add: Let_def sel'_def take_list_update_Suc del: upt_Suc)
  next
    case False
    then show ?thesis
      using Suc.IH [of "Suc i" j sel] Suc.prems next_bit unfolding up
      by (simp only: reg_loop.simps top_bit_test i if_False) (simp add: Let_def del: upt_Suc)
  qed
qed simp

lemma dims_less: "i \<in> set (dims nd b) \<Longrightarrow> i < nd"
  by (simp add: dims_def)

lemma length_dims: "length (dims nd b) \<le> nd"
  unfolding dims_def by (rule le_trans [OF length_filter_le]) simp

text \<open>The list of the selected dimensions.\<close>

definition selected :: "nat list \<Rightarrow> u32 list" where
  "selected ds = map (\<lambda>i. of_nat (Suc i)) ds"

lemma selected_simps [simp]:
  "selected [] = []" "selected (d # ds) = of_nat (Suc d) # selected ds" "length (selected ds) = length ds"
  by (simp_all add: selected_def)

lemma GetRegTupleFromBin64_dims:
  assumes "unat nd \<le> 64" "length (dims (unat nd) b) \<le> length sel"
  shows "GetRegTupleFromBin64 b sel nd =
    Some (selected (dims (unat nd) b) @ drop (length (dims (unat nd) b)) sel, of_nat (length (dims (unat nd) b)))"
  using reg_loop_dims [where i=0 and n="unat nd" and b=b and j=0 and sel=sel] assms
  by (simp add: GetRegTupleFromBin64_def MLB_top dims_def selected_def Let_def)

lemma ones_loop_count:
  fixes s :: u64
  assumes "i + n \<le> 64"
  shows "ones_loop n s (top_bit i) k = k + of_nat (length (filter (\<lambda>i. bit s (63 - i)) [i..<i + n]))"
  using assms
proof (induction n arbitrary: i k)
  case (Suc n)
  have next_bit: "ones_loop n s (drop_bit 1 (top_bit i)) k' = ones_loop n s (top_bit (Suc i)) k'" for k'
    using top_bit_shift [where 'a=64, of i] Suc.prems(1) by (cases n) simp_all
  have up: "[i..<i + Suc n] = i # [Suc i..<Suc i + n]" by (simp add: upt_rec)
  show ?case
    using Suc.IH [of "Suc i"] Suc.prems next_bit top_bit_test [of s i] unfolding up
    by (simp only: ones_loop.simps) simp
qed simp

lemma NumberOfOnes_dims: "NumberOfOnes s = of_nat (length (dims 64 s))"
  using ones_loop_count [where i=0 and n=64 and s=s and k=0] by (simp add: NumberOfOnes_def MLB_top dims_def)

lemma NumberOfOnes_ucast: "NumberOfOnes (ucast (g :: u32)) = of_nat (length (dims 32 g))"
proof -
  have up: "[0..<64] = [0..<32] @ map ((+) 32) [0..<32]" by (simp add: upt_rec)
  have low: "filter (\<lambda>i. bit (ucast g :: u64) (63 - i)) [0..<32] = []"
    by (rule filter_False) (auto simp: bit_simps dest: bit_imp_le_length)
  have "filter (\<lambda>i. bit (ucast g :: u64) (63 - (32 + i))) [0..<32] = filter (\<lambda>i. bit g (31 - i)) [0..<32]"
    by (rule filter_cong) (auto simp: bit_simps)
  then have "length (dims 64 (ucast g :: u64)) = length (dims 32 g)"
    unfolding dims_def using low by (simp add: up filter_map comp_def)
  then show ?thesis by (simp add: NumberOfOnes_dims)
qed

text \<open>The conversion keeps the dimensions.\<close>

lemma groupby32_bit:
  assumes "groupby32 b nd = Some g" "i < 32"
  shows "bit g (31 - i) \<longleftrightarrow> i < unat nd \<and> bit b (63 - i)"
proof -
  have nd: "1 \<le> nd" "nd \<le> 32" and g: "g = push_bit (unat (32 - nd)) (ucast (drop_bit (unat (64 - nd)) b))"
    using assms(1) by (auto simp: groupby32_def split: if_splits)
  have u: "unat (32 - nd) = 32 - unat nd" "unat (64 - nd) = 64 - unat nd" "unat nd \<le> 32"
    using nd by (simp_all add: unat_sub word_le_nat_alt)
  show ?thesis
    unfolding g u by (simp add: bit_simps) (use assms(2) u(3) in auto)
qed

lemma groupby32_dims:
  assumes "groupby32 b nd = Some g"
  shows "dims (unat nd) g = dims (unat nd) b" "dims 32 g = dims (unat nd) b"
proof -
  have nd: "unat nd \<le> 32" using assms by (auto simp: groupby32_def word_le_nat_alt split: if_splits)
  then show "dims (unat nd) g = dims (unat nd) b"
    unfolding dims_def by (intro filter_cong) (simp_all add: groupby32_bit [OF assms])
  have up: "[0..<32] = [0..<unat nd] @ [unat nd..<32]" using upt_add_eq_append [of 0 "unat nd" "32 - unat nd"] nd by simp
  have "filter (\<lambda>i. bit g (31 - i)) [unat nd..<32] = []"
    by (rule filter_False) (auto simp: groupby32_bit [OF assms])
  then show "dims 32 g = dims (unat nd) b"
    using \<open>dims (unat nd) g = dims (unat nd) b\<close> unfolding dims_def by (simp add: up)
qed

section \<open>Dimensions of a parent\<close>

text \<open>The numbers of the dimensions \<open>ds\<close> among those of the parent.\<close>

definition among :: "u32 \<Rightarrow> nat list \<Rightarrow> u32 list" where
  "among p ds = map (\<lambda>i. of_nat (Suc (length (dims i p)))) ds"

lemma dims_Suc: "dims (Suc i) b = dims i b @ (if bit b (LENGTH('a) - 1 - i) then [i] else [])" for b :: "'a::len word"
  by (simp add: dims_def)

lemma parent_loop_among:
  assumes "i + n \<le> 32" "j + length (filter (\<lambda>i. bit p (31 - i) \<and> bit u (31 - i)) [i..<i + n]) \<le> length sel" "j \<le> i"
  shows "parent_loop p u n (top_bit i) (of_nat (length (dims i p))) (of_nat j) sel =
    (let ds = filter (\<lambda>i. bit p (31 - i) \<and> bit u (31 - i)) [i..<i + n] in
     Some (take j sel @ among p ds @ drop (j + length ds) sel))"
  using assms
proof (induction n arbitrary: i j sel)
  case (Suc n)
  have next_bit: "parent_loop p u n (drop_bit 1 (top_bit i)) k' j' sel' = parent_loop p u n (top_bit (Suc i)) k' j' sel'" for k' j' sel'
    using top_bit_shift [where 'a=32, of i] Suc.prems(1) by (cases n) simp_all
  have up: "[i..<i + Suc n] = i # [Suc i..<Suc i + n]" by (simp add: upt_rec)
  have k: "(if p AND top_bit i \<noteq> 0 then of_nat (length (dims i p)) + 1 else of_nat (length (dims i p))) =
      (of_nat (length (dims (Suc i) p)) :: u32)"
    using top_bit_test [of p i] by (simp add: dims_Suc)
  have j1: "of_nat j + 1 = (of_nat (Suc j) :: u32)" by simp
  show ?case
  proof (cases "bit p (31 - i) \<and> bit u (31 - i)")
    case True
    have j: "unat (of_nat j :: u32) = j" "j < length sel"
      using Suc.prems True unfolding up by (simp_all add: unsigned_of_nat take_bit_nat_eq_self)
    have t: "p AND top_bit i \<noteq> 0 \<and> u AND top_bit i \<noteq> 0"
      using True top_bit_test [of p i] top_bit_test [of u i] by simp
    define sel' where "sel' = sel[j := of_nat (length (dims (Suc i) p))]"
    have "parent_loop p u (Suc n) (top_bit i) (of_nat (length (dims i p))) (of_nat j) sel =
        parent_loop p u n (top_bit (Suc i)) (of_nat (length (dims (Suc i) p))) (of_nat (Suc j)) sel'"
      unfolding parent_loop.simps Let_def k if_P [OF t] j(1) wr_Some [OF j(2)] bind.bind_lunit j1 next_bit sel'_def ..
    also have "\<dots> = (let ds = filter (\<lambda>i. bit p (31 - i) \<and> bit u (31 - i)) [Suc i..<Suc i + n] in
        Some (take (Suc j) sel' @ among p ds @ drop (Suc j + length ds) sel'))"
      by (rule Suc.IH) (use Suc.prems [unfolded up] True in \<open>simp_all add: sel'_def del: upt_Suc\<close>)
    also have "\<dots> = (let ds = filter (\<lambda>i. bit p (31 - i) \<and> bit u (31 - i)) [i..<i + Suc n] in
        Some (take j sel @ among p ds @ drop (j + length ds) sel))"
      using True j(2) unfolding up sel'_def by (simp add: Let_def take_list_update_Suc among_def dims_Suc del: upt_Suc)
    finally show ?thesis .
  next
    case False
    then have t: "\<not> (p AND top_bit i \<noteq> 0 \<and> u AND top_bit i \<noteq> 0)"
      using top_bit_test [of p i] top_bit_test [of u i] by simp
    have "parent_loop p u (Suc n) (top_bit i) (of_nat (length (dims i p))) (of_nat j) sel =
        parent_loop p u n (top_bit (Suc i)) (of_nat (length (dims (Suc i) p))) (of_nat j) sel"
      unfolding parent_loop.simps Let_def k if_not_P [OF t] next_bit ..
    also have "\<dots> = (let ds = filter (\<lambda>i. bit p (31 - i) \<and> bit u (31 - i)) [Suc i..<Suc i + n] in
        Some (take j sel @ among p ds @ drop (j + length ds) sel))"
      by (rule Suc.IH) (use Suc.prems [unfolded up] False in \<open>simp_all del: upt_Suc\<close>)
    finally show ?thesis unfolding up filter.simps if_not_P [OF False] by simp
  qed
qed (simp add: among_def)

lemma GetRegTupleFromParent_among:
  assumes g: "groupby32 b nd = Some g" and l: "length (dims (unat nd) b) \<le> length sel"
    and sub: "\<forall>i \<in> set (dims (unat nd) b). bit p (31 - i)"
  shows "GetRegTupleFromParent b p sel nd = Some (among p (dims (unat nd) b) @ drop (length (dims (unat nd) b)) sel)"
proof -
  have nd: "unat nd \<le> 32" using g by (auto simp: groupby32_def word_le_nat_alt split: if_splits)
  have f: "filter (\<lambda>i. bit p (31 - i) \<and> bit g (31 - i)) [0..<unat nd] = dims (unat nd) b"
    unfolding dims_def by (rule filter_cong) (use sub nd groupby32_bit [OF g] in \<open>auto simp: dims_def\<close>)
  show ?thesis
    using parent_loop_among [of 0 "unat nd" 0 p g sel] nd l g
    by (simp add: f GetRegTupleFromParent_def MLB32_top dims_def [of 0] Let_def)
qed

text \<open>Selecting among the dimensions of the parent is selecting among all of them.\<close>

lemma nth_dims:
  fixes b :: "'a::len word"
  shows "i \<in> set (dims nd b) \<Longrightarrow> length (dims i b) < length (dims nd b) \<and> dims nd b ! length (dims i b) = i"
proof -
  assume i: "i \<in> set (dims nd b)"
  then have "i < nd" by (rule dims_less)
  then have up: "[0..<nd] = [0..<i] @ i # [Suc i..<nd]"
    using upt_add_eq_append [of 0 i "nd - i"] by (simp add: upt_conv_Cons)
  have "bit b (LENGTH('a) - 1 - i)" using i by (simp add: dims_def)
  then show ?thesis unfolding dims_def by (simp add: up nth_append)
qed

lemma among_selects:
  assumes "unat nd \<le> 32" "set ds \<subseteq> set (dims (unat nd) p)" "x \<in> set (among p ds)"
  shows "unat (x - 1) < length (dims (unat nd) p)"
proof -
  obtain i where i: "i \<in> set ds" "x = of_nat (Suc (length (dims i p)))" using assms(3) by (auto simp: among_def)
  have l: "length (dims i p) < length (dims (unat nd) p)" using nth_dims [of i "unat nd" p] i(1) assms(2) by auto
  moreover have "length (dims (unat nd) p) \<le> 32" using length_dims [of "unat nd" p] assms(1) by simp
  ultimately show ?thesis using i(2) by (simp add: unsigned_of_nat take_bit_nat_eq_self)
qed

lemma among_dims:
  assumes "unat nd \<le> 32" "set ds \<subseteq> set (dims (unat nd) p)"
  shows "map (\<lambda>x. map f (dims (unat nd) p) ! unat (x - 1)) (among p ds) = map f ds"
proof -
  have "map f (dims (unat nd) p) ! unat (of_nat (Suc (length (dims i p))) - 1 :: u32) = f i" if "i \<in> set ds" for i
  proof -
    have l: "length (dims i p) < length (dims (unat nd) p)" "dims (unat nd) p ! length (dims i p) = i"
      using nth_dims [of i "unat nd" p] that assms(2) by auto
    moreover have "length (dims (unat nd) p) \<le> 32" using length_dims [of "unat nd" p] assms(1) by simp
    ultimately show ?thesis by (simp add: unsigned_of_nat take_bit_nat_eq_self)
  qed
  then show ?thesis by (simp add: among_def comp_def)
qed

lemma selected_dims:
  assumes "\<forall>d \<in> set ds. d < 32"
  shows "map (\<lambda>x. ks ! unat (x - 1)) (selected ds) = map (\<lambda>i. ks ! i) ds"
    and "x \<in> set (selected ds) \<Longrightarrow> unat (x - 1) \<in> set ds"
proof -
  have d: "unat (of_nat (Suc i) - 1 :: u32) = i" if "i \<in> set ds" for i
  proof -
    have "i < 32" using that assms by simp
    then show ?thesis by (simp add: unsigned_of_nat take_bit_nat_eq_self)
  qed
  then show "map (\<lambda>x. ks ! unat (x - 1)) (selected ds) = map (\<lambda>i. ks ! i) ds"
    by (simp add: selected_def comp_def del: of_nat_Suc)
  show "x \<in> set (selected ds) \<Longrightarrow> unat (x - 1) \<in> set ds"
    using d by (auto simp: selected_def simp del: of_nat_Suc)
qed

section \<open>Round trip\<close>

lemma MLB_bit: "bit MLB n \<longleftrightarrow> n = 63"
  unfolding MLB_top by (simp only: bit_push_bit_iff bit_1_iff) auto

lemma create_loop_bits:
  assumes "take (length ds) (drop i sel) = selected ds" "\<forall>d \<in> set ds. d < 64" "i + length ds \<le> length sel"
  shows "\<exists>r. create_loop (length ds) i sel s = Some r
    \<and> (\<forall>m < 64. bit r (63 - m) \<longleftrightarrow> bit s (63 - m) \<or> m \<in> set ds)"
  using assms
proof (induction ds arbitrary: i s)
  case (Cons d ds)
  have d: "d < 64" "unat (of_nat d :: u32) = d" using Cons.prems(2) by (simp_all add: unsigned_of_nat take_bit_nat_eq_self)
  have up: "drop i sel = sel ! i # drop (Suc i) sel" using Cons.prems(3) by (simp add: drop_eq_nth_tl)
  have x: "sel ! i - 1 = of_nat d" "take (length ds) (drop (Suc i) sel) = selected ds" using Cons.prems(1) by (simp_all add: up)
  have "SetOneBit s (of_nat d) = Some (s OR drop_bit d MLB)"
    using d by (simp add: SetOneBit_def word_less_nat_alt)
  moreover obtain r where "create_loop (length ds) (Suc i) sel (s OR drop_bit d MLB) = Some r"
    "\<forall>m < 64. bit r (63 - m) \<longleftrightarrow> bit (s OR drop_bit d MLB) (63 - m) \<or> m \<in> set ds"
    using Cons.IH [OF x(2), of "s OR drop_bit d MLB"] Cons.prems(2,3) by auto
  moreover have "bit (s OR drop_bit d MLB) (63 - m) \<longleftrightarrow> bit s (63 - m) \<or> m = d" if "m < 64" for m
    using that d(1) by (auto simp: MLB_bit bit_or_iff bit_drop_bit_eq)
  ultimately show ?case using Cons.prems(3) x(1) by (simp add: rd_def)
qed simp

text \<open>
  C32. The list of the dimensions of a tuple and the tuple of a list of dimensions are inverse: from
  a tuple the selected dimensions are extracted in ascending order, their number is the number of
  ones, and the tuple that is built from them has exactly the ones of the dimensions asked for.
\<close>
theorem tuples_read_back:
  assumes "unat nd \<le> 64" and "unat nd \<le> length sel"
  shows "\<exists>sel' n c. GetRegTupleFromBin64 b sel nd = Some (sel', n) \<and> length sel' = length sel
    \<and> sorted_wrt (<) (map unat (take (unat n) sel')) \<and> CreateBinTuple sel' n = Some c
    \<and> (\<forall>m < 64. bit c (63 - m) \<longleftrightarrow> m < unat nd \<and> bit b (63 - m)) \<and> n = NumberOfOnes c"
proof -
  let ?ds = "dims (unat nd) b"
  let ?sel = "selected ?ds @ drop (length ?ds) sel"
  have len: "length ?ds \<le> unat nd" by (rule length_dims)
  have n: "unat (of_nat (length ?ds) :: u32) = length ?ds"
    using len assms(1) by (simp add: unsigned_of_nat take_bit_nat_eq_self)
  have reg: "GetRegTupleFromBin64 b sel nd = Some (?sel, of_nat (length ?ds))"
    by (rule GetRegTupleFromBin64_dims) (use assms len in simp_all)
  have less: "\<forall>d \<in> set ?ds. d < 64" using assms(1) by (auto simp: dims_def)
  obtain c where c: "create_loop (length ?ds) 0 ?sel 0 = Some c"
    "\<forall>m < 64. bit c (63 - m) \<longleftrightarrow> bit (0 :: u64) (63 - m) \<or> m \<in> set ?ds"
    using create_loop_bits [of ?ds 0 ?sel 0] less by auto
  have bits: "\<forall>m < 64. bit c (63 - m) \<longleftrightarrow> m < unat nd \<and> bit b (63 - m)"
    using c(2) by (auto simp: dims_def)
  have "dims 64 c = dims (unat nd) c"
  proof -
    have up: "[0..<64] = [0..<unat nd] @ [unat nd..<64]" using upt_add_eq_append [of 0 "unat nd" "64 - unat nd"] assms(1) by simp
    have "filter (\<lambda>i. bit c (63 - i)) [unat nd..<64] = []" by (rule filter_False) (use bits in auto)
    then show ?thesis unfolding dims_def by (simp add: up)
  qed
  also have "\<dots> = ?ds" unfolding dims_def by (rule filter_cong) (use bits assms(1) in auto)
  finally have "NumberOfOnes c = of_nat (length ?ds)" by (simp add: NumberOfOnes_dims)
  moreover have "sorted_wrt (<) (map unat (selected ?ds))"
  proof -
    have "map unat (selected ?ds) = map Suc ?ds"
    proof -
      have "take_bit 32 (Suc x) = Suc x" if "x \<in> set ?ds" for x
        by (rule take_bit_nat_eq_self) (use less that in auto)
      then show ?thesis by (simp add: selected_def unsigned_of_nat del: of_nat_Suc)
    qed
    moreover have "sorted_wrt (<) ?ds" unfolding dims_def by (rule sorted_wrt_filter) simp
    ultimately show ?thesis by (simp add: sorted_wrt_map)
  qed
  ultimately show ?thesis using reg c(1) bits n len assms(2) by (auto simp: CreateBinTuple_def)
qed

theorem tuples_read_back_witness:
  "\<exists>sel' n c. GetRegTupleFromBin64 0xB000000000000000 [0, 0, 0] 3 = Some (sel', n) \<and> CreateBinTuple sel' n = Some c
    \<and> \<not> bit c 60 \<and> bit c 61 \<and> bit c 63"
proof -
  obtain sel' n c where "GetRegTupleFromBin64 0xB000000000000000 [0, 0, 0] 3 = Some (sel', n)" "CreateBinTuple sel' n = Some c"
    "\<forall>m < 64. bit c (63 - m) \<longleftrightarrow> m < unat (3 :: u32) \<and> bit (0xB000000000000000 :: u64) (63 - m)"
    using tuples_read_back [of 3 "[0, 0, 0]" "0xB000000000000000"] by auto
  then show ?thesis by (auto dest: spec [of _ 0] spec [of _ 2] spec [of _ 3])
qed

end
