(* ===== verification/Cube_Jobs.thy ===== *)
theory Cube_Jobs
  imports Rbt_Compute Cube_Tuples Complex_Main
begin

text \<open>
  The pool of the views that the data-cube benchmark has already made (\<open>DC/jobcntl.c\<close>) and the
  choice of the view from which the next one is derived.
\<close>

section \<open>The model\<close>

text \<open>
  A made view: its dimensions, their number, its rows and where they begin in the view file.  The
  pool is divided into one layer for each number of dimensions.
\<close>

record job =
  grpb :: u32
  jnv :: u32
  jnRows :: u32
  jviewOffset :: u64

record layer =
  layerIndex :: u32
  layerQuantityLimit :: u32
  layerCurrentPopulation :: u32

text \<open>
  The fields of \<open>ADC_VIEW_CNTL\<close> that plan the views; the fields that compute one view are the record
  of the component \<open>Rbt_View\<close>.  A layer that was not initialised is \<open>None\<close>; the contents of the
  input file and of the file of view sizes are lists.
\<close>

record cube =
  view :: view_cntl
  inpf :: "row list"
  nTopDims :: u32
  nInputRecs :: u32
  groupby :: u32
  jpp :: "job list"
  lpp :: "layer option list"
  smallestParentLevel :: u32
  viewOffset :: u64
  nParentViewRows :: u32
  parBinRepTuple :: u32
  accViewFileOffset :: u64
  totchs :: "u64 list"
  totalViewFileSize :: u64
  viewSizesFile :: "(u32 \<times> u32) list"
  numberOfMadeViews :: u32

definition smallestParent :: u32 where "smallestParent = 0"

definition prefixedParent :: u32 where "prefixedParent = 1"

definition sharedSortParent :: u32 where "sharedSortParent = 2"

definition noneParent :: u32 where "noneParent = 3"

definition get_layer :: "layer option list \<Rightarrow> nat \<Rightarrow> layer option" where
  "get_layer ls l = do { y \<leftarrow> rd ls l; y }"

fun combs_loop :: "nat \<Rightarrow> u32 \<Rightarrow> u32 \<Rightarrow> u32 \<Rightarrow> u32" where
  "combs_loop 0 n l c = c"
| "combs_loop (Suc k) n l c = combs_loop k n (l + 1) (c * (n - l + 1) div l)"

definition NumOfCombsFromNbyK :: "u32 \<Rightarrow> u32 \<Rightarrow> u32" where
  "NumOfCombsFromNbyK n k = (if k > n then 0 else combs_loop (unat k) n 1 1)"

text \<open>The loop of \<open>NewAdcViewCntl\<close> that lays the layers out, and the empty pool.\<close>

fun layers_loop :: "u32 \<Rightarrow> nat list \<Rightarrow> u32 \<Rightarrow> layer option list" where
  "layers_loop nd [] j = []"
| "layers_loop nd (i # is) j =
    (let k = NumOfCombsFromNbyK nd (of_nat i) in
     Some \<lparr>layerIndex = j, layerQuantityLimit = k, layerCurrentPopulation = 0\<rparr> # layers_loop nd is (j + k))"

definition init_layers :: "u32 \<Rightarrow> layer option list" where
  "init_layers nd = None # layers_loop nd [1..<Suc (unat nd)] 1"

definition JobPoolInit :: "nat \<Rightarrow> job list" where
  "JobPoolInit n = replicate n \<lparr>grpb = 0, jnv = 0, jnRows = 0, jviewOffset = 0\<rparr>"

definition JobPoolUpdate :: "cube \<Rightarrow> cube option" where
  "JobPoolUpdate c = (let l = vnv (view c) in do {
     y \<leftarrow> get_layer (lpp c) (unat l);
     js \<leftarrow> wr (jpp c) (unat (layerIndex y + layerCurrentPopulation y))
       \<lparr>grpb = groupby c, jnv = l, jnRows = nViewRows (view c), jviewOffset = accViewFileOffset c\<rparr>;
     ls \<leftarrow> wr (lpp c) (unat l) (Some (y\<lparr>layerCurrentPopulation := layerCurrentPopulation y + 1\<rparr>));
     Some (c\<lparr>jpp := js, lpp := ls\<rparr>) })"

text \<open>
  \<open>GetParent\<close>.  In every layer, from the layer of the view on, the loop keeps the smallest view of
  each of three sorts: with all dimensions of the wanted view, with these and no others in front, and
  with these and none before the first.  The pair is the number of rows and the index; \<open>None\<close> stands
  for a flag that says that none was found (the first layer in which one is found ends the loop).
\<close>

type_synonym best = "(u32 \<times> u32) option"

definition better :: "best \<Rightarrow> u32 \<Rightarrow> u32 \<Rightarrow> best" where
  "better m r ig = (case m of None \<Rightarrow> Some (r, ig) | Some (r', _) \<Rightarrow> if r' > r then Some (r, ig) else m)"

fun level_scan :: "job list \<Rightarrow> u32 \<Rightarrow> u32 \<Rightarrow> u32 \<Rightarrow> u32 \<Rightarrow> u32 \<Rightarrow> nat \<Rightarrow> u32 \<Rightarrow> best \<times> best \<times> best \<Rightarrow> (best \<times> best \<times> best) option" where
  "level_scan jobs g bin pfm mlo lom 0 ig s = Some s"
| "level_scan jobs g bin pfm mlo lom (Suc n) ig (sp, pf, ss) = do {
     j \<leftarrow> rd jobs (unat ig);
     level_scan jobs g bin pfm mlo lom n (ig + 1)
       (if g AND grpb j = g then
          (better sp (jnRows j) ig,
           if grpb j AND pfm = bin then better pf (jnRows j) ig else pf,
           if grpb j AND mlo \<noteq> 0 \<and> grpb j AND lom = 0 then better ss (jnRows j) ig else ss)
        else (sp, pf, ss)) }"

definition found_parent :: "best \<times> best \<times> best \<Rightarrow> (u32 \<times> u32) option" where
  "found_parent s = (case s of (sp, pf, ss) \<Rightarrow>
     case pf of Some (_, ig) \<Rightarrow> Some (prefixedParent, ig) | None \<Rightarrow>
     case ss of Some (_, ig) \<Rightarrow> Some (sharedSortParent, ig) | None \<Rightarrow>
     case sp of Some (_, ig) \<Rightarrow> Some (smallestParent, ig) | None \<Rightarrow> None)"

fun parent_levels :: "u32 \<Rightarrow> u32 \<Rightarrow> u32 \<Rightarrow> u32 \<Rightarrow> u32 \<Rightarrow> nat list \<Rightarrow> cube \<Rightarrow> (u32 \<times> cube) option" where
  "parent_levels g bin pfm mlo lom [] c = Some (noneParent, c)"
| "parent_levels g bin pfm mlo lom (level # ls) c = do {
     y \<leftarrow> get_layer (lpp c) level;
     s \<leftarrow> level_scan (jpp c) g bin pfm mlo lom (unat (layerCurrentPopulation y)) (layerIndex y) (None, None, None);
     case found_parent s of
       None \<Rightarrow> parent_levels g bin pfm mlo lom ls c
     | Some (found, ig) \<Rightarrow> do {
         j \<leftarrow> rd (jpp c) (unat ig);
         Some (found, c\<lparr>smallestParentLevel := of_nat level, viewOffset := jviewOffset j,
           nParentViewRows := jnRows j, parBinRepTuple := grpb j\<rparr>) } }"

definition GetParent :: "cube \<Rightarrow> u32 \<Rightarrow> (u32 \<times> cube) option" where
  "GetParent c bin = do {
     mlo \<leftarrow> SetOneBit32 0 (Mlo32 (groupby c));
     parent_levels (groupby c) bin (setLeadingOnes32 (mro32 (groupby c))) mlo (setLeadingOnes32 (Mlo32 (groupby c)))
       [unat (NumberOfOnes (ucast bin))..<Suc (unat (nTopDims c))] c }"

section \<open>The layout of the pool\<close>

lemma choose_step: "l < n \<Longrightarrow> (n choose l) * (n - l) div Suc l = n choose Suc l"
proof -
  assume l: "l < n"
  have "(n - l) * (n choose l) = Suc l * (n choose Suc l)"
    using binomial_absorb_comp [of n l] binomial_absorption [of l n] by simp
  then show ?thesis by (metis mult.commute nonzero_mult_div_cancel_left nat.distinct(1))
qed

lemma word_small: "m < 2 ^ 32 \<Longrightarrow> unat (of_nat m :: u32) = m"
  by (simp add: unsigned_of_nat take_bit_nat_eq_self)

lemma combs_loop_choose:
  assumes "l + k \<le> n" "n \<le> 20"
  shows "combs_loop k (of_nat n) (of_nat (Suc l)) (of_nat (n choose l)) = of_nat (n choose (l + k))"
  using assms(1)
proof (induction k arbitrary: l)
  case (Suc k)
  have small: "n choose i < 2 ^ 21" for i
    using binomial_le_pow2 [of n i] power_increasing [of n 20 "2 :: nat"] assms(2) by simp
  have "(n choose l) * (n - l) \<le> 2 ^ 21 * 20" using small [of l] assms(2) by (intro mult_le_mono) auto
  then have u: "unat (of_nat ((n choose l) * (n - l)) :: u32) = (n choose l) * (n - l)" "unat (of_nat (Suc l) :: u32) = Suc l"
    using Suc.prems assms(2) by (intro word_small; simp)+
  have "(of_nat n - of_nat (Suc l) + 1 :: u32) = of_nat (n - l)" using Suc.prems by simp
  then have "of_nat (n choose l) * (of_nat n - of_nat (Suc l) + 1) = (of_nat ((n choose l) * (n - l)) :: u32)" by simp
  moreover have "of_nat ((n choose l) * (n - l)) div of_nat (Suc l) = (of_nat (n choose Suc l) :: u32)"
  proof -
    have "unat (of_nat ((n choose l) * (n - l)) div of_nat (Suc l) :: u32) = (n choose l) * (n - l) div Suc l"
      unfolding unat_div u ..
    also have "\<dots> = n choose Suc l" using choose_step [of l n] Suc.prems by simp
    also have "\<dots> = unat (of_nat (n choose Suc l) :: u32)"
      by (rule word_small [symmetric]) (use small [of "Suc l"] in simp)
    finally show ?thesis unfolding word_unat_eq_iff .
  qed
  moreover have "of_nat (Suc l) + 1 = (of_nat (Suc (Suc l)) :: u32)" by simp
  ultimately have "combs_loop (Suc k) (of_nat n) (of_nat (Suc l)) (of_nat (n choose l))
      = combs_loop k (of_nat n) (of_nat (Suc (Suc l))) (of_nat (n choose Suc l))"
    by (simp only: combs_loop.simps)
  then show ?case using Suc.IH [of "Suc l"] Suc.prems by simp
qed simp

lemma NumOfCombs_choose:
  assumes "k \<le> n" "n \<le> 20"
  shows "NumOfCombsFromNbyK (of_nat n) (of_nat k) = of_nat (n choose k)"
proof -
  have u: "unat (of_nat n :: u32) = n" "unat (of_nat k :: u32) = k" using assms by (simp_all add: word_small)
  then have "\<not> of_nat k > (of_nat n :: u32)" using assms(1) by (simp add: word_less_nat_alt)
  then show ?thesis using combs_loop_choose [of 0 k n] assms u by (simp add: NumOfCombsFromNbyK_def)
qed

text \<open>The first place of a layer; the layers fill the pool.\<close>

definition layer_start :: "nat \<Rightarrow> nat \<Rightarrow> nat" where
  "layer_start nd l = (\<Sum>i < l. nd choose i)"

lemma layer_start_mono: "l \<le> l' \<Longrightarrow> layer_start nd l \<le> layer_start nd l'"
  unfolding layer_start_def by (rule sum_mono2) auto

lemma layer_start_Suc: "layer_start nd (Suc l) = layer_start nd l + (nd choose l)"
  by (simp add: layer_start_def)

lemma layer_start_limit: "l \<le> nd \<Longrightarrow> layer_start nd (Suc l) \<le> 2 ^ nd"
  unfolding layer_start_def choose_row_sum [of nd, symmetric] by (rule sum_mono2) auto

lemma layers_loop_nth:
  assumes "nd \<le> 20" "1 \<le> m" "m + n = Suc nd" "i < n"
  shows "layers_loop (of_nat nd) [m..<Suc nd] (of_nat (layer_start nd m)) ! i =
    Some \<lparr>layerIndex = of_nat (layer_start nd (m + i)), layerQuantityLimit = of_nat (nd choose (m + i)), layerCurrentPopulation = 0\<rparr>"
  using assms(2-)
proof (induction n arbitrary: m i)
  case (Suc n)
  have up: "[m..<Suc nd] = m # [Suc m..<Suc nd]" using Suc.prems by (simp add: upt_rec)
  have k: "NumOfCombsFromNbyK (of_nat nd) (of_nat m) = of_nat (nd choose m)"
    by (rule NumOfCombs_choose) (use Suc.prems assms(1) in simp_all)
  have "of_nat (layer_start nd m) + of_nat (nd choose m) = (of_nat (layer_start nd (Suc m)) :: u32)"
    by (simp add: layer_start_Suc)
  then show ?case
    unfolding up layers_loop.simps Let_def k using Suc.IH [of "Suc m" "i - 1"] Suc.prems by (cases i) (simp_all del: upt_Suc)
qed simp

lemma length_layers_loop: "length (layers_loop nd is j) = length is"
  by (induction "is" arbitrary: j) (simp_all add: Let_def)

lemma init_layers_nth:
  assumes "nd \<le> 20" "1 \<le> l" "l \<le> nd"
  shows "init_layers (of_nat nd) ! l =
    Some \<lparr>layerIndex = of_nat (layer_start nd l), layerQuantityLimit = of_nat (nd choose l), layerCurrentPopulation = 0\<rparr>"
proof -
  have "unat (of_nat nd :: u32) = nd" using assms by (simp add: word_small)
  moreover have "layer_start nd 1 = 1" by (simp add: layer_start_def)
  ultimately show ?thesis
    using layers_loop_nth [of nd 1 nd "l - 1"] assms by (cases l) (simp_all add: init_layers_def del: upt_Suc)
qed

lemma length_init_layers: "nd \<le> 20 \<Longrightarrow> length (init_layers (of_nat nd)) = Suc nd"
  by (simp add: init_layers_def length_layers_loop word_small del: upt_Suc)

section \<open>One layer\<close>

text \<open>\<open>m\<close> is the smallest of the jobs with the property \<open>P\<close> at the indices from \<open>lo\<close> up to \<open>hi\<close>.\<close>

definition best_ok :: "(job \<Rightarrow> bool) \<Rightarrow> job list \<Rightarrow> nat \<Rightarrow> nat \<Rightarrow> best \<Rightarrow> bool" where
  "best_ok P jobs lo hi m = (case m of
     None \<Rightarrow> (\<forall>k. lo \<le> k \<and> k < hi \<longrightarrow> \<not> P (jobs ! k))
   | Some (r, i) \<Rightarrow> lo \<le> unat i \<and> unat i < hi \<and> P (jobs ! unat i) \<and> r = jnRows (jobs ! unat i)
       \<and> (\<forall>k. lo \<le> k \<and> k < hi \<and> P (jobs ! k) \<longrightarrow> r \<le> jnRows (jobs ! k)))"

lemma best_ok_better:
  assumes "best_ok P jobs lo (unat ig) m" "lo \<le> unat ig" "P (jobs ! unat ig)"
  shows "best_ok P jobs lo (Suc (unat ig)) (better m (jnRows (jobs ! unat ig)) ig)"
  using assms by (auto simp: best_ok_def better_def less_Suc_eq split: option.splits)

lemma best_ok_skip:
  assumes "best_ok P jobs lo i m" "\<not> P (jobs ! i)"
  shows "best_ok P jobs lo (Suc i) m"
  using assms by (auto simp: best_ok_def less_Suc_eq split: option.splits)

definition holds_dims :: "u32 \<Rightarrow> job \<Rightarrow> bool" where
  "holds_dims g j \<longleftrightarrow> g AND grpb j = g"

lemma level_scan_ok:
  assumes "unat ig + n \<le> length jobs" "length jobs < 2 ^ 32" "lo \<le> unat ig"
    "best_ok (holds_dims g) jobs lo (unat ig) sp"
    "best_ok (\<lambda>j. holds_dims g j \<and> grpb j AND pfm = bin) jobs lo (unat ig) pf"
    "best_ok (\<lambda>j. holds_dims g j \<and> grpb j AND mlo \<noteq> 0 \<and> grpb j AND lom = 0) jobs lo (unat ig) ss"
  shows "\<exists>sp' pf' ss'. level_scan jobs g bin pfm mlo lom n ig (sp, pf, ss) = Some (sp', pf', ss')
    \<and> best_ok (holds_dims g) jobs lo (unat ig + n) sp'
    \<and> best_ok (\<lambda>j. holds_dims g j \<and> grpb j AND pfm = bin) jobs lo (unat ig + n) pf'
    \<and> best_ok (\<lambda>j. holds_dims g j \<and> grpb j AND mlo \<noteq> 0 \<and> grpb j AND lom = 0) jobs lo (unat ig + n) ss'"
  using assms
proof (induction n arbitrary: ig sp pf ss)
  case (Suc n)
  let ?j = "jobs ! unat ig"
  let ?sp = "if holds_dims g ?j then better sp (jnRows ?j) ig else sp"
  let ?pf = "if holds_dims g ?j \<and> grpb ?j AND pfm = bin then better pf (jnRows ?j) ig else pf"
  let ?ss = "if holds_dims g ?j \<and> grpb ?j AND mlo \<noteq> 0 \<and> grpb ?j AND lom = 0 then better ss (jnRows ?j) ig else ss"
  have u: "unat (ig + 1) = Suc (unat ig)" using Suc.prems(1,2) by (simp add: unat_word_ariths)
  have b: "best_ok (holds_dims g) jobs lo (unat (ig + 1)) ?sp"
    "best_ok (\<lambda>j. holds_dims g j \<and> grpb j AND pfm = bin) jobs lo (unat (ig + 1)) ?pf"
    "best_ok (\<lambda>j. holds_dims g j \<and> grpb j AND mlo \<noteq> 0 \<and> grpb j AND lom = 0) jobs lo (unat (ig + 1)) ?ss"
    unfolding u using Suc.prems(3-6) by (simp_all add: best_ok_better best_ok_skip)
  have "level_scan jobs g bin pfm mlo lom (Suc n) ig (sp, pf, ss) = level_scan jobs g bin pfm mlo lom n (ig + 1) (?sp, ?pf, ?ss)"
    using Suc.prems(1) by (simp add: rd_def holds_dims_def)
  then show ?case
    using Suc.IH [OF _ Suc.prems(2) _ b] Suc.prems(1,3) u by simp
qed simp

section \<open>The choice of a parent\<close>

text \<open>The jobs of a layer.\<close>

definition made :: "cube \<Rightarrow> nat \<Rightarrow> job list" where
  "made c l = (case lpp c ! l of None \<Rightarrow> []
     | Some y \<Rightarrow> take (unat (layerCurrentPopulation y)) (drop (unat (layerIndex y)) (jpp c)))"

text \<open>Every layer from 1 to the number of dimensions has a place in the pool.\<close>

definition layers_ok :: "cube \<Rightarrow> bool" where
  "layers_ok c \<longleftrightarrow> length (lpp c) = Suc (unat (nTopDims c)) \<and> length (jpp c) < 2 ^ 32
     \<and> (\<forall>l. 1 \<le> l \<and> l \<le> unat (nTopDims c) \<longrightarrow>
          (\<exists>y. lpp c ! l = Some y \<and> unat (layerIndex y) + unat (layerCurrentPopulation y) \<le> length (jpp c)))"

lemma mlo_loop_less: "bit x (31 - d) \<Longrightarrow> i \<le> d \<Longrightarrow> d < i + n \<Longrightarrow> i + n \<le> 32 \<Longrightarrow> mlo_loop n x (top_bit i) (of_nat i) < 32"
proof (induction n arbitrary: i)
  case (Suc n)
  have i1: "of_nat i + 1 = (of_nat (Suc i) :: u32)" by simp
  show ?case
  proof (cases "top_bit i AND x \<noteq> 0")
    case True
    have "(of_nat i :: u32) < 32"
      using Suc.prems(2-4) by (simp add: word_less_nat_alt unsigned_of_nat take_bit_nat_eq_self)
    then show ?thesis unfolding mlo_loop.simps if_P [OF True] .
  next
    case False
    then have "\<not> bit x (31 - i)" using top_bit_test [of x i] by (simp add: and.commute)
    then have d: "Suc i \<le> d" using Suc.prems(1,2) by (cases "i = d") auto
    then have n: "drop_bit 1 (top_bit i) = (top_bit (Suc i) :: u32)"
      using top_bit_shift [where 'a=32, of i] Suc.prems(3,4) by simp
    show ?thesis
      unfolding mlo_loop.simps if_not_P [OF False] n i1 by (rule Suc.IH) (use Suc.prems d in auto)
  qed
qed simp

lemma Mlo32_less: "g \<noteq> 0 \<Longrightarrow> Mlo32 g < 32"
proof -
  assume "g \<noteq> 0"
  then obtain n where "bit g n" by (metis bit_eqI bit_0_eq bot_apply bot_bool_def)
  then have "bit g (31 - (31 - n))" "31 - n < 0 + 32" using bit_imp_le_length [of g n] by auto
  then show ?thesis unfolding Mlo32_def MLB32_top using mlo_loop_less [of g "31 - n" 0 32] by simp
qed

text \<open>What a parent must satisfy; \<open>smp\<close> says how it was chosen.\<close>

definition chosen :: "cube \<Rightarrow> u32 \<Rightarrow> nat \<Rightarrow> u32 \<Rightarrow> job \<Rightarrow> bool" where
  "chosen c g l smp j \<longleftrightarrow> j \<in> set (made c l) \<and> holds_dims g j \<and> smp \<noteq> noneParent
     \<and> (smp = smallestParent \<longrightarrow> (\<forall>j' \<in> set (made c l). holds_dims g j' \<longrightarrow> jnRows j \<le> jnRows j'))"

definition with_parent :: "cube \<Rightarrow> nat \<Rightarrow> job \<Rightarrow> cube" where
  "with_parent c l j = c\<lparr>smallestParentLevel := of_nat l, viewOffset := jviewOffset j,
     nParentViewRows := jnRows j, parBinRepTuple := grpb j\<rparr>"

lemma made_nth:
  assumes "lpp c ! l = Some y" "unat (layerIndex y) + unat (layerCurrentPopulation y) \<le> length (jpp c)"
  shows "set (made c l) = (!) (jpp c) ` {unat (layerIndex y)..<unat (layerIndex y) + unat (layerCurrentPopulation y)}"
proof -
  have "made c l = map ((!) (jpp c)) [unat (layerIndex y)..<unat (layerIndex y) + unat (layerCurrentPopulation y)]"
    using assms by (intro nth_equalityI) (auto simp: made_def)
  then show ?thesis by simp
qed

lemma parent_levels_ok:
  assumes "layers_ok c" "\<forall>l \<in> set ls. 1 \<le> l \<and> l \<le> unat (nTopDims c)"
  shows "\<exists>smp c'. parent_levels g bin pfm mlo lom ls c = Some (smp, c')
    \<and> (smp = noneParent \<and> c' = c \<and> (\<forall>l \<in> set ls. \<forall>j \<in> set (made c l). \<not> holds_dims g j)
       \<or> (\<exists>ls1 l ls2 j. ls = ls1 @ l # ls2 \<and> (\<forall>l \<in> set ls1. \<forall>j \<in> set (made c l). \<not> holds_dims g j)
            \<and> chosen c g l smp j \<and> c' = with_parent c l j))"
  using assms(2)
proof (induction ls)
  case (Cons l ls)
  obtain y where y: "lpp c ! l = Some y" "unat (layerIndex y) + unat (layerCurrentPopulation y) \<le> length (jpp c)"
    "l < length (lpp c)" "length (jpp c) < 2 ^ 32"
    using assms(1) Cons.prems by (auto simp: layers_ok_def)
  let ?lo = "unat (layerIndex y)" and ?hi = "unat (layerIndex y) + unat (layerCurrentPopulation y)"
  note made = made_nth [OF y(1,2)]
  have none: "best_ok P (jpp c) ?lo ?lo None" for P by (auto simp: best_ok_def)
  obtain sp pf ss where s: "level_scan (jpp c) g bin pfm mlo lom (unat (layerCurrentPopulation y)) (layerIndex y) (None, None, None) = Some (sp, pf, ss)"
    "best_ok (holds_dims g) (jpp c) ?lo ?hi sp" "best_ok (\<lambda>j. holds_dims g j \<and> grpb j AND pfm = bin) (jpp c) ?lo ?hi pf"
    "best_ok (\<lambda>j. holds_dims g j \<and> grpb j AND mlo \<noteq> 0 \<and> grpb j AND lom = 0) (jpp c) ?lo ?hi ss"
    using level_scan_ok [OF y(2,4) le_refl none none none] by blast
  have step: "parent_levels g bin pfm mlo lom (l # ls) c = (case found_parent (sp, pf, ss) of
       None \<Rightarrow> parent_levels g bin pfm mlo lom ls c
     | Some (found, ig) \<Rightarrow> do { j \<leftarrow> rd (jpp c) (unat ig); Some (found, with_parent c l j) })"
    unfolding with_parent_def using y(1,3) s(1) by (simp add: get_layer_def rd_def)
  show ?case
  proof (cases "found_parent (sp, pf, ss)")
    case None
    then have "sp = None" by (auto simp: found_parent_def split: option.splits)
    then have here: "\<forall>j \<in> set (made c l). \<not> holds_dims g j" using s(2) by (auto simp: best_ok_def made)
    have ls: "\<forall>l \<in> set ls. 1 \<le> l \<and> l \<le> unat (nTopDims c)" using Cons.prems by simp
    obtain smp c' where p: "parent_levels g bin pfm mlo lom ls c = Some (smp, c')"
      "smp = noneParent \<and> c' = c \<and> (\<forall>l \<in> set ls. \<forall>j \<in> set (made c l). \<not> holds_dims g j)
       \<or> (\<exists>ls1 l ls2 j. ls = ls1 @ l # ls2 \<and> (\<forall>l \<in> set ls1. \<forall>j \<in> set (made c l). \<not> holds_dims g j)
            \<and> chosen c g l smp j \<and> c' = with_parent c l j)"
      using Cons.IH [OF ls] by (elim exE conjE) (rule that)
    have get: "parent_levels g bin pfm mlo lom (l # ls) c = Some (smp, c')" using step None p(1) by simp
    from p(2) show ?thesis
    proof (elim disjE exE conjE)
      assume "smp = noneParent" "c' = c" "\<forall>l \<in> set ls. \<forall>j \<in> set (made c l). \<not> holds_dims g j"
      then show ?thesis using get here by simp
    next
      fix ls1 l' ls2 j
      assume "ls = ls1 @ l' # ls2" "\<forall>l \<in> set ls1. \<forall>j \<in> set (made c l). \<not> holds_dims g j"
        "chosen c g l' smp j" "c' = with_parent c l' j"
      then show ?thesis
        using get here by (intro exI [of _ smp] exI [of _ c'] conjI disjI2 exI [of _ "l # ls1"] exI [of _ l'] exI [of _ ls2] exI [of _ j]) simp_all
    qed
  next
    case (Some f)
    obtain smp ig where f: "f = (smp, ig)" by (cases f)
    have "?lo \<le> unat ig \<and> unat ig < ?hi \<and> holds_dims g (jpp c ! unat ig) \<and> smp \<noteq> noneParent
      \<and> (smp = smallestParent \<longrightarrow> (\<forall>k. ?lo \<le> k \<and> k < ?hi \<and> holds_dims g (jpp c ! k) \<longrightarrow> jnRows (jpp c ! unat ig) \<le> jnRows (jpp c ! k)))"
      using Some s(2-4) unfolding f
      by (auto simp: found_parent_def best_ok_def smallestParent_def prefixedParent_def sharedSortParent_def noneParent_def
          split: option.splits)
    then have "chosen c g l smp (jpp c ! unat ig)" "unat ig < length (jpp c)"
      using y(2) by (auto simp: chosen_def made)
    moreover have "parent_levels g bin pfm mlo lom (l # ls) c = Some (smp, with_parent c l (jpp c ! unat ig))"
      using step Some f \<open>unat ig < length (jpp c)\<close> by (simp add: rd_def)
    ultimately show ?thesis by (metis append_Nil empty_iff empty_set)
  qed
qed simp

section \<open>Filling the pool\<close>

text \<open>
  After the views \<open>bs\<close>: every layer has as many jobs as views with its number of dimensions, and
  each of them is related by \<open>P\<close> to the position of such a view.
\<close>

definition ones_count :: "nat \<Rightarrow> nat \<Rightarrow> u64 list \<Rightarrow> nat" where
  "ones_count nd l bs = length (filter (\<lambda>b. length (dims nd b) = l) bs)"

definition pool_state :: "nat \<Rightarrow> (nat \<Rightarrow> job \<Rightarrow> bool) \<Rightarrow> cube \<Rightarrow> u64 list \<Rightarrow> bool" where
  "pool_state nd P c bs \<longleftrightarrow> length (lpp c) = Suc nd \<and> length (jpp c) = 2 ^ nd
     \<and> (\<forall>l. 1 \<le> l \<and> l \<le> nd \<longrightarrow> (\<exists>q. lpp c ! l =
          Some \<lparr>layerIndex = of_nat (layer_start nd l), layerQuantityLimit = q, layerCurrentPopulation = of_nat (ones_count nd l bs)\<rparr>)
        \<and> (\<forall>k < ones_count nd l bs. \<exists>m < length bs. length (dims nd (bs ! m)) = l \<and> P m (jpp c ! (layer_start nd l + k))))"

lemma dims_set: "set (dims nd (b :: 'a::len word)) = set (dims nd (b' :: 'a word)) \<Longrightarrow> dims nd b = dims nd b'"
proof -
  assume e: "set (dims nd b) = set (dims nd b')"
  have f: "dims nd b = filter (\<lambda>i. i \<in> set (dims nd b)) [0..<nd]" for b :: "'a word"
    unfolding dims_def by (rule filter_cong) auto
  have "dims nd b = filter (\<lambda>i. i \<in> set (dims nd b)) [0..<nd]" by (rule f)
  also have "\<dots> = filter (\<lambda>i. i \<in> set (dims nd b')) [0..<nd]" unfolding e ..
  also have "\<dots> = dims nd b'" by (rule f [symmetric])
  finally show ?thesis .
qed

lemma ones_count_limit:
  assumes "distinct (map (dims nd) bs)"
  shows "ones_count nd l bs \<le> nd choose l"
proof -
  let ?bs = "filter (\<lambda>b. length (dims nd b) = l) bs"
  have "distinct (map (dims nd) ?bs)" using assms by (simp add: distinct_map inj_on_def)
  then have "distinct (map (set \<circ> dims nd) ?bs)"
    unfolding distinct_map by (auto simp: inj_on_def dest!: dims_set)
  then have "length ?bs = card (set (map (set \<circ> dims nd) ?bs))" using distinct_card by (metis length_map)
  also have "\<dots> \<le> card {B. B \<subseteq> {..<nd} \<and> card B = l}"
  proof (rule card_mono)
    have "finite (Pow {..<nd})" by simp
    then show "finite {B. B \<subseteq> {..<nd} \<and> card B = l}" by (rule finite_subset [rotated]) auto
    have "distinct (dims nd b)" for b :: u64 by (simp add: dims_def)
    then show "set (map (set \<circ> dims nd) ?bs) \<subseteq> {B. B \<subseteq> {..<nd} \<and> card B = l}"
      by (auto simp: distinct_card dims_less)
  qed
  also have "\<dots> = nd choose l" using n_subsets [of "{..<nd}" l] by simp
  finally show ?thesis by (simp add: ones_count_def)
qed

lemma layer_word:
  assumes "l \<le> nd" "nd \<le> 20" "k \<le> nd choose l"
  shows "unat (of_nat (layer_start nd l + k) :: u32) = layer_start nd l + k" "layer_start nd l + k \<le> 2 ^ nd"
    "unat (of_nat k :: u32) = k" "unat (of_nat (layer_start nd l) :: u32) = layer_start nd l"
proof -
  show le: "layer_start nd l + k \<le> 2 ^ nd" using layer_start_limit [OF assms(1)] assms(3) by (simp add: layer_start_Suc)
  moreover have "(2 :: nat) ^ nd \<le> 2 ^ 20" by (rule power_increasing) (use assms in simp_all)
  ultimately have "layer_start nd l + k \<le> 2 ^ 20" by (rule le_trans)
  then show "unat (of_nat (layer_start nd l + k) :: u32) = layer_start nd l + k"
    "unat (of_nat k :: u32) = k" "unat (of_nat (layer_start nd l) :: u32) = layer_start nd l"
    by (intro word_small; simp)+
qed

lemma pool_state_layers:
  assumes "pool_state nd P c bs" "unat (nTopDims c) = nd" "nd \<le> 20" "distinct (map (dims nd) bs)"
  shows "layers_ok c"
proof -
  have "(2 :: nat) ^ nd \<le> 2 ^ 20" by (rule power_increasing) (use assms in simp_all)
  then have "(2 :: nat) ^ nd < 2 ^ 32" by (rule le_less_trans) simp
  moreover have "\<exists>y. lpp c ! l = Some y \<and> unat (layerIndex y) + unat (layerCurrentPopulation y) \<le> 2 ^ nd"
    if "1 \<le> l" "l \<le> nd" for l
  proof -
    obtain q where "lpp c ! l = Some \<lparr>layerIndex = of_nat (layer_start nd l), layerQuantityLimit = q, layerCurrentPopulation = of_nat (ones_count nd l bs)\<rparr>"
      using assms(1) \<open>1 \<le> l\<close> \<open>l \<le> nd\<close> unfolding pool_state_def by blast
    then show ?thesis using layer_word [OF that(2) assms(3) ones_count_limit [OF assms(4)]] by simp
  qed
  ultimately show ?thesis using assms(1,2) by (simp add: layers_ok_def pool_state_def)
qed

lemma pool_state_made:
  assumes "pool_state nd P c bs" "nd \<le> 20" "distinct (map (dims nd) bs)" "1 \<le> l" "l \<le> nd" "j \<in> set (made c l)"
  shows "\<exists>m < length bs. length (dims nd (bs ! m)) = l \<and> P m j"
proof -
  obtain q where q: "lpp c ! l = Some \<lparr>layerIndex = of_nat (layer_start nd l), layerQuantityLimit = q, layerCurrentPopulation = of_nat (ones_count nd l bs)\<rparr>"
    and jobs: "\<forall>k < ones_count nd l bs. \<exists>m < length bs. length (dims nd (bs ! m)) = l \<and> P m (jpp c ! (layer_start nd l + k))"
    using assms(1,4,5) unfolding pool_state_def by blast
  note w = layer_word [OF assms(5,2) ones_count_limit [OF assms(3)]]
  have "length (jpp c) = 2 ^ nd" using assms(1) by (simp add: pool_state_def)
  then obtain i where i: "i \<in> {layer_start nd l..<layer_start nd l + ones_count nd l bs}" "j = jpp c ! i"
    using made_nth [OF q] w(2-4) assms(6) by auto
  then have "i - layer_start nd l < ones_count nd l bs" "layer_start nd l + (i - layer_start nd l) = i" by auto
  then show ?thesis using jobs i(2) by metis
qed

lemma pool_state_init:
  assumes "nd \<le> 20" "lpp c = init_layers (of_nat nd)" "jpp c = JobPoolInit (2 ^ nd)"
  shows "pool_state nd P c []"
  using assms init_layers_nth [of nd] length_init_layers [of nd] by (simp add: pool_state_def JobPoolInit_def ones_count_def)

lemma layer_apart:
  assumes "l \<noteq> l'" "k < nd choose l" "k' < nd choose l'"
  shows "layer_start nd l + k \<noteq> layer_start nd l' + k'"
  using assms layer_start_mono [of "Suc l" l' nd] layer_start_mono [of "Suc l'" l nd]
  by (cases "l < l'") (auto simp: layer_start_Suc)

lemma JobPoolUpdate_ok:
  assumes st: "pool_state nd P c bs" and nd: "nd \<le> 20" and d: "distinct (map (dims nd) (bs @ [b]))"
    and l: "l = length (dims nd b)" "1 \<le> l" "vnv (view c) = of_nat l"
    and P: "P (length bs) \<lparr>grpb = groupby c, jnv = of_nat l, jnRows = nViewRows (view c), jviewOffset = accViewFileOffset c\<rparr>"
  shows "\<exists>js ls. JobPoolUpdate c = Some (c\<lparr>jpp := js, lpp := ls\<rparr>) \<and> pool_state nd P (c\<lparr>jpp := js, lpp := ls\<rparr>) (bs @ [b])"
proof -
  let ?n = "ones_count nd l bs" and ?i = "layer_start nd l + ones_count nd l bs"
  let ?j = "\<lparr>grpb = groupby c, jnv = of_nat l, jnRows = nViewRows (view c), jviewOffset = accViewFileOffset c\<rparr>"
  have lnd: "l \<le> nd" using length_dims [of nd b] l(1) by simp
  obtain q where q: "lpp c ! l = Some \<lparr>layerIndex = of_nat (layer_start nd l), layerQuantityLimit = q, layerCurrentPopulation = of_nat ?n\<rparr>"
    using st l(2) lnd unfolding pool_state_def by blast
  define y where "y = \<lparr>layerIndex = of_nat (layer_start nd l), layerQuantityLimit = q, layerCurrentPopulation = of_nat (Suc ?n)\<rparr>"
  define js where "js = (jpp c)[?i := ?j]"
  define ls where "ls = (lpp c)[l := Some y]"
  have len: "length (lpp c) = Suc nd" "length (jpp c) = 2 ^ nd" using st by (simp_all add: pool_state_def)
  have cnt: "ones_count nd l' (bs @ [b]) = (if l' = l then Suc ?n else ones_count nd l' bs)" for l'
    using l(1) by (simp add: ones_count_def)
  have lim: "ones_count nd l' (bs @ [b]) \<le> nd choose l'" for l' by (rule ones_count_limit [OF d])
  then have room: "Suc ?n \<le> nd choose l" using cnt [of l] by metis
  have i: "?i < 2 ^ nd" using layer_word(2) [OF lnd nd room] by simp
  have ui: "unat (of_nat (layer_start nd l) + of_nat ?n :: u32) = ?i" "unat (of_nat l :: u32) = l"
    using layer_word(1) [OF lnd nd, of ?n] room lnd nd by (simp_all add: word_small)
  have "JobPoolUpdate c = Some (c\<lparr>jpp := js, lpp := ls\<rparr>)"
    using q len lnd i ui l(3) by (simp add: JobPoolUpdate_def Let_def get_layer_def rd_def wr_def js_def ls_def y_def add.commute)
  moreover have "pool_state nd P (c\<lparr>jpp := js, lpp := ls\<rparr>) (bs @ [b])"
  proof -
    have "\<exists>m < length (bs @ [b]). length (dims nd ((bs @ [b]) ! m)) = l' \<and> P m (js ! (layer_start nd l' + k))"
      if l': "1 \<le> l'" "l' \<le> nd" and k: "k < ones_count nd l' (bs @ [b])" for l' k
    proof (cases "l' = l \<and> k = ?n")
      case True
      then show ?thesis using P l(1) i len by (intro exI [of _ "length bs"]) (simp add: js_def)
    next
      case False
      have old: "k < ones_count nd l' bs" using k False unfolding cnt by (auto split: if_splits)
      then obtain m where m: "m < length bs" "length (dims nd (bs ! m)) = l'" "P m (jpp c ! (layer_start nd l' + k))"
        using st l' unfolding pool_state_def by blast
      have "layer_start nd l' + k \<noteq> ?i"
      proof (cases "l' = l")
        case False
        have "k < nd choose l'" using k lim [of l'] by (rule less_le_trans)
        then show ?thesis using layer_apart [OF False, of k nd ?n] room by simp
      qed (use old in simp)
      then show ?thesis using m by (intro exI [of _ m]) (simp add: js_def nth_append)
    qed
    moreover have "\<exists>q. ls ! l' = Some \<lparr>layerIndex = of_nat (layer_start nd l'), layerQuantityLimit = q,
        layerCurrentPopulation = of_nat (ones_count nd l' (bs @ [b]))\<rparr>" if "1 \<le> l'" "l' \<le> nd" for l'
    proof (cases "l' = l")
      case True
      then show ?thesis using len lnd by (simp add: ls_def y_def cnt del: of_nat_Suc)
    next
      case False
      then show ?thesis using st that unfolding pool_state_def cnt by (simp add: ls_def)
    qed
    ultimately show ?thesis using len unfolding pool_state_def by (simp add: js_def ls_def)
  qed
  ultimately show ?thesis by blast
qed

lemma dims_nonempty: "g \<noteq> 0 \<Longrightarrow> dims 32 (g :: u32) \<noteq> []"
proof -
  assume "g \<noteq> 0"
  then obtain n where "bit g n" by (metis bit_eqI bit_0_eq bot_apply bot_bool_def)
  then have "31 - n \<in> set (dims 32 g)" using bit_imp_le_length [of g n] by (auto simp: dims_def)
  then show ?thesis by auto
qed

text \<open>
  C31. \<open>GetParent\<close> chooses a view to derive from.  When it says that there is none, no view made so
  far has all wanted dimensions, and nothing is changed.  Otherwise it records the number of
  dimensions, the place, the number of rows and the tuple of a view that has all of them, of the lowest layer
  that has any such view; as \<open>smallestParent\<close>, one with the fewest rows in that layer.
\<close>
theorem GetParent_chooses:
  assumes "layers_ok c" and "groupby c \<noteq> 0"
  shows "\<exists>smp c'. GetParent c (groupby c) = Some (smp, c')
    \<and> (smp = noneParent \<and> c' = c
         \<and> (\<forall>l j. length (dims 32 (groupby c)) \<le> l \<and> l \<le> unat (nTopDims c) \<and> j \<in> set (made c l) \<longrightarrow> \<not> holds_dims (groupby c) j)
       \<or> (\<exists>l j. length (dims 32 (groupby c)) \<le> l \<and> l \<le> unat (nTopDims c) \<and> chosen c (groupby c) l smp j \<and> c' = with_parent c l j
            \<and> (\<forall>l' j. length (dims 32 (groupby c)) \<le> l' \<and> l' < l \<and> j \<in> set (made c l') \<longrightarrow> \<not> holds_dims (groupby c) j)))"
proof -
  let ?n = "length (dims 32 (groupby c))"
  have n: "unat (of_nat ?n :: u32) = ?n"
    using length_dims [of 32 "groupby c"] by (simp add: unsigned_of_nat take_bit_nat_eq_self)
  have pos: "1 \<le> ?n" using dims_nonempty [OF assms(2)] by (cases "dims 32 (groupby c)") auto
  let ?ls = "[?n..<Suc (unat (nTopDims c))]"
  have ls: "\<forall>l \<in> set ?ls. 1 \<le> l \<and> l \<le> unat (nTopDims c)" using pos by auto
  obtain mlo where mlo: "SetOneBit32 0 (Mlo32 (groupby c)) = Some mlo"
    using Mlo32_less [OF assms(2)] by (simp add: SetOneBit32_def)
  obtain smp c' where p: "parent_levels (groupby c) (groupby c) (setLeadingOnes32 (mro32 (groupby c))) mlo
      (setLeadingOnes32 (Mlo32 (groupby c))) ?ls c = Some (smp, c')"
    "smp = noneParent \<and> c' = c \<and> (\<forall>l \<in> set ?ls. \<forall>j \<in> set (made c l). \<not> holds_dims (groupby c) j)
       \<or> (\<exists>ls1 l ls2 j. ?ls = ls1 @ l # ls2 \<and> (\<forall>l \<in> set ls1. \<forall>j \<in> set (made c l). \<not> holds_dims (groupby c) j)
            \<and> chosen c (groupby c) l smp j \<and> c' = with_parent c l j)"
    using parent_levels_ok [OF assms(1) ls, of "groupby c" "groupby c" "setLeadingOnes32 (mro32 (groupby c))" mlo
      "setLeadingOnes32 (Mlo32 (groupby c))"] by (elim exE conjE) (rule that)
  have get: "GetParent c (groupby c) = Some (smp, c')"
    using mlo p(1) by (simp only: GetParent_def NumberOfOnes_ucast n bind.bind_lunit)
  from p(2) show ?thesis
  proof (elim disjE exE conjE)
    assume "smp = noneParent" "c' = c" "\<forall>l \<in> set ?ls. \<forall>j \<in> set (made c l). \<not> holds_dims (groupby c) j"
    then show ?thesis using get by auto
  next
    fix ls1 l ls2 j
    assume ls: "?ls = ls1 @ l # ls2" and none: "\<forall>l \<in> set ls1. \<forall>j \<in> set (made c l). \<not> holds_dims (groupby c) j"
      and ch: "chosen c (groupby c) l smp j" "c' = with_parent c l j"
    have l: "l \<in> set ?ls" unfolding ls by simp
    have "l' \<in> set ls1" if "?n \<le> l'" "l' < l" for l'
    proof -
      have "l' \<in> set (ls1 @ l # ls2)" using l that unfolding ls [symmetric] by auto
      moreover have "sorted_wrt (<) (ls1 @ l # ls2)" unfolding ls [symmetric] by (rule sorted_wrt_upt)
      ultimately show ?thesis using that(2) by (auto simp: sorted_wrt_append)
    qed
    then have "\<forall>l' j. ?n \<le> l' \<and> l' < l \<and> j \<in> set (made c l') \<longrightarrow> \<not> holds_dims (groupby c) j" using none by blast
    moreover have "?n \<le> l" "l \<le> unat (nTopDims c)" using l by auto
    ultimately show ?thesis using get ch by blast
  qed
qed

text \<open>A pool with one view of two dimensions; the view of the first dimension is wanted.\<close>

definition two_dims_cube :: cube where
  "two_dims_cube = \<lparr>view = two_row_view, inpf = [], nTopDims = 2, nInputRecs = 0, groupby = 0x80000000,
     jpp = [\<lparr>grpb = 0, jnv = 0, jnRows = 0, jviewOffset = 0\<rparr>, \<lparr>grpb = 0, jnv = 0, jnRows = 0, jviewOffset = 0\<rparr>,
       \<lparr>grpb = 0, jnv = 0, jnRows = 0, jviewOffset = 0\<rparr>, \<lparr>grpb = 0xC0000000, jnv = 2, jnRows = 5, jviewOffset = 0\<rparr>],
     lpp = [None, Some \<lparr>layerIndex = 1, layerQuantityLimit = 2, layerCurrentPopulation = 0\<rparr>,
       Some \<lparr>layerIndex = 3, layerQuantityLimit = 1, layerCurrentPopulation = 1\<rparr>],
     smallestParentLevel = 0, viewOffset = 0, nParentViewRows = 0, parBinRepTuple = 0, accViewFileOffset = 0, totchs = [0],
     totalViewFileSize = 0, viewSizesFile = [], numberOfMadeViews = 0\<rparr>"

theorem GetParent_chooses_witness:
  "\<exists>smp c'. GetParent two_dims_cube 0x80000000 = Some (smp, c') \<and> smp \<noteq> noneParent
    \<and> parBinRepTuple c' = 0xC0000000 \<and> nParentViewRows c' = 5 \<and> smallestParentLevel c' = 2"
proof -
  have g: "groupby two_dims_cube = 0x80000000" "unat (nTopDims two_dims_cube) = 2" by (simp_all add: two_dims_cube_def)
  have l: "l = 1 \<or> l = 2" if "1 \<le> l" "l \<le> 2" for l :: nat using that by auto
  have ok: "layers_ok two_dims_cube"
  proof -
    have "\<exists>y. lpp two_dims_cube ! l = Some y \<and> unat (layerIndex y) + unat (layerCurrentPopulation y) \<le> length (jpp two_dims_cube)"
      if "1 \<le> l" "l \<le> 2" for l
      using l [OF that] by (auto simp: two_dims_cube_def)
    moreover have "length (lpp two_dims_cube) = Suc 2" "length (jpp two_dims_cube) < 2 ^ 32" by (simp_all add: two_dims_cube_def)
    ultimately show ?thesis unfolding layers_ok_def g(2) by blast
  qed
  have m: "made two_dims_cube 1 = []" "made two_dims_cube 2 = [\<lparr>grpb = 0xC0000000, jnv = 2, jnRows = 5, jviewOffset = 0\<rparr>]"
    by (simp_all add: made_def two_dims_cube_def)
  have d: "length (dims 32 (0x80000000 :: u32)) = 1" by code_simp
  have h: "holds_dims 0x80000000 \<lparr>grpb = 0xC0000000, jnv = 2, jnRows = 5, jviewOffset = 0\<rparr>" by (simp add: holds_dims_def)
  obtain smp c' where "GetParent two_dims_cube 0x80000000 = Some (smp, c')"
    "smp = noneParent \<and> (\<forall>l j. 1 \<le> l \<and> l \<le> 2 \<and> j \<in> set (made two_dims_cube l) \<longrightarrow> \<not> holds_dims 0x80000000 j)
      \<or> (\<exists>l j. 1 \<le> l \<and> l \<le> 2 \<and> chosen two_dims_cube 0x80000000 l smp j \<and> c' = with_parent two_dims_cube l j)"
    using GetParent_chooses [OF ok] unfolding g d by auto
  moreover have False if "\<forall>l j. 1 \<le> l \<and> l \<le> 2 \<and> j \<in> set (made two_dims_cube l) \<longrightarrow> \<not> holds_dims 0x80000000 j"
    using that [rule_format, of 2] h by (simp add: m)
  ultimately show ?thesis using l m by (fastforce simp: chosen_def with_parent_def)
qed

end
