(* ===== verification/Cube_Views.thy ===== *)
theory Cube_Views
  imports Cube_Jobs
begin

text \<open>
  The loop of the data-cube benchmark over the requested views (\<open>ComputeGivenGroupbys\<close> of
  \<open>DC/extbuild.c\<close>, compiled without the optional derivations): each view is computed from the input or
  from a view that was made before, and in either case the rows that are written are the grouping
  of the input.
\<close>

section \<open>The model\<close>

definition GetRecSize :: "u32 \<Rightarrow> u32 \<Rightarrow> u32" where
  "GetRecSize nd nm = 4 * nd + 8 * nm"

fun zero_loop :: "nat \<Rightarrow> nat \<Rightarrow> u64 list \<Rightarrow> u64 list option" where
  "zero_loop 0 i xs = Some xs"
| "zero_loop (Suc n) i xs = do { xs \<leftarrow> wr xs i 0; zero_loop n (Suc i) xs }"

fun copy_loop :: "nat \<Rightarrow> nat \<Rightarrow> u32 list \<Rightarrow> u32 list \<Rightarrow> u32 list option" where
  "copy_loop 0 i src dst = Some dst"
| "copy_loop (Suc n) i src dst = do { x \<leftarrow> rd src i; dst \<leftarrow> wr dst i x; copy_loop n (Suc i) src dst }"

fun add_loop :: "nat \<Rightarrow> nat \<Rightarrow> u64 list \<Rightarrow> u64 list \<Rightarrow> u64 list option" where
  "add_loop 0 i src dst = Some dst"
| "add_loop (Suc n) i src dst = do { x \<leftarrow> rd src i; y \<leftarrow> rd dst i; dst \<leftarrow> wr dst i (y + x); add_loop n (Suc i) src dst }"

text \<open>
  The state before the first view.  \<open>fresh\<close> is the memory that \<open>malloc\<close> returned, with the sizes of
  its arrays; the next three arguments are the uninitialised parts of the tree.  The files are
  opened anew, but for the input.
\<close>

definition MAX_NUM_OF_DIMS :: nat where "MAX_NUM_OF_DIMS = 20"

definition MAX_NUM_OF_MEAS :: nat where "MAX_NUM_OF_MEAS = 4"

fun number_loop :: "nat \<Rightarrow> nat \<Rightarrow> u32 list \<Rightarrow> u32 list option" where
  "number_loop 0 i xs = Some xs"
| "number_loop (Suc n) i xs = do { xs \<leftarrow> wr xs i (of_nat i + 1); number_loop n (Suc i) xs }"

definition NewAdcViewCntl :: "cube \<Rightarrow> colour \<Rightarrow> u32 list \<Rightarrow> tptr list \<Rightarrow> u32 \<Rightarrow> u32 \<Rightarrow> u32 \<Rightarrow> u32 \<Rightarrow> row list \<Rightarrow> cube option" where
  "NewAdcViewCntl fresh col ds ns nd nm n limit inp = (let v = view fresh in do {
     ms \<leftarrow> zero_loop (unat nm) 0 (vmSums v);
     cs \<leftarrow> zero_loop (unat nm) 0 (vchecksums v);
     ts \<leftarrow> zero_loop (unat nm) 0 (totchs fresh);
     sel \<leftarrow> number_loop (unat nd) 0 (selection v);
     Some (fresh\<lparr>view := v\<lparr>vtree := CreateEmptyTree nd nm limit col ds ns, selection := sel, vnd := nd, vnm := nm, vnv := nd,
         outRecSize := GetRecSize (vnv v) nm, numberOfChunks := 0, fileOfChunks := [], vmemoryLimit := limit,
         viewFile := [], totalOfViewRows := 0, vmSums := ms, vchecksums := cs\<rparr>,
       inpf := inp, nTopDims := nd, nInputRecs := n, jpp := JobPoolInit (2 ^ unat nd), lpp := init_layers nd,
       accViewFileOffset := 0, totchs := ts, totalViewFileSize := 0, viewSizesFile := [], numberOfMadeViews := 0\<rparr>) })"

text \<open>The settings of the next view.\<close>

definition InitAdcViewCntl :: "cube \<Rightarrow> u32 \<Rightarrow> u32 list \<Rightarrow> bool \<Rightarrow> cube option" where
  "InitAdcViewCntl c nSelectedDims sel fromParent = (let v = view c in do {
     ms \<leftarrow> zero_loop (unat (vnm v)) 0 (vmSums v);
     sl \<leftarrow> copy_loop (unat nSelectedDims) 0 sel (selection v);
     Some (c\<lparr>view := v\<lparr>vnv := nSelectedDims, vmSums := ms, selection := sl,
       outRecSize := GetRecSize nSelectedDims (vnm v), numberOfChunks := 0, nViewRows := 0,
       vnd := (if fromParent then smallestParentLevel c else nTopDims c),
       nRowsToRead := (if fromParent then nParentViewRows c else nInputRecs c)\<rparr>\<rparr>) })"

text \<open>
  A record has four bytes for each dimension and eight for each measure; the records that are read
  begin at an offset and have the size of the input records.  The end of the file may come early.
\<close>

definition row_bytes :: "row \<Rightarrow> nat" where
  "row_bytes r = 4 * length (snd r) + 8 * length (fst r)"

fun seek_row :: "row list \<Rightarrow> nat \<Rightarrow> row list option" where
  "seek_row [] off = (if off = 0 then Some [] else None)"
| "seek_row (r # rs) off =
    (if off = 0 then Some (r # rs) else if row_bytes r \<le> off then seek_row rs (off - row_bytes r) else None)"

definition input_rows :: "row list \<Rightarrow> u64 \<Rightarrow> u32 \<Rightarrow> u32 \<Rightarrow> row list option" where
  "input_rows file off rec n = do {
     rs \<leftarrow> seek_row file (unat off);
     let rs = take (unat n) rs in
     if list_all (\<lambda>r. row_bytes r = unat rec) rs then Some rs else None }"

text \<open>
  One round of the loop: the preparation of a view with the rows it is computed from, its
  computation, and its entry in the pool and in the statistics.  The first predicate says which
  writes to the file of chunks succeed, for each view; that file is written from its beginning
  again for the next view.
\<close>

definition prepare_view :: "u64 \<Rightarrow> cube \<Rightarrow> (cube \<times> row list) option" where
  "prepare_view b c = do {
     cs \<leftarrow> zero_loop (unat (vnm (view c))) 0 (vchecksums (view c));
     (sel, nSelectedDims) \<leftarrow> GetRegTupleFromBin64 b (selection (view c)) (nTopDims c);
     g \<leftarrow> groupby32 b (nTopDims c);
     (smp, c) \<leftarrow> GetParent (c\<lparr>view := (view c)\<lparr>vchecksums := cs, selection := sel\<rparr>, groupby := g\<rparr>) g;
     sel \<leftarrow> (if smp \<noteq> noneParent then GetRegTupleFromParent b (parBinRepTuple c) sel (nTopDims c) else Some sel);
     c \<leftarrow> InitAdcViewCntl (c\<lparr>view := (view c)\<lparr>selection := sel\<rparr>\<rparr>) nSelectedDims sel (smp \<noteq> noneParent);
     let v = view c; rec = GetRecSize (vnd v) (vnm v) in do {
       inp \<leftarrow> (if smp \<noteq> noneParent then input_rows (viewFile v) (viewOffset c) rec (nRowsToRead v)
         else input_rows (inpf c) 0 rec (nRowsToRead v));
       Some (c, inp) } }"

text \<open>
  After a view is written.  The source does not test the \<open>fwrite\<close> to \<open>viewSizesFile\<close>, which is taken to
  succeed, and rewinds the file of chunks, which the next view overwrites: it is empty here.
\<close>

definition finish_view :: "u64 \<Rightarrow> cube \<Rightarrow> cube option" where
  "finish_view b c = do {
     c \<leftarrow> JobPoolUpdate c;
     let v = view c in do {
       ts \<leftarrow> add_loop (unat (vnm v)) 0 (vchecksums v) (totchs c);
       Some (c\<lparr>accViewFileOffset := accViewFileOffset c + ucast (nViewRows v * outRecSize v),
         view := v\<lparr>fileOfChunks := []\<rparr>, totchs := ts,
         viewSizesFile := viewSizesFile c @ [(ucast (drop_bit (unat (64 - nTopDims c)) b), nViewRows v)],
         totalViewFileSize := totalViewFileSize c + ucast (outRecSize v * nViewRows v)\<rparr>) } }"

definition compute_groupby :: "(u32 \<Rightarrow> nat \<Rightarrow> bool) \<Rightarrow> (nat \<Rightarrow> bool) \<Rightarrow> u32 \<Rightarrow> u64 \<Rightarrow> cube \<Rightarrow> (int \<times> cube) option" where
  "compute_groupby okc okv nViews b c = do {
     (c, inp) \<leftarrow> prepare_view b c;
     (rc, v) \<leftarrow> compute_view (okc nViews) okv inp (view c);
     let c = c\<lparr>view := v\<rparr> in
     if rc \<noteq> ADC_OK then Some (rc, c)
     else do { c \<leftarrow> finish_view b c; Some (ADC_OK, c) } }"

fun swap_bytes :: "u64 \<Rightarrow> nat list \<Rightarrow> u64" where
  "swap_bytes w [] = 0"
| "swap_bytes w (i # is) = push_bit (8 * (7 - i)) (take_bit 8 (drop_bit (8 * i) w)) OR swap_bytes w is"

definition swap8 :: "u64 \<Rightarrow> u64" where
  "swap8 w = swap_bytes w [0, 1, 2, 3, 4, 5, 6, 7]"

text \<open>The loop over the tuples in the file \<open>groupbyFile\<close>, whose bytes are in the other order.\<close>

fun groupby_loop :: "(u32 \<Rightarrow> nat \<Rightarrow> bool) \<Rightarrow> (nat \<Rightarrow> bool) \<Rightarrow> u32 \<Rightarrow> u64 list \<Rightarrow> cube \<Rightarrow> (int \<times> cube) option" where
  "groupby_loop okc okv nViews [] c = Some (ADC_OK, c\<lparr>numberOfMadeViews := nViews\<rparr>)"
| "groupby_loop okc okv nViews (t # ts) c = do {
     (rc, c) \<leftarrow> compute_groupby okc okv (nViews + 1) (swap8 t) c;
     if rc \<noteq> ADC_OK then Some (rc, c) else groupby_loop okc okv (nViews + 1) ts c }"

definition compute_groupbys :: "(u32 \<Rightarrow> nat \<Rightarrow> bool) \<Rightarrow> (nat \<Rightarrow> bool) \<Rightarrow> u64 list \<Rightarrow> cube \<Rightarrow> (int \<times> cube) option" where
  "compute_groupbys okc okv groupbyFile c = groupby_loop okc okv 0 groupbyFile c"

section \<open>Loops and bytes\<close>

lemma zero_loop_zeros: "i + n \<le> length xs \<Longrightarrow> \<exists>ys. zero_loop n i xs = Some ys \<and> length ys = length xs
    \<and> (\<forall>j. ys ! j = (if i \<le> j \<and> j < i + n then 0 else xs ! j))"
proof (induction n arbitrary: i xs)
  case 0
  then show ?case by auto
next
  case (Suc n)
  then have "Suc i + n \<le> length (xs[i := 0])" by simp
  then obtain ys where "zero_loop n (Suc i) (xs[i := 0]) = Some ys" "length ys = length xs"
    "\<forall>j. ys ! j = (if Suc i \<le> j \<and> j < Suc i + n then 0 else xs[i := 0] ! j)" using Suc.IH by fastforce
  moreover have "zero_loop (Suc n) i xs = zero_loop n (Suc i) (xs[i := 0])" using Suc.prems by (simp add: wr_def)
  ultimately show ?case using Suc.prems by (auto simp: nth_list_update)
qed

lemma copy_loop_same: "i + n \<le> length xs \<Longrightarrow> copy_loop n i xs xs = Some xs"
  by (induction n arbitrary: i) (simp_all add: rd_def wr_def)

lemma add_loop_Some: "i + n \<le> length xs \<Longrightarrow> i + n \<le> length ys \<Longrightarrow> \<exists>zs. add_loop n i xs ys = Some zs \<and> length zs = length ys"
proof (induction n arbitrary: i ys)
  case (Suc n)
  then have "Suc i + n \<le> length xs" "Suc i + n \<le> length (ys[i := ys ! i + xs ! i])" by simp_all
  from Suc.IH [OF this] show ?case using Suc.prems by (simp add: rd_def wr_def)
qed simp

lemma swap8_bit: "i < 8 \<Longrightarrow> j < 8 \<Longrightarrow> bit (swap8 w) (8 * i + j) \<longleftrightarrow> bit w (8 * (7 - i) + j)"
proof -
  assume "i < 8" "j < 8"
  then have "i = 0 \<or> i = 1 \<or> i = 2 \<or> i = 3 \<or> i = 4 \<or> i = 5 \<or> i = 6 \<or> i = 7" by auto
  then show ?thesis
    using \<open>j < 8\<close> by (elim disjE) (simp_all add: swap8_def bit_or_iff bit_push_bit_iff bit_take_bit_iff bit_drop_bit_eq add.commute)
qed

lemma swap8_swap8: "swap8 (swap8 w) = w"
proof (rule bit_word_eqI)
  fix n assume "n < LENGTH(64)"
  then have d: "n div 8 < 8" "n mod 8 < 8" "8 * (n div 8) + n mod 8 = n" by auto
  have "bit (swap8 (swap8 w)) (8 * (n div 8) + n mod 8) \<longleftrightarrow> bit (swap8 w) (8 * (7 - n div 8) + n mod 8)"
    by (rule swap8_bit [OF d(1,2)])
  also have "\<dots> \<longleftrightarrow> bit w (8 * (7 - (7 - n div 8)) + n mod 8)" by (rule swap8_bit) (use d in auto)
  also have "7 - (7 - n div 8) = n div 8" using d(1) by linarith
  finally show "bit (swap8 (swap8 w)) n \<longleftrightarrow> bit w n" unfolding d(3) .
qed

section \<open>Grouping a grouping\<close>

definition rekey :: "(u32 list \<Rightarrow> u32 list) \<Rightarrow> u32 list \<times> u64 list \<Rightarrow> u32 list \<times> u64 list" where
  "rekey h e = (h (fst e), snd e)"

lemma total_of_rekey:
  assumes "finite K" "fst ` set xs \<subseteq> K"
  shows "total_of i k (map (rekey h) xs) = (\<Sum>q \<in> K. if h q = k then total_of i q xs else 0)"
  using assms(2)
proof (induction xs)
  case (Cons x xs)
  obtain q m where x: "x = (q, m)" by (cases x)
  have q: "q \<in> K" using Cons.prems x by simp
  have "(\<Sum>q' \<in> K. if h q' = k then total_of i q' (x # xs) else 0)
      = (\<Sum>q' \<in> K. (if q' = q then (if h q = k then m ! i else 0) else 0) + (if h q' = k then total_of i q' xs else 0))"
    by (rule sum.cong) (auto simp: x)
  also have "\<dots> = (if h q = k then m ! i else 0) + (\<Sum>q' \<in> K. if h q' = k then total_of i q' xs else 0)"
    using assms(1) q by (simp add: sum.distrib)
  finally show ?case using Cons by (simp add: x rekey_def)
qed (simp cong: if_cong)

lemma group_group:
  shows "group_rows nm (map (rekey h) (group_rows nm xs)) = group_rows nm (map (rekey h) xs)"
proof (rule group_cong)
  have fin: "finite (fst ` set xs)" by simp
  have keys: "fst ` set (group_rows nm xs) = fst ` set xs" by (auto simp: group_rows_def image_image)
  then show "fst ` set (map (rekey h) (group_rows nm xs)) = fst ` set (map (rekey h) xs)"
    by (simp add: rekey_def image_image) (metis image_image)
  have t: "total_of i q (group_rows nm xs) = total_of i q xs" if "i < nm" "q \<in> fst ` set xs" for i q
  proof -
    have srt: "sorted_wrt (<) (map fst (group_rows nm xs))" by (simp add: group_rows_def comp_def)
    have "(q, map (\<lambda>i. total_of i q xs) [0..<nm]) \<in> set (group_rows nm xs)" using that(2) by (auto simp: group_rows_def)
    from total_of_single [OF srt this, of i] show ?thesis using that(1) by simp
  qed
  show "\<forall>i < nm. \<forall>k. total_of i k (map (rekey h) (group_rows nm xs)) = total_of i k (map (rekey h) xs)"
  proof (intro allI impI)
    fix i k assume i: "i < nm"
    show "total_of i k (map (rekey h) (group_rows nm xs)) = total_of i k (map (rekey h) xs)"
      unfolding total_of_rekey [OF fin eq_refl [OF keys]] total_of_rekey [OF fin order_refl]
      by (rule sum.cong) (simp_all only: t [OF i])
  qed
qed

section \<open>Views and their places in the file\<close>

text \<open>The rows of a view, and the file after the views \<open>bs\<close>.\<close>

definition view_of :: "nat \<Rightarrow> nat \<Rightarrow> row list \<Rightarrow> u64 \<Rightarrow> (u32 list \<times> u64 list) list" where
  "view_of nd nm inp b = group_rows nm (map (\<lambda>r. (map ((!) (snd r)) (dims nd b), take nm (fst r))) inp)"

definition cube_rows :: "nat \<Rightarrow> nat \<Rightarrow> row list \<Rightarrow> u64 list \<Rightarrow> row list" where
  "cube_rows nd nm inp bs = concat (map (\<lambda>b. map prod.swap (view_of nd nm inp b)) bs)"

definition file_bytes :: "row list \<Rightarrow> nat" where
  "file_bytes rs = sum_list (map row_bytes rs)"

lemma cube_rows_snoc: "cube_rows nd nm inp (bs @ [b]) = cube_rows nd nm inp bs @ map prod.swap (view_of nd nm inp b)"
  by (simp add: cube_rows_def)

lemma file_bytes_append: "file_bytes (xs @ ys) = file_bytes xs + file_bytes ys"
  by (simp add: file_bytes_def)

lemma group_rows_widths:
  "e \<in> set (group_rows nm rs) \<Longrightarrow> length (snd e) = nm \<and> fst e \<in> fst ` set rs"
  by (force simp: group_rows_def)

lemma view_of_widths:
  assumes "e \<in> set (view_of nd nm inp b)"
  shows "length (fst e) = length (dims nd b)" "length (snd e) = nm"
  using group_rows_widths [OF assms [unfolded view_of_def]] by auto

lemma view_of_bytes:
  "r \<in> set (map prod.swap (view_of nd nm inp b)) \<Longrightarrow> row_bytes r = 4 * length (dims nd b) + 8 * nm"
  using view_of_widths [of "prod.swap r" nd nm inp b] by (auto simp: row_bytes_def)

lemma view_file_bytes:
  "file_bytes (map prod.swap (view_of nd nm inp b)) = (4 * length (dims nd b) + 8 * nm) * length (view_of nd nm inp b)"
proof -
  have "map row_bytes (map prod.swap (view_of nd nm inp b)) = map (\<lambda>_. 4 * length (dims nd b) + 8 * nm) (view_of nd nm inp b)"
    using view_of_bytes [of _ nd nm inp b] by auto
  then show ?thesis by (simp add: file_bytes_def map_replicate_const sum_list_replicate)
qed

lemma seek_row_append: "\<forall>r \<in> set xs. 0 < row_bytes r \<Longrightarrow> seek_row (xs @ ys) (file_bytes xs) = Some ys"
proof (induction xs)
  case Nil
  then show ?case by (cases ys) (simp_all add: file_bytes_def)
qed (simp add: file_bytes_def)

lemma cube_rows_split: "m < length bs \<Longrightarrow> cube_rows nd nm inp bs =
    cube_rows nd nm inp (take m bs) @ map prod.swap (view_of nd nm inp (bs ! m)) @ cube_rows nd nm inp (drop (Suc m) bs)"
  unfolding cube_rows_def by (subst id_take_nth_drop [of m bs]) auto

lemma cube_rows_bytes_pos:
  assumes "\<forall>b \<in> set bs. dims nd b \<noteq> []" "r \<in> set (cube_rows nd nm inp bs)"
  shows "0 < row_bytes r"
proof -
  obtain b where b: "b \<in> set bs" "r \<in> set (map prod.swap (view_of nd nm inp b))"
    using assms(2) by (auto simp: cube_rows_def)
  have "0 < length (dims nd b)" using assms(1) b(1) by simp
  then show ?thesis using view_of_bytes [OF b(2)] by simp
qed

lemma input_rows_view:
  assumes m: "m < length bs" and d: "\<forall>b \<in> set bs. dims nd b \<noteq> []"
    and off: "unat off = file_bytes (cube_rows nd nm inp (take m bs))"
    and n: "unat n = length (view_of nd nm inp (bs ! m))" and rec: "unat rec = 4 * length (dims nd (bs ! m)) + 8 * nm"
  shows "input_rows (cube_rows nd nm inp bs) off rec n = Some (map prod.swap (view_of nd nm inp (bs ! m)))"
proof -
  have pos: "\<forall>r \<in> set (cube_rows nd nm inp (take m bs)). 0 < row_bytes r"
    using cube_rows_bytes_pos [of "take m bs" nd] d by (blast dest: in_set_takeD)
  have "seek_row (cube_rows nd nm inp bs) (unat off) =
      Some (map prod.swap (view_of nd nm inp (bs ! m)) @ cube_rows nd nm inp (drop (Suc m) bs))"
    unfolding off cube_rows_split [OF m, of nd nm inp] by (rule seek_row_append [OF pos])
  moreover have "list_all (\<lambda>r. row_bytes r = unat rec) (map prod.swap (view_of nd nm inp (bs ! m)))"
    unfolding rec list_all_iff using view_of_bytes by blast
  ultimately show ?thesis using n by (simp add: input_rows_def)
qed

lemma seek_row_0: "seek_row rs 0 = Some rs"
  by (cases rs) simp_all

lemma input_rows_start:
  assumes "\<forall>r \<in> set rs. row_bytes r = unat rec" "unat n = length rs"
  shows "input_rows rs 0 rec n = Some rs"
  using assms by (simp add: input_rows_def seek_row_0 list_all_iff)

end
