(* ===== verification/Cube_Loop.thy ===== *)
theory Cube_Loop
  imports Cube_Views
begin

text \<open>
  The views of the data cube, one after the other: a view is prepared from the input or from an
  earlier view, in both cases its rows group to the same view, and the view file holds all views in
  the order of the requests.
\<close>

section \<open>The next view\<close>

text \<open>
  The settings that all views share, and what has to hold when a view is computed from the rows
  \<open>rs\<close>: they group to the view.
\<close>

definition view_ok :: "nat \<Rightarrow> nat \<Rightarrow> view_cntl \<Rightarrow> bool" where
  "view_ok nd nm v \<longleftrightarrow> vnm v = of_nat nm \<and> length (nodes (vtree v)) = MAX_TREE_HEIGHT \<and> length (drcts (vtree v)) = MAX_TREE_HEIGHT
     \<and> length (chunksParams v) = MAX_NUM_OF_CHUNKS \<and> nd \<le> length (selection v)
     \<and> nm \<le> length (vmSums v) \<and> nm \<le> length (vchecksums v)
     \<and> (\<forall>k. 1 \<le> k \<and> k \<le> nd \<longrightarrow> tree_node_size (of_nat k) (of_nat nm) \<le> memoryLimit (vtree v))"

lemma view_ok_frame: "frame v' = frame v \<Longrightarrow> view_ok nd nm v' = view_ok nd nm v"
  by (simp add: view_ok_def frame_def)

definition prepared :: "nat \<Rightarrow> nat \<Rightarrow> row list \<Rightarrow> u64 \<Rightarrow> view_cntl \<Rightarrow> row list \<Rightarrow> bool" where
  "prepared nd nm inp b v rs \<longleftrightarrow> view_ok nd nm v \<and> view_conf v \<and> numberOfChunks v = 0 \<and> fileOfChunks v = []
     \<and> unat (nRowsToRead v) = length rs \<and> (\<forall>r \<in> set rs. row_conf v r) \<and> vnv v = of_nat (length (dims nd b))
     \<and> group_rows nm (map (view_row v) rs) = view_of nd nm inp b"

text \<open>The settings after \<open>InitAdcViewCntl\<close>, for any choice of the selection.\<close>

definition init_view :: "cube \<Rightarrow> nat \<Rightarrow> u64 list \<Rightarrow> bool \<Rightarrow> view_cntl" where
  "init_view c k ms p = (view c)\<lparr>vnv := of_nat k, vmSums := ms, outRecSize := GetRecSize (of_nat k) (vnm (view c)),
     numberOfChunks := 0, nViewRows := 0, vnd := (if p then smallestParentLevel c else nTopDims c),
     nRowsToRead := (if p then nParentViewRows c else nInputRecs c)\<rparr>"

lemma init_view_simps [simp]:
  "vnd (init_view c k ms p) = (if p then smallestParentLevel c else nTopDims c)" "vnm (init_view c k ms p) = vnm (view c)"
  "nRowsToRead (init_view c k ms p) = (if p then nParentViewRows c else nInputRecs c)"
  "viewFile (init_view c k ms p) = viewFile (view c)" "vmemoryLimit (init_view c k ms p) = vmemoryLimit (view c)"
  by (simp_all add: init_view_def)

lemma InitAdcViewCntl_ok:
  assumes "view_ok nd nm (view c)" "k \<le> nd" "nd \<le> 20" "nm \<le> 4"
  shows "\<exists>ms. length ms = length (vmSums (view c)) \<and> InitAdcViewCntl c (of_nat k) (selection (view c)) p = Some (c\<lparr>view := init_view c k ms p\<rparr>)"
proof -
  have u: "unat (vnm (view c)) = nm" "unat (of_nat k :: u32) = k" using assms by (simp_all add: view_ok_def word_small)
  obtain ms where ms: "zero_loop nm 0 (vmSums (view c)) = Some ms" "length ms = length (vmSums (view c))"
    using zero_loop_zeros [of 0 nm "vmSums (view c)"] assms(1) by (auto simp: view_ok_def)
  moreover have "copy_loop k 0 (selection (view c)) (selection (view c)) = Some (selection (view c))"
    by (rule copy_loop_same) (use assms in \<open>simp add: view_ok_def\<close>)
  ultimately show ?thesis using u by (intro exI [of _ ms]) (simp add: InitAdcViewCntl_def Let_def init_view_def)
qed

lemma init_view_ok: "view_ok nd nm (view c) \<Longrightarrow> length ms = length (vmSums (view c)) \<Longrightarrow> view_ok nd nm (init_view c k ms p)"
  by (simp add: view_ok_def init_view_def)

lemma init_view_conf:
  assumes "view_ok nd nm (view c)" "1 \<le> k" "k \<le> nd" "nd \<le> 20" "nm \<le> 4" "take k (selection (view c)) = sel"
    "\<forall>x \<in> set sel. unat (x - 1) < unat (if p then smallestParentLevel c else nTopDims c)"
  shows "view_conf (init_view c k ms p)"
proof -
  have u: "unat (of_nat k :: u32) = k" "unat (of_nat nm :: u32) = nm" using assms by (simp_all add: word_small)
  have "1 \<le> (of_nat k :: u32)" "(of_nat k :: u32) \<le> 20" "(of_nat nm :: u32) \<le> 4" using assms u by (simp_all add: word_le_nat_alt)
  then show ?thesis using assms u by (simp add: view_conf_def init_view_def view_ok_def GetRecSize_def)
qed

lemma prepared_from_input:
  assumes ok: "view_ok nd nm (view c)" and lim: "1 \<le> nd" "nd \<le> 20" "nm \<le> 4" and top: "nTopDims c = of_nat nd"
    and ms: "length ms = length (vmSums (view c))" and b: "dims nd b \<noteq> []"
    and sel: "take (length (dims nd b)) (selection (view c)) = selected (dims nd b)" and chunks: "fileOfChunks (view c) = []"
    and inp: "\<forall>r \<in> set inp. length (fst r) = nm \<and> length (snd r) = nd" "unat (nInputRecs c) = length inp"
  shows "prepared nd nm inp b (init_view c (length (dims nd b)) ms False) inp"
proof -
  let ?k = "length (dims nd b)" and ?v = "init_view c (length (dims nd b)) ms False"
  have u: "unat (of_nat nd :: u32) = nd" "unat (of_nat nm :: u32) = nm" "unat (of_nat ?k :: u32) = ?k" "?k \<le> nd" "1 \<le> ?k"
    using lim length_dims [of nd b] b by (simp_all add: word_small Suc_leI)
  have less: "\<forall>d \<in> set (dims nd b). d < 32" using lim by (auto dest: dims_less)
  have conf: "view_conf ?v"
    by (rule init_view_conf [OF ok u(5,4) lim(2,3) sel]) (use selected_dims(2) [OF less] u(1) in \<open>auto simp: top dest!: dims_less\<close>)
  have row: "view_row ?v r = (map ((!) (snd r)) (dims nd b), take nm (fst r))" for r
    using sel u selected_dims(1) [OF less, of "snd r"] ok by (simp add: view_row_def init_view_def view_ok_def)
  have "group_rows nm (map (view_row ?v) inp) = view_of nd nm inp b" by (simp add: view_of_def row cong: map_cong)
  then show ?thesis
    using init_view_ok [OF ok ms] conf inp u ok chunks
    by (simp add: prepared_def) (simp add: init_view_def row_conf_def view_ok_def top)
qed

text \<open>A view that is derived from the view of \<open>a\<close>, of which \<open>p\<close> is the tuple with 32 bits.\<close>

lemma prepared_from_parent:
  assumes ok: "view_ok nd nm (view c)" and lim: "1 \<le> nd" "nd \<le> 20" "nm \<le> 4"
    and ms: "length ms = length (vmSums (view c))" and b: "dims nd b \<noteq> []"
    and p: "dims nd p = dims nd a" and sub: "set (dims nd b) \<subseteq> set (dims nd a)"
    and sel: "take (length (dims nd b)) (selection (view c)) = among p (dims nd b)" and chunks: "fileOfChunks (view c) = []"
    and par: "smallestParentLevel c = of_nat (length (dims nd a))" "unat (nParentViewRows c) = length (view_of nd nm inp a)"
  shows "prepared nd nm inp b (init_view c (length (dims nd b)) ms True) (map prod.swap (view_of nd nm inp a))"
proof -
  let ?k = "length (dims nd b)" and ?v = "init_view c (length (dims nd b)) ms True"
  have u: "unat (of_nat nd :: u32) = nd" "unat (of_nat nm :: u32) = nm" "unat (of_nat ?k :: u32) = ?k" "?k \<le> nd" "1 \<le> ?k"
    "unat (of_nat (length (dims nd a)) :: u32) = length (dims nd a)"
    using lim length_dims [of nd b] length_dims [of nd a] b by (simp_all add: word_small Suc_leI)
  have sub': "unat (of_nat nd :: u32) \<le> 32" "set (dims nd b) \<subseteq> set (dims (unat (of_nat nd :: u32)) p)" using u(1) lim sub p by simp_all
  have conf: "view_conf ?v"
    by (rule init_view_conf [OF ok u(5,4) lim(2,3) sel])
      (use among_selects [OF sub'] u(1,6) in \<open>simp add: par(1) p\<close>)
  define h where "h q = map (\<lambda>x. q ! unat (x - 1)) (among p (dims nd b))" for q :: "u32 list"
  have row: "view_row ?v (prod.swap e) = rekey h e" if "e \<in> set (view_of nd nm inp a)" for e
    using sel u ok view_of_widths(2) [OF that] by (simp add: view_row_def init_view_def view_ok_def h_def rekey_def)
  have "h (map ((!) ks) (dims nd a)) = map ((!) ks) (dims nd b)" for ks
    using among_dims [OF sub', of "(!) ks"] u(1) p by (simp add: h_def)
  then have "map (rekey h) (map (\<lambda>r. (map ((!) (snd r)) (dims nd a), take nm (fst r))) inp) =
      map (\<lambda>r. (map ((!) (snd r)) (dims nd b), take nm (fst r))) inp"
    by (simp add: rekey_def)
  then have "group_rows nm (map (view_row ?v) (map prod.swap (view_of nd nm inp a))) = view_of nd nm inp b"
    using row group_group [of nm h "map (\<lambda>r. (map ((!) (snd r)) (dims nd a), take nm (fst r))) inp"]
    by (simp add: view_of_def comp_def cong: map_cong)
  moreover have "row_conf ?v r" if "r \<in> set (map prod.swap (view_of nd nm inp a))" for r
    using that view_of_widths [of "prod.swap r" nd nm inp a] u ok par(1)
    by (auto simp: row_conf_def init_view_def view_ok_def)
  ultimately show ?thesis
    using init_view_ok [OF ok ms] conf par u ok chunks by (simp add: prepared_def) (simp add: init_view_def)
qed

text \<open>The computation of a prepared view.\<close>

lemma compute_prepared:
  assumes "prepared nd nm inp b v rs" "nm \<le> 4"
  shows "\<exists>rc w. compute_view okc okv rs v = Some (rc, w)
    \<and> (rc = ADC_OK \<and> viewFile w = viewFile v @ map prod.swap (view_of nd nm inp b)
         \<and> nViewRows w = of_nat (length (view_of nd nm inp b)) \<and> frame w = frame v
       \<or> rc = ADC_WRITE_FAILED \<and> ((\<exists>k. \<not> okc k) \<or> (\<exists>k. \<not> okv k))
       \<or> rc = ADC_INTERNAL_ERROR \<and> (unat (numberOfChunks w) = MAX_NUM_OF_CHUNKS
            \<or> unat (vmemoryLimit v) < unat (numberOfChunks w) * rec_bytes v))"
proof -
  have u: "unat (vnm v) = nm" using assms by (simp add: prepared_def view_ok_def word_small)
  have "view_conf v" "length (nodes (vtree v)) = MAX_TREE_HEIGHT" "length (drcts (vtree v)) = MAX_TREE_HEIGHT"
    "numberOfChunks v = 0" "fileOfChunks v = []" "unat (nRowsToRead v) = length rs" "\<forall>r \<in> set rs. row_conf v r"
    "unat (vnm v) \<le> length (vmSums v)" "unat (vnm v) \<le> length (vchecksums v)"
    using assms u by (simp_all add: prepared_def view_ok_def)
  from compute_view_result [OF this, of okc okv] obtain rc w where w: "compute_view okc okv rs v = Some (rc, w)"
    "rc = ADC_OK \<and> merged v w (map (view_row v) rs) \<and> frame w = frame v
       \<or> rc = ADC_WRITE_FAILED \<and> ((\<exists>k. \<not> okc k) \<or> (\<exists>k. \<not> okv k))
       \<or> rc = ADC_INTERNAL_ERROR \<and> (unat (numberOfChunks w) = MAX_NUM_OF_CHUNKS
            \<or> unat (vmemoryLimit v) < unat (numberOfChunks w) * rec_bytes v)" by blast
  have "merged v w (map (view_row v) rs) \<Longrightarrow> viewFile w = viewFile v @ map prod.swap (view_of nd nm inp b)
      \<and> nViewRows w = of_nat (length (view_of nd nm inp b))"
    using assms(1) by (simp add: merged_def Let_def u prepared_def)
  then show ?thesis using w by blast
qed

section \<open>The loop over the views\<close>

text \<open>The requested views: no two the same, none without dimensions, and their rows fit the counters.\<close>

definition requests :: "nat \<Rightarrow> nat \<Rightarrow> row list \<Rightarrow> u64 list \<Rightarrow> bool" where
  "requests nd nm inp all \<longleftrightarrow> 1 \<le> nd \<and> nd \<le> 20 \<and> nm \<le> 4 \<and> (\<forall>r \<in> set inp. length (fst r) = nm \<and> length (snd r) = nd)
     \<and> distinct (map (dims nd) all)
     \<and> (\<forall>b \<in> set all. dims nd b \<noteq> [] \<and> (4 * length (dims nd b) + 8 * nm) * length (view_of nd nm inp b) < 2 ^ 32)
     \<and> file_bytes (cube_rows nd nm inp all) < 2 ^ 64"

definition made_view :: "nat \<Rightarrow> nat \<Rightarrow> row list \<Rightarrow> u64 list \<Rightarrow> nat \<Rightarrow> job \<Rightarrow> bool" where
  "made_view nd nm inp all m j \<longleftrightarrow> groupby32 (all ! m) (of_nat nd) = Some (grpb j)
     \<and> unat (jnRows j) = length (view_of nd nm inp (all ! m))
     \<and> unat (jviewOffset j) = file_bytes (cube_rows nd nm inp (take m all))"

text \<open>The state after \<open>n\<close> views; \<open>L\<close> is the size of the memory pool.\<close>

definition cube_inv :: "nat \<Rightarrow> nat \<Rightarrow> row list \<Rightarrow> u64 list \<Rightarrow> u32 \<Rightarrow> nat \<Rightarrow> cube \<Rightarrow> bool" where
  "cube_inv nd nm inp all L n c \<longleftrightarrow> view_ok nd nm (view c) \<and> vmemoryLimit (view c) = L \<and> fileOfChunks (view c) = []
     \<and> nTopDims c = of_nat nd \<and> inpf c = inp \<and> unat (nInputRecs c) = length inp \<and> nm \<le> length (totchs c)
     \<and> viewFile (view c) = cube_rows nd nm inp (take n all)
     \<and> unat (accViewFileOffset c) = file_bytes (cube_rows nd nm inp (take n all))
     \<and> pool_state nd (made_view nd nm inp all) c (take n all)
     \<and> viewSizesFile c = map (\<lambda>b. (ucast (drop_bit (64 - nd) b), of_nat (length (view_of nd nm inp b)))) (take n all)"

text \<open>What the preparation keeps.\<close>

definition planned :: "cube \<Rightarrow> cube \<Rightarrow> bool" where
  "planned c c' \<longleftrightarrow> jpp c' = jpp c \<and> lpp c' = lpp c \<and> nTopDims c' = nTopDims c \<and> inpf c' = inpf c \<and> nInputRecs c' = nInputRecs c
     \<and> totchs c' = totchs c \<and> accViewFileOffset c' = accViewFileOffset c \<and> viewSizesFile c' = viewSizesFile c
     \<and> viewFile (view c') = viewFile (view c) \<and> vmemoryLimit (view c') = vmemoryLimit (view c)"

lemma request_small:
  assumes "requests nd nm inp all" "b \<in> set all"
  shows "length (view_of nd nm inp b) < 2 ^ 32" "length (dims nd b) \<le> nd" "1 \<le> length (dims nd b)"
proof -
  have b: "dims nd b \<noteq> []" "(4 * length (dims nd b) + 8 * nm) * length (view_of nd nm inp b) < 2 ^ 32"
    using assms by (auto simp: requests_def)
  have "1 * length (view_of nd nm inp b) \<le> (4 * length (dims nd b) + 8 * nm) * length (view_of nd nm inp b)"
    by (rule mult_le_mono1) (use b(1) in \<open>cases "dims nd b"; simp\<close>)
  from le_less_trans [OF this b(2)] show "length (view_of nd nm inp b) < 2 ^ 32" by (simp only: mult_1)
  show "length (dims nd b) \<le> nd" by (rule length_dims)
  show "1 \<le> length (dims nd b)" using b(1) by (simp add: Suc_leI)
qed

lemma subset_dims:
  assumes g: "groupby32 b (of_nat nd) = Some g" "groupby32 a (of_nat nd) = Some p" "nd \<le> 20" and sub: "g AND p = g"
  shows "set (dims nd b) \<subseteq> set (dims nd a)" "\<forall>i \<in> set (dims nd b). bit p (31 - i)"
proof -
  have nd: "unat (of_nat nd :: u32) = nd" using g(3) by (simp add: word_small)
  have "bit p (31 - i)" if "i \<in> set (dims nd b)" for i
  proof -
    have i: "i < nd" "i < 32" "bit b (63 - i)" using that g(3) by (auto simp: dims_def)
    then have "bit g (31 - i)" using groupby32_bit [OF g(1) i(2)] nd by simp
    then show ?thesis using sub by (metis bit_and_iff)
  qed
  then show p: "\<forall>i \<in> set (dims nd b). bit p (31 - i)" by blast
  show "set (dims nd b) \<subseteq> set (dims nd a)"
  proof
    fix i assume i: "i \<in> set (dims nd b)"
    then have "i < 32" using g(3) by (auto dest: dims_less)
    then show "i \<in> set (dims nd a)" using p i groupby32_bit [OF g(2), of i] nd by (auto simp: dims_def)
  qed
qed

lemma rec_size_word: "l \<le> 20 \<Longrightarrow> nm \<le> 4 \<Longrightarrow> unat (GetRecSize (of_nat l) (of_nat nm)) = 4 * l + 8 * nm"
proof -
  assume "l \<le> 20" "nm \<le> 4"
  then have "unat (of_nat (4 * l + 8 * nm) :: u32) = 4 * l + 8 * nm" by (intro word_small) simp
  then show ?thesis by (simp add: GetRecSize_def)
qed

text \<open>The part of the preparation that does not depend on the parent.\<close>

lemma prepare_start:
  assumes req: "requests nd nm inp all" and b: "b \<in> set all" and ok: "view_ok nd nm (view c)" "nTopDims c = of_nat nd"
  shows "\<exists>cs sel g. length cs = length (vchecksums (view c)) \<and> length sel = length (selection (view c))
    \<and> take (length (dims nd b)) sel = selected (dims nd b)
    \<and> groupby32 b (of_nat nd) = Some g \<and> g \<noteq> 0 \<and> dims 32 g = dims nd b
    \<and> prepare_view b c = do {
       (smp, c) \<leftarrow> GetParent (c\<lparr>view := (view c)\<lparr>vchecksums := cs, selection := sel\<rparr>, groupby := g\<rparr>) g;
       sel \<leftarrow> (if smp \<noteq> noneParent then GetRegTupleFromParent b (parBinRepTuple c) sel (nTopDims c) else Some sel);
       c \<leftarrow> InitAdcViewCntl (c\<lparr>view := (view c)\<lparr>selection := sel\<rparr>\<rparr>) (of_nat (length (dims nd b))) sel (smp \<noteq> noneParent);
       let v = view c; rec = GetRecSize (vnd v) (vnm v) in do {
         inp \<leftarrow> (if smp \<noteq> noneParent then input_rows (viewFile v) (viewOffset c) rec (nRowsToRead v)
           else input_rows (inpf c) 0 rec (nRowsToRead v));
         Some (c, inp) } }"
proof -
  have lim: "1 \<le> nd" "nd \<le> 20" "nm \<le> 4" using req by (simp_all add: requests_def)
  have u: "unat (of_nat nd :: u32) = nd" "unat (of_nat nm :: u32) = nm" "unat (vnm (view c)) = nm"
    using lim ok by (simp_all add: word_small view_ok_def)
  let ?ds = "dims nd b"
  have d: "?ds \<noteq> []" "length ?ds \<le> nd" "nd \<le> length (selection (view c))"
    using req b ok length_dims [of nd b] by (simp_all add: requests_def view_ok_def)
  obtain cs where cs: "zero_loop nm 0 (vchecksums (view c)) = Some cs" "length cs = length (vchecksums (view c))"
    using zero_loop_zeros [of 0 nm "vchecksums (view c)"] ok by (auto simp: view_ok_def)
  define sel where "sel = selected ?ds @ drop (length ?ds) (selection (view c))"
  have sel: "GetRegTupleFromBin64 b (selection (view c)) (of_nat nd) = Some (sel, of_nat (length ?ds))"
    using GetRegTupleFromBin64_dims [of "of_nat nd" b "selection (view c)"] u lim d by (simp add: sel_def)
  have "1 \<le> (of_nat nd :: u32) \<and> (of_nat nd :: u32) \<le> 32" using u lim by (simp add: word_le_nat_alt)
  then obtain g where g: "groupby32 b (of_nat nd) = Some g" by (simp add: groupby32_def)
  have dg: "dims 32 g = ?ds" using groupby32_dims(2) [OF g] u by simp
  have "g \<noteq> 0"
  proof
    assume "g = 0"
    then show False using dg d(1) by (simp add: dims_def)
  qed
  have start: "prepare_view b c = do {
       (smp, c) \<leftarrow> GetParent (c\<lparr>view := (view c)\<lparr>vchecksums := cs, selection := sel\<rparr>, groupby := g\<rparr>) g;
       sel \<leftarrow> (if smp \<noteq> noneParent then GetRegTupleFromParent b (parBinRepTuple c) sel (nTopDims c) else Some sel);
       c \<leftarrow> InitAdcViewCntl (c\<lparr>view := (view c)\<lparr>selection := sel\<rparr>\<rparr>) (of_nat (length ?ds)) sel (smp \<noteq> noneParent);
       let v = view c; rec = GetRecSize (vnd v) (vnm v) in do {
         inp \<leftarrow> (if smp \<noteq> noneParent then input_rows (viewFile v) (viewOffset c) rec (nRowsToRead v)
           else input_rows (inpf c) 0 rec (nRowsToRead v));
         Some (c, inp) } }"
    unfolding prepare_view_def u(3) ok(2) cs(1) sel g bind.bind_lunit prod.case ..
  have "length sel = length (selection (view c))" "take (length ?ds) sel = selected ?ds" using d by (simp_all add: sel_def)
  then show ?thesis using cs(2) g \<open>g \<noteq> 0\<close> dg start by blast
qed

lemma prepare_view_ok:
  assumes req: "requests nd nm inp all" and n: "n < length all" and inv: "cube_inv nd nm inp all L n c"
  shows "\<exists>c' rs. prepare_view (all ! n) c = Some (c', rs) \<and> prepared nd nm inp (all ! n) (view c') rs \<and> planned c c'
    \<and> groupby32 (all ! n) (of_nat nd) = Some (groupby c')"
proof -
  let ?b = "all ! n" and ?k = "length (dims nd (all ! n))"
  have lim: "1 \<le> nd" "nd \<le> 20" "nm \<le> 4" and b: "?b \<in> set all" and u: "unat (of_nat nd :: u32) = nd"
    using req n by (simp_all add: requests_def word_small)
  note small = request_small [OF req b]
  have ok: "view_ok nd nm (view c)" "nTopDims c = of_nat nd" using inv by (simp_all add: cube_inv_def)
  obtain cs sel g where p: "length cs = length (vchecksums (view c))" "length sel = length (selection (view c))"
    "take ?k sel = selected (dims nd ?b)" "groupby32 ?b (of_nat nd) = Some g" "g \<noteq> 0" "dims 32 g = dims nd ?b"
    "prepare_view ?b c = do {
       (smp, c) \<leftarrow> GetParent (c\<lparr>view := (view c)\<lparr>vchecksums := cs, selection := sel\<rparr>, groupby := g\<rparr>) g;
       sel \<leftarrow> (if smp \<noteq> noneParent then GetRegTupleFromParent ?b (parBinRepTuple c) sel (nTopDims c) else Some sel);
       c \<leftarrow> InitAdcViewCntl (c\<lparr>view := (view c)\<lparr>selection := sel\<rparr>\<rparr>) (of_nat ?k) sel (smp \<noteq> noneParent);
       let v = view c; rec = GetRecSize (vnd v) (vnm v) in do {
         inp \<leftarrow> (if smp \<noteq> noneParent then input_rows (viewFile v) (viewOffset c) rec (nRowsToRead v)
           else input_rows (inpf c) 0 rec (nRowsToRead v));
         Some (c, inp) } }"
    using prepare_start [OF req b ok] by blast
  define c1 where "c1 = c\<lparr>view := (view c)\<lparr>vchecksums := cs, selection := sel\<rparr>, groupby := g\<rparr>"
  have ok1: "view_ok nd nm (view c1)" "nTopDims c1 = of_nat nd" "fileOfChunks (view c1) = []" "groupby c1 = g"
    using ok inv p(1,2) by (simp_all add: c1_def view_ok_def cube_inv_def)
  have f1: "vnm (view c1) = of_nat nm" "inpf c1 = inp" "nInputRecs c1 = nInputRecs c" "viewFile (view c1) = cube_rows nd nm inp (take n all)"
    using inv ok1(1) by (simp_all add: c1_def cube_inv_def view_ok_def)
  have st: "pool_state nd (made_view nd nm inp all) c1 (take n all)" using inv by (simp add: cube_inv_def pool_state_def c1_def)
  have dist: "distinct (map (dims nd) (take n all))" using req by (simp add: requests_def take_map [symmetric])
  have lay: "layers_ok c1" by (rule pool_state_layers [OF st _ lim(2) dist]) (simp add: ok1(2) u)
  have inp: "\<forall>r \<in> set inp. length (fst r) = nm \<and> length (snd r) = nd" using req by (simp add: requests_def)
  obtain smp c2 where get: "GetParent c1 g = Some (smp, c2)"
    "smp = noneParent \<and> c2 = c1 \<or> (\<exists>l j. ?k \<le> l \<and> l \<le> nd \<and> chosen c1 g l smp j \<and> c2 = with_parent c1 l j)"
    using GetParent_chooses [OF lay] p(5,6) ok1(2,4) u by auto
  note prep = p(7) [folded c1_def, unfolded get(1) bind.bind_lunit prod.case]
  from get(2) show ?thesis
  proof (elim disjE exE conjE)
    assume none: "smp = noneParent" "c2 = c1"
    obtain ms where ms: "length ms = length (vmSums (view c1))"
      "InitAdcViewCntl c1 (of_nat ?k) (selection (view c1)) False = Some (c1\<lparr>view := init_view c1 ?k ms False\<rparr>)"
      using InitAdcViewCntl_ok [OF ok1(1) small(2) lim(2,3)] by blast
    have same: "selection (view c1) = sel" "c1\<lparr>view := (view c1)\<lparr>selection := sel\<rparr>\<rparr> = c1" by (simp_all add: c1_def)
    have pr: "prepared nd nm inp ?b (init_view c1 ?k ms False) inp"
      by (rule prepared_from_input [OF ok1(1) lim ok1(2) ms(1) _ _ ok1(3) inp])
        (use small(3) same(1) p(3) inv in \<open>auto simp: c1_def cube_inv_def\<close>)
    have "input_rows inp 0 (GetRecSize (of_nat nd) (of_nat nm)) (nInputRecs c) = Some inp"
      by (rule input_rows_start) (use rec_size_word [OF lim(2,3)] inp inv in \<open>auto simp: row_bytes_def cube_inv_def\<close>)
    then have "prepare_view ?b c = Some (c1\<lparr>view := init_view c1 ?k ms False\<rparr>, inp)"
      unfolding prep none using ms(2) same(1) f1 ok1(2) by (simp add: same(2) Let_def)
    moreover have "planned c (c1\<lparr>view := init_view c1 ?k ms False\<rparr>)" by (simp add: planned_def c1_def init_view_def)
    ultimately show ?thesis using pr p(4) by (intro exI) (auto simp: c1_def)
  next
    fix l j assume l: "?k \<le> l" "l \<le> nd" and ch: "chosen c1 g l smp j" and c2: "c2 = with_parent c1 l j"
    obtain m where m: "m < n" "length (dims nd (all ! m)) = l" "made_view nd nm inp all m j"
      using pool_state_made [OF st lim(2) dist _ l(2), of j] ch l(1) small(3) n by (auto simp: chosen_def)
    let ?a = "all ! m"
    have sub: "set (dims nd ?b) \<subseteq> set (dims nd ?a)" "\<forall>i \<in> set (dims nd ?b). bit (grpb j) (31 - i)"
      using subset_dims [OF p(4) _ lim(2)] m(3) ch by (auto simp: made_view_def chosen_def holds_dims_def)
    define sel2 where "sel2 = among (grpb j) (dims nd ?b) @ drop ?k sel"
    have sl: "?k \<le> length sel" using p(2) ok(1) small(2) by (simp add: view_ok_def)
    have s2: "GetRegTupleFromParent ?b (grpb j) sel (of_nat nd) = Some sel2" "length sel2 = length sel"
      "take ?k sel2 = among (grpb j) (dims nd ?b)"
      using GetRegTupleFromParent_among [OF p(4)] u sub(2) sl by (simp_all add: sel2_def among_def)
    define c3 where "c3 = c2\<lparr>view := (view c2)\<lparr>selection := sel2\<rparr>\<rparr>"
    have ok3: "view_ok nd nm (view c3)" "fileOfChunks (view c3) = []" "selection (view c3) = sel2"
      using ok1 s2(2) p(2) by (simp_all add: c3_def c2 with_parent_def view_ok_def c1_def)
    obtain ms where ms: "length ms = length (vmSums (view c3))"
      "InitAdcViewCntl c3 (of_nat ?k) (selection (view c3)) True = Some (c3\<lparr>view := init_view c3 ?k ms True\<rparr>)"
      using InitAdcViewCntl_ok [OF ok3(1) small(2) lim(2,3)] by blast
    have par: "smallestParentLevel c3 = of_nat (length (dims nd ?a))" "unat (nParentViewRows c3) = length (view_of nd nm inp ?a)"
      "unat (viewOffset c3) = file_bytes (cube_rows nd nm inp (take m all))" "parBinRepTuple c2 = grpb j"
      using m(2,3) by (simp_all add: c3_def c2 with_parent_def made_view_def)
    have pr: "prepared nd nm inp ?b (init_view c3 ?k ms True) (map prod.swap (view_of nd nm inp ?a))"
      by (rule prepared_from_parent [OF ok3(1) lim ms(1) _ _ sub(1) _ ok3(2) par(1,2)])
        (use small(3) groupby32_dims(1) [of ?a "of_nat nd" "grpb j"] m(3) u s2(3) ok3(3) in \<open>auto simp: made_view_def\<close>)
    have smp: "smp \<noteq> noneParent" using ch by (simp add: chosen_def)
    have f3: "vnm (view c3) = of_nat nm" "viewFile (view c3) = cube_rows nd nm inp (take n all)" "nTopDims c2 = of_nat nd"
      using f1 ok1(2) by (simp_all add: c3_def c2 with_parent_def)
    have d: "\<forall>b \<in> set (take n all). dims nd b \<noteq> []" using req by (auto simp: requests_def dest: in_set_takeD)
    have rec: "unat (GetRecSize (smallestParentLevel c3) (of_nat nm)) = 4 * length (dims nd (take n all ! m)) + 8 * nm"
      using rec_size_word [of "length (dims nd ?a)" nm] m l(2) lim par(1) by simp
    have "input_rows (cube_rows nd nm inp (take n all)) (viewOffset c3) (GetRecSize (smallestParentLevel c3) (of_nat nm)) (nParentViewRows c3)
        = Some (map prod.swap (view_of nd nm inp (take n all ! m)))"
      by (rule input_rows_view [OF _ d _ _ rec]) (use m(1) n par in \<open>simp_all add: min_absorb1\<close>)
    then have "prepare_view ?b c = Some (c3\<lparr>view := init_view c3 ?k ms True\<rparr>, map prod.swap (view_of nd nm inp ?a))"
      unfolding prep using smp ms(2) s2(1) par(4) ok3(3) m(1) f3 by (simp add: c3_def [symmetric] Let_def)
    moreover have "planned c (c3\<lparr>view := init_view c3 ?k ms True\<rparr>)"
      by (simp add: planned_def c3_def c2 with_parent_def c1_def init_view_def)
    ultimately show ?thesis using pr p(4) by (intro exI) (auto simp: c3_def c2 with_parent_def c1_def)
  qed
qed

lemma cube_rows_Suc: "n < length all \<Longrightarrow> cube_rows nd nm inp (take (Suc n) all) =
    cube_rows nd nm inp (take n all) @ map prod.swap (view_of nd nm inp (all ! n))"
  by (simp add: take_Suc_conv_app_nth cube_rows_snoc)

lemma file_bytes_take: "file_bytes (cube_rows nd nm inp (take n all)) \<le> file_bytes (cube_rows nd nm inp all)"
proof -
  have "cube_rows nd nm inp all = cube_rows nd nm inp (take n all) @ cube_rows nd nm inp (drop n all)"
    by (simp add: cube_rows_def flip: concat_append map_append)
  then show ?thesis by (simp add: file_bytes_append)
qed

text \<open>The offset of the next view.\<close>

lemma next_offset:
  assumes req: "requests nd nm inp all" and n: "n < length all" and pr: "prepared nd nm inp (all ! n) v rs"
    and off: "unat (off :: u64) = file_bytes (cube_rows nd nm inp (take n all))"
    and r: "cnt = of_nat (length (view_of nd nm inp (all ! n)))" and rec: "rec = outRecSize v"
  shows "unat (off + ucast (cnt * rec)) = file_bytes (cube_rows nd nm inp (take (Suc n) all))"
proof -
  let ?b = "all ! n" and ?s = "4 * length (dims nd (all ! n)) + 8 * nm"
  have b: "?b \<in> set all" using n by simp
  note small = request_small [OF req b]
  have lim: "nd \<le> 20" "nm \<le> 4" "?s * length (view_of nd nm inp ?b) < 2 ^ 32" "file_bytes (cube_rows nd nm inp all) < 2 ^ 64"
    using req b by (auto simp: requests_def)
  have "rec = of_nat ?s" using pr rec by (simp add: prepared_def view_ok_def view_conf_def)
  then have "cnt * rec = of_nat (?s * length (view_of nd nm inp ?b))" using r by (simp add: mult.commute)
  then have u: "unat (cnt * rec) = file_bytes (map prod.swap (view_of nd nm inp ?b))"
    using word_small [OF lim(3)] by (simp only: view_file_bytes)
  have total: "unat off + unat (cnt * rec) = file_bytes (cube_rows nd nm inp (take (Suc n) all))"
    by (simp add: off u cube_rows_Suc [OF n] file_bytes_append)
  also have "\<dots> < 2 ^ 64" using file_bytes_take lim(4) by (rule le_less_trans)
  finally have "unat off + unat (ucast (cnt * rec) :: u64) < 2 ^ 64" by (simp add: unat_ucast_64)
  then have "unat (off + ucast (cnt * rec)) = unat off + unat (cnt * rec)"
    by (simp add: unat_word_ariths unat_ucast_64)
  then show ?thesis using total by simp
qed

lemma finish_view_ok:
  assumes req: "requests nd nm inp all" and n: "n < length all" and inv: "cube_inv nd nm inp all L n c"
    and pl: "planned c c'" and g: "groupby32 (all ! n) (of_nat nd) = Some (groupby c')" and pr: "prepared nd nm inp (all ! n) (view c') rs"
    and w: "frame w = frame (view c')" "viewFile w = viewFile (view c') @ map prod.swap (view_of nd nm inp (all ! n))"
      "nViewRows w = of_nat (length (view_of nd nm inp (all ! n)))"
  shows "\<exists>c''. finish_view (all ! n) (c'\<lparr>view := w\<rparr>) = Some c'' \<and> cube_inv nd nm inp all L (Suc n) c''"
proof -
  let ?b = "all ! n" and ?d = "c'\<lparr>view := w\<rparr>" and ?l = "length (dims nd (all ! n))"
  have b: "?b \<in> set all" using n by simp
  note small = request_small [OF req b]
  have lim: "nd \<le> 20" "nm \<le> 4" using req by (simp_all add: requests_def)
  have f: "vnv w = of_nat ?l" "vnm w = of_nat nm" "view_ok nd nm w" "outRecSize w = outRecSize (view c')"
    "vmemoryLimit w = vmemoryLimit (view c')"
    using w(1) pr view_ok_frame [OF w(1)] by (simp_all add: prepared_def frame_def view_ok_def)
  have dist: "distinct (map (dims nd) (take n all @ [?b]))"
    using req distinct_take [of "map (dims nd) all" "Suc n"] n by (simp add: requests_def take_map take_Suc_conv_app_nth)
  have st: "pool_state nd (made_view nd nm inp all) ?d (take n all)"
    using inv pl by (simp add: cube_inv_def pool_state_def planned_def)
  have "length (take n all) = n" using n by simp
  moreover have "made_view nd nm inp all n \<lparr>grpb = groupby ?d, jnv = of_nat ?l, jnRows = nViewRows (view ?d), jviewOffset = accViewFileOffset ?d\<rparr>"
    using g w(3) word_small [OF small(1)] inv pl by (simp add: made_view_def cube_inv_def planned_def)
  ultimately obtain js ls where j: "JobPoolUpdate ?d = Some (?d\<lparr>jpp := js, lpp := ls\<rparr>)"
    "pool_state nd (made_view nd nm inp all) (?d\<lparr>jpp := js, lpp := ls\<rparr>) (take n all @ [?b])"
    using JobPoolUpdate_ok [OF st lim(1) dist refl small(3)] f(1) by auto
  have u: "unat (of_nat nm :: u32) = nm" "unat (64 - of_nat nd :: u32) = 64 - nd"
    using lim by (simp_all add: word_small unat_sub word_le_nat_alt)
  obtain ts where ts: "add_loop nm 0 (vchecksums w) (totchs c') = Some ts" "length ts = length (totchs c')"
    using add_loop_Some [of 0 nm "vchecksums w" "totchs c'"] f(3) inv pl by (auto simp: view_ok_def cube_inv_def planned_def)
  have top: "nTopDims c' = of_nat nd" using inv pl by (simp add: cube_inv_def planned_def)
  define c'' where "c'' = ?d\<lparr>jpp := js, lpp := ls, accViewFileOffset := accViewFileOffset c' + ucast (nViewRows w * outRecSize w),
     view := w\<lparr>fileOfChunks := []\<rparr>, totchs := ts,
     viewSizesFile := viewSizesFile c' @ [(ucast (drop_bit (64 - nd) ?b), nViewRows w)],
     totalViewFileSize := totalViewFileSize c' + ucast (outRecSize w * nViewRows w)\<rparr>"
  have "finish_view ?b ?d = Some c''"
    using j(1) ts(1) f(2) u top by (simp add: finish_view_def Let_def c''_def)
  moreover have "cube_inv nd nm inp all L (Suc n) c''"
  proof -
    have "unat (accViewFileOffset c' + ucast (nViewRows w * outRecSize w)) = file_bytes (cube_rows nd nm inp (take (Suc n) all))"
      by (rule next_offset [OF req n pr _ w(3) f(4)]) (use inv pl in \<open>simp add: cube_inv_def planned_def\<close>)
    moreover have "pool_state nd (made_view nd nm inp all) c'' (take (Suc n) all)"
      using j(2) n by (simp add: pool_state_def c''_def take_Suc_conv_app_nth)
    moreover have "view_ok nd nm (view c'')" using f(3) by (simp add: c''_def view_ok_def)
    ultimately show ?thesis
      using inv pl w(2,3) f(5) ts(2) n by (simp add: cube_inv_def planned_def c''_def cube_rows_snoc take_Suc_conv_app_nth)
  qed
  ultimately show ?thesis by blast
qed

definition cube_failed :: "nat \<Rightarrow> nat \<Rightarrow> u32 \<Rightarrow> (u32 \<Rightarrow> nat \<Rightarrow> bool) \<Rightarrow> (nat \<Rightarrow> bool) \<Rightarrow> int \<Rightarrow> cube \<Rightarrow> bool" where
  "cube_failed nd nm L okc okv rc c \<longleftrightarrow> rc = ADC_WRITE_FAILED \<and> ((\<exists>i k. \<not> okc i k) \<or> (\<exists>k. \<not> okv k))
     \<or> rc = ADC_INTERNAL_ERROR \<and> (unat (numberOfChunks (view c)) = MAX_NUM_OF_CHUNKS
          \<or> unat L < unat (numberOfChunks (view c)) * (4 * nd + 8 * nm))"

lemma compute_groupby_ok:
  assumes req: "requests nd nm inp all" and n: "n < length all" and inv: "cube_inv nd nm inp all L n c"
  shows "\<exists>rc c'. compute_groupby okc okv i (all ! n) c = Some (rc, c')
    \<and> (rc = ADC_OK \<and> cube_inv nd nm inp all L (Suc n) c' \<or> rc \<noteq> ADC_OK \<and> cube_failed nd nm L okc okv rc c')"
proof -
  let ?b = "all ! n"
  obtain c1 rs where p: "prepare_view ?b c = Some (c1, rs)" "prepared nd nm inp ?b (view c1) rs" "planned c c1"
    "groupby32 ?b (of_nat nd) = Some (groupby c1)" using prepare_view_ok [OF req n inv] by blast
  have lim: "nm \<le> 4" using req by (simp add: requests_def)
  obtain rc w where w: "compute_view (okc i) okv rs (view c1) = Some (rc, w)"
    "rc = ADC_OK \<and> viewFile w = viewFile (view c1) @ map prod.swap (view_of nd nm inp ?b)
         \<and> nViewRows w = of_nat (length (view_of nd nm inp ?b)) \<and> frame w = frame (view c1)
       \<or> rc = ADC_WRITE_FAILED \<and> ((\<exists>k. \<not> okc i k) \<or> (\<exists>k. \<not> okv k))
       \<or> rc = ADC_INTERNAL_ERROR \<and> (unat (numberOfChunks w) = MAX_NUM_OF_CHUNKS
            \<or> unat (vmemoryLimit (view c1)) < unat (numberOfChunks w) * rec_bytes (view c1))"
    using compute_prepared [OF p(2) lim, of "okc i" okv] by blast
  show ?thesis
  proof (cases "rc = ADC_OK")
    case True
    then have "viewFile w = viewFile (view c1) @ map prod.swap (view_of nd nm inp ?b)"
      "nViewRows w = of_nat (length (view_of nd nm inp ?b))" "frame w = frame (view c1)"
      using w(2) by (auto simp: ADC_OK_def ADC_WRITE_FAILED_def ADC_INTERNAL_ERROR_def)
    then obtain c'' where "finish_view ?b (c1\<lparr>view := w\<rparr>) = Some c''" "cube_inv nd nm inp all L (Suc n) c''"
      using finish_view_ok [OF req n inv p(3,4,2)] by blast
    then show ?thesis using p(1) w(1) True by (simp add: compute_groupby_def)
  next
    case False
    have "rec_bytes (view c1) \<le> 4 * nd + 8 * nm"
    proof -
      have "unat (vnv (view c1)) = length (dims nd ?b)" "unat (vnm (view c1)) = nm"
        using p(2) lim request_small(2) [OF req, of ?b] n req by (simp_all add: prepared_def view_ok_def word_small requests_def)
      then show ?thesis using request_small(2) [OF req, of ?b] n by (simp add: rec_bytes_def)
    qed
    then have "unat (numberOfChunks w) * rec_bytes (view c1) \<le> unat (numberOfChunks w) * (4 * nd + 8 * nm)" by (rule mult_le_mono2)
    moreover have "vmemoryLimit (view c1) = L" using p(3) inv by (simp add: planned_def cube_inv_def)
    ultimately have "cube_failed nd nm L okc okv rc (c1\<lparr>view := w\<rparr>)"
      using w(2) False unfolding cube_failed_def by (auto intro: less_le_trans)
    then show ?thesis using p(1) w(1) False by (simp add: compute_groupby_def)
  qed
qed

lemma groupby_loop_ok:
  assumes "requests nd nm inp all" "n \<le> length all" "cube_inv nd nm inp all L n c"
  shows "\<exists>rc c'. groupby_loop okc okv (of_nat n) (map swap8 (drop n all)) c = Some (rc, c')
    \<and> (rc = ADC_OK \<and> cube_inv nd nm inp all L (length all) c' \<and> numberOfMadeViews c' = of_nat (length all)
       \<or> cube_failed nd nm L okc okv rc c')"
  using assms(2,3)
proof (induction "length all - n" arbitrary: n c)
  case 0
  then show ?case by (simp add: cube_inv_def pool_state_def)
next
  case (Suc d)
  then have n: "n < length all" by simp
  have up: "drop n all = all ! n # drop (Suc n) all" using n by (rule drop_eq_nth_tl)
  obtain rc c1 where s: "compute_groupby okc okv (of_nat n + 1) (all ! n) c = Some (rc, c1)"
    "rc = ADC_OK \<and> cube_inv nd nm inp all L (Suc n) c1 \<or> rc \<noteq> ADC_OK \<and> cube_failed nd nm L okc okv rc c1"
    using compute_groupby_ok [OF assms(1) n Suc.prems(2)] by blast
  have n1: "(of_nat n + 1 :: u32) = of_nat (Suc n)" by simp
  show ?case
  proof (cases "rc = ADC_OK")
    case True
    then have c1: "cube_inv nd nm inp all L (Suc n) c1" using s(2) by simp
    have "groupby_loop okc okv (of_nat n) (map swap8 (drop n all)) c = groupby_loop okc okv (of_nat (Suc n)) (map swap8 (drop (Suc n) all)) c1"
      using s(1) True unfolding up n1 [symmetric] by (simp add: swap8_swap8)
    then show ?thesis using Suc.hyps(1) [of "Suc n" c1] Suc.hyps(2) n c1 by simp
  next
    case False
    then show ?thesis using s unfolding up by (simp add: swap8_swap8)
  qed
qed

lemma number_loop_length: "i + n \<le> length xs \<Longrightarrow> \<exists>ys. number_loop n i xs = Some ys \<and> length ys = length xs"
proof (induction n arbitrary: i xs)
  case (Suc n)
  then have "Suc i + n \<le> length (xs[i := of_nat i + 1])" by simp
  from Suc.IH [OF this] show ?case using Suc.prems by (simp add: wr_def)
qed simp

definition fresh_ok :: "cube \<Rightarrow> bool" where
  "fresh_ok f \<longleftrightarrow> length (selection (view f)) = MAX_NUM_OF_DIMS \<and> length (vmSums (view f)) = MAX_NUM_OF_MEAS
     \<and> length (vchecksums (view f)) = MAX_NUM_OF_MEAS \<and> length (totchs f) = MAX_NUM_OF_MEAS
     \<and> length (chunksParams (view f)) = MAX_NUM_OF_CHUNKS"

lemma NewAdcViewCntl_ok:
  assumes req: "requests nd nm inp all" and f: "fresh_ok fresh" and L: "144 \<le> unat L" and n: "unat n = length inp"
  shows "\<exists>c. NewAdcViewCntl fresh col ds ns (of_nat nd) (of_nat nm) n L inp = Some c \<and> cube_inv nd nm inp all L 0 c"
proof -
  have lim: "1 \<le> nd" "nd \<le> 20" "nm \<le> 4" using req by (simp_all add: requests_def)
  have u: "unat (of_nat nd :: u32) = nd" "unat (of_nat nm :: u32) = nm" using lim by (simp_all add: word_small)
  obtain ms cs ts sel where l: "zero_loop nm 0 (vmSums (view fresh)) = Some ms" "length ms = 4"
    "zero_loop nm 0 (vchecksums (view fresh)) = Some cs" "length cs = 4" "zero_loop nm 0 (totchs fresh) = Some ts" "length ts = 4"
    "number_loop nd 0 (selection (view fresh)) = Some sel" "length sel = 20"
    using zero_loop_zeros [of 0 nm "vmSums (view fresh)"] zero_loop_zeros [of 0 nm "vchecksums (view fresh)"]
      zero_loop_zeros [of 0 nm "totchs fresh"] number_loop_length [of 0 nd "selection (view fresh)"] f lim
    by (auto simp: fresh_ok_def MAX_NUM_OF_MEAS_def MAX_NUM_OF_DIMS_def)
  have size: "tree_node_size (of_nat k) (of_nat nm) \<le> L" if "1 \<le> k" "k \<le> nd" for k
  proof -
    have "1 \<le> (of_nat k :: u32)" "(of_nat k :: u32) \<le> 20" "(of_nat nm :: u32) \<le> 4"
      using that lim by (simp_all add: word_le_nat_alt word_small)
    from tree_node_size_bounds(2) [OF this] show ?thesis using L by (simp add: word_le_nat_alt)
  qed
  have "pool_state nd P c []" if "lpp c = init_layers (of_nat nd)" "jpp c = JobPoolInit (2 ^ nd)" for c P
    by (rule pool_state_init [OF lim(2) that])
  then show ?thesis
    using l u f size n lim
    by (simp add: NewAdcViewCntl_def Let_def cube_inv_def view_ok_def CreateEmptyTree_def fresh_ok_def cube_rows_def file_bytes_def min_def)
qed

section \<open>Property\<close>

text \<open>
  C3. The views of the cube.  Whatever the order in which the views are requested, the
  loop returns.  Unless a write fails, a view needs too many chunks or the memory is too small for
  a window on each of them, the view file holds the views one after the other, and each of them is
  the grouping of the input rows by its dimensions, no matter from which of the earlier views it
  was derived; the file of sizes holds their tuples and numbers of rows.
\<close>
theorem cube_is_grouped:
  assumes "requests nd nm inp all" and "fresh_ok fresh" and "144 \<le> unat L" and "unat n = length inp"
  shows "\<exists>c rc c'. NewAdcViewCntl fresh col ds ns (of_nat nd) (of_nat nm) n L inp = Some c
    \<and> compute_groupbys okc okv (map swap8 all) c = Some (rc, c')
    \<and> (rc = ADC_OK
         \<and> viewFile (view c') = concat (map (\<lambda>b. map prod.swap (group_rows nm
             (map (\<lambda>r. (map ((!) (snd r)) (dims nd b), take nm (fst r))) inp))) all)
         \<and> viewSizesFile c' = map (\<lambda>b. (ucast (drop_bit (64 - nd) b), of_nat (length (view_of nd nm inp b)))) all
         \<and> numberOfMadeViews c' = of_nat (length all)
       \<or> cube_failed nd nm L okc okv rc c')"
proof -
  obtain c where c: "NewAdcViewCntl fresh col ds ns (of_nat nd) (of_nat nm) n L inp = Some c" "cube_inv nd nm inp all L 0 c"
    using NewAdcViewCntl_ok [OF assms] by blast
  obtain rc c' where "compute_groupbys okc okv (map swap8 all) c = Some (rc, c')"
    "rc = ADC_OK \<and> cube_inv nd nm inp all L (length all) c' \<and> numberOfMadeViews c' = of_nat (length all)
      \<or> cube_failed nd nm L okc okv rc c'"
    using groupby_loop_ok [OF assms(1) _ c(2), of okc okv] by (auto simp: compute_groupbys_def)
  then show ?thesis using c(1) by (auto simp: cube_inv_def cube_rows_def view_of_def)
qed

text \<open>Two rows with the same first dimension: the view of both dimensions, and the one of the first.\<close>

definition fresh_cube :: cube where
  "fresh_cube = two_dims_cube\<lparr>view := two_row_view\<lparr>selection := replicate MAX_NUM_OF_DIMS 0,
     vmSums := replicate MAX_NUM_OF_MEAS 0, vchecksums := replicate MAX_NUM_OF_MEAS 0\<rparr>, totchs := replicate MAX_NUM_OF_MEAS 0\<rparr>"

theorem cube_is_grouped_witness:
  "\<exists>c rc c'. NewAdcViewCntl fresh_cube RED [] [] 2 1 2 65536 [([1], [7, 8]), ([2], [7, 9])] = Some c
    \<and> compute_groupbys (\<lambda>i k. True) (\<lambda>k. True) (map swap8 [0xC000000000000000, 0x8000000000000000]) c = Some (rc, c')
    \<and> (rc = ADC_OK \<and> viewFile (view c') = [([1], [7, 8]), ([2], [7, 9]), ([3], [7])] \<or> rc = ADC_INTERNAL_ERROR)"
proof -
  let ?inp = "[([1], [7, 8]), ([2], [7, 9])] :: row list" and ?all = "[0xC000000000000000, 0x8000000000000000] :: u64 list"
  have d: "dims 2 (0xC000000000000000 :: u64) = [0, 1]" "dims 2 (0x8000000000000000 :: u64) = [0]" by code_simp+
  have g: "view_of 2 1 ?inp 0xC000000000000000 = [([7, 8], [1]), ([7, 9], [2])]" "view_of 2 1 ?inp 0x8000000000000000 = [([7], [3])]"
    by (simp_all add: view_of_def d group_rows_def)
  have req: "requests 2 1 ?inp ?all"
    by (simp add: requests_def d g cube_rows_def file_bytes_def row_bytes_def del: One_nat_def)
  have f: "fresh_ok fresh_cube" by (simp add: fresh_ok_def fresh_cube_def two_row_view_def)
  have "144 \<le> unat (65536 :: u32)" "unat (2 :: u32) = length ?inp" by simp_all
  from cube_is_grouped [OF req f this, of RED "[]" "[]" "\<lambda>i k. True" "\<lambda>k. True"]
  obtain c rc c' where c: "NewAdcViewCntl fresh_cube RED [] [] 2 1 2 65536 ?inp = Some c"
    "compute_groupbys (\<lambda>i k. True) (\<lambda>k. True) (map swap8 ?all) c = Some (rc, c')"
    "rc = ADC_OK \<and> viewFile (view c') = concat (map (\<lambda>b. map prod.swap (group_rows 1
        (map (\<lambda>r. (map ((!) (snd r)) (dims 2 b), take 1 (fst r))) ?inp))) ?all)
     \<or> cube_failed 2 1 65536 (\<lambda>i k. True) (\<lambda>k. True) rc c'" by auto
  have "concat (map (\<lambda>b. map prod.swap (group_rows 1 (map (\<lambda>r. (map ((!) (snd r)) (dims 2 b), take 1 (fst r))) ?inp))) ?all)
      = [([1], [7, 8]), ([2], [7, 9]), ([3], [7])]"
    using g by (simp add: view_of_def del: One_nat_def)
  then show ?thesis using c by (auto simp: cube_failed_def)
qed

end
