(* ===== verification/Sb_Barrier.thy ===== *)
theory Sb_Barrier
  imports Bench_Prelude
begin

text \<open>
  The thread barrier of sysbench (\<open>sb_barrier.c\<close>).  Any number of threads call
  \<open>sb_barrier_wait\<close>; the mutex and the condition variable are those of POSIX threads, spurious
  wake-ups included, and the callback may return any value.  A run is a sequence of steps of
  single threads in any order; the events of a run are kept newest first.
\<close>

section \<open>The barrier and the threads\<close>

definition SB_BARRIER_SERIAL_THREAD :: int where
  "SB_BARRIER_SERIAL_THREAD = 1"

text \<open>\<open>bcallback\<close> tells whether the pointer to the callback is not \<open>NULL\<close>.\<close>

record barrier =
  bcount :: u32
  binit_count :: u32
  bserial :: u32
  bcallback :: bool
  berror :: int

text \<open>
  \<open>sb_barrier_init\<close>: its result and the barrier, when it was initialised.  The two flags say
  whether the initialisation of the mutex and of the condition variable succeeds.
\<close>

definition sb_barrier_init :: "bool \<Rightarrow> bool \<Rightarrow> u32 \<Rightarrow> bool \<Rightarrow> int \<times> barrier option" where
  "sb_barrier_init mutex_ok cond_ok cnt callback =
    (if cnt = 0 then (1, None)
     else if \<not> mutex_ok \<or> \<not> cond_ok then (1, None)
     else (0, Some \<lparr>bcount = cnt, binit_count = cnt, bserial = 0, bcallback = callback, berror = 0\<rparr>))"

text \<open>
  Where a thread is in \<open>sb_barrier_wait\<close>: outside of it, at \<open>pthread_mutex_lock\<close>, at the test of
  the counter, blocked in \<open>pthread_cond_wait\<close>, woken but without the mutex, at the test of the
  loop, at the callback, at \<open>pthread_mutex_unlock\<close>.
\<close>

datatype wait_pc = Outside | Locking | Entered | Waiting u32 | Woken u32 | Checking u32 | Calling | Leaving int

datatype wait_event = Enter nat | Acquire nat | Arrive nat | Wake nat | Check nat | Called nat int | Leave nat int

record threads =
  bar :: barrier
  owner :: "nat option"
  pcs :: "nat \<Rightarrow> wait_pc"

fun wake :: "wait_pc \<Rightarrow> wait_pc" where
  "wake (Waiting v) = Woken v"
| "wake p = p"

text \<open>
  The event \<open>Called t r\<close> is the passage of the last thread past the callback, which returns \<open>r\<close>
  when there is one; \<open>Arrive t\<close> is the decrement of the counter.
  \<open>barrier->callback != NULL && barrier->callback(barrier->arg) != 0\<close> for a callback that returns \<open>r\<close>.
\<close>

definition callback_failed :: "barrier \<Rightarrow> int \<Rightarrow> bool" where
  "callback_failed b r = (bcallback b \<and> r \<noteq> 0)"

inductive barrier_step :: "threads \<Rightarrow> wait_event \<Rightarrow> threads \<Rightarrow> bool" where
  Enter: "pcs s t = Outside \<Longrightarrow> barrier_step s (Enter t) (s\<lparr>pcs := (pcs s)(t := Locking)\<rparr>)"
| Lock: "pcs s t = Locking \<Longrightarrow> owner s = None \<Longrightarrow>
    barrier_step s (Acquire t) (s\<lparr>owner := Some t, pcs := (pcs s)(t := Entered)\<rparr>)"
| Last: "pcs s t = Entered \<Longrightarrow> bcount (bar s) - 1 = 0 \<Longrightarrow>
    barrier_step s (Arrive t)
      (s\<lparr>bar := (bar s)\<lparr>bserial := bserial (bar s) + 1, bcount := binit_count (bar s)\<rparr>,
         pcs := (\<lambda>u. wake (pcs s u))(t := Calling)\<rparr>)"
| Callback: "pcs s t = Calling \<Longrightarrow>
    barrier_step s (Called t r)
      (if callback_failed (bar s) r
       then s\<lparr>bar := (bar s)\<lparr>berror := 1\<rparr>, pcs := (pcs s)(t := Leaving (- 1))\<rparr>
       else s\<lparr>pcs := (pcs s)(t := Leaving SB_BARRIER_SERIAL_THREAD)\<rparr>)"
| Wait: "pcs s t = Entered \<Longrightarrow> bcount (bar s) - 1 \<noteq> 0 \<Longrightarrow>
    barrier_step s (Arrive t)
      (s\<lparr>bar := (bar s)\<lparr>bcount := bcount (bar s) - 1\<rparr>, owner := None,
         pcs := (pcs s)(t := Waiting (bserial (bar s)))\<rparr>)"
| Spurious: "pcs s t = Waiting v \<Longrightarrow> barrier_step s (Wake t) (s\<lparr>pcs := (pcs s)(t := Woken v)\<rparr>)"
| Relock: "pcs s t = Woken v \<Longrightarrow> owner s = None \<Longrightarrow>
    barrier_step s (Acquire t) (s\<lparr>owner := Some t, pcs := (pcs s)(t := Checking v)\<rparr>)"
| Again: "pcs s t = Checking v \<Longrightarrow> v = bserial (bar s) \<Longrightarrow>
    barrier_step s (Check t) (s\<lparr>owner := None, pcs := (pcs s)(t := Waiting v)\<rparr>)"
| Done: "pcs s t = Checking v \<Longrightarrow> v \<noteq> bserial (bar s) \<Longrightarrow>
    barrier_step s (Check t) (s\<lparr>pcs := (pcs s)(t := Leaving (if berror (bar s) \<noteq> 0 then - 1 else 0))\<rparr>)"
| Unlock: "pcs s t = Leaving r \<Longrightarrow>
    barrier_step s (Leave t r) (s\<lparr>owner := None, pcs := (pcs s)(t := Outside)\<rparr>)"

text \<open>\<open>barrier_run s es s'\<close>: the threads go from \<open>s\<close> to \<open>s'\<close> with the events \<open>es\<close>, newest first.\<close>

inductive barrier_run :: "threads \<Rightarrow> wait_event list \<Rightarrow> threads \<Rightarrow> bool" where
  Stop: "barrier_run s [] s"
| Step: "barrier_run s es s' \<Longrightarrow> barrier_step s' e s'' \<Longrightarrow> barrier_run s (e # es) s''"

definition barrier_start :: "barrier \<Rightarrow> threads" where
  "barrier_start b = \<lparr>bar = b, owner = None, pcs = (\<lambda>t. Outside)\<rparr>"

inductive_cases barrier_stepE: "barrier_step s e s'"
inductive_cases barrier_leaveE: "barrier_step s (Leave t r) s'"
inductive_cases barrier_runE: "barrier_run s (e # es) s'"

section \<open>What the events of a run say\<close>

definition arrivals :: "wait_event list \<Rightarrow> nat" where
  "arrivals es = length (filter (\<lambda>e. case e of Arrive t \<Rightarrow> True | _ \<Rightarrow> False) es)"

text \<open>The number of arrivals before the last arrival of a thread.\<close>

fun position :: "nat \<Rightarrow> wait_event list \<Rightarrow> nat option" where
  "position t [] = None"
| "position t (e # es) = (if e = Arrive t then Some (arrivals es) else position t es)"

text \<open>Whether a callback failed at all, and whether one failed that the thread called since it arrived.\<close>

definition some_failure :: "bool \<Rightarrow> wait_event list \<Rightarrow> bool" where
  "some_failure cb es = (cb \<and> (\<exists>e \<in> set es. case e of Called t r \<Rightarrow> r \<noteq> 0 | _ \<Rightarrow> False))"

fun own_failure :: "bool \<Rightarrow> nat \<Rightarrow> wait_event list \<Rightarrow> bool" where
  "own_failure cb t [] = False"
| "own_failure cb t (e # es) =
    (case e of Arrive u \<Rightarrow> u \<noteq> t \<and> own_failure cb t es
     | Called u r \<Rightarrow> cb \<and> u = t \<and> r \<noteq> 0 \<or> own_failure cb t es
     | _ \<Rightarrow> own_failure cb t es)"

lemma arrivals_simps [simp]:
  "arrivals [] = 0"
  "arrivals (Arrive t # es) = Suc (arrivals es)"
  "arrivals (Enter t # es) = arrivals es"
  "arrivals (Acquire t # es) = arrivals es"
  "arrivals (Wake t # es) = arrivals es"
  "arrivals (Check t # es) = arrivals es"
  "arrivals (Called t r # es) = arrivals es"
  "arrivals (Leave t r # es) = arrivals es"
  by (simp_all add: arrivals_def)

lemma some_failure_simps [simp]:
  "some_failure cb [] = False"
  "some_failure cb (Arrive t # es) = some_failure cb es"
  "some_failure cb (Enter t # es) = some_failure cb es"
  "some_failure cb (Acquire t # es) = some_failure cb es"
  "some_failure cb (Wake t # es) = some_failure cb es"
  "some_failure cb (Check t # es) = some_failure cb es"
  "some_failure cb (Called t r # es) = (cb \<and> r \<noteq> 0 \<or> some_failure cb es)"
  "some_failure cb (Leave t r # es) = some_failure cb es"
  by (auto simp: some_failure_def)

lemma position_less: "position t es = Some k \<Longrightarrow> k < arrivals es"
  by (induction es) (auto simp: arrivals_def split: if_splits wait_event.splits)


section \<open>The invariant\<close>

fun holds :: "wait_pc \<Rightarrow> bool" where
  "holds Entered = True"
| "holds (Checking v) = True"
| "holds Calling = True"
| "holds (Leaving r) = True"
| "holds _ = False"

definition bar_ok :: "nat \<Rightarrow> bool \<Rightarrow> wait_event list \<Rightarrow> barrier \<Rightarrow> bool" where
  "bar_ok n cb es b \<longleftrightarrow> 0 < n \<and> unat (binit_count b) = n \<and> unat (bcount b) = n - arrivals es mod n
     \<and> bserial b = of_nat (arrivals es div n) \<and> bcallback b = cb \<and> (berror b \<noteq> 0) = some_failure cb es"

definition mutex_ok :: "threads \<Rightarrow> bool" where
  "mutex_ok s \<longleftrightarrow> (\<forall>t. holds (pcs s t) \<longleftrightarrow> owner s = Some t)"

text \<open>The result of a thread that arrived at a position and leaves after the events.\<close>

definition leave_result :: "nat \<Rightarrow> bool \<Rightarrow> nat \<Rightarrow> nat \<Rightarrow> wait_event list \<Rightarrow> int" where
  "leave_result n cb t k es =
    (if Suc k mod n = 0 then (if own_failure cb t es then - 1 else 1)
     else (if some_failure cb es then - 1 else 0))"

definition pc_ok :: "nat \<Rightarrow> bool \<Rightarrow> wait_event list \<Rightarrow> u32 \<Rightarrow> nat \<Rightarrow> wait_pc \<Rightarrow> bool" where
  "pc_ok n cb es serial t p =
    (case p of
       Waiting v \<Rightarrow> v = serial \<and> (\<exists>k. position t es = Some k \<and> v = of_nat (k div n) \<and> Suc k mod n \<noteq> 0)
     | Woken v \<Rightarrow> (\<exists>k. position t es = Some k \<and> v = of_nat (k div n) \<and> Suc k mod n \<noteq> 0)
     | Checking v \<Rightarrow> (\<exists>k. position t es = Some k \<and> v = of_nat (k div n) \<and> Suc k mod n \<noteq> 0)
     | Calling \<Rightarrow> (\<exists>k. position t es = Some k \<and> Suc k mod n = 0 \<and> n * Suc (k div n) \<le> arrivals es)
         \<and> \<not> own_failure cb t es
     | Leaving r \<Rightarrow> (\<exists>k. position t es = Some k \<and> n * Suc (k div n) \<le> arrivals es \<and> r = leave_result n cb t k es)
     | _ \<Rightarrow> True)"

lemmas pc_ok_simps =
  pc_ok_def [of n cb es serial t Outside for n cb es serial t, simplified]
  pc_ok_def [of n cb es serial t Locking for n cb es serial t, simplified]
  pc_ok_def [of n cb es serial t Entered for n cb es serial t, simplified]
  pc_ok_def [of n cb es serial t "Waiting v" for n cb es serial t v, simplified]
  pc_ok_def [of n cb es serial t "Woken v" for n cb es serial t v, simplified]
  pc_ok_def [of n cb es serial t "Checking v" for n cb es serial t v, simplified]
  pc_ok_def [of n cb es serial t Calling for n cb es serial t, simplified]
  pc_ok_def [of n cb es serial t "Leaving r" for n cb es serial t r, simplified]

definition barrier_inv :: "nat \<Rightarrow> bool \<Rightarrow> wait_event list \<Rightarrow> threads \<Rightarrow> bool" where
  "barrier_inv n cb es s \<longleftrightarrow> bar_ok n cb es (bar s) \<and> mutex_ok s
     \<and> (\<forall>t. pc_ok n cb es (bserial (bar s)) t (pcs s t))"

lemma barrier_start_inv:
  assumes "sb_barrier_init True True cnt cb = (0, Some b)"
  shows "barrier_inv (unat cnt) cb [] (barrier_start b)"
  using assms
  by (auto simp: sb_barrier_init_def barrier_inv_def barrier_start_def bar_ok_def mutex_ok_def pc_ok_def
        unat_gt_0 split: if_splits)

lemma holds_wake [simp]: "holds (wake p) = holds p"
  by (cases p) simp_all

text \<open>The counter reaches zero exactly when the arrival is the last of its round.\<close>

lemma last_arrival:
  assumes "bar_ok n cb es b"
  shows "bcount b - 1 = 0 \<longleftrightarrow> Suc (arrivals es) mod n = 0"
proof -
  have n: "0 < n" and c: "unat (bcount b) = n - arrivals es mod n"
    using assms by (simp_all add: bar_ok_def)
  have "bcount b - 1 = 0 \<longleftrightarrow> unat (bcount b) = 1"
    by (metis eq_iff_diff_eq_0 unsigned_1 unsigned_word_eqI)
  also have "\<dots> \<longleftrightarrow> Suc (arrivals es mod n) = n"
    using c n mod_less_divisor [OF n, of "arrivals es"] by linarith
  also have "\<dots> \<longleftrightarrow> Suc (arrivals es) mod n = 0"
    using n by (simp add: mod_Suc)
  finally show ?thesis .
qed

lemma round_done:
  assumes "k < m" and "k div n \<noteq> m div n" and "0 < (n::nat)"
  shows "n * Suc (k div n) \<le> m"
proof -
  have "k div n < m div n" using assms by (meson div_le_mono le_neq_implies_less less_imp_le)
  then have "n * Suc (k div n) \<le> n * (m div n)" by (simp only: mult_le_mono2 Suc_leI)
  also have "\<dots> \<le> m" by simp
  finally show ?thesis .
qed

lemma bar_ok_step:
  assumes "bar_ok n cb es (bar s)" and "barrier_step s e s'"
  shows "bar_ok n cb (e # es) (bar s')"
  using assms(2)
proof cases
  case (Last t)
  have m: "Suc (arrivals es) mod n = 0" using last_arrival [OF assms(1)] Last(4) by simp
  then have "Suc (arrivals es) div n = Suc (arrivals es div n)" by (simp add: div_Suc)
  then show ?thesis using assms(1) Last m by (simp add: bar_ok_def)
next
  case (Wait t)
  have m: "Suc (arrivals es) mod n \<noteq> 0" using last_arrival [OF assms(1)] Wait(4) by simp
  have "arrivals es mod n < n" using assms(1) by (simp add: bar_ok_def)
  then have nz: "bcount (bar s) \<noteq> 0" using assms(1) by (auto simp: bar_ok_def)
  have "unat (bcount (bar s) - 1) = unat (bcount (bar s)) - 1"
    using nz by (simp add: unat_minus_one)
  then show ?thesis using assms(1) Wait m by (auto simp: bar_ok_def div_Suc mod_Suc)
qed (use assms(1) in \<open>auto simp: bar_ok_def callback_failed_def\<close>)

lemma mutex_ok_step:
  assumes "mutex_ok s" and "barrier_step s e s'"
  shows "mutex_ok s'"
  using assms(2) by cases
    (use assms(1) in \<open>simp_all add: mutex_ok_def\<close>, (metis holds.simps option.inject option.distinct(1))+)


text \<open>A step of a thread leaves what the invariant says of the other threads.\<close>

lemma pc_ok_other:
  assumes "pc_ok n cb es v u p" and "\<not> holds p" and "e \<noteq> Arrive u"
    and "\<And>w. p = Waiting w \<Longrightarrow> v' = v"
  shows "pc_ok n cb (e # es) v' u p"
  using assms by (cases p) (auto simp: pc_ok_def)

lemma pc_ok_wake:
  assumes "pc_ok n cb es v u p" and "\<not> holds p" and "e \<noteq> Arrive u"
  shows "pc_ok n cb (e # es) v' u (wake p)"
  using assms by (cases p) (auto simp: pc_ok_def)

lemma pc_ok_neutral:
  assumes "\<And>t. e \<noteq> Arrive t" and "\<And>t r. e \<noteq> Called t r"
  shows "pc_ok n cb (e # es) v u p = pc_ok n cb es v u p"
  using assms by (cases e) (auto simp: pc_ok_def leave_result_def split: wait_pc.splits)

lemma pc_ok_step:
  assumes inv: "barrier_inv n cb es s" and step: "barrier_step s e s'"
  shows "pc_ok n cb (e # es) (bserial (bar s')) u (pcs s' u)"
proof -
  have b: "bar_ok n cb es (bar s)" and m: "mutex_ok s"
    and p: "pc_ok n cb es (bserial (bar s)) u (pcs s u)" for u
    using inv by (simp_all add: barrier_inv_def)
  have n: "0 < n" using b by (simp add: bar_ok_def)
  have excl: "\<not> holds (pcs s u)" if "holds (pcs s t)" "t \<noteq> u" for t u
    using m that by (auto simp: mutex_ok_def)
  show ?thesis
    using step
  proof cases
    case (Last t)
    have "Suc (arrivals es) mod n = 0" using last_arrival [OF b] Last(4) by simp
    moreover from this have "Suc (arrivals es div n) = Suc (arrivals es) div n" by (simp add: div_Suc)
    then have "n * Suc (arrivals es div n) \<le> Suc (arrivals es)" by (simp only: times_div_less_eq_dividend)
    ultimately show ?thesis
      using Last p [of u] excl [of t u] pc_ok_wake [of n cb es "bserial (bar s)" u "pcs s u" e]
      by (cases "u = t") (auto simp: pc_ok_simps)
  next
    case (Wait t)
    then show ?thesis
      using p [of u] excl [of t u] last_arrival [OF b] b pc_ok_other [of n cb es "bserial (bar s)" u "pcs s u" e]
      by (cases "u = t") (auto simp: bar_ok_def pc_ok_simps)
  next
    case (Callback t r)
    show ?thesis
    proof (cases "u = t")
      case True
      then show ?thesis
        using Callback p [of t] b
        by (auto simp: pc_ok_def leave_result_def callback_failed_def bar_ok_def SB_BARRIER_SERIAL_THREAD_def)
    next
      case False
      then have "\<not> holds (pcs s u)" using excl [of t u] Callback by simp
      then show ?thesis
        using False Callback p [of u] pc_ok_other [of n cb es "bserial (bar s)" u "pcs s u" e "bserial (bar s)"]
        by simp
    qed
  next
    case (Done t v)
    show ?thesis
    proof (cases "u = t")
      case True
      obtain k where k: "position t es = Some k" "v = of_nat (k div n)" "Suc k mod n \<noteq> 0"
        using p [of t] Done by (auto simp: pc_ok_def)
      have "k div n \<noteq> arrivals es div n" using Done k b by (auto simp: bar_ok_def)
      then have "n * Suc (k div n) \<le> arrivals es" using round_done position_less k(1) n by blast
      then show ?thesis using True Done k b by (auto simp: pc_ok_def leave_result_def bar_ok_def)
    next
      case False
      then show ?thesis using Done p [of u] by (simp add: pc_ok_neutral)
    qed
  qed (use p [of u] in \<open>auto simp: pc_ok_neutral pc_ok_simps\<close>)
qed

lemma barrier_inv_run:
  assumes "barrier_run s0 es' s" and "barrier_inv n cb es s0"
  shows "barrier_inv n cb (es' @ es) s"
  using assms
proof (induction rule: barrier_run.induct)
  case (Step s es' s' e s'')
  then have i: "barrier_inv n cb (es' @ es) s'" by simp
  then show ?case
    using Step(2) bar_ok_step mutex_ok_step pc_ok_step [OF i Step(2)]
    by (auto simp: barrier_inv_def)
qed simp

lemmas barrier_run_inv = barrier_inv_run [where es = "[]", unfolded append_Nil2, OF _ barrier_start_inv]

section \<open>The steps computed\<close>

definition step_if :: "bool \<Rightarrow> threads \<Rightarrow> threads option" where
  "step_if ok s = (if ok then Some s else None)"

fun barrier_exec :: "threads \<Rightarrow> wait_event \<Rightarrow> threads option" where
  "barrier_exec s (Enter t) = step_if (pcs s t = Outside) (s\<lparr>pcs := (pcs s)(t := Locking)\<rparr>)"
| "barrier_exec s (Acquire t) =
    (case pcs s t of
       Locking \<Rightarrow> step_if (owner s = None) (s\<lparr>owner := Some t, pcs := (pcs s)(t := Entered)\<rparr>)
     | Woken v \<Rightarrow> step_if (owner s = None) (s\<lparr>owner := Some t, pcs := (pcs s)(t := Checking v)\<rparr>)
     | _ \<Rightarrow> None)"
| "barrier_exec s (Arrive t) =
    step_if (pcs s t = Entered)
      (if bcount (bar s) - 1 = 0
       then s\<lparr>bar := (bar s)\<lparr>bserial := bserial (bar s) + 1, bcount := binit_count (bar s)\<rparr>,
              pcs := (\<lambda>u. wake (pcs s u))(t := Calling)\<rparr>
       else s\<lparr>bar := (bar s)\<lparr>bcount := bcount (bar s) - 1\<rparr>, owner := None,
              pcs := (pcs s)(t := Waiting (bserial (bar s)))\<rparr>)"
| "barrier_exec s (Wake t) =
    (case pcs s t of Waiting v \<Rightarrow> Some (s\<lparr>pcs := (pcs s)(t := Woken v)\<rparr>) | _ \<Rightarrow> None)"
| "barrier_exec s (Check t) =
    (case pcs s t of Checking v \<Rightarrow>
       Some (if v = bserial (bar s) then s\<lparr>owner := None, pcs := (pcs s)(t := Waiting v)\<rparr>
             else s\<lparr>pcs := (pcs s)(t := Leaving (if berror (bar s) \<noteq> 0 then - 1 else 0))\<rparr>)
     | _ \<Rightarrow> None)"
| "barrier_exec s (Called t r) =
    step_if (pcs s t = Calling)
      (if callback_failed (bar s) r
       then s\<lparr>bar := (bar s)\<lparr>berror := 1\<rparr>, pcs := (pcs s)(t := Leaving (- 1))\<rparr>
       else s\<lparr>pcs := (pcs s)(t := Leaving SB_BARRIER_SERIAL_THREAD)\<rparr>)"
| "barrier_exec s (Leave t r) = step_if (pcs s t = Leaving r) (s\<lparr>owner := None, pcs := (pcs s)(t := Outside)\<rparr>)"

lemma barrier_exec_step: "barrier_exec s e = Some s' \<Longrightarrow> barrier_step s e s'"
  using barrier_step.Done [of s] barrier_step.Callback [of s]
  by (cases e) (force simp: step_if_def split: if_splits wait_pc.splits intro: barrier_step.intros)+

fun barrier_execs :: "threads \<Rightarrow> wait_event list \<Rightarrow> threads option" where
  "barrier_execs s [] = Some s"
| "barrier_execs s (e # es) = do { s \<leftarrow> barrier_execs s es; barrier_exec s e }"

lemma barrier_execs_run: "barrier_execs s es = Some s' \<Longrightarrow> barrier_run s es s'"
  by (induction es arbitrary: s')
    (auto split: Option.bind_splits intro: barrier_run.intros barrier_exec_step)

lemma barrier_run_append:
  "barrier_run s' es' s'' \<Longrightarrow> barrier_run s es s' \<Longrightarrow> barrier_run s (es' @ es) s''"
  by (induction rule: barrier_run.induct) (auto intro: barrier_run.intros)

section \<open>Properties\<close>

lemma barrier_leave:
  assumes "sb_barrier_init True True cnt cb = (0, Some b)"
    and "barrier_run (barrier_start b) (Leave t r # es) s"
  shows "\<exists>k. position t es = Some k \<and> unat cnt * Suc (k div unat cnt) \<le> arrivals es
    \<and> r = leave_result (unat cnt) cb t k es"
proof -
  obtain s1 where "barrier_run (barrier_start b) es s1" "barrier_step s1 (Leave t r) s"
    using assms(2) by (rule barrier_runE)
  then have "barrier_inv (unat cnt) cb es s1" and "pcs s1 t = Leaving r"
    using barrier_run_inv [OF _ assms(1)] by (auto elim: barrier_leaveE)
  then have "pc_ok (unat cnt) cb es (bserial (bar s1)) t (Leaving r)"
    unfolding barrier_inv_def by metis
  then show ?thesis by (simp add: pc_ok_simps)
qed

text \<open>
  C33. No thread leaves the barrier early.  When a barrier was initialised for \<open>n\<close> threads and a
  thread returns from \<open>sb_barrier_wait\<close>, whatever the threads did in whatever order, then all
  \<open>n\<close> arrivals of its round, and of every round before, have happened: if it was the \<open>k\<close>-th
  arrival (from 0), there have been at least \<open>n * (k div n + 1)\<close> arrivals.  Spurious wake-ups,
  more threads than \<open>n\<close> and the wrap-around of the round counter are covered.
\<close>
theorem barrier_separates_rounds:
  assumes "sb_barrier_init True True cnt cb = (0, Some b)"
    and "barrier_run (barrier_start b) (Leave t r # es) s"
  shows "\<exists>k. position t es = Some k \<and> unat cnt * (k div unat cnt + 1) \<le> arrivals es"
  using barrier_leave [OF assms] by auto

definition two_rounds :: "wait_event list" where
  "two_rounds = [Check 2, Acquire 2, Leave 1 1, Called 1 0, Arrive 1, Acquire 1, Enter 1, Arrive 2, Acquire 2, Enter 2,
     Leave 1 (- 1), Check 1, Acquire 1, Leave 2 (- 1), Called 2 7, Arrive 2, Acquire 2, Enter 2, Arrive 1, Acquire 1, Enter 1]"

lemma two_rounds_run:
  "\<exists>b s. sb_barrier_init True True 2 True = (0, Some b)
     \<and> barrier_run (barrier_start b) (Leave 2 (- 1) # two_rounds) s"
proof -
  let ?b = "\<lparr>bcount = 2, binit_count = 2, bserial = 0, bcallback = True, berror = 0\<rparr>"
  have "barrier_execs (barrier_start ?b) (Leave 2 (- 1) # two_rounds) \<noteq> None"
    by (simp add: two_rounds_def barrier_start_def step_if_def callback_failed_def SB_BARRIER_SERIAL_THREAD_def)
  moreover have "sb_barrier_init True True 2 True = (0, Some ?b)"
    by (simp add: sb_barrier_init_def)
  ultimately show ?thesis using barrier_execs_run by blast
qed

theorem barrier_separates_rounds_witness:
  "\<exists>k. position 2 two_rounds = Some k \<and> 2 * (k div 2 + 1) \<le> arrivals two_rounds"
proof -
  obtain b s where "sb_barrier_init True True 2 True = (0, Some b)"
    "barrier_run (barrier_start b) (Leave 2 (- 1) # two_rounds) s" using two_rounds_run by blast
  from barrier_separates_rounds [OF this] show ?thesis by simp
qed

text \<open>
  C37. The result of \<open>sb_barrier_wait\<close>.  The thread whose arrival completes a round returns -1 when
  its own callback failed and \<open>SB_BARRIER_SERIAL_THREAD\<close> otherwise; every other thread returns -1
  when a callback failed in its round or in any round before and 0 otherwise.  The flag is never
  reset, so after one failure the threads of a later round disagree: -1 for the waiting ones, 1
  for the last one.
\<close>
theorem barrier_wait_result:
  assumes "sb_barrier_init True True cnt cb = (0, Some b)"
    and "barrier_run (barrier_start b) (Leave t r # es) s"
  shows "\<exists>k. position t es = Some k \<and>
     r = (if (k + 1) mod unat cnt = 0
          then (if own_failure cb t es then - 1 else SB_BARRIER_SERIAL_THREAD)
          else (if some_failure cb es then - 1 else 0))"
  using barrier_leave [OF assms] by (auto simp: leave_result_def SB_BARRIER_SERIAL_THREAD_def)

theorem barrier_wait_result_witness:
  "\<exists>k. position 2 two_rounds = Some k \<and>
     - 1 = (if (k + 1) mod 2 = 0
          then (if own_failure True 2 two_rounds then - 1 else SB_BARRIER_SERIAL_THREAD)
          else (if some_failure True two_rounds then - 1 else 0))"
proof -
  obtain b s where "sb_barrier_init True True 2 True = (0, Some b)"
    "barrier_run (barrier_start b) (Leave 2 (- 1) # two_rounds) s" using two_rounds_run by blast
  from barrier_wait_result [OF this] show ?thesis by simp
qed


fun actor :: "wait_event \<Rightarrow> nat" where
  "actor (Enter t) = t"
| "actor (Acquire t) = t"
| "actor (Arrive t) = t"
| "actor (Wake t) = t"
| "actor (Check t) = t"
| "actor (Called t r) = t"
| "actor (Leave t r) = t"

text \<open>The thread that has the mutex can give it up by itself, in at most three steps.\<close>

lemma owner_releases:
  assumes "mutex_ok s" and "owner s = Some u"
  shows "\<exists>es s'. barrier_execs s es = Some s' \<and> owner s' = None \<and> length es \<le> 3 \<and> arrivals es \<le> 1
    \<and> (\<forall>e \<in> set es. actor e = u) \<and> (\<forall>t. t \<noteq> u \<longrightarrow> pcs s' t = pcs s t \<or> pcs s' t = wake (pcs s t))"
proof -
  have "holds (pcs s u)" using assms by (simp add: mutex_ok_def)
  then consider "pcs s u = Entered" "bcount (bar s) - 1 = 0" | "pcs s u = Entered" "bcount (bar s) - 1 \<noteq> 0"
    | v where "pcs s u = Checking v" "v = bserial (bar s)" | v where "pcs s u = Checking v" "v \<noteq> bserial (bar s)"
    | "pcs s u = Calling" | r where "pcs s u = Leaving r"
    by (cases "pcs s u") auto
  then show ?thesis
  proof cases
    case 1
    then show ?thesis
      by (intro exI [of _ "[Leave u 1, Called u 0, Arrive u]"])
        (simp add: step_if_def callback_failed_def SB_BARRIER_SERIAL_THREAD_def)
  next
    case 2
    then show ?thesis by (intro exI [of _ "[Arrive u]"]) (simp add: step_if_def)
  next
    case 3
    then show ?thesis by (intro exI [of _ "[Check u]"]) (simp add: step_if_def)
  next
    case (4 v)
    then show ?thesis
      by (intro exI [of _ "[Leave u (if berror (bar s) \<noteq> 0 then - 1 else 0), Check u]"]) (simp add: step_if_def)
  next
    case 5
    then show ?thesis
      by (intro exI [of _ "[Leave u 1, Called u 0]"])
        (simp add: step_if_def callback_failed_def SB_BARRIER_SERIAL_THREAD_def)
  next
    case (6 r)
    then show ?thesis by (intro exI [of _ "[Leave u r]"]) (simp add: step_if_def)
  qed
qed

lemma arrivals_append: "arrivals (es' @ es) = arrivals es' + arrivals es"
  by (simp add: arrivals_def)

text \<open>A woken thread of a finished round leaves as soon as the mutex is free.\<close>

lemma woken_leaves:
  assumes "pcs s t = Woken v" and "owner s = None" and "v \<noteq> bserial (bar s)"
  shows "\<exists>r s'. barrier_execs s [Leave t r, Check t, Acquire t] = Some s'"
  using assms by (intro exI [of _ "if berror (bar s) \<noteq> 0 then - 1 else 0"]) (simp add: step_if_def)

text \<open>Before the round counter wraps around, the number of a finished round differs from it.\<close>

lemma finished_round_differs:
  assumes "bar_ok n cb es b" and "k div n < arrivals es div n" and "arrivals es < n * 2 ^ 32"
  shows "bserial b \<noteq> of_nat (k div n)"
proof -
  have "arrivals es div n < 2 ^ 32" using assms(3) by (simp add: less_mult_imp_div_less mult.commute)
  then have "unat (of_nat (arrivals es div n) :: u32) = arrivals es div n"
    and "unat (of_nat (k div n) :: u32) = k div n"
    using assms(2) by (simp_all add: unat_of_nat)
  then show ?thesis using assms(1,2) by (auto simp: bar_ok_def)
qed

lemma inside_leaves:
  assumes inv: "barrier_inv n cb es s" and k: "position t es = Some k"
    and fin: "k div n < arrivals es div n" and bnd: "arrivals es + 1 < n * 2 ^ 32"
    and ins: "pcs s t \<notin> {Outside, Locking, Entered}"
  shows "\<exists>es' r s'. barrier_execs s (Leave t r # es') = Some s' \<and> length es' \<le> 5
    \<and> (\<forall>e \<in> set es'. actor e = t \<or> owner s = Some (actor e))"
proof -
  have p: "pc_ok n cb es (bserial (bar s)) t (pcs s t)" using inv by (simp add: barrier_inv_def)
  have v: "v \<noteq> bserial (bar s)" if "v = of_nat (k div n)" for v
    using finished_round_differs [of n cb es "bar s" k] inv fin bnd that by (auto simp: barrier_inv_def)
  from ins consider v where "pcs s t = Waiting v" | v where "pcs s t = Woken v" | v where "pcs s t = Checking v"
    | "pcs s t = Calling" | r where "pcs s t = Leaving r" by (cases "pcs s t") auto
  then show ?thesis
  proof cases
    case 1
    then show ?thesis using p k v by (auto simp: pc_ok_simps)
  next
    case (2 v)
    obtain es0 s1 where e: "barrier_execs s es0 = Some s1" "owner s1 = None" "length es0 \<le> 3" "arrivals es0 \<le> 1"
      "\<forall>e \<in> set es0. actor e \<noteq> t \<and> owner s = Some (actor e)" "pcs s1 t = Woken v"
    proof (cases "owner s")
      case None
      then show ?thesis using 2 by (intro that [of "[]" s]) auto
    next
      case (Some u)
      then have "u \<noteq> t" using inv 2 by (auto simp: barrier_inv_def mutex_ok_def dest!: spec [of _ t])
      then show ?thesis
        using owner_releases [of s u] Some inv 2 that by (force simp: barrier_inv_def)
    qed
    have "barrier_inv n cb (es0 @ es) s1" using barrier_inv_run [OF barrier_execs_run [OF e(1)] inv] .
    then have "bserial (bar s1) \<noteq> of_nat (k div n)"
      using finished_round_differs [of n cb "es0 @ es" "bar s1" k] fin bnd e(4) div_le_mono [of "arrivals es" "arrivals (es0 @ es)" n]
      by (auto simp: barrier_inv_def arrivals_append)
    moreover have "v = of_nat (k div n)" using p 2 k by (simp add: pc_ok_simps)
    ultimately obtain r s2 where "barrier_execs s1 [Leave t r, Check t, Acquire t] = Some s2"
      using woken_leaves [of s1 t v] e(2,6) by auto
    then have "barrier_execs s (Leave t r # [Check t, Acquire t] @ es0) = Some s2"
      using e(1) by (simp split: Option.bind_splits)
    then show ?thesis using e(3,5) by (intro exI [of _ "[Check t, Acquire t] @ es0"]) auto
  next
    case (3 v)
    then show ?thesis using p k v [of v]
      by (intro exI [of _ "[Check t]"] exI [of _ "if berror (bar s) \<noteq> 0 then - 1 else 0"])
        (auto simp: pc_ok_simps step_if_def)
  next
    case 4
    then show ?thesis
      by (intro exI [of _ "[Called t 0]"] exI [of _ 1])
        (simp add: step_if_def callback_failed_def SB_BARRIER_SERIAL_THREAD_def)
  next
    case (5 r)
    then show ?thesis by (intro exI [of _ "[]"] exI [of _ r]) (simp add: step_if_def)
  qed
qed

text \<open>
  The steps of its own that a thread still has to take before it leaves, when it is not blocked.
\<close>

fun own_steps_left :: "wait_pc \<Rightarrow> nat" where
  "own_steps_left (Woken v) = 2"
| "own_steps_left (Checking v) = 1"
| "own_steps_left Calling = 1"
| "own_steps_left p = 0"

abbreviation own_steps :: "nat \<Rightarrow> wait_event list \<Rightarrow> nat" where
  "own_steps t es \<equiv> length (filter (\<lambda>e. actor e = t) es)"

text \<open>A step after the round of a thread is finished, unless it is the thread that leaves, brings it nearer to its end.\<close>

lemma finished_step:
  assumes step: "barrier_step s e s'" and "\<forall>r. e \<noteq> Leave t r"
    and ins: "pcs s t \<notin> {Outside, Locking, Entered}" and "\<forall>v. pcs s t \<noteq> Waiting v"
    and "pcs s t \<noteq> Checking (bserial (bar s))"
  shows "pcs s' t \<notin> {Outside, Locking, Entered} \<and> e \<noteq> Arrive t
    \<and> own_steps_left (pcs s' t) + (if actor e = t then 1 else 0) \<le> own_steps_left (pcs s t)"
  using step
proof cases
  case (Last u)
  then show ?thesis using ins assms(4) by (cases "pcs s t") (auto split: if_splits)
qed (use assms in auto)

lemma finished_run:
  assumes "barrier_run s es' s'" and inv: "barrier_inv n cb es s" and k: "position t es = Some k"
    and fin: "k div n < arrivals es div n" and "arrivals (es' @ es) < n * 2 ^ 32"
    and "pcs s t \<notin> {Outside, Locking, Entered}" and "\<forall>r. Leave t r \<notin> set es'"
  shows "pcs s' t \<notin> {Outside, Locking, Entered} \<and> position t (es' @ es) = Some k
    \<and> k div n < arrivals (es' @ es) div n \<and> own_steps t es' + own_steps_left (pcs s' t) \<le> own_steps_left (pcs s t)"
  using assms
proof (induction rule: barrier_run.induct)
  case (Step s es' s' e s'')
  have le: "arrivals (es' @ es) \<le> arrivals ((e # es') @ es)" by (simp add: arrivals_def)
  have IH: "pcs s' t \<notin> {Outside, Locking, Entered}" "position t (es' @ es) = Some k"
    "k div n < arrivals (es' @ es) div n" "own_steps t es' + own_steps_left (pcs s' t) \<le> own_steps_left (pcs s t)"
    using Step.IH Step.prems le by (auto dest: le_less_trans)
  have inv': "barrier_inv n cb (es' @ es) s'" by (rule barrier_inv_run [OF Step.hyps(1) Step.prems(1)])
  have "pc_ok n cb (es' @ es) (bserial (bar s')) t (pcs s' t)" "bserial (bar s') \<noteq> of_nat (k div n)"
    using inv' finished_round_differs [of n cb "es' @ es" "bar s'" k] IH(3) le Step.prems(4)
    by (auto simp: barrier_inv_def)
  then have "\<forall>v. pcs s' t \<noteq> Waiting v" "pcs s' t \<noteq> Checking (bserial (bar s'))"
    using IH(2) by (auto simp: pc_ok_simps)
  moreover have "\<forall>r. e \<noteq> Leave t r" using Step.prems(6) by auto
  ultimately have step: "pcs s'' t \<notin> {Outside, Locking, Entered} \<and> e \<noteq> Arrive t \<and>
      own_steps_left (pcs s'' t) + (if actor e = t then 1 else 0) \<le> own_steps_left (pcs s' t)"
    using finished_step [OF Step.hyps(2) _ IH(1)] by blast
  have "k div n < arrivals ((e # es') @ es) div n" using IH(3) div_le_mono [OF le] by (rule less_le_trans)
  moreover have "position t ((e # es') @ es) = Some k" using step IH(2) by simp
  moreover have "own_steps t (e # es') + own_steps_left (pcs s'' t) \<le> own_steps_left (pcs s t)"
    using step IH(4) by (simp split: if_splits)
  ultimately show ?case using step by simp
qed simp

text \<open>
  C38. No wake-up is lost.  Once its round is finished, a thread inside \<open>sb_barrier_wait\<close> takes, in
  every schedule of the threads, at most two steps of its own before it leaves, and at every
  moment until then it is not blocked: there is a schedule of at most five further steps, of only
  this thread and the one that has the mutex, at the end of which it leaves.  Both hold while there
  were fewer than \<open>n * 2 ^ 32 - 1\<close> arrivals, that is before the unsigned round counter wraps around;
  after that a thread could wait for a round that looks like its own.
\<close>
theorem barrier_finished_round_leaves:
  assumes "sb_barrier_init True True cnt cb = (0, Some b)"
    and "barrier_run (barrier_start b) es s"
    and "position t es = Some k" and "k div unat cnt < arrivals es div unat cnt"
    and "pcs s t \<notin> {Outside, Locking, Entered}"
    and "barrier_run s es1 s1" and "\<forall>r. Leave t r \<notin> set es1"
    and "arrivals (es1 @ es) + 1 < unat cnt * 2 ^ 32"
  shows "length (filter (\<lambda>e. actor e = t) es1) \<le> 2
    \<and> (\<exists>es' r s'. barrier_run s1 (Leave t r # es') s' \<and> length es' \<le> 5
        \<and> (\<forall>e \<in> set es'. actor e = t \<or> owner s1 = Some (actor e)))"
proof -
  have inv: "barrier_inv (unat cnt) cb es s" by (rule barrier_run_inv [OF assms(2,1)])
  note fin = finished_run [OF assms(6) inv assms(3,4) _ assms(5,7)]
  have f: "pcs s1 t \<notin> {Outside, Locking, Entered}" "position t (es1 @ es) = Some k"
    "k div unat cnt < arrivals (es1 @ es) div unat cnt" "own_steps t es1 \<le> own_steps_left (pcs s t)"
    using fin assms(8) by auto
  have "own_steps_left p \<le> 2" for p by (cases p) simp_all
  with f(4) have "own_steps t es1 \<le> 2" using le_trans by blast
  then show ?thesis
    using inside_leaves [OF barrier_inv_run [OF assms(6) inv] f(2,3) assms(8) f(1)] barrier_execs_run by blast
qed

definition first_round :: "wait_event list" where
  "first_round = [Arrive 2, Acquire 2, Enter 2, Arrive 1, Acquire 1, Enter 1]"

lemma first_round_run:
  "\<exists>b s. sb_barrier_init True True 2 False = (0, Some b)
     \<and> barrier_run (barrier_start b) first_round s \<and> pcs s 1 = Woken 0 \<and> pcs s 3 = Outside"
proof -
  let ?b = "\<lparr>bcount = 2, binit_count = 2, bserial = 0, bcallback = False, berror = 0\<rparr>"
  have "\<exists>s. barrier_execs (barrier_start ?b) first_round = Some s \<and> pcs s 1 = Woken 0 \<and> pcs s 3 = Outside"
    by (simp add: first_round_def barrier_start_def step_if_def)
  then show ?thesis
    using barrier_execs_run by (intro exI [of _ ?b]) (auto simp: sb_barrier_init_def)
qed

theorem barrier_finished_round_leaves_witness:
  "\<exists>s s1 es' r s'. pcs s 1 = Woken 0 \<and> barrier_run s [Enter 3] s1 \<and> barrier_run s1 (Leave 1 r # es') s'
    \<and> length es' \<le> 5 \<and> (\<forall>e \<in> set es'. actor e = 1 \<or> owner s1 = Some (actor e))"
proof -
  obtain b s where s: "sb_barrier_init True True 2 False = (0, Some b)"
    "barrier_run (barrier_start b) first_round s" "pcs s 1 = Woken 0" "pcs s 3 = Outside" using first_round_run by blast
  have "position 1 first_round = Some 0" "arrivals first_round = 2" by (simp_all add: first_round_def)
  moreover obtain s1 where e: "barrier_run s [Enter 3] s1"
    using s(4) barrier_step.Enter [of s 3] barrier_run.intros by blast
  ultimately show ?thesis using barrier_finished_round_leaves [OF s(1,2), of 1 0 "[Enter 3]" s1] s(3) by fastforce
qed

end
