(* ===== verification/Sb_Counter.thy ===== *)
theory Sb_Counter
  imports Bench_Prelude
begin

text \<open>
  The statistics counters of sysbench (\<open>sb_counter.c\<close>, \<open>sb_counter.h\<close>).  Every worker thread has a
  row of 64-bit counters that only it increments, with a load and a store that are not one atomic
  step; all background threads share one more row.  The reports add the rows up, one load after the other, while the threads go on counting.  A run
  is a sequence of such steps in any order; its events are kept newest first.
\<close>

section \<open>Counters\<close>

datatype sb_counter_type = SB_CNT_OTHER | SB_CNT_READ | SB_CNT_WRITE | SB_CNT_EVENT | SB_CNT_ERROR | SB_CNT_RECONNECT

fun cnt_index :: "sb_counter_type \<Rightarrow> nat" where
  "cnt_index SB_CNT_OTHER = 0"
| "cnt_index SB_CNT_READ = 1"
| "cnt_index SB_CNT_WRITE = 2"
| "cnt_index SB_CNT_EVENT = 3"
| "cnt_index SB_CNT_ERROR = 4"
| "cnt_index SB_CNT_RECONNECT = 5"

definition SB_CNT_MAX :: nat where
  "SB_CNT_MAX = 6"

text \<open>A row has \<open>SB_ALIGN(SB_CNT_MAX * sizeof(uint64_t), CK_MD_CACHELINE) / sizeof(uint64_t)\<close> cells.\<close>

definition SB_CNT_ROW :: nat where
  "SB_CNT_ROW = 8"

text \<open>The two reports: since the last intermediate and since the last cumulative one.\<close>

datatype report_kind = Intermediate | Cumulative

text \<open>
  A report is not running, or it is in the loops of \<open>sb_counters_merge\<close>, with the array that it
  fills and the two loop variables.
\<close>

datatype report_pc = Idle | Merging "u64 list" nat nat

text \<open>
  \<open>loaded\<close> is what a thread in \<open>sb_counter_inc\<close> has loaded; \<open>last_counters\<close> are
  \<open>last_intermediate_counters\<close> and \<open>last_cumulative_counters\<close>.
\<close>

record counting =
  sb_counters :: "u64 list list"
  loaded :: "nat \<Rightarrow> (sb_counter_type \<times> u64) option"
  last_counters :: "report_kind \<Rightarrow> u64 list"
  reports :: "report_kind \<Rightarrow> report_pc"

text \<open>
  \<open>sb_alloc_per_thread_array\<close> gives one zeroed slot to each worker thread and one to the background
  threads, whose thread id is \<open>SB_BACKGROUND_THREAD_ID\<close>, the number of workers.
\<close>

definition sb_alloc_per_thread_array :: "nat \<Rightarrow> 'a \<Rightarrow> 'a list" where
  "sb_alloc_per_thread_array threads zero = replicate (threads + 1) zero"

definition sb_tls_thread_id :: "nat \<Rightarrow> nat \<Rightarrow> nat" where
  "sb_tls_thread_id threads a = (if a < threads then a else threads)"

definition sb_counters_init :: "nat \<Rightarrow> counting" where
  "sb_counters_init threads =
    \<lparr>sb_counters = sb_alloc_per_thread_array threads (replicate SB_CNT_ROW 0), loaded = (\<lambda>t. None),
     last_counters = (\<lambda>k. replicate SB_CNT_ROW 0), reports = (\<lambda>k. Idle)\<rparr>"

definition sb_counter_val :: "u64 list list \<Rightarrow> nat \<Rightarrow> nat \<Rightarrow> u64" where
  "sb_counter_val cs thread_id type = cs ! thread_id ! type"

definition sb_counter_store :: "nat \<Rightarrow> nat \<Rightarrow> u64 \<Rightarrow> u64 list list \<Rightarrow> u64 list list" where
  "sb_counter_store thread_id type v cs = cs[thread_id := (cs ! thread_id)[type := v]]"

text \<open>\<open>sb_counters_checkpoint\<close>: an array of sums and the last one become the differences and the sums.\<close>

definition checkpoint_step :: "nat \<Rightarrow> u64 list \<times> u64 list \<Rightarrow> u64 list \<times> u64 list" where
  "checkpoint_step i = (\<lambda>(dst, cp). (dst[i := dst ! i - cp ! i], cp[i := dst ! i]))"

definition sb_counters_checkpoint :: "u64 list \<Rightarrow> u64 list \<Rightarrow> u64 list \<times> u64 list" where
  "sb_counters_checkpoint dst cp = fold checkpoint_step [0..<SB_CNT_MAX] (dst, cp)"

section \<open>Steps\<close>

text \<open>
  The threads are numbered, the workers first.  \<open>Load\<close> and \<open>Inc\<close> are the two halves of
  \<open>sb_counter_inc\<close>; \<open>Begun\<close>, \<open>Read\<close> and \<open>Report\<close> are \<open>memset\<close>, one turn of the loops of
  \<open>sb_counters_merge\<close> and the end of \<open>sb_counters_agg_intermediate\<close> or
  \<open>sb_counters_agg_cumulative\<close>, each of which is only called by one thread at a time.
\<close>

datatype cnt_event = Load nat sb_counter_type | Inc nat sb_counter_type | Begun report_kind | Read report_kind
  | Report report_kind "u64 list"

inductive counting_step :: "nat \<Rightarrow> counting \<Rightarrow> cnt_event \<Rightarrow> counting \<Rightarrow> bool" for threads where
  Load: "loaded s a = None \<Longrightarrow>
    counting_step threads s (Load a ty)
      (s\<lparr>loaded := (loaded s)(a \<mapsto>
         (ty, sb_counter_val (sb_counters s) (sb_tls_thread_id threads a) (cnt_index ty)))\<rparr>)"
| Store: "loaded s a = Some (ty, v) \<Longrightarrow>
    counting_step threads s (Inc a ty)
      (s\<lparr>sb_counters :=
           sb_counter_store (sb_tls_thread_id threads a) (cnt_index ty) (v + 1) (sb_counters s),
         loaded := (loaded s)(a := None)\<rparr>)"
| Begin: "reports s k = Idle \<Longrightarrow>
    counting_step threads s (Begun k) (s\<lparr>reports := (reports s)(k := Merging (replicate SB_CNT_ROW 0) 0 0)\<rparr>)"
| Merge: "reports s k = Merging dst t i \<Longrightarrow> t < SB_CNT_MAX \<Longrightarrow> i < threads \<Longrightarrow>
    counting_step threads s (Read k)
      (s\<lparr>reports := (reports s)(k := Merging (dst[t := dst ! t + sb_counter_val (sb_counters s) i t]) t (Suc i))\<rparr>)"
| Next: "reports s k = Merging dst t i \<Longrightarrow> t < SB_CNT_MAX \<Longrightarrow> \<not> i < threads \<Longrightarrow>
    counting_step threads s (Read k) (s\<lparr>reports := (reports s)(k := Merging dst (Suc t) 0)\<rparr>)"
| Finish: "reports s k = Merging dst t i \<Longrightarrow> \<not> t < SB_CNT_MAX \<Longrightarrow>
    sb_counters_checkpoint dst (last_counters s k) = (val, cp) \<Longrightarrow>
    counting_step threads s (Report k val)
      (s\<lparr>last_counters := (last_counters s)(k := cp), reports := (reports s)(k := Idle)\<rparr>)"

inductive counting_run :: "nat \<Rightarrow> cnt_event list \<Rightarrow> counting \<Rightarrow> bool" for threads where
  Start: "counting_run threads [] (sb_counters_init threads)"
| Step: "counting_run threads es s \<Longrightarrow> counting_step threads s e s' \<Longrightarrow> counting_run threads (e # es) s'"

inductive_cases counting_runE: "counting_run threads (e # es) s"
inductive_cases counting_reportE: "counting_step threads s (Report k val) s'"

text \<open>The steps computed.\<close>

fun counting_exec :: "nat \<Rightarrow> cnt_event \<Rightarrow> counting \<Rightarrow> counting option" where
  "counting_exec n (Load a ty) s =
    (if loaded s a = None
     then Some (s\<lparr>loaded := (loaded s)(a \<mapsto>
       (ty, sb_counter_val (sb_counters s) (sb_tls_thread_id n a) (cnt_index ty)))\<rparr>)
     else None)"
| "counting_exec n (Inc a ty) s =
    (case loaded s a of
       Some (ty', v) \<Rightarrow> if ty' = ty
         then Some (s\<lparr>sb_counters := sb_counter_store (sb_tls_thread_id n a) (cnt_index ty) (v + 1) (sb_counters s),
           loaded := (loaded s)(a := None)\<rparr>)
         else None
     | None \<Rightarrow> None)"
| "counting_exec n (Begun k) s =
    (case reports s k of
       Idle \<Rightarrow> Some (s\<lparr>reports := (reports s)(k := Merging (replicate SB_CNT_ROW 0) 0 0)\<rparr>)
     | _ \<Rightarrow> None)"
| "counting_exec n (Read k) s =
    (case reports s k of
       Merging dst t i \<Rightarrow>
         if \<not> t < SB_CNT_MAX then None
         else if i < n then Some (s\<lparr>reports := (reports s)
           (k := Merging (dst[t := dst ! t + sb_counter_val (sb_counters s) i t]) t (Suc i))\<rparr>)
         else Some (s\<lparr>reports := (reports s)(k := Merging dst (Suc t) 0)\<rparr>)
     | Idle \<Rightarrow> None)"
| "counting_exec n (Report k val) s =
    (case reports s k of
       Merging dst t i \<Rightarrow>
         if \<not> t < SB_CNT_MAX \<and> fst (sb_counters_checkpoint dst (last_counters s k)) = val
         then Some (s\<lparr>last_counters := (last_counters s)
             (k := snd (sb_counters_checkpoint dst (last_counters s k))),
           reports := (reports s)(k := Idle)\<rparr>)
         else None
     | Idle \<Rightarrow> None)"

lemma counting_exec_step: "counting_exec n e s = Some s' \<Longrightarrow> counting_step n s e s'"
  by (cases e) (auto split: option.splits if_splits report_pc.splits intro: counting_step.intros)

fun counting_execs :: "nat \<Rightarrow> cnt_event list \<Rightarrow> counting option" where
  "counting_execs n [] = Some (sb_counters_init n)"
| "counting_execs n (e # es) = Option.bind (counting_execs n es) (counting_exec n e)"

lemma counting_execs_run: "counting_execs n es = Some s \<Longrightarrow> counting_run n es s"
  by (induction es arbitrary: s)
    (auto split: Option.bind_splits intro: counting_run.intros counting_exec_step)

section \<open>What the events of a run say\<close>

text \<open>How often a thread, and how often all worker threads, have counted an event of a type.\<close>

definition thread_incs :: "nat \<Rightarrow> sb_counter_type \<Rightarrow> cnt_event list \<Rightarrow> nat" where
  "thread_incs tid ty es = length (filter ((=) (Inc tid ty)) es)"

definition increments :: "nat \<Rightarrow> sb_counter_type \<Rightarrow> cnt_event list \<Rightarrow> nat" where
  "increments n ty es = (\<Sum>tid<n. thread_incs tid ty es)"

text \<open>The sum of what the reports of a kind have shown for a type.\<close>

fun reported :: "report_kind \<Rightarrow> sb_counter_type \<Rightarrow> cnt_event list \<Rightarrow> u64" where
  "reported k ty [] = 0"
| "reported k ty (e # es) =
    (case e of Report k' val \<Rightarrow> (if k' = k then val ! cnt_index ty else 0) | _ \<Rightarrow> 0) + reported k ty es"

text \<open>The events before the last report of a kind began.\<close>

fun before_begin :: "report_kind \<Rightarrow> cnt_event list \<Rightarrow> cnt_event list" where
  "before_begin k [] = []"
| "before_begin k (e # es) = (if e = Begun k then es else before_begin k es)"

lemma thread_incs_simps [simp]:
  "thread_incs tid ty [] = 0"
  "thread_incs tid ty (e # es) = (if e = Inc tid ty then Suc (thread_incs tid ty es) else thread_incs tid ty es)"
  by (auto simp: thread_incs_def)

lemma increments_mono: "increments n ty es \<le> increments n ty (e # es)"
  unfolding increments_def by (intro sum_mono) simp

lemma cnt_index_less: "cnt_index ty < SB_CNT_MAX" "cnt_index ty < SB_CNT_ROW"
  by (cases ty, simp_all add: SB_CNT_MAX_def SB_CNT_ROW_def)+

lemma cnt_index_inject [simp]: "cnt_index a = cnt_index b \<longleftrightarrow> a = b"
  by (cases a; cases b) simp_all

lemma checkpoint_fold:
  assumes "m \<le> length dst" "m \<le> length cp" "fold checkpoint_step [0..<m] (dst, cp) = (val, cp')"
  shows "length val = length dst \<and> length cp' = length cp
    \<and> (\<forall>i. val ! i = (if i < m then dst ! i - cp ! i else dst ! i))
    \<and> (\<forall>i. cp' ! i = (if i < m then dst ! i else cp ! i))"
  using assms
proof (induction m arbitrary: val cp')
  case (Suc m)
  obtain v c where f: "fold checkpoint_step [0..<m] (dst, cp) = (v, c)" by fastforce
  have "checkpoint_step m (v, c) = (val, cp')" using Suc.prems(3) f by simp
  then have "val = v[m := v ! m - c ! m]" "cp' = c[m := v ! m]" by (simp_all add: checkpoint_step_def)
  then show ?case using Suc.IH [OF _ _ f] Suc.prems(1,2) by (auto simp: nth_list_update)
qed simp

lemma checkpoint_nth:
  assumes "sb_counters_checkpoint dst cp = (val, cp')" "length dst = SB_CNT_ROW" "length cp = SB_CNT_ROW"
  shows "val ! cnt_index ty = dst ! cnt_index ty - cp ! cnt_index ty"
    and "cp' ! cnt_index ty = dst ! cnt_index ty" and "length cp' = SB_CNT_ROW"
proof -
  have "SB_CNT_MAX \<le> length dst" "SB_CNT_MAX \<le> length cp"
    using assms by (simp_all add: SB_CNT_MAX_def SB_CNT_ROW_def)
  from checkpoint_fold [OF this] assms cnt_index_less [of ty] show
    "val ! cnt_index ty = dst ! cnt_index ty - cp ! cnt_index ty"
    "cp' ! cnt_index ty = dst ! cnt_index ty" "length cp' = SB_CNT_ROW"
    by (simp_all add: sb_counters_checkpoint_def)
qed

section \<open>The invariant\<close>

definition slots_ok :: "nat \<Rightarrow> cnt_event list \<Rightarrow> counting \<Rightarrow> bool" where
  "slots_ok n es s \<longleftrightarrow> length (sb_counters s) = Suc n \<and> (\<forall>row \<in> set (sb_counters s). length row = SB_CNT_ROW)
    \<and> (\<forall>a < n. \<forall>ty. sb_counter_val (sb_counters s) a (cnt_index ty) = of_nat (thread_incs a ty es))"

definition loads_ok :: "nat \<Rightarrow> cnt_event list \<Rightarrow> counting \<Rightarrow> bool" where
  "loads_ok n es s \<longleftrightarrow> (\<forall>a < n. \<forall>ty v. loaded s a = Some (ty, v) \<longrightarrow> v = of_nat (thread_incs a ty es))"

definition last_ok :: "cnt_event list \<Rightarrow> counting \<Rightarrow> bool" where
  "last_ok es s \<longleftrightarrow> (\<forall>k. length (last_counters s k) = SB_CNT_ROW
    \<and> (\<forall>ty. last_counters s k ! cnt_index ty = reported k ty es))"

text \<open>
  The sums of a report in progress lie between the increments at its beginning and now, for the
  rows that it has read.
\<close>

definition rows_read :: "nat \<Rightarrow> nat \<Rightarrow> nat \<Rightarrow> sb_counter_type \<Rightarrow> nat" where
  "rows_read n t i ty = (if cnt_index ty < t then n else if cnt_index ty = t then i else 0)"

definition between :: "nat \<Rightarrow> sb_counter_type \<Rightarrow> cnt_event list \<Rightarrow> cnt_event list \<Rightarrow> u64 \<Rightarrow> bool" where
  "between m ty es0 es w \<longleftrightarrow> (\<exists>c. w = of_nat c \<and> increments m ty es0 \<le> c \<and> c \<le> increments m ty es)"

definition merging_ok :: "nat \<Rightarrow> cnt_event list \<Rightarrow> report_kind \<Rightarrow> report_pc \<Rightarrow> bool" where
  "merging_ok n es k pc \<longleftrightarrow> (case pc of Idle \<Rightarrow> True
    | Merging dst t i \<Rightarrow> length dst = SB_CNT_ROW \<and> i \<le> n
        \<and> (\<forall>ty. between (rows_read n t i ty) ty (before_begin k es) es (dst ! cnt_index ty)))"

definition counting_inv :: "nat \<Rightarrow> cnt_event list \<Rightarrow> counting \<Rightarrow> bool" where
  "counting_inv n es s \<longleftrightarrow> slots_ok n es s \<and> loads_ok n es s \<and> last_ok es s
    \<and> (\<forall>k. merging_ok n es k (reports s k))"

lemma counting_init_inv: "counting_inv n [] (sb_counters_init n)"
  using cnt_index_less
  by (simp add: counting_inv_def slots_ok_def loads_ok_def last_ok_def merging_ok_def sb_counters_init_def
      sb_alloc_per_thread_array_def sb_counter_val_def del: replicate_Suc)

lemma sb_counter_val_store:
  assumes "a < length cs" "\<forall>row \<in> set cs. length row = SB_CNT_ROW"
  shows "sb_counter_val (sb_counter_store a (cnt_index ty) v cs) b (cnt_index ty')
    = (if a = b \<and> ty = ty' then v else sb_counter_val cs b (cnt_index ty'))"
  using assms cnt_index_less [of ty]
  by (auto simp: sb_counter_val_def sb_counter_store_def nth_list_update)

lemma slots_ok_step:
  assumes "slots_ok n es s" "loads_ok n es s" "counting_step n s e s'"
  shows "slots_ok n (e # es) s' \<and> loads_ok n (e # es) s'"
  using assms(3)
proof cases
  case (Store a ty v)
  have l: "length (sb_counters s) = Suc n" "\<forall>row \<in> set (sb_counters s). length row = SB_CNT_ROW"
    and r: "\<forall>b < n. \<forall>ty. sb_counter_val (sb_counters s) b (cnt_index ty) = of_nat (thread_incs b ty es)"
    using assms(1) by (simp_all add: slots_ok_def)
  have a: "sb_tls_thread_id n a < length (sb_counters s)" using l by (simp add: sb_tls_thread_id_def)
  let ?cs = "sb_counter_store (sb_tls_thread_id n a) (cnt_index ty) (v + 1) (sb_counters s)"
  have "length ?cs = Suc n" "\<forall>row \<in> set ?cs. length row = SB_CNT_ROW"
    using l a by (auto simp: sb_counter_store_def dest!: set_update_subset_insert [THEN subsetD])
  moreover have "sb_counter_val ?cs b (cnt_index ty') = of_nat (thread_incs b ty' (e # es))" if "b < n" for b ty'
    using r that assms(2) Store sb_counter_val_store [OF a l(2)]
    by (auto simp: loads_ok_def sb_tls_thread_id_def)
  ultimately show ?thesis
    using Store assms(2) by (auto simp: slots_ok_def loads_ok_def)
qed (use assms(1,2) in \<open>auto simp: slots_ok_def loads_ok_def sb_tls_thread_id_def\<close>)

lemma last_ok_step:
  assumes "last_ok es s" "\<forall>k. merging_ok n es k (reports s k)" "counting_step n s e s'"
  shows "last_ok (e # es) s'"
  using assms(3)
proof cases
  case (Finish k dst t i val cp)
  have "length dst = SB_CNT_ROW" "length (last_counters s k) = SB_CNT_ROW"
    using assms(1,2) Finish by (auto simp: merging_ok_def last_ok_def dest!: spec [of _ k])
  from checkpoint_nth [OF Finish(5) this] show ?thesis
    using assms(1) Finish by (auto simp: last_ok_def)
qed (use assms(1) in \<open>auto simp: last_ok_def\<close>)

lemma between_more: "between m ty es0 es w \<Longrightarrow> between m ty es0 (e # es) w"
  unfolding between_def using increments_mono [of m ty es e] order.trans by blast

lemma between_start: "between 0 ty es0 es 0"
  by (simp add: between_def increments_def exI [of _ 0])

lemma thread_incs_before: "thread_incs a ty (before_begin k es) \<le> thread_incs a ty es"
  by (induction es) auto

text \<open>Reading one more row.\<close>

lemma between_Suc:
  assumes "between m ty (before_begin k es) es w" and "v = of_nat (thread_incs m ty es)"
  shows "between (Suc m) ty (before_begin k es) es (w + v)"
proof -
  obtain c where "w = of_nat c" "increments m ty (before_begin k es) \<le> c" "c \<le> increments m ty es"
    using assms(1) by (auto simp: between_def)
  then show ?thesis
    using assms(2) thread_incs_before [of m ty k es]
    by (auto simp: between_def increments_def intro!: exI [of _ "c + thread_incs m ty es"])
qed

lemma merging_ok_neutral:
  "merging_ok n es k pc \<Longrightarrow> e \<noteq> Begun k \<Longrightarrow> merging_ok n (e # es) k pc"
  by (auto simp: merging_ok_def between_more split: report_pc.splits)

lemma merging_ok_step:
  assumes r: "slots_ok n es s" and m: "\<And>k. merging_ok n es k (reports s k)" and step: "counting_step n s e s'"
  shows "merging_ok n (e # es) k (reports s' k)"
proof -
  have *: "merging_ok n es k (reports s' k) \<Longrightarrow> e \<noteq> Begun k \<Longrightarrow> ?thesis" by (rule merging_ok_neutral)
  show ?thesis
    using step
  proof cases
    case (Begin k')
    then show ?thesis using m [of k] merging_ok_neutral [of n es k _ e]
      by (cases "k' = k") (auto simp: merging_ok_def rows_read_def between_start cnt_index_less)
  next
    case (Merge k' dst t i)
    have "merging_ok n es k (reports s' k)"
    proof (cases "k' = k")
      case True
      have "between (rows_read n t (Suc i) ty) ty (before_begin k es) es
          (dst[t := dst ! t + sb_counter_val (sb_counters s) i t] ! cnt_index ty)" for ty
        using m [of k] r Merge True between_Suc [of i ty k es] cnt_index_less [of ty]
        by (auto simp: merging_ok_def rows_read_def slots_ok_def nth_list_update dest!: spec [of _ ty])
      then show ?thesis using m [of k] Merge True by (simp add: merging_ok_def)
    qed (use m Merge in simp)
    then show ?thesis using * Merge by simp
  next
    case (Next k' dst t i)
    have "merging_ok n es k (reports s' k)"
    proof (cases "k' = k")
      case True
      have "rows_read n (Suc t) 0 ty = rows_read n t i ty" for ty
        using m [of k] Next True by (auto simp: rows_read_def merging_ok_def)
      then show ?thesis using m [of k] Next True by (auto simp: merging_ok_def)
    qed (use m Next in simp)
    then show ?thesis using * Next by simp
  next
    case (Finish k' dst t i val cp)
    then show ?thesis using * m by (simp add: merging_ok_def [of _ _ _ Idle])
  qed (use * m in simp_all)
qed

lemma counting_run_inv: "counting_run n es s \<Longrightarrow> counting_inv n es s"
proof (induction rule: counting_run.induct)
  case (Step es s e s')
  then show ?case
    using slots_ok_step [of n es s e s'] last_ok_step [of es s n e s'] merging_ok_step [of n es s e s']
    by (auto simp: counting_inv_def)
qed (rule counting_init_inv)


section \<open>Property\<close>

text \<open>
  C36. The reports neither lose nor invent an event.  When a report of a kind is finished, the sum of
  all reports of this kind so far, for any type of event, is a number of events that the worker
  threads had counted at some time between the beginning and the end of this report (modulo
  \<open>2 ^ 64\<close>), although increments are not atomic, background threads share a row, and both kinds of
  report and the threads run concurrently.
\<close>
theorem reports_account:
  assumes "counting_run n (Report k val # es) s"
  shows "\<exists>c. reported k ty (Report k val # es) = of_nat c
    \<and> increments n ty (before_begin k es) \<le> c \<and> c \<le> increments n ty es"
proof -
  obtain s0 where s0: "counting_run n es s0" "counting_step n s0 (Report k val) s"
    using assms by (rule counting_runE)
  obtain dst t i cp where d: "reports s0 k = Merging dst t i" "\<not> t < SB_CNT_MAX"
    "sb_counters_checkpoint dst (last_counters s0 k) = (val, cp)"
    using s0(2) by (rule counting_reportE)
  have inv: "counting_inv n es s0" using s0(1) by (rule counting_run_inv)
  then have l: "last_counters s0 k ! cnt_index ty = reported k ty es" "length (last_counters s0 k) = SB_CNT_ROW"
    and m: "length dst = SB_CNT_ROW" "between (rows_read n t i ty) ty (before_begin k es) es (dst ! cnt_index ty)"
    using d(1) by (auto simp: counting_inv_def last_ok_def merging_ok_def dest!: spec [of _ k])
  have "rows_read n t i ty = n" using d(2) cnt_index_less(1) [of ty] by (simp add: rows_read_def)
  moreover have "reported k ty (Report k val # es) = dst ! cnt_index ty"
    using checkpoint_nth(1) [OF d(3) m(1) l(2), of ty] l(1) by simp
  ultimately show ?thesis using m(2) by (simp add: between_def)
qed

text \<open>Two reads are counted, the second one while the report adds up the writes.\<close>

definition one_report :: "cnt_event list" where
  "one_report = replicate 8 (Read Intermediate) @ [Inc 0 SB_CNT_READ, Load 0 SB_CNT_READ]
     @ replicate 4 (Read Intermediate) @ [Begun Intermediate, Inc 0 SB_CNT_READ, Load 0 SB_CNT_READ]"

theorem reports_account_witness:
  "\<exists>c. reported Intermediate SB_CNT_READ (Report Intermediate [0, 1, 0, 0, 0, 0, 0, 0] # one_report) = of_nat c
    \<and> increments 1 SB_CNT_READ (before_begin Intermediate one_report) \<le> c \<and> c \<le> increments 1 SB_CNT_READ one_report"
proof -
  have "counting_execs 1 (Report Intermediate [0, 1, 0, 0, 0, 0, 0, 0] # one_report) \<noteq> None"
    by (simp add: one_report_def sb_counters_init_def sb_alloc_per_thread_array_def SB_CNT_ROW_def SB_CNT_MAX_def
        sb_counter_val_def sb_counter_store_def sb_tls_thread_id_def sb_counters_checkpoint_def checkpoint_step_def
        numeral_eq_Suc)
  then show ?thesis using counting_execs_run reports_account by blast
qed

end
