(* ===== verification/Sb_List.thy ===== *)
theory Sb_List
  imports Bench_Prelude
begin

text \<open>
  The circular doubly linked lists of sysbench (\<open>sb_list.h\<close>).  A macro is a sequence of reads and
  writes of \<open>next_p\<close> and \<open>prev_p\<close> in a heap of items; an access to an address without an item has
  no result.  A ring represents a list of items, on which the macros act as list operations.
\<close>

section \<open>The macros\<close>

record sb_list_item =
  next_p :: nat
  prev_p :: nat

type_synonym items = "nat \<Rightarrow> sb_list_item option"

definition get_next :: "items \<Rightarrow> nat \<Rightarrow> nat option" where
  "get_next h p = map_option next_p (h p)"

definition get_prev :: "items \<Rightarrow> nat \<Rightarrow> nat option" where
  "get_prev h p = map_option prev_p (h p)"

definition set_next :: "nat \<Rightarrow> nat \<Rightarrow> items \<Rightarrow> items option" where
  "set_next p v h = (case h p of None \<Rightarrow> None | Some i \<Rightarrow> Some (h(p \<mapsto> i\<lparr>next_p := v\<rparr>)))"

definition set_prev :: "nat \<Rightarrow> nat \<Rightarrow> items \<Rightarrow> items option" where
  "set_prev p v h = (case h p of None \<Rightarrow> None | Some i \<Rightarrow> Some (h(p \<mapsto> i\<lparr>prev_p := v\<rparr>)))"

definition SB_LIST_INIT :: "nat \<Rightarrow> items \<Rightarrow> items option" where
  "SB_LIST_INIT head h = do { h \<leftarrow> set_next head head h; set_prev head head h }"

definition SB_LIST_ADD :: "nat \<Rightarrow> nat \<Rightarrow> items \<Rightarrow> items option" where
  "SB_LIST_ADD item head h = do {
     n \<leftarrow> get_next h head;
     h \<leftarrow> set_next item n h;
     h \<leftarrow> set_prev item head h;
     h \<leftarrow> set_next head item h;
     n \<leftarrow> get_next h item;
     set_prev n item h }"

definition SB_LIST_ADD_TAIL :: "nat \<Rightarrow> nat \<Rightarrow> items \<Rightarrow> items option" where
  "SB_LIST_ADD_TAIL item head h = do {
     p \<leftarrow> get_prev h head;
     h \<leftarrow> set_prev item p h;
     h \<leftarrow> set_next item head h;
     h \<leftarrow> set_prev head item h;
     p \<leftarrow> get_prev h item;
     set_next p item h }"

definition SB_LIST_DELETE :: "nat \<Rightarrow> items \<Rightarrow> items option" where
  "SB_LIST_DELETE item h = do {
     n \<leftarrow> get_next h item;
     p \<leftarrow> get_prev h item;
     h \<leftarrow> set_prev n p h;
     p \<leftarrow> get_prev h item;
     n \<leftarrow> get_next h item;
     set_next p n h }"

definition SB_LIST_REPLACE :: "nat \<Rightarrow> nat \<Rightarrow> items \<Rightarrow> items option" where
  "SB_LIST_REPLACE item old h = do {
     n \<leftarrow> get_next h old;
     h \<leftarrow> set_next item n h;
     p \<leftarrow> get_prev h old;
     h \<leftarrow> set_prev item p h;
     n \<leftarrow> get_next h item;
     h \<leftarrow> set_prev n item h;
     p \<leftarrow> get_prev h item;
     set_next p item h }"

definition SB_LIST_ITEM_FIRST :: "nat \<Rightarrow> nat \<Rightarrow> items \<Rightarrow> bool option" where
  "SB_LIST_ITEM_FIRST item head h = do { p \<leftarrow> get_prev h item; Some (p \<noteq> head) }"

definition SB_LIST_ITEM_LAST :: "nat \<Rightarrow> nat \<Rightarrow> items \<Rightarrow> bool option" where
  "SB_LIST_ITEM_LAST item head h = do { n \<leftarrow> get_next h item; Some (n = head) }"

text \<open>The next position of an enumeration, \<open>None\<close> inside is the null pointer at its end.\<close>

definition SB_LIST_ENUM_NEXT :: "nat \<Rightarrow> nat \<Rightarrow> items \<Rightarrow> nat option option" where
  "SB_LIST_ENUM_NEXT pos head h = do { n \<leftarrow> get_next h pos; Some (if n \<noteq> head then Some n else None) }"

definition SB_LIST_IS_EMPTY :: "nat \<Rightarrow> items \<Rightarrow> bool option" where
  "SB_LIST_IS_EMPTY head h = do { n \<leftarrow> get_next h head; Some (n = head) }"

text \<open>
  \<open>SB_LIST_FOR_EACH\<close> with a body that may leave the loop: the position after some steps, until the
  head is reached again or the body returns a value.
\<close>

partial_function (option) for_each_from :: "(nat \<Rightarrow> 'r option) \<Rightarrow> nat \<Rightarrow> nat \<Rightarrow> items \<Rightarrow> 'r option option" where
  "for_each_from body pos head h =
    (if pos = head then Some None
     else case body pos of
       Some r \<Rightarrow> Some (Some r)
     | None \<Rightarrow> do { n \<leftarrow> get_next h pos; for_each_from body n head h })"

definition SB_LIST_FOR_EACH :: "(nat \<Rightarrow> 'r option) \<Rightarrow> nat \<Rightarrow> items \<Rightarrow> 'r option option" where
  "SB_LIST_FOR_EACH body head h = do { n \<leftarrow> get_next h head; for_each_from body n head h }"

text \<open>
  \<open>SB_LIST_FOR_EACH_SAFE\<close> has the next position at hand before the body runs, so that the body may
  take the item out and free it; \<open>free_item\<close> is such a body, that of \<open>free_values\<close>.
\<close>

partial_function (option) safe_from :: "(nat \<Rightarrow> items \<Rightarrow> items option) \<Rightarrow> nat \<Rightarrow> nat \<Rightarrow> nat \<Rightarrow> items \<Rightarrow> items option" where
  "safe_from body pos temp head h =
    (if pos = head then Some h
     else do {
       h \<leftarrow> body pos h;
       n \<leftarrow> get_next h temp;
       safe_from body temp n head h })"

definition SB_LIST_FOR_EACH_SAFE :: "(nat \<Rightarrow> items \<Rightarrow> items option) \<Rightarrow> nat \<Rightarrow> items \<Rightarrow> items option" where
  "SB_LIST_FOR_EACH_SAFE body head h = do {
     pos \<leftarrow> get_next h head;
     temp \<leftarrow> get_next h pos;
     safe_from body pos temp head h }"

definition free_item :: "nat \<Rightarrow> items \<Rightarrow> items option" where
  "free_item item h = do { h \<leftarrow> SB_LIST_DELETE item h; Some (h(item := None)) }"

section \<open>Rings\<close>

definition link :: "items \<Rightarrow> nat \<Rightarrow> nat \<Rightarrow> bool" where
  "link h a b \<longleftrightarrow> get_next h a = Some b \<and> get_prev h b = Some a"

text \<open>From \<open>p\<close> over the items \<open>xs\<close> to \<open>q\<close>.\<close>

fun chain :: "items \<Rightarrow> nat \<Rightarrow> nat list \<Rightarrow> nat \<Rightarrow> bool" where
  "chain h p [] q = link h p q"
| "chain h p (x # xs) q = (link h p x \<and> chain h x xs q)"

definition ring :: "items \<Rightarrow> nat \<Rightarrow> nat list \<Rightarrow> bool" where
  "ring h head xs \<longleftrightarrow> distinct (head # xs) \<and> chain h head xs head"

lemma chain_snoc: "chain h p (xs @ [x]) q \<longleftrightarrow> chain h p xs x \<and> link h x q"
  by (induction xs arbitrary: p) auto

lemma chain_append: "chain h p (xs @ x # ys) q \<longleftrightarrow> chain h p xs x \<and> chain h x ys q"
  by (induction xs arbitrary: p) auto

lemma get_upd [simp]:
  "get_next (h(a \<mapsto> i)) b = (if b = a then Some (next_p i) else get_next h b)"
  "get_prev (h(a \<mapsto> i)) b = (if b = a then Some (prev_p i) else get_prev h b)"
  by (simp_all add: get_next_def get_prev_def)

text \<open>A chain depends on the \<open>next_p\<close> of all but its end and on the \<open>prev_p\<close> of all but its start.\<close>

lemma chain_cong:
  assumes "chain h p xs q" "\<forall>a \<in> set (p # xs). get_next h' a = get_next h a"
    "\<forall>b \<in> set (xs @ [q]). get_prev h' b = get_prev h b"
  shows "chain h' p xs q"
  using assms by (induction xs arbitrary: p) (auto simp: link_def)

text \<open>Moving the end of a chain.\<close>

lemma chain_new_end:
  assumes "chain h p xs q" "distinct (p # xs)" "\<forall>a \<in> set (butlast (p # xs)). get_next h' a = get_next h a"
    "\<forall>b \<in> set xs. get_prev h' b = get_prev h b" "link h' (last (p # xs)) q'"
  shows "chain h' p xs q'"
  using assms by (induction xs arbitrary: p) (auto simp: link_def split: if_splits)

lemma chain_last: "chain h p xs q \<Longrightarrow> link h (last (p # xs)) q"
  by (induction xs arbitrary: p) auto

lemma chain_first: "chain h p xs q \<Longrightarrow> link h p (hd (xs @ [q]))"
  by (cases xs) auto

lemma link_alloc: "link h a b \<Longrightarrow> (\<exists>i. h a = Some i \<and> next_p i = b) \<and> (\<exists>i. h b = Some i \<and> prev_p i = a)"
  by (auto simp: link_def get_next_def get_prev_def)


lemma last_not_butlast: "distinct (x # xs) \<Longrightarrow> last (x # xs) \<notin> set (butlast (x # xs))"
  by (induction xs arbitrary: x) auto

text \<open>Splicing an item into a ring, and taking one out.\<close>

lemma splice_in:
  assumes c: "chain h head (xs @ ys) head" and d: "distinct (head # xs @ ys)" "item \<notin> set (head # xs @ ys)"
    and nx: "\<And>p. get_next h' p = (if p = last (head # xs) then Some item
        else if p = item then Some (hd (ys @ [head])) else get_next h p)"
    and pv: "\<And>p. get_prev h' p = (if p = hd (ys @ [head]) then Some item
        else if p = item then Some (last (head # xs)) else get_prev h p)"
  shows "chain h' head (xs @ item # ys) head"
proof -
  have l: "last (head # xs) \<in> set (head # xs)" by (rule last_in_set) simp
  have "distinct (head # xs)" using d(1) by simp
  then have lb: "last (head # xs) \<notin> set (butlast (head # xs))" by (rule last_not_butlast)
  have links: "link h' (last (head # xs)) item" "link h' item (hd (ys @ [head]))"
    using nx pv l d by (auto simp: link_def hd_append split: if_splits)
  have end_in: "chain h head xs q \<Longrightarrow> q \<notin> set xs \<Longrightarrow> hd (ys @ [head]) \<notin> set xs \<Longrightarrow> chain h' head xs item" for q
    by (rule chain_new_end [of h head xs q])
      (use d lb links nx pv in \<open>auto dest: in_set_butlastD split: if_splits\<close>)
  show ?thesis
  proof (cases ys)
    case Nil
    then show ?thesis using end_in [of head] c d links by (auto simp: chain_snoc)
  next
    case (Cons y zs)
    have "chain h' y zs head"
      by (rule chain_cong [of h]) (use c d l Cons nx pv in \<open>auto simp: chain_append\<close>)
    then show ?thesis using end_in [of y] c d links Cons by (auto simp: chain_append)
  qed
qed

lemma splice_out:
  assumes c: "chain h head (xs @ item # ys) head" and d: "distinct (head # xs @ item # ys)"
    and nx: "\<And>p. p \<noteq> item \<Longrightarrow> get_next h' p = (if p = last (head # xs) then Some (hd (ys @ [head])) else get_next h p)"
    and pv: "\<And>p. p \<noteq> item \<Longrightarrow> get_prev h' p = (if p = hd (ys @ [head]) then Some (last (head # xs)) else get_prev h p)"
  shows "chain h' head (xs @ ys) head"
proof -
  have l: "last (head # xs) \<in> set (head # xs)" by (rule last_in_set) simp
  have "distinct (head # xs)" using d by simp
  then have lb: "last (head # xs) \<notin> set (butlast (head # xs))" by (rule last_not_butlast)
  have x: "chain h head xs item" "chain h item ys head" using c by (simp_all add: chain_append)
  have "last (head # xs) \<noteq> item" using l d by auto
  moreover have "hd (ys @ [head]) \<noteq> item" using d by (cases ys) auto
  ultimately have links: "link h' (last (head # xs)) (hd (ys @ [head]))"
    using nx pv by (simp add: link_def)
  have "get_next h' a = get_next h a" if "a \<in> set (butlast (head # xs))" for a
  proof -
    have "a \<noteq> last (head # xs)" using lb that by auto
    moreover have "a \<noteq> item" using in_set_butlastD [OF that] d by auto
    ultimately show ?thesis using nx by simp
  qed
  moreover have "get_prev h' b = get_prev h b" if "b \<in> set xs" for b
  proof -
    have "b \<noteq> item" "b \<noteq> hd (ys @ [head])" using that d by (cases ys; auto)+
    then show ?thesis using pv by simp
  qed
  ultimately have out: "chain h' head xs (hd (ys @ [head]))"
    using chain_new_end [OF x(1) \<open>distinct (head # xs)\<close> _ _ links] by blast
  show ?thesis
  proof (cases ys)
    case (Cons y zs)
    have "get_next h' a = get_next h a" if "a \<in> set (y # zs)" for a
    proof -
      have "a \<noteq> item" "a \<notin> set (head # xs)" using that d Cons by auto
      then show ?thesis using nx l by (metis)
    qed
    moreover have "get_prev h' b = get_prev h b" if "b \<in> set (zs @ [head])" for b
    proof -
      have "b \<noteq> item" "b \<noteq> y" using that d Cons by auto
      then show ?thesis using pv Cons by simp
    qed
    ultimately have "chain h' y zs head" using chain_cong [of h y zs head h'] x(2) Cons by simp
    then show ?thesis using out Cons by (simp add: chain_append)
  qed (use out in simp)
qed


section \<open>The macros on rings\<close>

lemma ring_links:
  assumes "ring h head (xs @ ys)"
  shows "link h (last (head # xs)) (hd (ys @ [head]))"
proof (cases ys)
  case Nil
  then show ?thesis using assms chain_last [of h head xs head] by (simp add: ring_def)
next
  case (Cons y zs)
  then show ?thesis using assms chain_last [of h head xs y] by (simp add: ring_def chain_append)
qed

lemma ring_init:
  assumes "h head = Some i"
  shows "\<exists>h'. SB_LIST_INIT head h = Some h' \<and> ring h' head [] \<and> (\<forall>p. p \<noteq> head \<longrightarrow> h' p = h p)"
  using assms by (auto simp: SB_LIST_INIT_def set_next_def set_prev_def ring_def link_def)

lemma ring_add:
  assumes r: "ring h head xs" and i: "h item = Some i" "item \<notin> set (head # xs)"
  shows "\<exists>h'. SB_LIST_ADD item head h = Some h' \<and> ring h' head (item # xs)
    \<and> (\<forall>p. p \<notin> set (head # item # xs) \<longrightarrow> h' p = h p)"
proof -
  have l: "link h head (hd (xs @ [head]))" using ring_links [of h head "[]" xs] r by simp
  then obtain ih where ih: "h head = Some ih" "next_p ih = hd (xs @ [head])" using link_alloc by blast
  from l obtain ib where ib: "h (hd (xs @ [head])) = Some ib" using link_alloc by blast
  have b: "hd (xs @ [head]) \<noteq> item" "hd (xs @ [head]) \<in> set (head # xs)" using i(2) by (cases xs; auto)+
  obtain h' where h': "SB_LIST_ADD item head h = Some h'"
    "\<And>p. get_next h' p = (if p = head then Some item else if p = item then Some (hd (xs @ [head])) else get_next h p)"
    "\<And>p. get_prev h' p = (if p = hd (xs @ [head]) then Some item else if p = item then Some head else get_prev h p)"
    "\<forall>p. p \<notin> set (head # item # xs) \<longrightarrow> h' p = h p"
  proof (cases "hd (xs @ [head]) = head")
    case True
    then show ?thesis
      using ih ib i b by (intro that) (auto simp: SB_LIST_ADD_def set_next_def set_prev_def get_next_def get_prev_def)
  next
    case False
    then show ?thesis
      using ih ib i b by (intro that) (auto simp: SB_LIST_ADD_def set_next_def set_prev_def get_next_def get_prev_def)
  qed
  have "chain h' head ([] @ item # xs) head"
    by (rule splice_in [of h]) (use r i(2) h'(2,3) in \<open>simp_all add: ring_def\<close>)
  then show ?thesis using h'(1,4) r i(2) by (auto simp: ring_def)
qed


lemma ring_add_tail:
  assumes r: "ring h head xs" and i: "h item = Some i" "item \<notin> set (head # xs)"
  shows "\<exists>h'. SB_LIST_ADD_TAIL item head h = Some h' \<and> ring h' head (xs @ [item])
    \<and> (\<forall>p. p \<notin> set (head # item # xs) \<longrightarrow> h' p = h p)"
proof -
  define a where "a = last (head # xs)"
  have l: "link h a head" using ring_links [of h head xs "[]"] r by (simp add: a_def)
  obtain ih where ih: "h head = Some ih" "prev_p ih = a" using l link_alloc by blast
  obtain ia where ia: "h a = Some ia" using l link_alloc by blast
  have am: "a \<in> set (head # xs)" unfolding a_def by (rule last_in_set) simp
  then have a: "a \<noteq> item" using i(2) by auto
  obtain h' where h': "SB_LIST_ADD_TAIL item head h = Some h'"
    "\<And>p. get_next h' p = (if p = a then Some item else if p = item then Some head else get_next h p)"
    "\<And>p. get_prev h' p = (if p = head then Some item else if p = item then Some a else get_prev h p)"
    "\<forall>p. p \<notin> set (head # item # xs) \<longrightarrow> h' p = h p"
  proof (cases "a = head")
    case True
    then show ?thesis
      using ih ia i a am by (intro that) (auto simp: SB_LIST_ADD_TAIL_def set_next_def set_prev_def get_next_def get_prev_def)
  next
    case False
    then show ?thesis
      using ih ia i a am by (intro that) (auto simp: SB_LIST_ADD_TAIL_def set_next_def set_prev_def get_next_def get_prev_def)
  qed
  have "chain h' head (xs @ item # []) head"
    by (rule splice_in [of h]) (use r i(2) h'(2,3) in \<open>simp_all add: ring_def a_def\<close>)
  then show ?thesis using h'(1,4) r i(2) by (auto simp: ring_def)
qed

lemma ring_delete:
  assumes r: "ring h head (xs @ item # ys)"
  shows "\<exists>h'. SB_LIST_DELETE item h = Some h' \<and> ring h' head (xs @ ys)
    \<and> (\<forall>p. p \<notin> set (head # xs @ ys) \<longrightarrow> h' p = h p)"
proof -
  define a b where "a = last (head # xs)" and "b = hd (ys @ [head])"
  have c: "chain h head xs item" "chain h item ys head" and d: "distinct (head # xs @ item # ys)"
    using r by (simp_all add: ring_def chain_append)
  have l: "link h a item" "link h item b" unfolding a_def b_def by (rule chain_last [OF c(1)], rule chain_first [OF c(2)])
  obtain it where it: "h item = Some it" "prev_p it = a" "next_p it = b"
    using link_alloc [OF l(1)] link_alloc [OF l(2)] by auto
  obtain ia ib where ab: "h a = Some ia" "h b = Some ib" using l link_alloc by blast
  have am: "a \<in> set (head # xs)" "b \<in> set (head # ys)" unfolding a_def b_def by (rule last_in_set; simp) (cases ys; simp)
  then have ne: "a \<noteq> item" "b \<noteq> item" using d by auto
  obtain h' where h': "SB_LIST_DELETE item h = Some h'"
    "\<And>p. p \<noteq> item \<Longrightarrow> get_next h' p = (if p = a then Some b else get_next h p)"
    "\<And>p. p \<noteq> item \<Longrightarrow> get_prev h' p = (if p = b then Some a else get_prev h p)"
    "\<forall>p. p \<notin> set (head # xs @ ys) \<longrightarrow> h' p = h p"
  proof (cases "a = b")
    case True
    then show ?thesis
      using it ab ne am by (intro that) (auto simp: SB_LIST_DELETE_def set_next_def set_prev_def get_next_def get_prev_def)
  next
    case False
    then show ?thesis
      using it ab ne am by (intro that) (auto simp: SB_LIST_DELETE_def set_next_def set_prev_def get_next_def get_prev_def)
  qed
  have "chain h' head (xs @ ys) head"
    by (rule splice_out [of h _ _ item]) (use r d h'(2,3) in \<open>simp_all add: ring_def a_def b_def\<close>)
  then show ?thesis using h'(1,4) d by (auto simp: ring_def)
qed

lemma ring_is_empty: "ring h head xs \<Longrightarrow> SB_LIST_IS_EMPTY head h = Some (xs = [])"
  using ring_links [of h head "[]" xs] by (cases xs) (auto simp: SB_LIST_IS_EMPTY_def link_def ring_def)

text \<open>The loop visits the items in their order and stops at the first for which the body returns.\<close>

fun first_result :: "(nat \<Rightarrow> 'r option) \<Rightarrow> nat list \<Rightarrow> 'r option" where
  "first_result body [] = None"
| "first_result body (x # xs) = (case body x of Some r \<Rightarrow> Some r | None \<Rightarrow> first_result body xs)"

lemma for_each_chain:
  assumes "chain h p xs head" "head \<notin> set xs"
  shows "for_each_from body (hd (xs @ [head])) head h = Some (first_result body xs)"
  using assms
proof (induction xs arbitrary: p)
  case Nil
  then show ?case by (simp add: for_each_from.simps)
next
  case (Cons x xs)
  then have "get_next h x = Some (hd (xs @ [head]))" using chain_first [of h x xs head] by (simp add: link_def)
  then show ?case using Cons by (subst for_each_from.simps) (auto split: option.split)
qed

lemma ring_for_each: "ring h head xs \<Longrightarrow> SB_LIST_FOR_EACH body head h = Some (first_result body xs)"
  using ring_links [of h head "[]" xs] for_each_chain [of h head xs head body]
  by (auto simp: SB_LIST_FOR_EACH_def link_def ring_def)

lemma ring_replace:
  assumes r: "ring h head (xs @ old # ys)" and i: "h item = Some i" "item \<notin> set (head # xs @ old # ys)"
  shows "\<exists>h'. SB_LIST_REPLACE item old h = Some h' \<and> ring h' head (xs @ item # ys)
    \<and> (\<forall>p. p \<notin> set (head # xs @ item # ys) \<longrightarrow> h' p = h p)"
proof -
  define a b where "a = last (head # xs)" and "b = hd (ys @ [head])"
  have c: "chain h head xs old" "chain h old ys head" and d: "distinct (head # xs @ old # ys)"
    using r by (simp_all add: ring_def chain_append)
  have l: "link h a old" "link h old b" unfolding a_def b_def by (rule chain_last [OF c(1)], rule chain_first [OF c(2)])
  obtain it where it: "h old = Some it" "prev_p it = a" "next_p it = b"
    using link_alloc [OF l(1)] link_alloc [OF l(2)] by auto
  obtain ia ib where ab: "h a = Some ia" "h b = Some ib" using l link_alloc by blast
  have am: "a \<in> set (head # xs)" "b \<in> set (head # ys)" unfolding a_def b_def by (rule last_in_set; simp) (cases ys; simp)
  then have ne: "a \<noteq> old" "b \<noteq> old" "a \<noteq> item" "b \<noteq> item" "old \<noteq> item" using d i(2) by auto
  obtain h' where h': "SB_LIST_REPLACE item old h = Some h'"
    "\<And>p. get_next h' p = (if p = a then Some item else if p = item then Some b else get_next h p)"
    "\<And>p. get_prev h' p = (if p = b then Some item else if p = item then Some a else get_prev h p)"
    "\<forall>p. p \<notin> set (head # xs @ item # ys) \<longrightarrow> h' p = h p"
  proof (cases "a = b")
    case True
    then show ?thesis
      using it ab ne am i(1)
      by (intro that) (auto simp: SB_LIST_REPLACE_def set_next_def set_prev_def get_next_def get_prev_def)
  next
    case False
    then show ?thesis
      using it ab ne am i(1)
      by (intro that) (auto simp: SB_LIST_REPLACE_def set_next_def set_prev_def get_next_def get_prev_def)
  qed
  define h0 where "h0 = h(a \<mapsto> ia\<lparr>next_p := b\<rparr>, b \<mapsto> (if a = b then ia\<lparr>next_p := b\<rparr> else ib)\<lparr>prev_p := a\<rparr>)"
  have h0: "get_next h0 p = (if p = a then Some b else get_next h p)"
    "get_prev h0 p = (if p = b then Some a else get_prev h p)" for p
    using ab by (auto simp: h0_def get_next_def get_prev_def)
  have "chain h0 head (xs @ ys) head"
    by (rule splice_out [of h _ _ old]) (use r d h0 in \<open>simp_all add: ring_def a_def b_def\<close>)
  then have "chain h' head (xs @ item # ys) head"
    by (rule splice_in) (use d i(2) h'(2,3) h0 in \<open>auto simp: a_def b_def\<close>)
  then show ?thesis using h'(1,4) d i(2) by (auto simp: ring_def)
qed

lemma ring_position:
  assumes "ring h head (xs @ item # ys)"
  shows "SB_LIST_ITEM_LAST item head h = Some (ys = [])" "SB_LIST_ITEM_FIRST item head h = Some (xs \<noteq> [])"
    "SB_LIST_ENUM_NEXT item head h = Some (case ys of [] \<Rightarrow> None | y # _ \<Rightarrow> Some y)"
proof -
  have l: "link h item (hd (ys @ [head]))" "link h (last (head # xs)) item"
    using ring_links [of h head "xs @ [item]" ys] ring_links [of h head xs "item # ys"] assms by simp_all
  have d: "distinct (head # xs @ item # ys)" using assms by (simp add: ring_def)
  show "SB_LIST_ITEM_LAST item head h = Some (ys = [])"
    "SB_LIST_ENUM_NEXT item head h = Some (case ys of [] \<Rightarrow> None | y # _ \<Rightarrow> Some y)"
    using l(1) d by (cases ys; auto simp: SB_LIST_ITEM_LAST_def SB_LIST_ENUM_NEXT_def link_def)+
  have "last (head # xs) = head \<longleftrightarrow> xs = []" using d last_in_set [of xs] by auto
  then show "SB_LIST_ITEM_FIRST item head h = Some (xs \<noteq> [])"
    using l(2) by (simp add: SB_LIST_ITEM_FIRST_def link_def)
qed

text \<open>The loop that frees every item leaves an empty ring.\<close>

lemma ring_free_item:
  assumes "ring h head (item # ys)"
  shows "\<exists>h'. free_item item h = Some h' \<and> ring h' head ys \<and> h' item = None
    \<and> (\<forall>p. p \<notin> set (head # item # ys) \<longrightarrow> h' p = h p)"
proof -
  obtain h' where h': "SB_LIST_DELETE item h = Some h'" "ring h' head ys" "\<forall>p. p \<notin> set (head # ys) \<longrightarrow> h' p = h p"
    using ring_delete [of h head "[]" item ys] assms by auto
  have d: "item \<notin> set (head # ys)" using assms by (auto simp: ring_def)
  then have "get_next (h'(item := None)) a = get_next h' a" "get_prev (h'(item := None)) a = get_prev h' a"
    if "a \<in> set (head # ys)" for a
    using that by (auto simp: get_next_def get_prev_def)
  then have "chain (h'(item := None)) head ys head"
    using chain_cong [of h' head ys head "h'(item := None)"] h'(2) by (simp add: ring_def)
  then show ?thesis using h' by (auto simp: free_item_def ring_def)
qed

lemma safe_from_free:
  assumes "ring h head xs"
  shows "\<exists>h'. safe_from free_item (hd (xs @ [head])) (hd (tl (xs @ [head, hd (xs @ [head])]))) head h = Some h'
    \<and> ring h' head [] \<and> (\<forall>p \<in> set xs. h' p = None) \<and> (\<forall>p. p \<notin> set (head # xs) \<longrightarrow> h' p = h p)"
  using assms
proof (induction xs arbitrary: h)
  case Nil
  then show ?case by (simp add: safe_from.simps)
next
  case (Cons x xs)
  obtain h1 where h1: "free_item x h = Some h1" "ring h1 head xs" "h1 x = None"
    "\<forall>p. p \<notin> set (head # x # xs) \<longrightarrow> h1 p = h p"
    using ring_free_item [OF Cons.prems] by blast
  have x: "x \<noteq> head" "x \<notin> set xs" using Cons.prems by (auto simp: ring_def)
  have "get_next h1 (hd (xs @ [head])) = Some (hd (tl (xs @ [head, hd (xs @ [head])])))"
  proof (cases xs)
    case Nil
    then show ?thesis using h1(2) by (simp add: ring_def link_def)
  next
    case (Cons y ys)
    then show ?thesis using ring_links [of h1 head "[y]" ys] h1(2) by (cases ys) (simp_all add: link_def)
  qed
  moreover obtain h' where "safe_from free_item (hd (xs @ [head])) (hd (tl (xs @ [head, hd (xs @ [head])]))) head h1 = Some h'"
    "ring h' head []" "\<forall>p \<in> set xs. h' p = None" "\<forall>p. p \<notin> set (head # xs) \<longrightarrow> h' p = h1 p"
    using Cons.IH [OF h1(2)] by blast
  ultimately show ?case using h1 x by (subst safe_from.simps) (auto simp: hd_append)
qed

lemma ring_free_all:
  assumes "ring h head xs"
  shows "\<exists>h'. SB_LIST_FOR_EACH_SAFE free_item head h = Some h' \<and> ring h' head []
    \<and> (\<forall>p \<in> set xs. h' p = None) \<and> (\<forall>p. p \<notin> set (head # xs) \<longrightarrow> h' p = h p)"
proof -
  have "get_next h head = Some (hd (xs @ [head]))"
    using ring_links [of h head "[]" xs] assms by (simp add: link_def)
  moreover have "get_next h (hd (xs @ [head])) = Some (hd (tl (xs @ [head, hd (xs @ [head])])))"
  proof (cases xs)
    case Nil
    then show ?thesis using assms by (simp add: ring_def link_def)
  next
    case (Cons y ys)
    then show ?thesis using ring_links [of h head "[y]" ys] assms by (cases ys) (simp_all add: link_def)
  qed
  ultimately show ?thesis using safe_from_free [OF assms] by (simp add: SB_LIST_FOR_EACH_SAFE_def)
qed

section \<open>Property\<close>

text \<open>
  C35. The list macros are list operations.  On a ring with the items \<open>xs\<close>, \<open>SB_LIST_ADD\<close> and
  \<open>SB_LIST_ADD_TAIL\<close> of a further item put it in front and at the end, \<open>SB_LIST_DELETE\<close> of any item
  takes it out, \<open>SB_LIST_REPLACE\<close> puts the further item in its place, \<open>SB_LIST_IS_EMPTY\<close> tells whether
  there are none, \<open>SB_LIST_FOR_EACH\<close> ends, visits the items in order and stops where its body
  returns, and the safe loop can free all items.  Items of other lists are not touched.
\<close>
theorem list_macros_refine:
  assumes "ring h head xs" and "h item = Some i" and "item \<notin> set (head # xs)"
  shows "(\<exists>h'. SB_LIST_ADD item head h = Some h' \<and> ring h' head (item # xs)
      \<and> (\<forall>p. p \<notin> set (head # item # xs) \<longrightarrow> h' p = h p))
    \<and> (\<exists>h'. SB_LIST_ADD_TAIL item head h = Some h' \<and> ring h' head (xs @ [item])
      \<and> (\<forall>p. p \<notin> set (head # item # xs) \<longrightarrow> h' p = h p))
    \<and> (\<forall>ys old zs. xs = ys @ old # zs \<longrightarrow>
      (\<exists>h'. SB_LIST_DELETE old h = Some h' \<and> ring h' head (ys @ zs)
        \<and> (\<forall>p. p \<notin> set (head # ys @ zs) \<longrightarrow> h' p = h p))
      \<and> (\<exists>h'. SB_LIST_REPLACE item old h = Some h' \<and> ring h' head (ys @ item # zs)
        \<and> (\<forall>p. p \<notin> set (head # ys @ item # zs) \<longrightarrow> h' p = h p)))
    \<and> SB_LIST_IS_EMPTY head h = Some (xs = [])
    \<and> SB_LIST_FOR_EACH body head h = Some (first_result body xs)
    \<and> (\<exists>h'. SB_LIST_FOR_EACH_SAFE free_item head h = Some h' \<and> ring h' head [] \<and> (\<forall>p \<in> set xs. h' p = None)
      \<and> (\<forall>p. p \<notin> set (head # xs) \<longrightarrow> h' p = h p))"
proof (intro conjI)
  show "\<forall>ys old zs. xs = ys @ old # zs \<longrightarrow>
      (\<exists>h'. SB_LIST_DELETE old h = Some h' \<and> ring h' head (ys @ zs)
        \<and> (\<forall>p. p \<notin> set (head # ys @ zs) \<longrightarrow> h' p = h p))
      \<and> (\<exists>h'. SB_LIST_REPLACE item old h = Some h' \<and> ring h' head (ys @ item # zs)
        \<and> (\<forall>p. p \<notin> set (head # ys @ item # zs) \<longrightarrow> h' p = h p))"
    using ring_delete [of h head] ring_replace [of h head] assms by blast
qed (use assms ring_add ring_add_tail ring_is_empty ring_for_each ring_free_all in simp_all)

definition sample_items :: items where
  "sample_items = [10 \<mapsto> \<lparr>next_p = 20, prev_p = 20\<rparr>, 20 \<mapsto> \<lparr>next_p = 10, prev_p = 10\<rparr>, 30 \<mapsto> \<lparr>next_p = 30, prev_p = 30\<rparr>]"

theorem list_macros_refine_witness:
  "\<exists>h'. SB_LIST_ADD_TAIL 30 10 sample_items = Some h' \<and> ring h' 10 [20, 30]
    \<and> SB_LIST_FOR_EACH (\<lambda>p. if p = 20 then Some p else None) 10 sample_items = Some (Some 20)"
proof -
  have "ring sample_items 10 [20]" "sample_items 30 = Some \<lparr>next_p = 30, prev_p = 30\<rparr>"
    by (simp_all add: sample_items_def ring_def link_def)
  from list_macros_refine [OF this, of "\<lambda>p. if p = 20 then Some p else None"] show ?thesis by auto
qed

end
