(* ===== verification/Sb_Options.thy ===== *)
theory Sb_Options
  imports Sb_List C_Strings
begin

text \<open>
  The options of sysbench (\<open>sb_options.c\<close>): a table of typed options that is filled from the
  command line and from configuration files.  The lists of options and of values are the lists
  that the rings of \<open>Sb_List\<close> represent; a loop over such a list is \<open>first_result\<close>.  A pointer to an
  option is its position, which never changes.  Allocations are taken to succeed.
\<close>

section \<open>Options\<close>

datatype sb_arg_type = SB_ARG_TYPE_NULL | SB_ARG_TYPE_BOOL | SB_ARG_TYPE_INT | SB_ARG_TYPE_SIZE
  | SB_ARG_TYPE_DOUBLE | SB_ARG_TYPE_STRING | SB_ARG_TYPE_LIST | SB_ARG_TYPE_FILE

text \<open>
  \<open>oignore\<close> marks an option that \<open>write_config\<close> has written; the mark of a value is never set and left
  out.  A value of \<open>None\<close> is the null pointer; \<open>ovalidate\<close> is the validation function, when there is one.
\<close>

record option_t =
  oname :: string
  otype :: sb_arg_type
  ovalues :: "string list"
  oignore :: bool
  ovalidate :: "(string \<Rightarrow> string option \<Rightarrow> bool) option"

type_synonym sb_options = "option_t list"

definition new_option :: "string \<Rightarrow> option_t" where
  "new_option name = \<lparr>oname = name, otype = SB_ARG_TYPE_NULL, ovalues = [], oignore = False, ovalidate = None\<rparr>"

definition upd_option :: "nat \<Rightarrow> (option_t \<Rightarrow> option_t) \<Rightarrow> sb_options \<Rightarrow> sb_options" where
  "upd_option i f opts = (if i < length opts then opts[i := f (opts ! i)] else opts)"

section \<open>Names\<close>

definition convert_dashes :: "string \<Rightarrow> string" where
  "convert_dashes s = map (\<lambda>c. if c = CHR ''-'' then CHR ''_'' else c) s"

definition is_dash :: "char \<Rightarrow> bool" where
  "is_dash c \<longleftrightarrow> c = CHR ''-'' \<or> c = CHR ''_''"

text \<open>A \<open>char\<close> as a signed number.\<close>

definition char_val :: "char \<Rightarrow> int" where
  "char_val c = (let n = of_char c :: nat in if n < 128 then int n else int n - 256)"

text \<open>\<open>opt_name_cmp\<close>; the end of a string is its zero byte.\<close>

fun opt_name_cmp :: "string \<Rightarrow> string \<Rightarrow> int" where
  "opt_name_cmp [] s2 = 0 - (case s2 of [] \<Rightarrow> 0 | c2 # _ \<Rightarrow> char_val c2)"
| "opt_name_cmp (c1 # s1) [] = char_val c1 - 0"
| "opt_name_cmp (c1 # s1) (c2 # s2) =
    (if c1 = c2 then opt_name_cmp s1 s2
     else if \<not> is_dash c1 \<or> \<not> is_dash c2 then char_val c1 - char_val c2
     else opt_name_cmp s1 s2)"

definition find_option :: "sb_options \<Rightarrow> string \<Rightarrow> nat option" where
  "find_option opts name =
    first_result (\<lambda>i. if opt_name_cmp (oname (opts ! i)) name = 0 then Some i else None) [0..<length opts]"

definition add_option :: "sb_options \<Rightarrow> string \<Rightarrow> sb_options \<times> nat" where
  "add_option opts name =
    (case find_option opts name of
       Some i \<Rightarrow> (opts, i)
     | None \<Rightarrow> (opts @ [new_option (convert_dashes name)], length opts))"

definition add_value :: "nat \<Rightarrow> string \<Rightarrow> sb_options \<Rightarrow> sb_options" where
  "add_value i v = upd_option i (\<lambda>opt. opt\<lparr>ovalues := ovalues opt @ [v]\<rparr>)"

definition free_values :: "nat \<Rightarrow> sb_options \<Rightarrow> sb_options" where
  "free_values i = upd_option i (\<lambda>opt. opt\<lparr>ovalues := []\<rparr>)"

section \<open>Configuration files\<close>

text \<open>
  A file is the list of what \<open>fgets\<close> returns.  \<open>config_values\<close> is the loop over the rest of a line
  after the delimiter: it adds values to the option, and it gives up at a quoted value without end.
\<close>

definition fgets_line :: "string \<Rightarrow> string \<times> string" where
  "fgets_line s = (let l = takeWhile (\<lambda>c. c \<noteq> CHR 0x0A) (take 255 s) in
     if length l < 255 \<and> length l < length s then (l @ [CHR 0x0A], drop (Suc (length l)) s)
     else (l, drop (length l) s))"

function (sequential) config_values :: "nat \<Rightarrow> string \<Rightarrow> sb_options \<Rightarrow> bool \<times> sb_options" where
  "config_values i [] opts = (True, opts)"
| "config_values i (c # cs) opts =
    (if is_space c then config_values i cs opts
     else if c = CHR ''#'' then (True, opts)
     else if c = CHR 0x27 \<or> c = CHR 0x22 then
       (let v = takeWhile (\<lambda>d. d \<noteq> c) cs; rest = dropWhile (\<lambda>d. d \<noteq> c) cs in
        if rest = [] then (False, opts)
        else config_values i (drop 1 (dropWhile (\<lambda>d. d \<noteq> CHR '','') (tl rest))) (add_value i v opts))
     else
       (let stop = (\<lambda>d. d = CHR '','' \<or> is_space d); v = takeWhile (\<lambda>d. \<not> stop d) (c # cs) in
        config_values i (drop 1 (dropWhile (\<lambda>d. \<not> stop d) (c # cs))) (add_value i v opts)))"
  by pat_completeness auto

lemma length_drop_dropWhile [simp]: "length (drop 1 (dropWhile P cs)) \<le> length cs"
  by (metis diff_le_self le_trans length_drop length_dropWhile_le)

lemma length_after_quote: "length (drop 1 (dropWhile P (tl (dropWhile Q cs)))) \<le> length cs"
proof -
  have "length (tl (dropWhile Q cs)) \<le> length cs"
    by (metis diff_le_self le_trans length_dropWhile_le length_tl)
  then show ?thesis using length_drop_dropWhile le_trans by blast
qed

lemma length_after_word: "length (drop 1 (dropWhile P (c # cs))) \<le> length cs"
  using length_drop_dropWhile [of P cs] by auto

termination config_values
  using length_after_quote length_after_word
  by (relation "measure (\<lambda>(i, s, opts). length s)") (auto simp: less_Suc_eq_le simp del: drop_Suc_Cons dropWhile.simps One_nat_def)

text \<open>The loop of \<open>read_config\<close> over the lines; the flag tells whether it reached the end of the file.\<close>

function read_config :: "string \<Rightarrow> sb_options \<Rightarrow> bool \<times> sb_options" where
  "read_config s opts =
    (if s = [] then (True, opts)
     else let (buf, rest) = fgets_line s in
       if CHR ''='' \<notin> set buf then read_config rest opts
       else let name = takeWhile (\<lambda>c. c \<noteq> CHR ''='') buf;
                (opts, i) = add_option opts name;
                (ok, opts) = config_values i (tl (dropWhile (\<lambda>c. c \<noteq> CHR ''='') buf)) (free_values i opts)
            in if ok then read_config rest opts else (False, opts))"
  by pat_completeness auto

lemma fgets_line_less: "s \<noteq> [] \<Longrightarrow> length (snd (fgets_line s)) < length s"
  by (cases s) (auto simp: fgets_line_def Let_def)

termination read_config
  using fgets_line_less by (relation "measure (\<lambda>(s, opts). length s)") (auto, (metis snd_conv)+)

declare read_config.simps [simp del]

section \<open>Setting an option\<close>

text \<open>\<open>strtok\<close> with the separator \<open>,\<close>: the non-empty parts.\<close>

fun strtok_loop :: "string \<Rightarrow> string \<Rightarrow> string list" where
  "strtok_loop acc [] = (if acc = [] then [] else [rev acc])"
| "strtok_loop acc (c # cs) =
    (if c = CHR '','' then (if acc = [] then [] else [rev acc]) @ strtok_loop [] cs
     else strtok_loop (c # acc) cs)"

definition tokens :: "string \<Rightarrow> string list" where
  "tokens s = strtok_loop [] s"

fun add_values :: "nat \<Rightarrow> string list \<Rightarrow> sb_options \<Rightarrow> sb_options" where
  "add_values i [] opts = opts"
| "add_values i (v # vs) opts = add_values i vs (add_value i v opts)"

text \<open>
  \<open>set_option\<close>: the table and the position of the option, \<open>None\<close> when the result is null.  \<open>files\<close>
  gives the contents of the files that can be opened.
\<close>

definition set_option :: "(string \<Rightarrow> string option) \<Rightarrow> string \<Rightarrow> string option \<Rightarrow> sb_arg_type \<Rightarrow> sb_options
    \<Rightarrow> sb_options \<times> nat option" where
  "set_option files name value type opts =
    (let (opts, i) = add_option opts name;
         opts = upd_option i (\<lambda>opt. opt\<lparr>otype := type\<rparr>) (free_values i opts) in
     if (case ovalidate (opts ! i) of None \<Rightarrow> False | Some f \<Rightarrow> \<not> f name value) then (opts, None)
     else if type \<noteq> SB_ARG_TYPE_BOOL \<and> (value = None \<or> value = Some []) then (opts, Some i)
     else case type of
       SB_ARG_TYPE_BOOL \<Rightarrow>
         if value = None \<or> value = Some ''on'' \<or> value = Some ''true'' \<or> value = Some ''1''
         then (add_value i ''on'' opts, Some i)
         else if value \<noteq> Some ''off'' \<and> value \<noteq> Some ''false'' \<and> value \<noteq> Some ''0'' then (opts, None)
         else (opts, Some i)
     | SB_ARG_TYPE_INT \<Rightarrow> (add_value i (the value) opts, Some i)
     | SB_ARG_TYPE_SIZE \<Rightarrow> (add_value i (the value) opts, Some i)
     | SB_ARG_TYPE_DOUBLE \<Rightarrow> (add_value i (the value) opts, Some i)
     | SB_ARG_TYPE_STRING \<Rightarrow> (add_value i (the value) opts, Some i)
     | SB_ARG_TYPE_LIST \<Rightarrow> (add_values i (tokens (the value)) opts, Some i)
     | SB_ARG_TYPE_FILE \<Rightarrow>
         (case files (the value) of None \<Rightarrow> opts | Some s \<Rightarrow> snd (read_config s opts), Some i)
     | SB_ARG_TYPE_NULL \<Rightarrow> (opts, None))"

text \<open>The descriptions of options that are registered with their default values.\<close>

record sb_arg_t =
  aname :: string
  avalue :: "string option"
  atype :: sb_arg_type
  avalidate :: "(string \<Rightarrow> string option \<Rightarrow> bool) option"

text \<open>\<open>sb_register_arg_set\<close>: every option gets the validation function of the first description.\<close>

fun register_loop :: "(string \<Rightarrow> string option) \<Rightarrow> (string \<Rightarrow> string option \<Rightarrow> bool) option \<Rightarrow> sb_arg_t list
    \<Rightarrow> sb_options \<Rightarrow> int \<times> sb_options" where
  "register_loop files validate [] opts = (0, opts)"
| "register_loop files validate (a # as) opts =
    (let (opts, r) = set_option files (aname a) (avalue a) (atype a) opts in
     case r of
       None \<Rightarrow> (1, opts)
     | Some i \<Rightarrow> register_loop files validate as (upd_option i (\<lambda>opt. opt\<lparr>ovalidate := validate\<rparr>) opts))"

definition sb_register_arg_set :: "(string \<Rightarrow> string option) \<Rightarrow> sb_arg_t list \<Rightarrow> sb_options \<Rightarrow> int \<times> sb_options" where
  "sb_register_arg_set files args opts =
    register_loop files (case args of [] \<Rightarrow> None | a # _ \<Rightarrow> avalidate a) args opts"

text \<open>\<open>parse_option\<close> of \<open>sysbench.c\<close>: one command-line argument \<open>name=value\<close> or \<open>name\<close>.\<close>

definition parse_option :: "(string \<Rightarrow> string option) \<Rightarrow> string \<Rightarrow> bool \<Rightarrow> sb_options \<Rightarrow> int \<times> sb_options" where
  "parse_option files arg ignore_unknown opts =
    (let name = takeWhile (\<lambda>c. c \<noteq> CHR ''='') arg;
         value = (if CHR ''='' \<in> set arg then Some (tl (dropWhile (\<lambda>c. c \<noteq> CHR ''='') arg)) else None);
         opt = find_option opts name in
     if opt \<noteq> None \<or> ignore_unknown then
       (let (opts, r) = set_option files name value
              (case opt of None \<Rightarrow> SB_ARG_TYPE_STRING | Some i \<Rightarrow> otype (opts ! i)) opts in
        (if r = None then 1 else 0, opts))
     else (1, opts))"

section \<open>Reading an option\<close>

definition sb_opt_to_flag :: "option_t \<Rightarrow> bool" where
  "sb_opt_to_flag opt = (ovalues opt \<noteq> [])"

definition sb_opt_to_string :: "option_t \<Rightarrow> string option" where
  "sb_opt_to_string opt = (case ovalues opt of [] \<Rightarrow> None | v # _ \<Rightarrow> Some v)"

definition sb_opt_to_list :: "option_t \<Rightarrow> string list" where
  "sb_opt_to_list opt = ovalues opt"

text \<open>
  \<open>strtol\<close> with base 10: the value, which stays between the bounds of a \<open>long\<close>, and the rest of the
  string, which is all of it when there is no digit.
\<close>

definition strtol :: "string \<Rightarrow> int \<times> string" where
  "strtol s =
    (let t = dropWhile is_space s;
         u = (case t of [] \<Rightarrow> [] | c # cs \<Rightarrow> if c = CHR ''-'' \<or> c = CHR ''+'' then cs else t) in
     if u = [] \<or> \<not> is_digit (hd u) then (0, s)
     else (max (- (2 ^ 63)) (min (2 ^ 63 - 1) (signed_val t)), dropWhile is_digit u))"

text \<open>\<open>sb_opt_to_int\<close>: \<open>None\<close> is the exit after an invalid value.\<close>

definition sb_opt_to_int :: "option_t \<Rightarrow> int option" where
  "sb_opt_to_int opt =
    (case ovalues opt of
       [] \<Rightarrow> Some 0
     | v # _ \<Rightarrow> let (res, rest) = strtol v in
         if rest \<noteq> [] \<or> res > 2147483647 \<or> res < - 2147483648 then None else Some res)"

text \<open>The loop of \<open>sb_opt_to_size\<close> over the characters: the number, and the character that ended it.\<close>

fun size_loop :: "bool \<Rightarrow> u64 \<Rightarrow> string \<Rightarrow> u64 \<times> char option" where
  "size_loop digits res [] = (res, None)"
| "size_loop digits res (c # cs) =
    (if is_digit c then size_loop True (res * 10 + of_nat (of_char c) - 48) cs
     else (res, if digits then Some c else None))"

definition toupper :: "char \<Rightarrow> char" where
  "toupper c = (let n = of_char c :: nat in if 97 \<le> n \<and> n \<le> 122 then char_of (n - 32) else c)"

definition sizemods :: string where
  "sizemods = ''KMGT''"

fun mult_loop :: "nat \<Rightarrow> u64 \<Rightarrow> u64" where
  "mult_loop 0 res = res"
| "mult_loop (Suc n) res = mult_loop n (res * 1024)"

fun mod_index :: "char \<Rightarrow> string \<Rightarrow> nat \<Rightarrow> nat option" where
  "mod_index c [] n = None"
| "mod_index c (m # ms) n = (if c = m then Some n else mod_index c ms (Suc n))"

definition sb_opt_to_size :: "option_t \<Rightarrow> u64" where
  "sb_opt_to_size opt =
    (case ovalues opt of
       [] \<Rightarrow> 0
     | v # _ \<Rightarrow>
       (case size_loop False 0 v of
          (res, None) \<Rightarrow> res
        | (res, Some modc) \<Rightarrow>
            (case mod_index (toupper modc) sizemods 0 of
               Some n \<Rightarrow> mult_loop (Suc n) res
             | None \<Rightarrow> 0)))"

definition get_value :: "'a \<Rightarrow> (option_t \<Rightarrow> 'a) \<Rightarrow> sb_options \<Rightarrow> string \<Rightarrow> 'a" where
  "get_value none f opts name = (case find_option opts name of None \<Rightarrow> none | Some i \<Rightarrow> f (opts ! i))"

definition sb_get_value_flag :: "sb_options \<Rightarrow> string \<Rightarrow> bool" where
  "sb_get_value_flag = get_value False sb_opt_to_flag"

definition sb_get_value_int :: "sb_options \<Rightarrow> string \<Rightarrow> int option" where
  "sb_get_value_int = get_value (Some 0) sb_opt_to_int"

definition sb_get_value_size :: "sb_options \<Rightarrow> string \<Rightarrow> u64" where
  "sb_get_value_size = get_value 0 sb_opt_to_size"

definition sb_get_value_string :: "sb_options \<Rightarrow> string \<Rightarrow> string option" where
  "sb_get_value_string = get_value None sb_opt_to_string"

definition sb_get_value_list :: "sb_options \<Rightarrow> string \<Rightarrow> string list option" where
  "sb_get_value_list = get_value None (\<lambda>opt. Some (sb_opt_to_list opt))"

text \<open>
  \<open>sb_opt_copy\<close>: no result when the value that is handed over has just been freed, which is so when
  the two names are of the same option.
\<close>

definition sb_opt_copy :: "(string \<Rightarrow> string option) \<Rightarrow> string \<Rightarrow> string \<Rightarrow> sb_options \<Rightarrow> (bool \<times> sb_options) option" where
  "sb_opt_copy files to from opts =
    (case find_option opts from of
       None \<Rightarrow> Some (False, opts)
     | Some i \<Rightarrow>
         if find_option opts to = Some i \<and> ovalues (opts ! i) \<noteq> [] then None
         else Some (True, fst (set_option files to (sb_opt_to_string (opts ! i)) (otype (opts ! i)) opts)))"


section \<open>Names are equal up to dashes\<close>

definition c_string :: "string \<Rightarrow> bool" where
  "c_string s \<longleftrightarrow> CHR 0x00 \<notin> set s"

lemma char_val_inj: "char_val a = char_val b \<longleftrightarrow> a = b"
proof
  assume v: "char_val a = char_val b"
  have "x = y" if "x < 256" "y < 256" "(if x < 128 then int x else int x - 256) = (if y < 128 then int y else int y - 256)"
    for x y :: nat using that by (auto split: if_splits)
  then have "of_char a = (of_char b :: nat)"
    using v nat_of_char_less_256 unfolding char_val_def Let_def by blast
  then show "a = b" by (simp only: of_char_eq_iff)
qed simp

lemma char_val_0: "char_val c = 0 \<longleftrightarrow> c = CHR 0x00"
  using char_val_inj [of c "CHR 0x00"] by (simp add: char_val_def)

lemma opt_name_cmp_zero:
  assumes "c_string s1" "c_string s2"
  shows "opt_name_cmp s1 s2 = 0 \<longleftrightarrow> convert_dashes s1 = convert_dashes s2"
  using assms
proof (induction s1 s2 rule: opt_name_cmp.induct)
  case (1 s2)
  then show ?case by (cases s2) (auto simp: c_string_def convert_dashes_def char_val_0)
next
  case (3 c1 s1 c2 s2)
  then show ?case
    using char_val_inj [of c1 c2] by (auto simp: c_string_def convert_dashes_def is_dash_def)
qed (auto simp: c_string_def convert_dashes_def char_val_0)

section \<open>The table\<close>

text \<open>The stored names have no dashes and no two are equal.\<close>

definition names_ok :: "sb_options \<Rightarrow> bool" where
  "names_ok opts \<longleftrightarrow> distinct (map oname opts) \<and> (\<forall>opt \<in> set opts. c_string (oname opt) \<and> convert_dashes (oname opt) = oname opt)"

lemma convert_dashes_idem [simp]: "convert_dashes (convert_dashes s) = convert_dashes s"
  by (simp add: convert_dashes_def)

lemma c_string_convert [simp]: "c_string (convert_dashes s) = c_string s"
  by (auto simp: c_string_def convert_dashes_def)

lemma first_result_Some:
  "first_result body xs = Some r \<Longrightarrow> \<exists>x \<in> set xs. body x = Some r"
  by (induction xs) (auto split: option.splits)

lemma first_result_None: "first_result body xs = None \<longleftrightarrow> (\<forall>x \<in> set xs. body x = None)"
  by (induction xs) (auto split: option.splits)

lemma find_option_Some:
  assumes "names_ok opts" "c_string name"
  shows "find_option opts name = Some i \<longleftrightarrow> i < length opts \<and> oname (opts ! i) = convert_dashes name"
proof -
  have cmp: "opt_name_cmp (oname (opts ! j)) name = 0 \<longleftrightarrow> oname (opts ! j) = convert_dashes name" if "j < length opts" for j
    using opt_name_cmp_zero [of "oname (opts ! j)" name] assms that by (auto simp: names_ok_def)
  show ?thesis
  proof
    assume "find_option opts name = Some i"
    then show "i < length opts \<and> oname (opts ! i) = convert_dashes name"
      unfolding find_option_def using cmp by (auto dest!: first_result_Some split: if_splits)
  next
    assume i: "i < length opts \<and> oname (opts ! i) = convert_dashes name"
    then have "find_option opts name \<noteq> None"
      unfolding find_option_def first_result_None using cmp by force
    then obtain j where j: "find_option opts name = Some j" by blast
    then have "j < length opts" "oname (opts ! j) = convert_dashes name"
      unfolding find_option_def using cmp by (auto dest!: first_result_Some split: if_splits)
    moreover have "\<forall>i < length opts. \<forall>j < length opts. i \<noteq> j \<longrightarrow> oname (opts ! i) \<noteq> oname (opts ! j)"
      using assms(1) by (simp add: names_ok_def distinct_conv_nth)
    ultimately have "j = i" using i by metis
    then show "find_option opts name = Some i" using j by simp
  qed
qed

lemma find_option_None:
  assumes "names_ok opts" "c_string name"
  shows "find_option opts name = None \<longleftrightarrow> convert_dashes name \<notin> oname ` set opts"
  using find_option_Some [OF assms]
  by (metis (no_types, lifting) image_iff in_set_conv_nth nth_mem option.exhaust option.distinct(1))

lemma add_option_ok:
  assumes "names_ok opts" "c_string name" "add_option opts name = (opts', i)"
  shows "names_ok opts' \<and> i < length opts' \<and> oname (opts' ! i) = convert_dashes name
    \<and> (opts' = opts \<or> opts' = opts @ [new_option (convert_dashes name)] \<and> i = length opts)"
proof (cases "find_option opts name")
  case None
  then show ?thesis
    using assms find_option_None [OF assms(1,2)] by (auto simp: add_option_def names_ok_def new_option_def)
next
  case (Some j)
  then show ?thesis using assms find_option_Some [OF assms(1,2), of j] by (auto simp: add_option_def)
qed

text \<open>Changing the values, the type or the validation of an option keeps the names.\<close>

definition same_names :: "sb_options \<Rightarrow> sb_options \<Rightarrow> bool" where
  "same_names opts opts' \<longleftrightarrow> map oname opts' = map oname opts"

lemma same_names_upd: "(\<And>opt. oname (f opt) = oname opt) \<Longrightarrow> same_names opts (upd_option i f opts)"
  by (auto simp: same_names_def upd_option_def list_eq_iff_nth_eq nth_list_update)

lemma names_ok_same: "same_names opts opts' \<Longrightarrow> names_ok opts' = names_ok opts"
proof -
  assume s: "same_names opts opts'"
  have "names_ok os \<longleftrightarrow> distinct (map oname os) \<and> (\<forall>n \<in> set (map oname os). c_string n \<and> convert_dashes n = n)" for os
    by (simp add: names_ok_def)
  then show ?thesis using s unfolding same_names_def by metis
qed


section \<open>What is stored\<close>

text \<open>The values that an option of a type may have.\<close>

definition typed_values :: "sb_arg_type \<Rightarrow> string list \<Rightarrow> bool" where
  "typed_values t vs \<longleftrightarrow> (case t of
     SB_ARG_TYPE_BOOL \<Rightarrow> vs = [] \<or> vs = [''on'']
   | SB_ARG_TYPE_INT \<Rightarrow> vs = [] \<or> (\<exists>v. v \<noteq> [] \<and> vs = [v])
   | SB_ARG_TYPE_SIZE \<Rightarrow> vs = [] \<or> (\<exists>v. v \<noteq> [] \<and> vs = [v])
   | SB_ARG_TYPE_DOUBLE \<Rightarrow> vs = [] \<or> (\<exists>v. v \<noteq> [] \<and> vs = [v])
   | SB_ARG_TYPE_STRING \<Rightarrow> vs = [] \<or> (\<exists>v. v \<noteq> [] \<and> vs = [v])
   | SB_ARG_TYPE_LIST \<Rightarrow> (\<forall>v \<in> set vs. v \<noteq> [] \<and> CHR '','' \<notin> set v)
   | _ \<Rightarrow> vs = [])"

text \<open>The values that a successful call stores.\<close>

definition stored :: "sb_arg_type \<Rightarrow> string option \<Rightarrow> string list" where
  "stored t value = (case t of
     SB_ARG_TYPE_BOOL \<Rightarrow> if value \<in> {None, Some ''on'', Some ''true'', Some ''1''} then [''on''] else []
   | SB_ARG_TYPE_LIST \<Rightarrow> (case value of None \<Rightarrow> [] | Some v \<Rightarrow> tokens v)
   | _ \<Rightarrow> (case value of None \<Rightarrow> [] | Some v \<Rightarrow> if v = [] then [] else [v]))"

lemma strtok_loop_parts:
  "CHR '','' \<notin> set acc \<Longrightarrow> v \<in> set (strtok_loop acc s) \<Longrightarrow> v \<noteq> [] \<and> CHR '','' \<notin> set v"
  by (induction acc s rule: strtok_loop.induct) (auto split: if_splits)

lemma tokens_parts: "\<forall>v \<in> set (tokens s). v \<noteq> [] \<and> CHR '','' \<notin> set v"
  using strtok_loop_parts [of "[]" _ s] by (auto simp: tokens_def)

lemma tokens_Nil [simp]: "tokens [] = []"
  by (simp add: tokens_def)

lemma upd_option_at: "i < length opts \<Longrightarrow> upd_option i f (opts[i := x]) = opts[i := f x]"
  by (simp add: upd_option_def)

lemma add_values_at:
  "i < length opts \<Longrightarrow> add_values i vs (opts[i := x]) = opts[i := x\<lparr>ovalues := ovalues x @ vs\<rparr>]"
  by (induction vs arbitrary: x) (simp_all add: add_value_def upd_option_at)

lemma set_option_result:
  assumes "add_option opts name = (opts1, i)" "i < length opts1" "t \<noteq> SB_ARG_TYPE_FILE"
  shows "\<exists>vs. fst (set_option files name value t opts) = opts1[i := (opts1 ! i)\<lparr>otype := t, ovalues := vs\<rparr>]
    \<and> typed_values t vs
    \<and> (snd (set_option files name value t opts) = None
       \<or> snd (set_option files name value t opts) = Some i \<and> vs = stored t value)"
proof -
  define x where "x = (opts1 ! i)\<lparr>otype := t, ovalues := []\<rparr>"
  have start: "upd_option i (\<lambda>opt. opt\<lparr>otype := t\<rparr>) (free_values i opts1) = opts1[i := x]"
    using assms(2) by (cases "opts1 ! i") (simp add: upd_option_def free_values_def x_def)
  have one: "add_value i v (opts1[i := x]) = opts1[i := x\<lparr>ovalues := [v]\<rparr>]" for v
    using assms(2) by (simp add: add_value_def upd_option_at x_def)
  have many: "add_values i vs (opts1[i := x]) = opts1[i := x\<lparr>ovalues := vs\<rparr>]" for vs
    using add_values_at [OF assms(2), of vs x] by (simp add: x_def)
  have val: "x\<lparr>ovalues := vs\<rparr> = (opts1 ! i)\<lparr>otype := t, ovalues := vs\<rparr>" "x\<lparr>ovalues := []\<rparr> = x" for vs
    by (simp_all add: x_def)
  show ?thesis
  proof (cases "case ovalidate x of None \<Rightarrow> False | Some f \<Rightarrow> \<not> f name value")
    case True
    then show ?thesis
      using assms(1,2) start val(1) [of "[]", symmetric] val(2)
      by (intro exI [of _ "[]"]) (simp add: set_option_def Let_def typed_values_def split: sb_arg_type.split)
  next
    case False
    then show ?thesis
      using assms start one many val tokens_parts
      by (cases t; cases "value")
        (auto simp: set_option_def Let_def typed_values_def stored_def split: if_splits)
  qed
qed


section \<open>The invariant of the table\<close>

definition table_ok :: "sb_options \<Rightarrow> bool" where
  "table_ok opts \<longleftrightarrow> names_ok opts \<and> (\<forall>opt \<in> set opts. typed_values (otype opt) (ovalues opt))"

text \<open>
  A call reads a configuration file when it sets an option of type \<open>FILE\<close> to a non-empty name of a
  file that can be opened; the file may then store any values in any options.
\<close>

definition reads_file :: "(string \<Rightarrow> string option) \<Rightarrow> sb_arg_type \<Rightarrow> string option \<Rightarrow> bool" where
  "reads_file files t value \<longleftrightarrow>
    t = SB_ARG_TYPE_FILE \<and> (case value of None \<Rightarrow> False | Some v \<Rightarrow> v \<noteq> [] \<and> files v \<noteq> None)"

text \<open>The name, the value and the type that a command-line argument stands for.\<close>

definition arg_name :: "string \<Rightarrow> string" where
  "arg_name arg = takeWhile (\<lambda>c. c \<noteq> CHR ''='') arg"

definition arg_value :: "string \<Rightarrow> string option" where
  "arg_value arg = (if CHR ''='' \<in> set arg then Some (tl (dropWhile (\<lambda>c. c \<noteq> CHR ''='') arg)) else None)"

definition arg_type :: "sb_options \<Rightarrow> string \<Rightarrow> sb_arg_type" where
  "arg_type opts arg =
    (case find_option opts (arg_name arg) of None \<Rightarrow> SB_ARG_TYPE_STRING | Some i \<Rightarrow> otype (opts ! i))"

lemma parse_option_cases:
  "snd (parse_option files arg ignore opts) = opts
   \<or> snd (parse_option files arg ignore opts) =
       fst (set_option files (arg_name arg) (arg_value arg) (arg_type opts arg) opts)"
  by (auto simp: parse_option_def arg_name_def arg_value_def arg_type_def Let_def split: prod.split option.split)

lemma c_string_before: "c_string s \<Longrightarrow> c_string (takeWhile P s)"
  unfolding c_string_def by (meson set_takeWhileD)

lemma set_option_file:
  assumes "add_option opts name = (opts1, i)" "i < length opts1" "\<not> reads_file files SB_ARG_TYPE_FILE value"
  shows "fst (set_option files name value SB_ARG_TYPE_FILE opts) =
    opts1[i := (opts1 ! i)\<lparr>otype := SB_ARG_TYPE_FILE, ovalues := []\<rparr>]"
proof -
  have start: "upd_option i (\<lambda>opt. opt\<lparr>otype := SB_ARG_TYPE_FILE\<rparr>) (free_values i opts1) =
      opts1[i := (opts1 ! i)\<lparr>otype := SB_ARG_TYPE_FILE, ovalues := []\<rparr>]"
    using assms(2) by (cases "opts1 ! i") (simp add: upd_option_def free_values_def)
  show ?thesis using assms(1,3) start
    by (auto simp: set_option_def Let_def reads_file_def split: option.splits)
qed

lemma add_option_table:
  assumes "table_ok opts" "c_string name" "add_option opts name = (opts1, i)"
  shows "table_ok opts1"
  using add_option_ok [OF _ assms(2,3)] assms(1)
  by (auto simp: table_ok_def new_option_def typed_values_def)

lemma set_option_table:
  assumes "table_ok opts" "c_string name" "\<not> reads_file files t value"
  shows "table_ok (fst (set_option files name value t opts))"
proof -
  obtain opts1 i where a: "add_option opts name = (opts1, i)" by fastforce
  have ok: "names_ok opts" using assms(1) by (simp add: table_ok_def)
  have i: "i < length opts1" using add_option_ok [OF ok assms(2) a] by simp
  obtain vs where vs: "fst (set_option files name value t opts) = opts1[i := (opts1 ! i)\<lparr>otype := t, ovalues := vs\<rparr>]"
    "typed_values t vs"
  proof (cases "t = SB_ARG_TYPE_FILE")
    case True
    then show ?thesis using set_option_file [OF a i] assms(3) that [of "[]"] by (simp add: typed_values_def)
  next
    case False
    then show ?thesis using set_option_result [OF a i] that by blast
  qed
  have t1: "table_ok opts1" using add_option_table [OF assms(1,2) a] .
  have "same_names opts1 (opts1[i := (opts1 ! i)\<lparr>otype := t, ovalues := vs\<rparr>])"
    using i by (auto simp: same_names_def list_eq_iff_nth_eq nth_list_update)
  then show ?thesis
    unfolding vs(1) using t1 vs(2) names_ok_same i
    by (auto simp: table_ok_def dest!: set_update_subset_insert [THEN subsetD])
qed

lemma upd_validate_table:
  assumes "table_ok opts"
  shows "table_ok (upd_option i (\<lambda>opt. opt\<lparr>ovalidate := v\<rparr>) opts)"
  using assms names_ok_same [OF same_names_upd [of "\<lambda>opt. opt\<lparr>ovalidate := v\<rparr>" opts i]]
  by (auto simp: table_ok_def upd_option_def dest!: set_update_subset_insert [THEN subsetD])

lemma register_loop_table:
  assumes "table_ok opts" "\<forall>a \<in> set args. c_string (aname a) \<and> \<not> reads_file files (atype a) (avalue a)"
  shows "table_ok (snd (register_loop files validate args opts))"
  using assms
proof (induction args arbitrary: opts)
  case (Cons a args)
  have "table_ok (fst (set_option files (aname a) (avalue a) (atype a) opts))"
    using Cons.prems by (intro set_option_table) auto
  moreover obtain opts1 r where "set_option files (aname a) (avalue a) (atype a) opts = (opts1, r)" by fastforce
  ultimately show ?case
    using Cons by (cases r) (auto simp: upd_validate_table)
qed simp

subsection \<open>Names, whatever is read\<close>

lemma add_value_names: "map oname (add_value i v opts) = map oname opts"
  unfolding add_value_def same_names_def [symmetric] by (intro same_names_upd) simp

lemma config_values_names: "same_names opts (snd (config_values i s opts))"
  unfolding same_names_def
proof (induction i s opts rule: config_values.induct)
  case (2 i c cs opts)
  then show ?case
    by (auto simp: Let_def add_value_names simp del: drop_Suc_Cons dropWhile.simps takeWhile.simps One_nat_def)
qed simp

lemma free_values_names: "same_names opts (free_values i opts)"
  unfolding free_values_def by (intro same_names_upd) simp

lemma fgets_line_c_string:
  assumes "c_string s" shows "c_string (fst (fgets_line s))" "c_string (snd (fgets_line s))"
  using assms by (auto simp: fgets_line_def Let_def c_string_def dest: set_takeWhileD in_set_takeD in_set_dropD)

lemma read_config_names:
  assumes "names_ok opts" "c_string s"
  shows "names_ok (snd (read_config s opts))"
  using assms
proof (induction s opts rule: read_config.induct)
  case (1 s opts)
  obtain buf rest where l: "fgets_line s = (buf, rest)" by fastforce
  have cb: "c_string buf" "c_string rest" using fgets_line_c_string [OF "1.prems"(2)] l by simp_all
  let ?name = "takeWhile (\<lambda>c. c \<noteq> CHR ''='') buf"
  obtain opts1 i where a: "add_option opts ?name = (opts1, i)" by fastforce
  obtain ok opts2 where v: "config_values i (tl (dropWhile (\<lambda>c. c \<noteq> CHR ''='') buf)) (free_values i opts1) = (ok, opts2)"
    by fastforce
  have "names_ok opts1" using add_option_ok [OF "1.prems"(1) c_string_before [OF cb(1)] a] by simp
  then have n2: "names_ok opts2"
    using names_ok_same [OF free_values_names] names_ok_same [OF config_values_names] v by (metis snd_conv)
  show ?case
  proof (cases "s = []")
    case True
    then show ?thesis using "1.prems"(1) by (simp add: read_config.simps)
  next
    case False
    show ?thesis
    proof (cases "CHR ''='' \<in> set buf")
      case True
      then show ?thesis using False n2 cb(2) "1.IH"(2) [OF False l [symmetric] refl] l a v
        by (subst read_config.simps) (auto simp: Let_def)
    next
      case nv: False
      then show ?thesis using False cb(2) "1.IH"(1) [OF False l [symmetric] refl] "1.prems"(1) l
        by (subst read_config.simps) simp
    qed
  qed
qed

lemma set_option_names:
  assumes "names_ok opts" "c_string name" "\<forall>f s. files f = Some s \<longrightarrow> c_string s"
  shows "names_ok (fst (set_option files name value t opts))"
proof -
  obtain opts1 i where a: "add_option opts name = (opts1, i)" by fastforce
  have i: "i < length opts1" "names_ok opts1" using add_option_ok [OF assms(1,2) a] by simp_all
  have same: "names_ok (opts1[i := (opts1 ! i)\<lparr>otype := t, ovalues := vs\<rparr>])" for vs
    using i names_ok_same [of opts1 "opts1[i := (opts1 ! i)\<lparr>otype := t, ovalues := vs\<rparr>]"]
    by (auto simp: same_names_def list_eq_iff_nth_eq nth_list_update)
  show ?thesis
  proof (cases "t = SB_ARG_TYPE_FILE")
    case False
    then show ?thesis using set_option_result [OF a i(1) False, of files "value"] same by metis
  next
    case True
    let ?o = "upd_option i (\<lambda>opt. opt\<lparr>otype := SB_ARG_TYPE_FILE\<rparr>) (free_values i opts1)"
    have "same_names opts1 ?o"
      using free_values_names [of opts1 i] same_names_upd [of "\<lambda>opt. opt\<lparr>otype := SB_ARG_TYPE_FILE\<rparr>" "free_values i opts1" i]
      by (simp add: same_names_def)
    then have "names_ok ?o" using names_ok_same i(2) by blast
    then show ?thesis using True a assms(3) read_config_names [of ?o]
      by (auto simp: set_option_def Let_def split: option.splits)
  qed
qed

text \<open>
  C39. The table of options is well-typed.  Registering descriptions of options, setting an option and
  parsing a command-line argument keep that the names are unique up to dashes, that a flag has no
  value or the value \<open>on\<close>, that an option with a number or a string has at most one value, which is
  not empty, that the parts of a list are not empty and have no commas, and that an option of type
  \<open>FILE\<close> (such as \<open>config-file\<close>, which is always registered) has no value, also when the call fails;
  the exception is a call that reads a configuration file, which stores values without looking at
  types, and which keeps the names unique all the same.
\<close>
theorem options_well_typed:
  assumes "table_ok opts" and "c_string name" and "\<forall>f s. files f = Some s \<longrightarrow> c_string s"
  shows "(\<not> reads_file files t value \<longrightarrow> table_ok (fst (set_option files name value t opts)))
    \<and> (\<not> reads_file files (arg_type opts name) (arg_value name) \<longrightarrow> table_ok (snd (parse_option files name ignore opts)))
    \<and> ((\<forall>a \<in> set args. c_string (aname a) \<and> \<not> reads_file files (atype a) (avalue a)) \<longrightarrow>
        table_ok (snd (sb_register_arg_set files args opts)))
    \<and> names_ok (fst (set_option files name value t opts)) \<and> names_ok (snd (parse_option files name ignore opts))"
proof -
  have ok: "names_ok opts" using assms(1) by (simp add: table_ok_def)
  have n: "c_string (arg_name name)" unfolding arg_name_def by (rule c_string_before [OF assms(2)])
  note parse = parse_option_cases [of files name ignore opts]
  show ?thesis
  proof (intro conjI impI)
    assume "\<not> reads_file files t value"
    then show "table_ok (fst (set_option files name value t opts))" by (rule set_option_table [OF assms(1,2)])
  next
    assume "\<not> reads_file files (arg_type opts name) (arg_value name)"
    then show "table_ok (snd (parse_option files name ignore opts))"
      using parse set_option_table [OF assms(1) n] assms(1) by metis
  next
    assume "\<forall>a \<in> set args. c_string (aname a) \<and> \<not> reads_file files (atype a) (avalue a)"
    then show "table_ok (snd (sb_register_arg_set files args opts))"
      unfolding sb_register_arg_set_def by (rule register_loop_table [OF assms(1)])
  next
    show "names_ok (fst (set_option files name value t opts))" by (rule set_option_names [OF ok assms(2,3)])
    show "names_ok (snd (parse_option files name ignore opts))"
      using parse set_option_names [OF ok n assms(3)] ok by metis
  qed
qed

text \<open>The table that \<open>sysbench.c\<close> starts with has the option \<open>config-file\<close> of type \<open>FILE\<close>.\<close>

definition two_args :: "sb_arg_t list" where
  "two_args = [\<lparr>aname = ''config-file'', avalue = None, atype = SB_ARG_TYPE_FILE, avalidate = None\<rparr>,
     \<lparr>aname = ''threads'', avalue = Some ''1'', atype = SB_ARG_TYPE_INT, avalidate = None\<rparr>]"

theorem options_well_typed_witness:
  "let opts = snd (sb_register_arg_set (\<lambda>f. None) two_args []) in
     map otype opts = [SB_ARG_TYPE_FILE, SB_ARG_TYPE_INT] \<and> table_ok opts
     \<and> table_ok (snd (parse_option (\<lambda>f. None) ''threads=4'' False opts))"
proof -
  let ?opts = "snd (sb_register_arg_set (\<lambda>f. None) two_args [])"
  have o: "?opts = [\<lparr>oname = ''config_file'', otype = SB_ARG_TYPE_FILE, ovalues = [], oignore = False, ovalidate = None\<rparr>,
      \<lparr>oname = ''threads'', otype = SB_ARG_TYPE_INT, ovalues = [''1''], oignore = False, ovalidate = None\<rparr>]"
    by (simp add: two_args_def sb_register_arg_set_def set_option_def add_option_def find_option_def new_option_def
        convert_dashes_def upd_option_def free_values_def add_value_def is_dash_def char_val_def Let_def)
  have "table_ok []" "c_string ''x''" "c_string ''threads=4''" by (simp_all add: table_ok_def names_ok_def c_string_def)
  moreover have "\<forall>a \<in> set two_args. c_string (aname a) \<and> \<not> reads_file (\<lambda>f. None) (atype a) (avalue a)"
    by (simp add: two_args_def c_string_def reads_file_def)
  ultimately have "table_ok ?opts" using options_well_typed [of "[]" "''x''" "\<lambda>f. None"] by blast
  moreover from this have "table_ok (snd (parse_option (\<lambda>f. None) ''threads=4'' False ?opts))"
    using options_well_typed [of ?opts "''threads=4''" "\<lambda>f. None"] by (simp add: reads_file_def c_string_def split: option.split)
  ultimately show ?thesis using o by (simp add: Let_def)
qed



section \<open>Numbers\<close>

lemma size_loop_digits:
  assumes "list_all is_digit s" "s \<noteq> [] \<or> d" "rest = [] \<or> \<not> is_digit (hd rest)"
  shows "size_loop d (of_nat n) (s @ rest) = (of_nat (digits_val n s), case rest of [] \<Rightarrow> None | c # _ \<Rightarrow> Some c)"
  using assms
proof (induction s arbitrary: d n)
  case Nil
  then show ?case by (cases rest) auto
next
  case (Cons c s)
  have "48 \<le> (of_char c :: nat)" using Cons.prems(1) by (simp add: is_digit_def)
  then have e: "of_nat n * 10 + of_nat (of_char c) - 48 = (of_nat (10 * n + (of_char c - 48)) :: u64)"
    by (simp add: of_nat_diff algebra_simps)
  have "size_loop d (of_nat n) ((c # s) @ rest) = size_loop True (of_nat n * 10 + of_nat (of_char c) - 48) (s @ rest)"
    using Cons.prems(1) by simp
  also have "\<dots> = size_loop True (of_nat (10 * n + (of_char c - 48))) (s @ rest)" unfolding e ..
  finally show ?case using Cons.IH [of True "10 * n + (of_char c - 48)"] Cons.prems by simp
qed

lemma mult_loop_power: "mult_loop k res = res * 1024 ^ k"
  by (induction k arbitrary: res) (simp_all add: algebra_simps)

lemma strtol_show:
  "strtol (show_int v) = (max (- (2 ^ 63)) (min (2 ^ 63 - 1) v), [])"
proof (cases "v < 0")
  case True
  obtain c cs where c: "show_nat (nat (- v)) = c # cs" "is_digit c" using show_nat_Cons by blast
  have "list_all is_digit (c # cs)" "digits_val 0 (c # cs) = nat (- v)" using show_nat_digits [of "nat (- v)"] c(1) by auto
  then show ?thesis
    using True c by (auto simp: strtol_def show_int_def is_space_def dropWhile_eq_Nil_conv list_all_iff)
next
  case False
  obtain c cs where c: "show_nat (nat v) = c # cs" "is_digit c" using show_nat_Cons by blast
  have d: "list_all is_digit (c # cs)" "digits_val 0 (c # cs) = nat v" using show_nat_digits [of "nat v"] c(1) by auto
  have "dropWhile is_space (c # cs) = c # cs" "c \<noteq> CHR ''-''" "c \<noteq> CHR ''+''" using is_digit_not_special [OF c(2)] by simp_all
  then show ?thesis
    using False c d by (simp add: strtol_def show_int_def list_all_iff)
qed

text \<open>
  C40. Numbers are read as they are printed.  \<open>sb_opt_to_int\<close> of a printed integer is that integer
  when it fits into an \<open>int\<close>, and otherwise the program exits; \<open>sb_opt_to_size\<close> of a printed number
  is the number modulo \<open>2 ^ 64\<close>, with a unit \<open>K\<close>, \<open>M\<close>, \<open>G\<close> or \<open>T\<close> in either case the number times the power
  of 1024, whatever follows the unit, and with any other character after the number it is 0.
\<close>
theorem numbers_read_back:
  shows "sb_opt_to_int (new_option n\<lparr>ovalues := [show_int v]\<rparr>) = (if - (2 ^ 31) \<le> v \<and> v < 2 ^ 31 then Some v else None)
    \<and> sb_opt_to_size (new_option n\<lparr>ovalues := [show_nat k]\<rparr>) = of_nat k
    \<and> (\<not> is_digit c \<and> c_string (c # rest) \<longrightarrow> sb_opt_to_size (new_option n\<lparr>ovalues := [show_nat k @ c # rest]\<rparr>) =
         (if toupper c = CHR ''K'' then of_nat (k * 1024)
          else if toupper c = CHR ''M'' then of_nat (k * 1024 ^ 2)
          else if toupper c = CHR ''G'' then of_nat (k * 1024 ^ 3)
          else if toupper c = CHR ''T'' then of_nat (k * 1024 ^ 4) else 0))"
proof (intro conjI impI)
  show "sb_opt_to_int (new_option n\<lparr>ovalues := [show_int v]\<rparr>) = (if - (2 ^ 31) \<le> v \<and> v < 2 ^ 31 then Some v else None)"
    by (auto simp: sb_opt_to_int_def strtol_show)
  have s: "size_loop False 0 (show_nat k @ r) = (of_nat k, case r of [] \<Rightarrow> None | c # _ \<Rightarrow> Some c)"
    if "r = [] \<or> \<not> is_digit (hd r)" for r
    using size_loop_digits [of "show_nat k" False r 0] show_nat_digits [of k] that by simp
  show "sb_opt_to_size (new_option n\<lparr>ovalues := [show_nat k]\<rparr>) = of_nat k"
    using s [of "[]"] by (simp add: sb_opt_to_size_def)
  assume "\<not> is_digit c \<and> c_string (c # rest)"
  then show "sb_opt_to_size (new_option n\<lparr>ovalues := [show_nat k @ c # rest]\<rparr>) =
         (if toupper c = CHR ''K'' then of_nat (k * 1024)
          else if toupper c = CHR ''M'' then of_nat (k * 1024 ^ 2)
          else if toupper c = CHR ''G'' then of_nat (k * 1024 ^ 3)
          else if toupper c = CHR ''T'' then of_nat (k * 1024 ^ 4) else 0)"
    using s [of "c # rest"] by (simp add: sb_opt_to_size_def sizemods_def mult_loop_power del: mult_loop.simps)
qed

theorem numbers_read_back_witness:
  "sb_opt_to_size (new_option ''memory''\<lparr>ovalues := [show_nat 64 @ CHR ''k'' # ''iB'']\<rparr>) = 65536"
proof -
  have "\<not> is_digit (CHR ''k'') \<and> c_string (CHR ''k'' # ''iB'')" "toupper (CHR ''k'') = CHR ''K''" by (simp add: is_digit_def c_string_def, code_simp)
  then show ?thesis using numbers_read_back [where n = "''memory''" and v = 0 and k = 64 and c = "CHR ''k''" and rest = "''iB''"] by simp
qed

section \<open>Copying a flag\<close>

text \<open>A flag that is off is copied as a flag that is on: its missing value means \<open>on\<close>.\<close>

lemma copy_of_off_flag:
  assumes "find_option opts from = Some i" "otype (opts ! i) = SB_ARG_TYPE_BOOL" "ovalues (opts ! i) = []"
    "add_option opts to = (opts1, k)" "k < length opts1" "ovalidate (opts1 ! k) = None"
  shows "\<exists>opts'. sb_opt_copy files to from opts = Some (True, opts') \<and> sb_opt_to_flag (opts' ! k)"
  using assms
  by (auto simp: sb_opt_copy_def set_option_def Let_def sb_opt_to_string_def sb_opt_to_flag_def upd_option_def
      free_values_def add_value_def)

text \<open>A configuration file does not look at types: \<open>debug=off\<close> gives the flag a value, which turns it on.\<close>

lemma config_off_is_on:
  "sb_get_value_flag (snd (read_config ''debug=off'' (fst (set_option (\<lambda>f. None) ''debug'' (Some ''off'') SB_ARG_TYPE_BOOL [])))) ''debug''"
  by (simp add: read_config.simps fgets_line_def set_option_def add_option_def find_option_def new_option_def convert_dashes_def
      upd_option_def free_values_def add_value_def sb_get_value_flag_def get_value_def sb_opt_to_flag_def is_space_def Let_def)

end
