(* ===== verification/Spec2Isabelle.thy ===== *)
theory Spec2Isabelle
  imports Btree_Driver Btree_Print Input_Pages Fill_Programs Read_Interrupts XS_Grid XS_Sort
    Cube_Loop Sb_Barrier Sb_Counter Sb_Options
begin

text \<open>
  A verification development for the C programs of the nuKSM artifact.  The artifact evaluates a
  kernel that merges identical memory pages across NUMA nodes; the kernel is a submodule that the
  repository does not contain, so the development is about the programs whose memory it merges:
  the workloads that fill memory in a known way and the benchmarks that run on top of it.  Every
  definition translates the lines of the source that the manifest names.

  \<^bold>\<open>The programs and their theories.\<close>

  \<^item> Shared: \<open>Bench_Prelude\<close> holds C integers as words and arrays with checked reads and writes;
    \<open>C_Strings\<close> strings and the library functions that read numbers; \<open>Page_Memory\<close> holds anonymous mappings, the fill loop all workloads contain, and pages.

  \<^item> \<open>Input_Pages\<close>: \<open>evaluation_script/helpers/codes/basic-inputpages-pin.c\<close>.  \<open>main_step\<close> is one
    statement of \<open>main\<close> on the record \<open>proc\<close> (the locals, the memory, the calls made), \<open>fill_step\<close>
    one iteration of its loop, \<open>run_main\<close> a run of \<open>k\<close> steps.  \<open>atoi\<close> follows the C standard.
    Shown: every run settles in one of four ways, the exact memory and calls of a populated
    process, memory safety of every intermediate state, when two pages are equal, the bounds of
    the size computation, the error path of \<open>mmap\<close>, and that printed arguments are read back.

  \<^item> \<open>Fill_Programs\<close>: \<open>benchmarks/helperPrograms\<close> (\<open>allocate\<close>, \<open>fill\<close>, \<open>fill_another\<close>,
    \<open>allocate_at_once\<close>), each \<open>main\<close> up to its final sleep loop.  Shown: which pages of which
    processes are equal.

  \<^item> \<open>Random_Reads\<close>: \<open>benchmarks/randomAccess\<close>.  A process is a machine driven by the signals
    \<open>SIGUSR1\<close> (\<open>filldata\<close>) and \<open>SIGUSR2\<close> (\<open>random_access\<close>), with handlers that run in one go.  Shown: the
    sum that a fill followed by a read prints, the fault of reading too early, and that the second
    program reads one cell only.  \<open>Read_Interrupts\<close> has the handlers of the first program statement
    by statement, with signals that arrive while one is running (\<open>intr_step\<close>): an invariant of all
    reachable states, when the process faults and which sums it prints, also when a read
    interrupts a fill, and that a handler in one go is a run of this machine.

  \<^item> The B+ tree benchmark, \<open>benchmarks/btree/btree.c\<close>.  \<open>Btree_Model\<close> translates the program: nodes
    and records in a store, the slab allocators with their free lists, search, insertion with
    splits, deletion with coalescing and redistribution.  \<open>Btree_Loops\<close> evaluates the array
    loops, \<open>Btree_Rep\<close> relates store and abstract cells, \<open>Btree_Pure\<close> has the trees with their
    zipper, shape and order, \<open>Btree_Insert\<close> and \<open>Btree_Map\<close> prove insertion and search,
    \<open>Btree_Delete\<close>, \<open>Btree_Del_Pure\<close> and \<open>Btree_Del_Map\<close> deletion, \<open>Btree_Range\<close> range queries
    (with the case in which \<open>find_range\<close> misses keys of the range) and heights, \<open>Btree_Print\<close> the printing of the leaves.  \<open>represents s root m\<close> says that the store holds a well-formed tree for the
    finite map \<open>m\<close>; every operation is total on it and refines the operation of the map.
    \<open>Map_Interface\<close> states that contract as the locales \<open>map_store\<close> and \<open>map_store_del\<close>, which
    \<open>Btree_Driver\<close> interprets with the tree's operations; the build and lookup loops of \<open>main\<close>
    and the counters of \<open>benchmarks/btree_throughput\<close> rest on that interface.  \<open>Rand48\<close> shows that
    the limb arithmetic of \<open>redisLrand48\<close> is the 48-bit linear congruential generator.

  \<^item> XSBench, \<open>benchmarks/XSBench/src\<close>: \<open>XS_Search\<close> (the generator with its fast-forward, the binary
    searches), \<open>XS_Grid\<close> (the unionized energy grid and the bounded search of the hash grid, both
    equivalent to the search per nuclide), \<open>XS_Sort\<close> (the key-value quicksort).  Energies are elements of a linear order: the
    modelled code only compares them.

  \<^item> sysbench, \<open>benchmarks/sysbench/src\<close>: \<open>Sb_Barrier\<close> (\<open>sb_barrier.c\<close>, a step relation of any number
    of threads with spurious wake-ups and failing callbacks: rounds are separated, a thread of
    a finished round is never blocked and takes at most two steps before it leaves, the results of
    \<open>sb_barrier_wait\<close>), \<open>Sb_Counter\<close> (\<open>sb_counter.c\<close> and its use in
    \<open>sysbench.c\<close>, counting and reporting interleaved load by load: no event is lost or reported twice),
    \<open>Sb_List\<close> (the macros of \<open>sb_list.h\<close> on a heap of items, refined by lists), \<open>Sb_Options\<close>
    (\<open>sb_options.c\<close>: the table of typed options on such lists, setting, the command line, configuration
    files, reading numbers with units).

  \<^item> The data cube of the NAS benchmarks, \<open>benchmarks/NPB3.4-OMP/DC\<close>.  A view of the cube keeps some
    of the dimensions of the input rows and adds the measures up.  \<open>Rbt_Pure\<close> has red-black trees with
    a zipper, \<open>Rbt_Model\<close> the tree of \<open>rbt.c\<close> in its memory pool, \<open>Rbt_Refine\<close> and \<open>Rbt_Insert\<close> show
    that \<open>TreeInsert\<close> adds a row or its measures and keeps a red-black search tree.  \<open>Rbt_View\<close> is
    \<open>RunFormation\<close> of \<open>extbuild.c\<close>: when the pool is full the tree becomes a chunk of a file.
    \<open>Rbt_Merge\<close> is \<open>MultiWayMerge\<close>, which reads the chunks through windows in the pool; \<open>Rbt_Window\<close>
    says which rows are in the windows and which in the file, \<open>Rbt_Group\<close> that every round hands out
    the next row in order, \<open>Rbt_Compute\<close> that both ways to a view write the reference \<open>group_rows\<close>.
    \<open>Cube_Tuples\<close> and \<open>Cube_Jobs\<close> are \<open>jobcntl.c\<close>: the words that name views, the list of dimensions
    of a view among all of them or among those of a parent, and the pool of the views already made
    with its layers, from which \<open>GetParent\<close> chooses the parent of the next one.
    \<open>Cube_Views\<close> has the loop of \<open>ComputeGivenGroupbys\<close> over the requested views with the settings of
    each, \<open>Cube_Loop\<close> the invariant of this loop: the view file holds the views made so far, the pool
    says where, and a view that is derived from an earlier one is the same as from the input.

  \<^bold>\<open>How programs and parts interact.\<close>  The workloads run side by side under the merging kernel, and what
  matters between them is equality of page contents; the property of this theory and those of
  \<open>Fill_Programs\<close> and \<open>Input_Pages\<close> say which pages agree.  The loops of the B+ tree's \<open>main\<close> rest on
  the map interface, the options on the lists of \<open>Sb_List\<close>, run formation on the invariant of the
  tree, the computation of a view on run formation and merge, and the loop over all views on that
  computation, the pool and the tuples.

  \<^bold>\<open>Bounds.\<close>  Machine integers whose values can wrap around or be cut off are words of their width;
  indices and lengths that stay inside an array are \<open>nat\<close> or \<open>int\<close>, among them the \<open>int\<close> and \<open>long\<close>
  indices of XSBench.  Where such an index can overflow, the bound is part of the model: the
  quicksort has no result when \<open>left + right\<close> exceeds an \<open>int\<close>, and its property is about arrays of at
  most \<open>2 ^ 30\<close> elements.  The index grid is modelled for grids whose size is an \<open>int\<close>.  The two
  path arrays of \<open>TreeInsert\<close> have 64 entries; a
  pool of at most \<open>2 ^ 32\<close> bytes has fewer than \<open>2 ^ 28\<close> nodes, so a red-black tree in it is lower
  than 60.  A view has at most 20 dimensions and 4 measures, as \<open>adcc.h\<close> says, at most 1024 chunks,
  and chunks together smaller than \<open>2 ^ 64\<close> bytes; with 20 dimensions the pool of views has \<open>2 ^ 20\<close>
  places, and the computation of its layers does not overflow.  The offsets of views are exact while
  every view is smaller than \<open>2 ^ 32\<close> bytes.

  \<^bold>\<open>Parameters.\<close>  The results of \<open>mmap\<close>, the clock, the sequence of an unseeded \<open>rand\<close>, which
  \<open>posix_memalign\<close>, \<open>fopen\<close> and \<open>fwrite\<close> calls succeed, the results of callbacks and validation functions, and
  the contents of files.  Hypotheses about them are that mappings are granted and, for the programs
  with several, that they do not overlap; a failed write is an outcome, not excluded.

  \<^bold>\<open>Termination.\<close>  No definition uses fuel.  Loops that count are functions with a measure or recursions
  over the rest of their range; the walks over the heap, \<open>delete_entry\<close>, the quicksort, the loops of
  \<open>TreeInsert\<close> and the loop of the merge are partial functions into \<open>option\<close>, and the properties prove
  that they return.

  \<^bold>\<open>Not modelled.\<close>  Output formatting, timing and the pid file beyond the event that they happen;
  \<open>destroy_tree\<close>, \<open>print_tree\<close> and the usage texts of the B+ tree, and its lookup loop with several
  threads (\<open>benchmarks/btree/Makefile\<close> builds the program without OpenMP); the floating-point parts of XSBench (cross sections, material
  choice, the energies of the hash bins).  Of sysbench: the Lua and database drivers, the
  floating-point distributions and histograms, doubles and the usage text of the options.  Of the
  data cube: the two derivations that are compiled only with \<open>OPTIMIZATION\<close>
  (\<open>PrefixedAggregate\<close>, \<open>SharedSortAggregate\<close>) and the in-core mode, the distribution of views over
  tasks, the log and the verification of view sizes, opening and closing of files, and the generator of the
  input.  Of the rest of NPB: Fortran and floating point.  The scripts; the kernel.
\<close>

section \<open>Properties that span programs\<close>

text \<open>
  C12. The helper \<open>allocate\<close> and the pinning workload started with multiplier 1 hold the same
  contents page by page, wherever their kernels put the mappings: every page that both have is
  a candidate for merging across the two processes.
\<close>
theorem allocate_shares_with_pin:
  assumes "env_mmap env 0 (mapping_size 262000) \<noteq> MAP_FAILED"
    and "2 \<le> length argv" "arg_multiplier argv = Some 1" "atoi (argv ! 1) = Some n"
    and "os_mmap os (mapping_size n) \<noteq> MAP_FAILED"
  shows "\<exists>s. allocate_main env = Some s \<and> (\<forall>k < min 262000 (nat (sint n)).
    page_at (vmem s) (env_mmap env 0 (mapping_size 262000)) k =
    page_of (run_main os argv (1024 * nat (sint n) + 10)) k)"
proof -
  obtain s where s: "allocate_main env = Some s" "\<forall>p < 262000.
      page_at (vmem s) (env_mmap env 0 (mapping_size 262000)) p = map (\<lambda>j. Some (word_of_nat (1024 * p + j))) [0..<1024]"
    using allocate_main_page [OF assms(1)] by blast
  have "page_of (run_main os argv (1024 * nat (sint n) + 10)) k = map (\<lambda>j. Some (word_of_nat (1024 * k + j))) [0..<1024]"
    if "k < nat (sint n)" for k
    using run_sleeps [OF assms(2-4), of os 0] assms(5) page_of_sleeping [OF that, of os 1 0] ints_nonneg [of n] that
    by simp
  with s show ?thesis by auto
qed

theorem allocate_shares_with_pin_witness:
  "\<exists>s. allocate_main (spaced (\<lambda>c. 0)) = Some s \<and>
     page_at (vmem s) (env_mmap (spaced (\<lambda>c. 0)) 0 (mapping_size 262000)) 1 =
     page_of (run_main \<lparr>os_mmap = (\<lambda>len. 8192), os_time = 7\<rparr> [''pin'', ''2''] (1024 * 2 + 10)) 1"
proof -
  have "env_mmap (spaced (\<lambda>c. 0)) 0 (mapping_size 262000) \<noteq> MAP_FAILED" by (simp add: spaced_def MAP_FAILED_def)
  from allocate_shares_with_pin [OF this, of "[''pin'', ''2'']" 2 "\<lparr>os_mmap = (\<lambda>len. 8192), os_time = 7\<rparr>"]
  show ?thesis by (fastforce simp: arg_multiplier_def atoi_def is_space_def is_digit_def MAP_FAILED_def)
qed

end
